(* ===== verification/Xv6_Prelude.thy ===== *)
theory Xv6_Prelude
  imports Main "HOL-Library.Word"
begin

text \<open>
  The vocabulary shared by every component of the kernel model: the widths of
  \<^verbatim>\<open>kernel/types.h\<close>, the outcome of a piece of kernel code (it returns, panics,
  faults or does not come back), the sequencing of such pieces, loops with an early
  return, and byte-addressed little-endian memory with its 64-bit accesses.
\<close>

unbundle bit_operations_syntax

section \<open>Automation of the development\<close>

named_theorems res_simps \<open>equations that run the sequencing combinators\<close>
named_theorems const_defs \<open>the numeric constants of the header files\<close>
named_theorems layout_simps \<open>address arithmetic on pages and page-table entries\<close>

section \<open>Integer types (kernel/types.h)\<close>

type_synonym uchar = "8 word"
type_synonym ushort = "16 word"
type_synonym uint = "32 word"
type_synonym uint64 = "64 word"

section \<open>Outcomes of kernel code\<close>

text \<open>
  \<open>Ok\<close>: the code returned. \<open>Panic\<close>: it called \<^verbatim>\<open>panic()\<close> with this message.
  \<open>Fault\<close>: it dereferenced a null pointer, which the kernel page table does not map,
  so that \<^verbatim>\<open>kerneltrap()\<close> stops the machine, or indexed an array out of its bounds. \<open>Blocked\<close>: it spins on a lock that
  another hart holds, goes to sleep where the model ends at the sleep, or loops beyond its fuel.
\<close>

datatype 'a res = Ok 'a | Panic string | Fault | Blocked

definition res_bind :: "'a res \<Rightarrow> ('a \<Rightarrow> 'b res) \<Rightarrow> 'b res" where
  "res_bind r f = (case r of Ok x \<Rightarrow> f x | Panic m \<Rightarrow> Panic m | Fault \<Rightarrow> Fault | Blocked \<Rightarrow> Blocked)"

lemma res_bind_simps [simp, res_simps]:
  "res_bind (Ok x) f = f x"
  "res_bind (Panic m) f = Panic m"
  "res_bind Fault f = Fault"
  "res_bind Blocked f = Blocked"
  by (simp_all add: res_bind_def)

lemma res_bind_cong [fundef_cong]:
  "r = r' \<Longrightarrow> (\<And>x. r' = Ok x \<Longrightarrow> f x = g x) \<Longrightarrow> res_bind r f = res_bind r' g"
  by (cases r') auto

lemma res_bind_eq_Ok: "res_bind r f = Ok y \<longleftrightarrow> (\<exists>x. r = Ok x \<and> f x = Ok y)"
  by (cases r) auto

lemma res_bind_assoc: "res_bind (res_bind r f) g = res_bind r (\<lambda>x. res_bind (f x) g)"
  by (cases r) auto

lemma res_bind_okE [elim!]:
  assumes "res_bind r f = Ok y"
  obtains x where "r = Ok x" and "f x = Ok y"
  using assms by (auto simp: res_bind_eq_Ok)

subsection \<open>Loops with an early return\<close>

text \<open>
  A C loop over a known sequence of values: the body returns \<open>Some r\<close> to leave the
  enclosing function with \<open>r\<close> (or to break with \<open>r\<close>), \<open>None\<close> to go on.
\<close>

primrec mloop :: "('x \<Rightarrow> 's \<Rightarrow> ('r option \<times> 's) res) \<Rightarrow> 'x list \<Rightarrow> 's \<Rightarrow> ('r option \<times> 's) res" where
  "mloop body [] s = Ok (None, s)"
| "mloop body (x # xs) s =
     res_bind (body x s) (\<lambda>(r, s').
       case r of None \<Rightarrow> mloop body xs s' | Some v \<Rightarrow> Ok (Some v, s'))"

text \<open>A loop without early exit.\<close>

primrec mfold :: "('x \<Rightarrow> 's \<Rightarrow> 's res) \<Rightarrow> 'x list \<Rightarrow> 's \<Rightarrow> 's res" where
  "mfold body [] s = Ok s"
| "mfold body (x # xs) s = res_bind (body x s) (mfold body xs)"

lemma mfold_append: "mfold body (xs @ ys) s = res_bind (mfold body xs s) (mfold body ys)"
proof (induction xs arbitrary: s)
  case Nil
  show ?case by simp
next
  case (Cons x xs)
  have "mfold body (xs @ ys) = (\<lambda>s. res_bind (mfold body xs s) (mfold body ys))"
    using Cons.IH by (rule ext)
  then show ?case by (simp add: res_bind_assoc)
qed

text \<open>The rule for a loop whose every round succeeds and keeps an invariant.\<close>

lemma mfold_inv:
  assumes "I s"
    and "\<And>x s. x \<in> set xs \<Longrightarrow> I s \<Longrightarrow> \<exists>s'. body x s = Ok s' \<and> I s'"
  shows "\<exists>s'. mfold body xs s = Ok s' \<and> I s'"
  using assms
proof (induction xs arbitrary: s)
  case Nil
  then show ?case by simp
next
  case (Cons x xs)
  from Cons.prems obtain s1 where "body x s = Ok s1" "I s1" by fastforce
  moreover from this Cons.prems(2) have "\<exists>s'. mfold body xs s1 = Ok s' \<and> I s'"
    by (intro Cons.IH) auto
  ultimately show ?case by simp
qed

lemma mfold_pure:
  assumes "\<And>x s. x \<in> set xs \<Longrightarrow> I s \<Longrightarrow> body x s = Ok (f x s)"
    and "\<And>x s. x \<in> set xs \<Longrightarrow> I s \<Longrightarrow> I (f x s)"
    and "I s"
  shows "mfold body xs s = Ok (fold f xs s)"
  using assms by (induction xs arbitrary: s) auto

text \<open>A loop that looks for the first element with some property and acts on it.\<close>

lemma mloop_find:
  "mloop (\<lambda>i s. if c i s then Ok (Some (f i), g i s) else Ok (None, s)) xs s =
     Ok (case find (\<lambda>i. c i s) xs of None \<Rightarrow> (None, s) | Some i \<Rightarrow> (Some (f i), g i s))"
  by (induction xs) auto

lemma find_SomeD: "find P xs = Some x \<Longrightarrow> P x \<and> x \<in> set xs"
  by (auto simp: find_Some_iff)

section \<open>Memory\<close>

text \<open>Physical memory is byte addressed; RISC-V stores words little-endian.\<close>

type_synonym memory = "uint64 \<Rightarrow> uchar"

definition store64 :: "memory \<Rightarrow> uint64 \<Rightarrow> uint64 \<Rightarrow> memory" where
  "store64 m a v = (\<lambda>x. if x - a < 8 then ucast (drop_bit (8 * unat (x - a)) v) else m x)"

definition load64 :: "memory \<Rightarrow> uint64 \<Rightarrow> uint64" where
  "load64 m a = word_of_int (horner_sum uint (2 ^ 8) (map (\<lambda>i. m (a + of_nat i)) [0..<8]))"

lemma bit_load64: "bit (load64 m a) n \<longleftrightarrow> n < 64 \<and> bit (m (a + of_nat (n div 8))) (n mod 8)"
  using bit_horner_sum_uint_exp_iff [of "map (\<lambda>i. m (a + of_nat i)) [0..<8]" n]
  by (auto simp: load64_def bit_simps)

lemma load64_store64_same [simp]: "load64 (store64 m a v) a = v"
proof (rule bit_word_eqI)
  fix n assume "n < LENGTH(64)"
  then have n: "n < 64" by simp
  then have "n div 8 < 8" by simp
  then have u: "unat (of_nat (n div 8) :: uint64) = n div 8"
    by (simp add: unat_of_nat)
  then have lt: "(of_nat (n div 8) :: uint64) < 8"
    using \<open>n div 8 < 8\<close> by (simp add: word_less_nat_alt)
  show "bit (load64 (store64 m a v) a) n \<longleftrightarrow> bit v n"
    using n lt u by (simp add: bit_load64 store64_def bit_simps)
qed

lemma load64_cong:
  assumes "\<And>i. i < 8 \<Longrightarrow> m (a + i) = m' (a + i)"
  shows "load64 m a = load64 m' a"
  unfolding load64_def
  by (intro arg_cong [where f = word_of_int] arg_cong [where f = "horner_sum uint (2 ^ 8)"] map_cong)
    (auto simp: word_less_nat_alt unat_of_nat assms)

text \<open>
  Two naturally aligned blocks of \<open>n\<close> bytes are equal or disjoint. The difference of two
  addresses is taken modulo \<open>2 ^ 64\<close>, so \<open>x - a < n\<close> says that \<open>x\<close> is one of the
  \<open>n\<close> bytes from \<open>a\<close> on.
\<close>

lemma aligned_disjoint:
  fixes a b i :: uint64
  assumes n: "n dvd 2 ^ 64" and a: "n dvd unat a" and b: "n dvd unat b"
    and "a \<noteq> b" and i: "unat i < n"
  shows "\<not> unat (b + i - a) < n"
proof -
  have "0 < n" using i by simp
  obtain k l where k: "unat a = n * k" and l: "unat b = n * l"
    using a b by (auto elim!: dvdE)
  obtain c where c: "2 ^ 64 = n * c" using n by (rule dvdE)
  have "k \<noteq> l" using k l \<open>a \<noteq> b\<close> by (metis word_unat_eq_iff)
  have "n * k < n * c" and "n * l < n * c"
    using unsigned_less [where ?'a = nat, of a] unsigned_less [where ?'a = nat, of b] k l
    by (simp_all flip: c)
  then have kc: "k < c" and lc: "l < c" by simp_all
  have "n * l + unat i < n * Suc l" using i by simp
  also have "\<dots> \<le> n * c" using lc by (intro mult_le_mono2) simp
  finally have bi: "unat (b + i) = n * l + unat i"
    using l c by (simp add: unat_word_ariths)
  have diff: "unat (b + i - a) =
      (if n * k \<le> n * l + unat i then n * l + unat i - n * k else n * l + unat i + n * c - n * k)"
    using bi k c by (simp add: unat_sub_if')
  show ?thesis
  proof (cases "k < l")
    case True
    then have "n * Suc k \<le> n * l" by (intro mult_le_mono2) simp
    with diff show ?thesis by simp
  next
    case False
    with \<open>k \<noteq> l\<close> have lk: "n * Suc l \<le> n * k" by (intro mult_le_mono2) simp
    from kc have kc': "n * Suc k \<le> n * c" by (intro mult_le_mono2) simp
    from lk kc' diff i show ?thesis by auto
  qed
qed

lemma load64_store64_other:
  assumes "8 dvd unat a" and "8 dvd unat b" and "a \<noteq> b"
  shows "load64 (store64 m a v) b = load64 m b"
proof (rule load64_cong)
  fix i :: uint64 assume "i < 8"
  then have "unat i < 8" by (simp add: word_less_nat_alt)
  then have "\<not> unat (b + i - a) < 8"
    using assms by (intro aligned_disjoint) auto
  then show "store64 m a v (b + i) = m (b + i)"
    by (simp add: store64_def word_less_nat_alt)
qed

section \<open>Casts and extreme values\<close>

lemma unat_neg_one64: "unat (- 1 :: uint64) = 2 ^ 64 - 1"
  by (simp add: unsigned_minus_1_eq_mask mask_eq_exp_minus_1)

lemma unat_ucast_uint64: "unat (ucast (n :: uint) :: uint64) = unat n"
proof -
  have "unat n < 2 ^ 64" using unsigned_less [where ?'a = nat, of n] by simp
  then show ?thesis by (simp add: unsigned_ucast_eq take_bit_nat_eq_self)
qed

lemma ucast_uint64_of_nat: "(ucast (n :: uint) :: uint64) = of_nat (unat n)"
  by (simp add: word_unat_eq_iff)

end
