(* ===== verification/Spinlock.thy ===== *)
theory Spinlock
  imports Xv6_Prelude
begin

text \<open>
  \<^verbatim>\<open>kernel/spinlock.c\<close>: mutual exclusion locks and the nesting of disabled interrupts.
  The machine state starts here: the harts with their \<^verbatim>\<open>struct cpu\<close> and the interrupt
  enable bit of \<^verbatim>\<open>sstatus\<close>, and every spin lock of the kernel. Later theories extend
  the record with their own fields and call the operations below unchanged.
  An operation is what the hart \<open>tp\<close> does. Section \<open>Interleavings\<close> splits acquire
  and release into their memory operations and lets all harts take turns.
\<close>

section \<open>State\<close>

text \<open>The names of the kernel's spin locks: one constructor per lock variable or lock field.\<close>

datatype lockid =
    KmemLock | PidLock | WaitLock | ProcLock nat | QueueLock nat
  | MmrListLock nat | ListidLock | TicksLock | BcacheLock | LogLock | ItableLock
  | FtableLock | PipeLock uint64 | ConsLock | UartTxLock | VdiskLock | PrLock
  | BufSleepLk nat | InodeSleepLk nat

record spinlock =
  locked :: uint
  lk_name :: string
  lk_cpu :: "nat option"

text \<open>
  \<^verbatim>\<open>struct cpu\<close> without the saved registers of the scheduler. \<open>cpu_proc\<close> is the index in
  \<^verbatim>\<open>proc[]\<close> of the running process.
\<close>

record cpu =
  cpu_proc :: "nat option"
  noff :: int
  intena :: bool

record harts =
  tp :: nat
  sie :: "nat \<Rightarrow> bool"
  cpus :: "nat \<Rightarrow> cpu"
  spin :: "lockid \<Rightarrow> spinlock"

section \<open>Operations\<close>

definition cpuid :: "'a harts_scheme \<Rightarrow> nat" where
  "cpuid s = tp s"

definition mycpu :: "'a harts_scheme \<Rightarrow> cpu" where
  "mycpu s = cpus s (cpuid s)"

definition set_mycpu :: "cpu \<Rightarrow> 'a harts_scheme \<Rightarrow> 'a harts_scheme" where
  "set_mycpu c s = s\<lparr>cpus := (cpus s)(cpuid s := c)\<rparr>"

definition intr_get :: "'a harts_scheme \<Rightarrow> bool" where
  "intr_get s = sie s (tp s)"

definition intr_on :: "'a harts_scheme \<Rightarrow> 'a harts_scheme" where
  "intr_on s = s\<lparr>sie := (sie s)(tp s := True)\<rparr>"

definition intr_off :: "'a harts_scheme \<Rightarrow> 'a harts_scheme" where
  "intr_off s = s\<lparr>sie := (sie s)(tp s := False)\<rparr>"

definition initlock :: "lockid \<Rightarrow> string \<Rightarrow> 'a harts_scheme \<Rightarrow> 'a harts_scheme" where
  "initlock lk name s =
     s\<lparr>spin := (spin s)(lk := \<lparr>locked = 0, lk_name = name, lk_cpu = None\<rparr>)\<rparr>"

definition push_off :: "'a harts_scheme \<Rightarrow> 'a harts_scheme" where
  "push_off s =
     (let old = intr_get s;
          s1 = intr_off s;
          s2 = (if noff (mycpu s1) = 0 then set_mycpu ((mycpu s1)\<lparr>intena := old\<rparr>) s1 else s1)
      in set_mycpu ((mycpu s2)\<lparr>noff := noff (mycpu s2) + 1\<rparr>) s2)"

definition pop_off :: "'a harts_scheme \<Rightarrow> 'a harts_scheme res" where
  "pop_off s =
     (if intr_get s then Panic ''pop_off - interruptible''
      else if noff (mycpu s) < 1 then Panic ''pop_off''
      else let s1 = set_mycpu ((mycpu s)\<lparr>noff := noff (mycpu s) - 1\<rparr>) s
           in Ok (if noff (mycpu s1) = 0 \<and> intena (mycpu s1) then intr_on s1 else s1))"

definition holding :: "lockid \<Rightarrow> 'a harts_scheme \<Rightarrow> bool" where
  "holding lk s = (locked (spin s lk) \<noteq> 0 \<and> lk_cpu (spin s lk) = Some (cpuid s))"

text \<open>The atomic swap on \<^verbatim>\<open>lk->locked\<close> and the plain store to \<^verbatim>\<open>lk->cpu\<close>.\<close>

definition amoswap :: "lockid \<Rightarrow> uint \<Rightarrow> 'a harts_scheme \<Rightarrow> uint \<times> 'a harts_scheme" where
  "amoswap lk v s =
     (locked (spin s lk), s\<lparr>spin := (spin s)(lk := (spin s lk)\<lparr>locked := v\<rparr>)\<rparr>)"

definition set_lk_cpu :: "lockid \<Rightarrow> nat option \<Rightarrow> 'a harts_scheme \<Rightarrow> 'a harts_scheme" where
  "set_lk_cpu lk c s = s\<lparr>spin := (spin s)(lk := (spin s lk)\<lparr>lk_cpu := c\<rparr>)\<rparr>"

text \<open>
  \<open>acquire\<close> run by one hart alone: when the first swap does not return 0, the lock is
  held elsewhere and the loop spins.
\<close>

definition acquire :: "lockid \<Rightarrow> 'a harts_scheme \<Rightarrow> 'a harts_scheme res" where
  "acquire lk s =
     (let s1 = push_off s in
      if holding lk s1 then Panic ''acquire''
      else let (old, s2) = amoswap lk 1 s1 in
           if old \<noteq> 0 then Blocked
           else Ok (set_lk_cpu lk (Some (cpuid s2)) s2))"

definition release :: "lockid \<Rightarrow> 'a harts_scheme \<Rightarrow> 'a harts_scheme res" where
  "release lk s =
     (if \<not> holding lk s then Panic ''release''
      else pop_off (snd (amoswap lk 0 (set_lk_cpu lk None s))))"


text \<open>
  A critical section: acquire, run the body, release on the way out. The functions whose
  every exit path releases the lock they acquired first are written with it.
\<close>

definition critical ::
  "lockid \<Rightarrow> ('a harts_scheme \<Rightarrow> ('r \<times> 'a harts_scheme) res) \<Rightarrow> 'a harts_scheme \<Rightarrow>
   ('r \<times> 'a harts_scheme) res" where
  "critical lk body s =
     res_bind (acquire lk s) (\<lambda>s1.
     res_bind (body s1) (\<lambda>(r, s2).
     res_bind (release lk s2) (\<lambda>s3. Ok (r, s3))))"

section \<open>What a critical section leaves behind\<close>

named_theorems lock_simps \<open>unfold the hart and lock predicates\<close>

lemmas hart_defs = cpuid_def mycpu_def set_mycpu_def intr_get_def intr_on_def intr_off_def
  push_off_def pop_off_def holding_def amoswap_def set_lk_cpu_def

definition hart_ok :: "'a harts_scheme \<Rightarrow> bool" where
  [lock_simps]: "hart_ok s \<longleftrightarrow> 0 \<le> noff (cpus s (tp s)) \<and> (0 < noff (cpus s (tp s)) \<longrightarrow> \<not> sie s (tp s))"

definition lock_free :: "lockid \<Rightarrow> 'a harts_scheme \<Rightarrow> bool" where
  [lock_simps]: "lock_free lk s \<longleftrightarrow> locked (spin s lk) = 0 \<and> lk_cpu (spin s lk) = None"

text \<open>
  The only trace of a critical section entered with interrupts not yet disabled is
  \<^verbatim>\<open>intena\<close>, which then remembers whether they were on.
\<close>

definition relock_cpus :: "nat \<Rightarrow> (nat \<Rightarrow> bool) \<Rightarrow> (nat \<Rightarrow> cpu) \<Rightarrow> nat \<Rightarrow> cpu" where
  "relock_cpus h ie c =
     (if noff (c h) = 0 then c(h := (c h)\<lparr>intena := ie h\<rparr>) else c)"

definition relock :: "'a harts_scheme \<Rightarrow> 'a harts_scheme" where
  "relock s = s\<lparr>cpus := relock_cpus (tp s) (sie s) (cpus s)\<rparr>"

definition inside :: "lockid \<Rightarrow> 'a harts_scheme \<Rightarrow> 'a harts_scheme" where
  "inside lk s =
     s\<lparr>sie := (sie s)(tp s := False),
       cpus := (cpus s)(tp s := (relock_cpus (tp s) (sie s) (cpus s) (tp s))
                 \<lparr>noff := noff (cpus s (tp s)) + 1\<rparr>),
       spin := (spin s)(lk := (spin s lk)\<lparr>locked := 1, lk_cpu := Some (tp s)\<rparr>)\<rparr>"

lemma relock_cpus_noff [simp]: "noff (relock_cpus h ie c k) = noff (c k)"
  by (simp add: relock_cpus_def)

lemma relock_cpus_proc [simp]: "cpu_proc (relock_cpus h ie c k) = cpu_proc (c k)"
  by (simp add: relock_cpus_def)

lemma relock_cpus_idem [simp]: "relock_cpus h ie (relock_cpus h ie c) = relock_cpus h ie c"
  by (simp add: relock_cpus_def fun_eq_iff)

lemma relock_sel [simp]:
  "tp (relock s) = tp s" "sie (relock s) = sie s" "spin (relock s) = spin s"
  "cpus (relock s) = relock_cpus (tp s) (sie s) (cpus s)"
  by (simp_all add: relock_def)

lemma relock_idem [simp]: "relock (relock s) = relock s"
  by (simp add: relock_def)

lemma hart_ok_relock [simp]: "hart_ok (relock s) = hart_ok s"
  by (simp add: hart_ok_def)

lemma lock_free_relock [simp]: "lock_free lk (relock s) = lock_free lk s"
  by (simp add: lock_free_def)

lemma acquire_free:
  assumes "lock_free lk s"
  shows "acquire lk s = Ok (inside lk s)"
  using assms
  by (auto simp: acquire_def hart_defs Let_def lock_free_def inside_def relock_cpus_def fun_eq_iff)

lemma release_inside:
  assumes "hart_ok s" and "lock_free lk s"
    and "tp s2 = tp s" and "sie s2 = sie (inside lk s)"
    and "cpus s2 = cpus (inside lk s)" and "spin s2 = spin (inside lk s)"
  shows "release lk s2 = Ok (s2\<lparr>sie := sie s, cpus := cpus (relock s), spin := spin s\<rparr>)"
proof (cases s2)
  case (fields tp' sie' cpus' spin' more')
  have spin: "(spin s)(lk := (spin s lk)\<lparr>lk_cpu := None, locked := 0\<rparr>) = spin s"
    using assms(2) by (auto simp: lock_free_def fun_eq_iff)
  show ?thesis
  proof (cases "noff (cpus s (tp s)) = 0")
    case True
    then show ?thesis
      using assms spin fields
      by (cases "sie s (tp s)")
        (auto simp: release_def hart_defs Let_def inside_def relock_cpus_def fun_upd_idem)
  next
    case False
    with assms(1) have "\<not> sie s (tp s)" "\<not> noff (cpus s (tp s)) + 1 < 1"
      by (auto simp: hart_ok_def)
    with False show ?thesis
      using assms spin fields
      by (auto simp: release_def hart_defs Let_def inside_def relock_cpus_def fun_upd_idem)
  qed
qed

lemma critical_run:
  assumes "hart_ok s" and "lock_free lk s"
    and "body (inside lk s) = Ok (r, s2)"
    and "tp s2 = tp s" and "sie s2 = sie (inside lk s)"
    and "cpus s2 = cpus (inside lk s)" and "spin s2 = spin (inside lk s)"
  shows "critical lk body s = Ok (r, s2\<lparr>sie := sie s, cpus := cpus (relock s), spin := spin s\<rparr>)"
  using assms by (simp add: critical_def acquire_free release_inside)

lemma critical_held_by_other:
  assumes "locked (spin s lk) \<noteq> 0" and "lk_cpu (spin s lk) \<noteq> Some (tp s)"
  shows "critical lk body s = Blocked"
  using assms by (simp add: critical_def acquire_def hart_defs Let_def)


section \<open>Interleavings\<close>

text \<open>
  Where a hart stands in \<^verbatim>\<open>acquire\<close> or \<^verbatim>\<open>release\<close>: interrupts pushed off and about to
  swap, swap returned 0 and \<^verbatim>\<open>lk->cpu\<close> not yet written, \<^verbatim>\<open>lk->cpu\<close> cleared and
  \<^verbatim>\<open>lk->locked\<close> not yet written; or in none of them.
\<close>

datatype lock_pc = Outside | Swapping lockid | Recording lockid | Clearing lockid

record machine = harts +
  lpc :: "nat \<Rightarrow> lock_pc"

text \<open>One memory operation of one hart.\<close>

inductive lock_step :: "machine \<Rightarrow> machine \<Rightarrow> bool" where
  acquire_push:
    "lpc s h = Outside \<Longrightarrow> \<not> holding lk (push_off (s\<lparr>tp := h\<rparr>)) \<Longrightarrow>
     lock_step s ((push_off (s\<lparr>tp := h\<rparr>))\<lparr>lpc := (lpc s)(h := Swapping lk)\<rparr>)"
| acquire_spin:
    "lpc s h = Swapping lk \<Longrightarrow> amoswap lk 1 (s\<lparr>tp := h\<rparr>) = (old, s1) \<Longrightarrow> old \<noteq> 0 \<Longrightarrow>
     lock_step s s1"
| acquire_swap:
    "lpc s h = Swapping lk \<Longrightarrow> amoswap lk 1 (s\<lparr>tp := h\<rparr>) = (0, s1) \<Longrightarrow>
     lock_step s (s1\<lparr>lpc := (lpc s)(h := Recording lk)\<rparr>)"
| acquire_record:
    "lpc s h = Recording lk \<Longrightarrow>
     lock_step s ((set_lk_cpu lk (Some h) (s\<lparr>tp := h\<rparr>))\<lparr>lpc := (lpc s)(h := Outside)\<rparr>)"
| release_clear:
    "lpc s h = Outside \<Longrightarrow> holding lk (s\<lparr>tp := h\<rparr>) \<Longrightarrow>
     lock_step s ((set_lk_cpu lk None (s\<lparr>tp := h\<rparr>))\<lparr>lpc := (lpc s)(h := Clearing lk)\<rparr>)"
| release_swap:
    "lpc s h = Clearing lk \<Longrightarrow> pop_off (snd (amoswap lk 0 (s\<lparr>tp := h\<rparr>))) = Ok s1 \<Longrightarrow>
     lock_step s (s1\<lparr>lpc := (lpc s)(h := Outside)\<rparr>)"

definition boot_locks :: "machine \<Rightarrow> bool" where
  "boot_locks s \<longleftrightarrow>
     (\<forall>lk. locked (spin s lk) = 0 \<and> lk_cpu (spin s lk) = None) \<and>
     (\<forall>h. lpc s h = Outside \<and> noff (cpus s h) = 0)"

inductive lock_reach :: "machine \<Rightarrow> bool" where
  boot: "boot_locks s \<Longrightarrow> lock_reach s"
| step: "lock_reach s \<Longrightarrow> lock_step s t \<Longrightarrow> lock_reach t"

text \<open>A hart owns a lock from its successful swap until it writes 0 back.\<close>

definition owns :: "machine \<Rightarrow> nat \<Rightarrow> lockid \<Rightarrow> bool" where
  "owns s h lk \<longleftrightarrow> lpc s h = Recording lk \<or> lpc s h = Clearing lk \<or> lk_cpu (spin s lk) = Some h"

definition pending_push :: "lock_pc \<Rightarrow> int" where
  "pending_push pc = (case pc of Swapping _ \<Rightarrow> 1 | _ \<Rightarrow> 0)"

text \<open>
  The invariant: the lock word says whether there is an owner, there is at most one, the
  recorded hart is not in the middle of releasing, and \<^verbatim>\<open>noff\<close> counts the locks a hart
  owns plus an acquire in progress.
\<close>

definition lock_inv :: "machine \<Rightarrow> bool" where
  "lock_inv s \<longleftrightarrow>
     (\<forall>lk. locked (spin s lk) = 0 \<longleftrightarrow> (\<forall>h. \<not> owns s h lk)) \<and>
     (\<forall>lk h k. owns s h lk \<longrightarrow> owns s k lk \<longrightarrow> h = k) \<and>
     (\<forall>h lk. lpc s h = Recording lk \<or> lpc s h = Clearing lk \<longrightarrow> lk_cpu (spin s lk) \<noteq> Some h) \<and>
     (\<forall>h. finite {lk. owns s h lk} \<and>
          noff (cpus s h) = int (card {lk. owns s h lk}) + pending_push (lpc s h))"

lemma lock_inv_boot: "boot_locks s \<Longrightarrow> lock_inv s"
  by (auto simp: boot_locks_def lock_inv_def owns_def pending_push_def)

lemma pop_off_Ok:
  assumes "pop_off s = Ok t"
  shows "spin t = spin s \<and> cpus t = (cpus s)(tp s := (cpus s (tp s))\<lparr>noff := noff (cpus s (tp s)) - 1\<rparr>)"
  using assms by (auto simp: pop_off_def hart_defs Let_def split: if_splits)

lemma push_off_sel:
  "spin (push_off s) = spin s"
  "noff (cpus (push_off s) h) = (if h = tp s then noff (cpus s h) + 1 else noff (cpus s h))"
  by (auto simp: push_off_def hart_defs Let_def)

lemma lock_inv_unique: "lock_inv s \<Longrightarrow> owns s h lk \<Longrightarrow> owns s k lk \<Longrightarrow> h = k"
  by (auto simp: lock_inv_def)

lemma lock_inv_cpu_None:
  assumes "lock_inv s" and "lpc s h = Recording lk \<or> lpc s h = Clearing lk"
  shows "lk_cpu (spin s lk) = None"
proof (cases "lk_cpu (spin s lk)")
  case (Some k)
  then have "owns s k lk" and "owns s h lk" using assms(2) by (auto simp: owns_def)
  then have "k = h" using assms(1) by (rule lock_inv_unique [rotated])
  with Some assms show ?thesis by (auto simp: lock_inv_def)
qed

text \<open>Steps that change no ownership: the counting and locking clauses carry over.\<close>

lemma lock_inv_same_owners:
  assumes "lock_inv s" and own: "\<And>h lk. owns t h lk = owns s h lk"
    and "\<And>lk. locked (spin t lk) = 0 \<longleftrightarrow> locked (spin s lk) = 0"
    and "\<And>h lk. lpc t h = Recording lk \<or> lpc t h = Clearing lk \<Longrightarrow> lk_cpu (spin t lk) \<noteq> Some h"
    and "\<And>h. noff (cpus t h) - pending_push (lpc t h) = noff (cpus s h) - pending_push (lpc s h)"
  shows "lock_inv t"
proof -
  have "noff (cpus t h) = int (card {lk. owns t h lk}) + pending_push (lpc t h)" for h
    using assms(1) assms(5) [of h] by (simp add: lock_inv_def own)
  moreover have "finite {lk. owns t h lk}" for h
    using assms(1) by (simp add: lock_inv_def own)
  ultimately show ?thesis
    using assms(1,3,4) by (simp add: lock_inv_def own)
qed

lemma amoswap_sel:
  "lk_cpu (spin (snd (amoswap lk v s)) l) = lk_cpu (spin s l)"
  "locked (spin (snd (amoswap lk v s)) l) = (if l = lk then v else locked (spin s l))"
  "cpus (snd (amoswap lk v s)) = cpus s" "tp (snd (amoswap lk v s)) = tp s"
  by (simp_all add: amoswap_def)

lemma amoswap_lpc: "lpc (snd (amoswap lk v s)) = lpc s"
  by (simp add: amoswap_def)

lemma amoswap_eq: "amoswap lk v s = (old, s1) \<longleftrightarrow> old = locked (spin s lk) \<and> s1 = snd (amoswap lk v s)"
  by (auto simp: amoswap_def)

lemma set_lk_cpu_sel:
  "lk_cpu (spin (set_lk_cpu lk c s) l) = (if l = lk then c else lk_cpu (spin s l))"
  "locked (spin (set_lk_cpu lk c s) l) = locked (spin s l)"
  "cpus (set_lk_cpu lk c s) = cpus s"
  by (simp_all add: set_lk_cpu_def)

lemma lock_inv_recording:
  "lock_inv s \<Longrightarrow> lpc s h = Recording lk \<or> lpc s h = Clearing lk \<Longrightarrow> lk_cpu (spin s lk) \<noteq> Some h"
  by (auto simp: lock_inv_def)

lemmas step_sels = push_off_sel amoswap_sel amoswap_lpc set_lk_cpu_sel pending_push_def

lemma lock_inv_acquire_push:
  assumes "lock_inv s" and "lpc s h = Outside"
  shows "lock_inv ((push_off (s\<lparr>tp := h\<rparr>))\<lparr>lpc := (lpc s)(h := Swapping lk)\<rparr>)"
  using assms lock_inv_recording [OF assms(1)]
  by (intro lock_inv_same_owners [OF assms(1)])
    (auto simp: owns_def step_sels split: if_splits)

lemma lock_inv_acquire_spin:
  assumes "lock_inv s" and "locked (spin s lk) \<noteq> 0"
  shows "lock_inv (snd (amoswap lk 1 (s\<lparr>tp := h\<rparr>)))"
  using assms lock_inv_recording [OF assms(1)]
  by (intro lock_inv_same_owners [OF assms(1)])
    (auto simp: owns_def step_sels split: if_splits)

lemma lock_inv_acquire_swap:
  assumes inv: "lock_inv s" and pc: "lpc s h = Swapping lk" and free: "locked (spin s lk) = 0"
  shows "lock_inv ((snd (amoswap lk 1 (s\<lparr>tp := h\<rparr>)))\<lparr>lpc := (lpc s)(h := Recording lk)\<rparr>)"
    (is "lock_inv ?t")
proof -
  from free inv have none: "\<not> owns s k lk" for k
    by (auto simp: lock_inv_def)
  have own: "owns ?t k l \<longleftrightarrow> owns s k l \<or> k = h \<and> l = lk" for k l
    using pc by (auto simp: owns_def step_sels)
  have sets: "{l. owns ?t k l} = (if k = h then insert lk {l. owns s k l} else {l. owns s k l})" for k
    by (auto simp: own)
  have fin: "finite {l. owns s k l}" for k using inv by (simp add: lock_inv_def)
  have count: "noff (cpus s k) = int (card {lk. owns s k lk}) + pending_push (lpc s k)" for k
    using inv by (simp add: lock_inv_def)
  have "noff (cpus ?t k) = int (card {lk. owns ?t k lk}) + pending_push (lpc ?t k)" for k
    using count [of k] pc none [of h] fin [of h]
    by (auto simp: sets step_sels)
  moreover have "lk_cpu (spin ?t l) \<noteq> Some k" if "lpc ?t k = Recording l \<or> lpc ?t k = Clearing l" for k l
    using that lock_inv_recording [OF inv, of k l] none [of k]
    by (auto simp: step_sels owns_def split: if_splits)
  moreover have "locked (spin ?t l) = 0 \<longleftrightarrow> (\<forall>k. \<not> owns ?t k l)" for l
    using inv by (auto simp: own step_sels lock_inv_def)
  moreover have "k = k'" if "owns ?t k l" "owns ?t k' l" for k k' l
    using that none lock_inv_unique [OF inv] by (auto simp: own)
  ultimately show ?thesis
    unfolding lock_inv_def using fin sets by (metis finite_insert)
qed

lemma lock_inv_acquire_record:
  assumes inv: "lock_inv s" and pc: "lpc s h = Recording lk"
  shows "lock_inv ((set_lk_cpu lk (Some h) (s\<lparr>tp := h\<rparr>))\<lparr>lpc := (lpc s)(h := Outside)\<rparr>)"
proof -
  have cpu: "lk_cpu (spin s lk) = None"
    using assms by (blast intro: lock_inv_cpu_None)
  have "owns s h lk" using pc by (simp add: owns_def)
  then have uniq: "owns s k lk \<Longrightarrow> k = h" for k using inv by (blast intro: lock_inv_unique)
  show ?thesis
    using pc cpu lock_inv_recording [OF inv] uniq
    by (intro lock_inv_same_owners [OF inv])
      (auto simp: owns_def step_sels split: if_splits)
qed

lemma lock_inv_release_clear:
  assumes inv: "lock_inv s" and pc: "lpc s h = Outside" and cpu: "lk_cpu (spin s lk) = Some h"
  shows "lock_inv ((set_lk_cpu lk None (s\<lparr>tp := h\<rparr>))\<lparr>lpc := (lpc s)(h := Clearing lk)\<rparr>)"
  using pc cpu lock_inv_recording [OF inv]
  by (intro lock_inv_same_owners [OF inv])
    (auto simp: owns_def step_sels split: if_splits)

lemma lock_inv_release_swap:
  assumes inv: "lock_inv s" and pc: "lpc s h = Clearing lk"
    and pop: "pop_off (snd (amoswap lk 0 (s\<lparr>tp := h\<rparr>))) = Ok s1"
  shows "lock_inv (s1\<lparr>lpc := (lpc s)(h := Outside)\<rparr>)" (is "lock_inv ?t")
proof -
  have spin1: "spin s1 = spin (snd (amoswap lk 0 (s\<lparr>tp := h\<rparr>)))"
    and noff1: "\<And>k. noff (cpus s1 k) = (if k = h then noff (cpus s k) - 1 else noff (cpus s k))"
    using pop_off_Ok [OF pop] by (auto simp: amoswap_sel)
  have cpu: "lk_cpu (spin s lk) = None"
    using inv pc by (blast intro: lock_inv_cpu_None)
  have hown: "owns s h lk" using pc by (simp add: owns_def)
  have uniq: "owns s k lk \<Longrightarrow> k = h" for k using inv hown by (blast intro: lock_inv_unique)
  have own: "owns ?t k l \<longleftrightarrow> owns s k l \<and> \<not> (k = h \<and> l = lk)" for k l
    using pc cpu by (auto simp: owns_def spin1 step_sels)
  have sets: "{l. owns ?t k l} = (if k = h then {l. owns s k l} - {lk} else {l. owns s k l})" for k
    by (auto simp: own)
  have fin: "finite {l. owns s k l}" for k using inv by (simp add: lock_inv_def)
  have count: "noff (cpus s k) = int (card {lk. owns s k lk}) + pending_push (lpc s k)" for k
    using inv by (simp add: lock_inv_def)
  have pos: "0 < card {l. owns s h l}" using hown fin [of h] by (auto simp: card_gt_0_iff)
  have "noff (cpus ?t k) = int (card {lk. owns ?t k lk}) + pending_push (lpc ?t k)" for k
    using count [of k] pc hown pos fin [of h]
    by (auto simp: sets noff1 pending_push_def of_nat_diff Suc_leI)
  moreover have "lk_cpu (spin ?t l) \<noteq> Some k" if "lpc ?t k = Recording l \<or> lpc ?t k = Clearing l" for k l
    using that lock_inv_recording [OF inv, of k l]
    by (auto simp: spin1 step_sels split: if_splits)
  moreover have "locked (spin ?t l) = 0 \<longleftrightarrow> (\<forall>k. \<not> owns ?t k l)" for l
    using inv uniq by (auto simp: own spin1 step_sels lock_inv_def)
  moreover have "k = k'" if "owns ?t k l" "owns ?t k' l" for k k' l
    using that lock_inv_unique [OF inv] by (auto simp: own)
  ultimately show ?thesis
    unfolding lock_inv_def using fin sets by (metis finite_Diff)
qed

lemma lock_step_inv:
  assumes "lock_step s t" and "lock_inv s"
  shows "lock_inv t"
  using assms
  by (induction rule: lock_step.induct)
    (auto simp: amoswap_eq holding_def cpuid_def intro: lock_inv_acquire_push lock_inv_acquire_spin
      lock_inv_acquire_swap lock_inv_acquire_record lock_inv_release_clear lock_inv_release_swap)

lemma lock_reach_inv: "lock_reach s \<Longrightarrow> lock_inv s"
  by (induction rule: lock_reach.induct) (auto intro: lock_inv_boot lock_step_inv)

section \<open>Properties\<close>

text \<open>
  Property C4. From boot on, under every interleaving of the memory operations of
  \<^verbatim>\<open>acquire\<close> and \<^verbatim>\<open>release\<close> on all harts, a lock has at most one owner: between a
  hart's successful swap and its write of 0, no other hart's swap on that lock succeeds.
\<close>

theorem spinlock_mutual_exclusion:
  assumes "lock_reach s" and "owns s h lk" and "owns s k lk"
  shows "h = k"
  using assms by (blast intro: lock_inv_unique lock_reach_inv)

definition boot_machine :: machine where
  "boot_machine =
     \<lparr>tp = 0, sie = (\<lambda>_. True), cpus = (\<lambda>_. \<lparr>cpu_proc = None, noff = 0, intena = False\<rparr>),
      spin = (\<lambda>_. \<lparr>locked = 0, lk_name = [], lk_cpu = None\<rparr>), lpc = (\<lambda>_. Outside)\<rparr>"

text \<open>Hart 3 acquires a lock from the boot state, in three memory operations.\<close>

definition hart3_acquired :: machine where
  "hart3_acquired =
     (set_lk_cpu KmemLock (Some 3) (snd (amoswap KmemLock 1 (push_off (boot_machine\<lparr>tp := 3\<rparr>)))))"

lemma boot_machine_reach: "lock_reach boot_machine"
  by (rule lock_reach.boot) (simp add: boot_locks_def boot_machine_def)

lemma acquire_steps:
  assumes "lock_reach s" and "lpc s h = Outside" and "lock_free lk s"
  shows "lock_reach (set_lk_cpu lk (Some h) (snd (amoswap lk 1 (push_off (s\<lparr>tp := h\<rparr>)))))"
proof -
  let ?s1 = "(push_off (s\<lparr>tp := h\<rparr>))\<lparr>lpc := (lpc s)(h := Swapping lk)\<rparr>"
  let ?s2 = "(snd (amoswap lk 1 (?s1\<lparr>tp := h\<rparr>)))\<lparr>lpc := (lpc ?s1)(h := Recording lk)\<rparr>"
  let ?s3 = "(set_lk_cpu lk (Some h) (?s2\<lparr>tp := h\<rparr>))\<lparr>lpc := (lpc ?s2)(h := Outside)\<rparr>"
  have free: "locked (spin ?s1 lk) = 0" using assms(3) by (simp add: push_off_sel lock_free_def)
  have "lock_step s ?s1"
    using assms(2,3) by (intro lock_step.acquire_push) (auto simp: holding_def push_off_sel lock_free_def)
  moreover have "lock_step ?s1 ?s2"
    using free by (intro lock_step.acquire_swap) (auto simp: amoswap_def)
  moreover have "lock_step ?s2 ?s3"
    by (intro lock_step.acquire_record) simp
  ultimately have "lock_reach ?s3" using assms(1) by (blast intro: lock_reach.step)
  moreover have "?s3 = set_lk_cpu lk (Some h) (snd (amoswap lk 1 (push_off (s\<lparr>tp := h\<rparr>))))"
    using assms(2)
    by (simp add: set_lk_cpu_def amoswap_def push_off_def hart_defs Let_def fun_upd_idem)
  ultimately show ?thesis by simp
qed

lemma hart3_reach: "lock_reach hart3_acquired"
  unfolding hart3_acquired_def
  by (rule acquire_steps [OF boot_machine_reach]) (simp_all add: boot_machine_def lock_free_def)

lemma hart3_owns: "owns hart3_acquired k KmemLock \<longleftrightarrow> k = 3"
  by (auto simp: owns_def hart3_acquired_def step_sels)
    (simp_all add: set_lk_cpu_def amoswap_def push_off_def hart_defs Let_def boot_machine_def)

theorem spinlock_mutual_exclusion_witness:
  "lock_reach hart3_acquired \<and> owns hart3_acquired 3 KmemLock \<and>
   (\<forall>k. owns hart3_acquired k KmemLock = (3 = k))"
  using hart3_reach hart3_owns spinlock_mutual_exclusion [OF hart3_reach, of 3 KmemLock]
  by (metis (full_types))

text \<open>
  Property C23. \<^verbatim>\<open>noff\<close> counts the locks of a hart, so the tests of \<^verbatim>\<open>sched()\<close>, that
  \<^verbatim>\<open>noff\<close> is 1 and that the process lock is held, leave no other lock held by the hart.
\<close>

theorem noff_one_single_lock:
  assumes "lock_reach s" and "lpc s h = Outside" and "noff (cpus s h) = 1"
    and "holding lk (s\<lparr>tp := h\<rparr>)" and "holding lk' (s\<lparr>tp := h\<rparr>)"
  shows "lk' = lk"
proof -
  have inv: "lock_inv s" using assms(1) by (rule lock_reach_inv)
  then have "int (card {l. owns s h l}) = 1"
    using assms(2,3) by (simp add: lock_inv_def pending_push_def)
  then obtain l where "{l. owns s h l} = {l}"
    by (metis card_1_singletonE of_nat_eq_1_iff)
  moreover have "owns s h lk" and "owns s h lk'"
    using assms(4,5) by (auto simp: holding_def cpuid_def owns_def)
  ultimately show ?thesis by (metis mem_Collect_eq singletonD)
qed

theorem noff_one_single_lock_witness:
  "noff (cpus hart3_acquired 3) = 1 \<and> holding KmemLock (hart3_acquired\<lparr>tp := 3\<rparr>) \<and>
   (\<forall>lk. holding lk (hart3_acquired\<lparr>tp := 3\<rparr>) = (lk = KmemLock))"
proof -
  have n: "lpc hart3_acquired 3 = Outside" "noff (cpus hart3_acquired 3) = 1"
    "holding KmemLock (hart3_acquired\<lparr>tp := 3\<rparr>)"
    by (simp_all add: hart3_acquired_def boot_machine_def set_lk_cpu_def amoswap_def push_off_def
        hart_defs Let_def)
  show ?thesis
    using n noff_one_single_lock [OF hart3_reach n] by metis
qed

text \<open>
  Property C24. A hart that finds a lock free gets it with interrupts off; a second
  \<^verbatim>\<open>acquire\<close> of it panics instead of deadlocking; and \<^verbatim>\<open>release\<close> gives back the lock,
  the nesting depth and the interrupt enable bit exactly as they were before.
\<close>

theorem acquire_release_restores:
  assumes "hart_ok s" and "lock_free lk s"
  shows "\<exists>s1 s2. acquire lk s = Ok s1 \<and> holding lk s1 \<and> \<not> intr_get s1 \<and>
    acquire lk s1 = Panic ''acquire'' \<and> release lk s1 = Ok s2 \<and>
    sie s2 = sie s \<and> spin s2 = spin s \<and> noff (mycpu s2) = noff (mycpu s) \<and> hart_ok s2"
proof -
  let ?s2 = "(inside lk s)\<lparr>sie := sie s, cpus := cpus (relock s), spin := spin s\<rparr>"
  have "release lk (inside lk s) = Ok ?s2"
    using assms by (intro release_inside) (auto simp: inside_def)
  moreover have "acquire lk (inside lk s) = Panic ''acquire''"
    by (simp add: acquire_def hart_defs Let_def inside_def)
  moreover have "hart_ok ?s2" using assms(1) by (simp add: hart_ok_def inside_def)
  ultimately show ?thesis
    using assms acquire_free [of lk s]
    by (intro exI [of _ "inside lk s"] exI [of _ ?s2])
      (auto simp: holding_def hart_defs inside_def)
qed

theorem acquire_release_restores_witness:
  "\<exists>s1 s2. acquire KmemLock boot_machine = Ok s1 \<and> holding KmemLock s1 \<and> \<not> intr_get s1 \<and>
    acquire KmemLock s1 = Panic ''acquire'' \<and> release KmemLock s1 = Ok s2 \<and>
    sie s2 = sie boot_machine \<and> spin s2 = spin boot_machine \<and>
    noff (mycpu s2) = noff (mycpu boot_machine) \<and> hart_ok s2"
  by (rule acquire_release_restores) (simp_all add: boot_machine_def hart_ok_def lock_free_def)

end
