(* ===== verification/Riscv.thy ===== *)
theory Riscv
  imports Xv6_Prelude
begin

text \<open>
  The page and page-table macros of \<^verbatim>\<open>kernel/riscv.h\<close>, the physical and virtual memory
  layout of \<^verbatim>\<open>kernel/memlayout.h\<close> and the limits of \<^verbatim>\<open>kernel/param.h\<close>.
\<close>

section \<open>Limits (kernel/param.h)\<close>

abbreviation (input) NPROC :: nat where "NPROC \<equiv> 64"
abbreviation (input) NOFILE :: nat where "NOFILE \<equiv> 16"
abbreviation (input) NFILE :: nat where "NFILE \<equiv> 100"
abbreviation (input) MAX_MMR :: nat where "MAX_MMR \<equiv> 10"

section \<open>Pages (kernel/riscv.h)\<close>

abbreviation (input) PGSIZE :: uint64 where "PGSIZE \<equiv> 4096"

definition PGROUNDUP :: "uint64 \<Rightarrow> uint64" where
  "PGROUNDUP sz = (sz + PGSIZE - 1) AND NOT (PGSIZE - 1)"

definition PGROUNDDOWN :: "uint64 \<Rightarrow> uint64" where
  "PGROUNDDOWN a = a AND NOT (PGSIZE - 1)"

section \<open>Page-table entries\<close>

abbreviation (input) PTE_V :: uint64 where "PTE_V \<equiv> 1"
abbreviation (input) PTE_R :: uint64 where "PTE_R \<equiv> 2"
abbreviation (input) PTE_W :: uint64 where "PTE_W \<equiv> 4"
abbreviation (input) PTE_X :: uint64 where "PTE_X \<equiv> 8"
abbreviation (input) PTE_U :: uint64 where "PTE_U \<equiv> 16"

definition PA2PTE :: "uint64 \<Rightarrow> uint64" where
  "PA2PTE pa = push_bit 10 (drop_bit 12 pa)"

definition PTE2PA :: "uint64 \<Rightarrow> uint64" where
  "PTE2PA pte = push_bit 12 (drop_bit 10 pte)"

definition PTE_FLAGS :: "uint64 \<Rightarrow> uint64" where
  "PTE_FLAGS pte = pte AND 0x3FF"

definition PXSHIFT :: "nat \<Rightarrow> nat" where
  "PXSHIFT level = 12 + 9 * level"

definition PX :: "nat \<Rightarrow> uint64 \<Rightarrow> uint64" where
  "PX level va = drop_bit (PXSHIFT level) va AND 0x1FF"

abbreviation (input) MAXVA :: uint64 where "MAXVA \<equiv> 0x4000000000"

section \<open>Memory layout (kernel/memlayout.h)\<close>

abbreviation (input) UART0 :: uint64 where "UART0 \<equiv> 0x10000000"
abbreviation (input) VIRTIO0 :: uint64 where "VIRTIO0 \<equiv> 0x10001000"
abbreviation (input) PLIC :: uint64 where "PLIC \<equiv> 0x0c000000"
abbreviation (input) KERNBASE :: uint64 where "KERNBASE \<equiv> 0x80000000"
abbreviation (input) PHYSTOP :: uint64 where "PHYSTOP \<equiv> 0x88000000"
abbreviation (input) TRAMPOLINE :: uint64 where "TRAMPOLINE \<equiv> 0x3ffffff000"
abbreviation (input) TRAPFRAME :: uint64 where "TRAPFRAME \<equiv> 0x3fffffe000"

definition KSTACK :: "nat \<Rightarrow> uint64" where
  "KSTACK p = TRAMPOLINE - (of_nat p + 1) * 2 * PGSIZE"

section \<open>Page arithmetic\<close>

definition page_aligned :: "uint64 \<Rightarrow> bool" where
  "page_aligned a \<longleftrightarrow> 4096 dvd unat a"

text \<open>The bytes of the page at \<open>p\<close>.\<close>

definition in_page :: "uint64 \<Rightarrow> uint64 \<Rightarrow> bool" where
  "in_page p x \<longleftrightarrow> unat (x - p) < 4096"

lemma and_not_mask12: "a AND (- 4096 :: uint64) = push_bit 12 (drop_bit 12 a)"
proof -
  have "(- 4096 :: uint64) = NOT (mask 12)" by (simp add: mask_eq_exp_minus_1)
  then have "a AND (- 4096 :: uint64) = a AND NOT (mask 12)" by (rule arg_cong)
  also have "\<dots> = push_bit 12 (drop_bit 12 a)"
    by (auto intro!: bit_word_eqI simp: bit_simps)
  finally show ?thesis .
qed

lemma unat_push_drop12: "unat (push_bit 12 (drop_bit 12 a) :: uint64) = unat a div 4096 * 4096"
proof -
  have "unat a div 4096 * 4096 < 2 ^ 64"
    using unsigned_less [where ?'a = nat, of a] by (simp add: div_times_less_eq_dividend le_less_trans)
  then show ?thesis
    by (simp add: push_bit_eq_mult drop_bit_eq_div unat_word_ariths unat_div)
qed

lemma unat_PGROUNDDOWN: "unat (PGROUNDDOWN a) = unat a div 4096 * 4096"
  by (simp add: PGROUNDDOWN_def and_not_mask12 unat_push_drop12)

lemma page_aligned_PGROUNDDOWN [simp]: "page_aligned (PGROUNDDOWN a)"
  by (simp add: page_aligned_def unat_PGROUNDDOWN)

lemma PGROUNDDOWN_le: "PGROUNDDOWN a \<le> a"
  by (simp add: word_le_nat_alt unat_PGROUNDDOWN div_times_less_eq_dividend)

lemma page_aligned_iff_mod: "page_aligned a \<longleftrightarrow> a mod PGSIZE = 0"
  by (simp add: page_aligned_def word_unat_eq_iff unat_mod dvd_eq_mod_eq_0)

lemma PGROUNDDOWN_aligned: "page_aligned a \<Longrightarrow> PGROUNDDOWN a = a"
  by (simp add: word_unat_eq_iff unat_PGROUNDDOWN page_aligned_def)

lemma in_page_PGROUNDDOWN: "in_page (PGROUNDDOWN a) a"
proof -
  have "unat (a - PGROUNDDOWN a) = unat a - unat (PGROUNDDOWN a)"
    using PGROUNDDOWN_le [of a] by (simp add: unat_sub)
  also have "\<dots> < 4096"
    unfolding unat_PGROUNDDOWN using div_mult_mod_eq [of "unat a" 4096] mod_less_divisor [of 4096 "unat a"]
    by linarith
  finally show ?thesis by (simp add: in_page_def)
qed

lemma in_page_unique:
  assumes "page_aligned p" and "page_aligned q" and "in_page p x" and "in_page q x"
  shows "p = q"
proof (rule ccontr)
  assume "p \<noteq> q"
  then have "\<not> unat (q + (x - q) - p) < 4096"
    using assms by (intro aligned_disjoint) (auto simp: page_aligned_def in_page_def)
  with assms(3) show False by (simp add: in_page_def)
qed

lemma in_page_plus: "unat i < 4096 \<Longrightarrow> in_page p (p + i)"
  by (simp add: in_page_def)

lemma unat_page_plus:
  assumes "page_aligned p" and "unat i < 4096"
  shows "unat (p + i) = unat p + unat i"
proof -
  obtain k where k: "unat p = 4096 * k" using assms(1) by (auto simp: page_aligned_def elim!: dvdE)
  have "4096 * k < 2 ^ 64" using unsigned_less [where ?'a = nat, of p] k by simp
  then have "4096 * k + unat i < 2 ^ 64" using assms(2) by simp
  then show ?thesis using k by (simp add: unat_word_ariths)
qed

section \<open>Page-table entry arithmetic\<close>

lemma PTE2PA_PA2PTE:
  assumes "page_aligned pa" and "drop_bit 10 f = 0"
  shows "PTE2PA (PA2PTE pa OR f) = pa"
proof -
  have "PTE2PA (PA2PTE pa OR f) = push_bit 12 (drop_bit 12 pa)"
    using assms(2)
    by (auto intro!: bit_word_eqI simp: PTE2PA_def PA2PTE_def bit_simps bit_eq_iff)
  also have "\<dots> = PGROUNDDOWN pa" by (simp add: PGROUNDDOWN_def and_not_mask12)
  finally show ?thesis using assms(1) by (simp add: PGROUNDDOWN_aligned)
qed

end
