(* ===== verification/Kstring.thy ===== *)
theory Kstring
  imports Riscv
begin

text \<open>
  \<^verbatim>\<open>kernel/string.c\<close>: the byte and string routines, as loops over byte-addressed memory,
  with closed forms for \<^verbatim>\<open>memset\<close> and \<^verbatim>\<open>memmove\<close> and a specification by
  NUL-terminated strings for the others. A C string argument is its address; a
  \<^verbatim>\<open>uint\<close> count is a \<open>uint\<close>, an \<^verbatim>\<open>int\<close> count an \<open>int\<close>.
\<close>

section \<open>Definitions\<close>

primrec memset_loop :: "memory \<Rightarrow> uint64 \<Rightarrow> uchar \<Rightarrow> nat \<Rightarrow> memory" where
  "memset_loop m d c 0 = m"
| "memset_loop m d c (Suc n) = memset_loop (m(d := c)) (d + 1) c n"

definition memset :: "memory \<Rightarrow> uint64 \<Rightarrow> uchar \<Rightarrow> uint \<Rightarrow> memory" where
  "memset m dst c n = memset_loop m dst c (unat n)"

primrec memcmp_loop :: "memory \<Rightarrow> uint64 \<Rightarrow> uint64 \<Rightarrow> nat \<Rightarrow> int" where
  "memcmp_loop m s1 s2 0 = 0"
| "memcmp_loop m s1 s2 (Suc n) =
     (if m s1 \<noteq> m s2 then uint (m s1) - uint (m s2) else memcmp_loop m (s1 + 1) (s2 + 1) n)"

definition memcmp :: "memory \<Rightarrow> uint64 \<Rightarrow> uint64 \<Rightarrow> uint \<Rightarrow> int" where
  "memcmp m v1 v2 n = memcmp_loop m v1 v2 (unat n)"

text \<open>The two copying loops of \<^verbatim>\<open>memmove\<close>: downwards from the ends, upwards from the starts.\<close>

primrec copy_down :: "memory \<Rightarrow> uint64 \<Rightarrow> uint64 \<Rightarrow> nat \<Rightarrow> memory" where
  "copy_down m d s 0 = m"
| "copy_down m d s (Suc n) = copy_down (m(d - 1 := m (s - 1))) (d - 1) (s - 1) n"

primrec copy_up :: "memory \<Rightarrow> uint64 \<Rightarrow> uint64 \<Rightarrow> nat \<Rightarrow> memory" where
  "copy_up m d s 0 = m"
| "copy_up m d s (Suc n) = copy_up (m(d := m s)) (d + 1) (s + 1) n"

definition memmove :: "memory \<Rightarrow> uint64 \<Rightarrow> uint64 \<Rightarrow> uint \<Rightarrow> memory" where
  "memmove m dst src n =
     (if n = 0 then m
      else if src < dst \<and> src + ucast n > dst
      then copy_down m (dst + ucast n) (src + ucast n) (unat n)
      else copy_up m dst src (unat n))"

definition memcpy :: "memory \<Rightarrow> uint64 \<Rightarrow> uint64 \<Rightarrow> uint \<Rightarrow> memory" where
  "memcpy m dst src n = memmove m dst src n"

primrec strncmp_loop :: "memory \<Rightarrow> uint64 \<Rightarrow> uint64 \<Rightarrow> nat \<Rightarrow> int" where
  "strncmp_loop m p q 0 = 0"
| "strncmp_loop m p q (Suc n) =
     (if m p \<noteq> 0 \<and> m p = m q then strncmp_loop m (p + 1) (q + 1) n
      else uint (m p) - uint (m q))"

definition strncmp :: "memory \<Rightarrow> uint64 \<Rightarrow> uint64 \<Rightarrow> uint \<Rightarrow> int" where
  "strncmp m p q n = strncmp_loop m p q (unat n)"

primrec zero_fill :: "memory \<Rightarrow> uint64 \<Rightarrow> nat \<Rightarrow> memory" where
  "zero_fill m s 0 = m"
| "zero_fill m s (Suc n) = zero_fill (m(s := 0)) (s + 1) n"

primrec strncpy_loop :: "memory \<Rightarrow> uint64 \<Rightarrow> uint64 \<Rightarrow> nat \<Rightarrow> memory" where
  "strncpy_loop m s t 0 = m"
| "strncpy_loop m s t (Suc n) =
     (let m' = m(s := m t) in
      if m t \<noteq> 0 then strncpy_loop m' (s + 1) (t + 1) n else zero_fill m' (s + 1) n)"

definition strncpy :: "memory \<Rightarrow> uint64 \<Rightarrow> uint64 \<Rightarrow> int \<Rightarrow> memory" where
  "strncpy m s t n = strncpy_loop m s t (nat n)"

text \<open>The loop of \<^verbatim>\<open>safestrcpy\<close> after \<open>n\<close> has been decremented, and the final NUL.\<close>

primrec safestrcpy_loop :: "memory \<Rightarrow> uint64 \<Rightarrow> uint64 \<Rightarrow> nat \<Rightarrow> memory" where
  "safestrcpy_loop m s t 0 = m(s := 0)"
| "safestrcpy_loop m s t (Suc n) =
     (let m' = m(s := m t) in
      if m t \<noteq> 0 then safestrcpy_loop m' (s + 1) (t + 1) n else m'(s + 1 := 0))"

definition safestrcpy :: "memory \<Rightarrow> uint64 \<Rightarrow> uint64 \<Rightarrow> int \<Rightarrow> memory" where
  "safestrcpy m s t n = (if n \<le> 0 then m else safestrcpy_loop m s t (nat n - 1))"

text \<open>\<open>None\<close>: no NUL is ever found.\<close>

partial_function (option) strlen_loop :: "memory \<Rightarrow> uint64 \<Rightarrow> int \<Rightarrow> int option" where
  "strlen_loop m s n = (if m (s + word_of_int n) = 0 then Some n else strlen_loop m s (n + 1))"

definition strlen :: "memory \<Rightarrow> uint64 \<Rightarrow> int option" where
  "strlen m s = strlen_loop m s 0"

section \<open>Closed forms\<close>

lemma word_eq_plus_iff: "(x :: uint64) = d + i \<longleftrightarrow> x - d = i"
  by (auto simp: algebra_simps)

lemma unat_minus_one:
  fixes x d :: uint64
  assumes "x \<noteq> d"
  shows "unat (x - (d + 1)) = unat (x - d) - 1"
proof -
  have "x - d \<noteq> 0" using assms by simp
  then have "unat (x - d) \<noteq> 0" by (simp add: unat_eq_0)
  then have "1 \<le> x - d" by (simp add: word_le_nat_alt)
  then have "unat (x - d - 1) = unat (x - d) - unat (1 :: uint64)" by (rule unat_sub)
  then show ?thesis by (simp add: algebra_simps)
qed

lemma memset_loop_eq:
  assumes "n \<le> 2 ^ 64"
  shows "memset_loop m d c n = (\<lambda>x. if unat (x - d) < n then c else m x)"
  using assms
proof (induction n arbitrary: m d)
  case 0
  then show ?case by simp
next
  case (Suc n)
  have far: "\<not> unat (d - (d + 1)) < n"
    using Suc.prems by (simp add: unat_neg_one64)
  have IH: "memset_loop (m(d := c)) (d + 1) c n =
      (\<lambda>x. if unat (x - (d + 1)) < n then c else (m(d := c)) x)"
    using Suc.prems by (intro Suc.IH) simp
  show ?case
  proof (rule ext)
    fix x
    show "memset_loop m d c (Suc n) x = (if unat (x - d) < Suc n then c else m x)"
    proof (cases "x = d")
      case True
      then show ?thesis using IH far by simp
    next
      case False
      then have "0 < unat (x - d)" by (simp add: unat_gt_0)
      with False show ?thesis using IH by (auto simp: unat_minus_one)
    qed
  qed
qed

lemma memset_eq: "memset m d c n = (\<lambda>x. if unat (x - d) < unat n then c else m x)"
proof -
  have "unat n \<le> 2 ^ 64" using unsigned_less [where ?'a = nat, of n] by simp
  then show ?thesis by (simp add: memset_def memset_loop_eq)
qed

lemma copy_up_eq:
  assumes "n \<le> 2 ^ 64" and "unat (d - s) = 0 \<or> n \<le> unat (d - s)"
  shows "copy_up m d s n = (\<lambda>x. if unat (x - d) < n then m (s + (x - d)) else m x)"
  using assms
proof (induction n arbitrary: m d s)
  case 0
  then show ?case by simp
next
  case (Suc n)
  have IH: "copy_up (m(d := m s)) (d + 1) (s + 1) n =
      (\<lambda>x. if unat (x - (d + 1)) < n then (m(d := m s)) (s + 1 + (x - (d + 1)))
           else (m(d := m s)) x)"
    using Suc.prems by (intro Suc.IH) auto
  have far: "\<not> unat (d - (d + 1)) < n" using Suc.prems by (simp add: unat_neg_one64)
  show ?case
  proof (rule ext)
    fix x
    have src: "s + 1 + (x - (d + 1)) = s + (x - d)" by simp
    show "copy_up m d s (Suc n) x = (if unat (x - d) < Suc n then m (s + (x - d)) else m x)"
    proof (cases "x = d")
      case True
      then show ?thesis using IH far by simp
    next
      case False
      then have pos: "0 < unat (x - d)" by (simp add: unat_gt_0)
      have "s + (x - d) \<noteq> d" if "unat (x - d) < Suc n"
      proof
        assume "s + (x - d) = d"
        then have "d - s = x - d" by (auto simp: algebra_simps)
        with that pos Suc.prems(2) show False by auto
      qed
      moreover have "unat (x - (d + 1)) < n \<longleftrightarrow> unat (x - d) < Suc n"
        using False pos by (auto simp: unat_minus_one)
      ultimately show ?thesis using IH src False by auto
    qed
  qed
qed

lemma copy_down_eq:
  assumes "n \<le> 2 ^ 64" and "unat (s - d) = 0 \<or> n \<le> unat (s - d)"
  shows "copy_down m (d + of_nat n) (s + of_nat n) n =
    (\<lambda>x. if unat (x - d) < n then m (s + (x - d)) else m x)"
  using assms
proof (induction n arbitrary: m)
  case 0
  then show ?case by simp
next
  case (Suc n)
  let ?m = "m(d + of_nat n := m (s + of_nat n))"
  have IH: "copy_down ?m (d + of_nat n) (s + of_nat n) n =
      (\<lambda>x. if unat (x - d) < n then ?m (s + (x - d)) else ?m x)"
    using Suc.prems by (intro Suc.IH) auto
  have n: "unat (of_nat n :: uint64) = n" using Suc.prems by (simp add: unat_of_nat)
  have run: "copy_down m (d + of_nat (Suc n)) (s + of_nat (Suc n)) (Suc n) =
      copy_down ?m (d + of_nat n) (s + of_nat n) n"
    by (simp add: algebra_simps)
  have top: "x = d + of_nat n \<longleftrightarrow> unat (x - d) = n" for x
    by (metis add.commute diff_add_cancel n word_unat_eq_iff add_diff_cancel_right')
  show ?case
  proof (rule ext)
    fix x
    have "s + (x - d) \<noteq> d + of_nat n" if "unat (x - d) < n"
    proof
      assume eq: "s + (x - d) = d + of_nat n"
      then have "s - d = of_nat n - (x - d)" by (auto simp: algebra_simps)
      then have "unat (s - d) = unat (of_nat n - (x - d))" by (rule arg_cong)
      also have "\<dots> = n - unat (x - d)"
        using that n by (simp add: unat_sub word_le_nat_alt)
      finally have "unat (s - d) = n - unat (x - d)" .
      with that Suc.prems(2) show False by auto
    qed
    then show "copy_down m (d + of_nat (Suc n)) (s + of_nat (Suc n)) (Suc n) x =
        (if unat (x - d) < Suc n then m (s + (x - d)) else m x)"
      unfolding run IH using top [of x] by (auto simp: less_Suc_eq)
  qed
qed

lemma memmove_eq:
  assumes "unat src + unat n < 2 ^ 64" and "unat dst + unat n < 2 ^ 64"
  shows "memmove m dst src n =
    (\<lambda>x. if unat (x - dst) < unat n then m (src + (x - dst)) else m x)"
proof -
  have n: "unat n \<le> 2 ^ 64" using unsigned_less [where ?'a = nat, of n] by simp
  have sum: "unat (src + ucast n) = unat src + unat n"
    using assms(1) by (simp add: unat_word_ariths unat_ucast_uint64)
  show ?thesis
  proof (cases "src < dst \<and> src + ucast n > dst")
    case True
    then have less: "unat src < unat dst" "unat dst < unat src + unat n"
      by (auto simp: word_less_nat_alt sum)
    then have "unat (src - dst) = 2 ^ 64 + unat src - unat dst"
      by (simp add: unat_sub_if')
    then have "unat n \<le> unat (src - dst)" using assms less by simp
    then show ?thesis using True copy_down_eq [OF n, of src dst m] less
      by (auto simp: memmove_def)
  next
    case False
    have "unat (dst - src) = 0 \<or> unat n \<le> unat (dst - src)"
    proof (cases "src < dst")
      case True
      with False have "unat src + unat n \<le> unat dst"
        by (auto simp: word_less_nat_alt sum)
      then show ?thesis using True by (auto simp: unat_sub_if' word_less_nat_alt)
    next
      case False
      then have "dst = src \<or> unat (dst - src) = 2 ^ 64 + unat dst - unat src"
        by (auto simp: unat_sub_if' word_less_nat_alt word_unat_eq_iff)
      then show ?thesis using assms by auto
    qed
    then show ?thesis using False copy_up_eq [OF n] by (auto simp: memmove_def)
  qed
qed

text \<open>
  Property C22. \<^verbatim>\<open>memmove\<close> copies the \<open>n\<close> source bytes as they were before the call, for
  every overlap of the two regions, and changes no byte outside the destination, as long
  as neither region runs past the end of the address space.
\<close>

theorem memmove_correct:
  assumes "unat src + unat n < 2 ^ 64" and "unat dst + unat n < 2 ^ 64"
  shows "memmove m dst src n =
    (\<lambda>x. if unat (x - dst) < unat n then m (src + (x - dst)) else m x)"
  by (rule memmove_eq [OF assms])

theorem memmove_correct_witness:
  "memmove (\<lambda>x. ucast x) 102 100 5 107 = 107 \<and> memmove (\<lambda>x. ucast x) 102 100 5 106 = 104 \<and>
   memmove (\<lambda>x. ucast x) 100 102 5 104 = 106"
  using memmove_correct [of 100 5 102 "\<lambda>x. ucast x"] memmove_correct [of 102 5 100 "\<lambda>x. ucast x"]
  by simp

section \<open>NUL-terminated strings\<close>

text \<open>The bytes of the C string at \<open>p\<close>, looking at no more than \<open>n\<close> of them.\<close>

primrec cstr :: "memory \<Rightarrow> uint64 \<Rightarrow> nat \<Rightarrow> uchar list" where
  "cstr m p 0 = []"
| "cstr m p (Suc n) = (if m p = 0 then [] else m p # cstr m (p + 1) n)"

lemma strncmp_loop_zero: "strncmp_loop m p q n = 0 \<longleftrightarrow> cstr m p n = cstr m q n"
  by (induction n arbitrary: p q) (auto simp: word_uint_eq_iff)

text \<open>
  \<^verbatim>\<open>strncmp\<close> (and with it \<^verbatim>\<open>namecmp\<close>, which compares directory entries)
  returns 0 exactly when the two strings agree up to the first NUL or the first \<open>n\<close>
  bytes.
\<close>

lemma strncmp_zero_iff: "strncmp m p q n = 0 \<longleftrightarrow> cstr m p (unat n) = cstr m q (unat n)"
  by (simp add: strncmp_def strncmp_loop_zero)

end
