(* ===== verification/Interfaces.thy ===== *)
theory Interfaces
  imports Xv6_Prelude
begin

text \<open>
  The contracts that several components of the kernel promise to their callers, as
  locales: a pool of slots handed out and taken back (physical pages, region-family
  lists, open files, disk descriptors), a first-in first-out queue (the scheduling
  queues) and a cache of disk blocks (the buffer cache). The lemmas proved here once hold of every
  component that is shown to keep the contract.
\<close>

section \<open>Slot pools\<close>

text \<open>Allocate \<open>n\<close> times in a row, stopping at the first failure.\<close>

primrec alloc_many :: "('s \<Rightarrow> ('r option \<times> 's) res) \<Rightarrow> nat \<Rightarrow> 's \<Rightarrow> ('r list \<times> 's) res" where
  "alloc_many al 0 s = Ok ([], s)"
| "alloc_many al (Suc n) s =
     res_bind (al s) (\<lambda>(r, s1).
       case r of None \<Rightarrow> Ok ([], s1)
       | Some x \<Rightarrow> res_bind (alloc_many al n s1) (\<lambda>(xs, s2). Ok (x # xs, s2)))"

locale slot_pool =
  fixes inv :: "'s \<Rightarrow> bool"
    and avail :: "'s \<Rightarrow> 'r set"
    and owned :: "'s \<Rightarrow> 'r \<Rightarrow> bool"
    and alloc :: "'s \<Rightarrow> ('r option \<times> 's) res"
    and dealloc :: "'r \<Rightarrow> 's \<Rightarrow> 's res"
  assumes avail_finite: "inv s \<Longrightarrow> finite (avail s)"
    and alloc_some: "inv s \<Longrightarrow> avail s \<noteq> {} \<Longrightarrow>
      \<exists>r s'. alloc s = Ok (Some r, s') \<and> r \<in> avail s \<and> avail s' = avail s - {r} \<and> inv s' \<and> owned s' r"
    and alloc_none: "inv s \<Longrightarrow> avail s = {} \<Longrightarrow>
      \<exists>s'. alloc s = Ok (None, s') \<and> avail s' = {} \<and> inv s'"
    and dealloc_ok: "inv s \<Longrightarrow> owned s r \<Longrightarrow>
      \<exists>s'. dealloc r s = Ok s' \<and> avail s' = insert r (avail s) \<and> inv s'"
    and owned_not_avail: "inv s \<Longrightarrow> owned s r \<Longrightarrow> r \<notin> avail s"
begin

lemma alloc_many_ok:
  assumes "inv s" and "n \<le> card (avail s)"
  shows "\<exists>rs s'. alloc_many alloc n s = Ok (rs, s') \<and> length rs = n \<and> distinct rs \<and>
    set rs \<subseteq> avail s \<and> avail s' = avail s - set rs \<and> inv s'"
  using assms
proof (induction n arbitrary: s)
  case 0
  then show ?case by simp
next
  case (Suc n)
  then have "avail s \<noteq> {}" by auto
  with Suc.prems(1) obtain r s1 where 1: "alloc s = Ok (Some r, s1)" "r \<in> avail s"
    "avail s1 = avail s - {r}" "inv s1"
    using alloc_some by blast
  have "n \<le> card (avail s1)"
    using Suc.prems 1(2,3) avail_finite [OF Suc.prems(1)] by simp
  with Suc.IH [OF 1(4)] obtain rs s' where "alloc_many alloc n s1 = Ok (rs, s')" "length rs = n"
    "distinct rs" "set rs \<subseteq> avail s1" "avail s' = avail s1 - set rs" "inv s'"
    by blast
  then show ?case using 1
    by (intro exI [of _ "r # rs"] exI [of _ s']) auto
qed

text \<open>More requests than slots: the pool runs dry and says so.\<close>

lemma alloc_exhausted:
  assumes "inv s"
  shows "\<exists>rs s'. alloc_many alloc (card (avail s)) s = Ok (rs, s') \<and>
    (\<exists>s''. alloc s' = Ok (None, s''))"
proof -
  obtain rs s' where 1: "alloc_many alloc (card (avail s)) s = Ok (rs, s')"
    "length rs = card (avail s)" "distinct rs" "set rs \<subseteq> avail s"
    "avail s' = avail s - set rs" "inv s'"
    using alloc_many_ok [OF assms] by blast
  then have "set rs = avail s"
    using avail_finite [OF assms] by (metis card_subset_eq distinct_card)
  with 1 alloc_none [OF 1(6)] show ?thesis by auto
qed

text \<open>A slot given back right after it was handed out leaves the pool as it was.\<close>

lemma alloc_dealloc:
  assumes "inv s" and "avail s \<noteq> {}"
  shows "\<exists>r s1 s2. alloc s = Ok (Some r, s1) \<and> dealloc r s1 = Ok s2 \<and> avail s2 = avail s \<and> inv s2"
proof -
  obtain r s1 where 1: "alloc s = Ok (Some r, s1)" "r \<in> avail s" "avail s1 = avail s - {r}"
    "inv s1" "owned s1 r"
    using alloc_some [OF assms] by blast
  then obtain s2 where "dealloc r s1 = Ok s2" "avail s2 = insert r (avail s1)" "inv s2"
    using dealloc_ok by blast
  with 1 show ?thesis by (metis insert_Diff)
qed

end

section \<open>First-in first-out buffers\<close>

text \<open>Take \<open>n\<close> elements, stopping early when the buffer is empty.\<close>

primrec get_many :: "('s \<Rightarrow> ('x option \<times> 's) res) \<Rightarrow> nat \<Rightarrow> 's \<Rightarrow> ('x list \<times> 's) res" where
  "get_many gt 0 s = Ok ([], s)"
| "get_many gt (Suc n) s =
     res_bind (gt s) (\<lambda>(r, s1).
       case r of None \<Rightarrow> Ok ([], s1)
       | Some x \<Rightarrow> res_bind (get_many gt n s1) (\<lambda>(xs, s2). Ok (x # xs, s2)))"

locale fifo =
  fixes inv :: "'s \<Rightarrow> bool"
    and items :: "'s \<Rightarrow> 'x list"
    and fits :: "'s \<Rightarrow> 'x \<Rightarrow> bool"
    and put :: "'x \<Rightarrow> 's \<Rightarrow> 's res"
    and get :: "'s \<Rightarrow> ('x option \<times> 's) res"
  assumes put_ok: "inv s \<Longrightarrow> fits s x \<Longrightarrow> \<exists>s'. put x s = Ok s' \<and> inv s' \<and> items s' = items s @ [x]"
    and get_some: "inv s \<Longrightarrow> items s = x # xs \<Longrightarrow> \<exists>s'. get s = Ok (Some x, s') \<and> inv s' \<and> items s' = xs"
    and get_none: "inv s \<Longrightarrow> items s = [] \<Longrightarrow> \<exists>s'. get s = Ok (None, s') \<and> inv s' \<and> items s' = []"
begin

lemma get_many_ok:
  assumes "inv s" and "n \<le> length (items s)"
  shows "\<exists>s'. get_many get n s = Ok (take n (items s), s') \<and> inv s' \<and> items s' = drop n (items s)"
  using assms
proof (induction n arbitrary: s)
  case 0
  then show ?case by simp
next
  case (Suc n)
  then obtain x xs where xs: "items s = x # xs" by (cases "items s") auto
  with get_some Suc.prems(1) obtain s1 where s1: "get s = Ok (Some x, s1)" "inv s1" "items s1 = xs" by blast
  with Suc.IH [OF s1(2)] Suc.prems(2) xs show ?case by auto
qed

text \<open>What is put in comes out after everything that was there before, and before anything later.\<close>

lemma put_then_drain:
  assumes "inv s" and "fits s x"
  shows "\<exists>s1 s2. put x s = Ok s1 \<and> get_many get (Suc (length (items s))) s1 = Ok (items s @ [x], s2) \<and>
    inv s2 \<and> items s2 = []"
proof -
  obtain s1 where s1: "put x s = Ok s1" "inv s1" "items s1 = items s @ [x]" using put_ok [OF assms] by blast
  then show ?thesis using get_many_ok [OF s1(2), of "Suc (length (items s))"] by auto
qed

end

section \<open>Block caches\<close>

text \<open>
  A cache in front of a disk, as the file system uses it: \<open>view\<close> is the current contents of
  the blocks, \<open>dsk\<close> what is on the disk, \<open>held\<close> the buffer through which the caller has a
  block in use. A block may be given up only when it is pinned or clean. The buffers number
  \<open>nbuf\<close>; pinned blocks and blocks in use each occupy one.
\<close>

locale block_cache =
  fixes inv :: "uint set \<Rightarrow> 's \<Rightarrow> bool"
    and view :: "'s \<Rightarrow> uint \<Rightarrow> uchar list"
    and dsk :: "'s \<Rightarrow> uint \<Rightarrow> uchar list"
    and writes :: "'s \<Rightarrow> (uint \<times> uchar list) list"
    and held :: "'s \<Rightarrow> uint \<Rightarrow> nat option"
    and same :: "'s \<Rightarrow> 's \<Rightarrow> bool"
    and nbuf :: nat
    and bsize :: nat
    and get :: "uint \<Rightarrow> 's \<Rightarrow> (nat \<times> 's) res"
    and put :: "nat \<Rightarrow> 's \<Rightarrow> 's res"
    and flush :: "nat \<Rightarrow> 's \<Rightarrow> 's res"
    and setd :: "nat \<Rightarrow> uchar list \<Rightarrow> 's \<Rightarrow> 's"
    and data :: "nat \<Rightarrow> 's \<Rightarrow> uchar list"
    and pin :: "nat \<Rightarrow> 's \<Rightarrow> 's res"
    and unpin :: "nat \<Rightarrow> 's \<Rightarrow> 's res"
  assumes same_refl: "same s s"
    and same_trans: "same s t \<Longrightarrow> same t u \<Longrightarrow> same s u"
    and view_disk: "inv P s \<Longrightarrow> n \<notin> P \<Longrightarrow> held s n = None \<Longrightarrow> view s n = dsk s n"
    and view_size: "inv P s \<Longrightarrow> length (view s n) = bsize"
    and held_data: "inv P s \<Longrightarrow> held s n = Some b \<Longrightarrow> data b s = view s n"
    and get_ok: "inv P s \<Longrightarrow> held s n = None \<Longrightarrow> n \<in> P \<or> card (P \<union> dom (held s)) < nbuf \<Longrightarrow>
      \<exists>b s'. get n s = Ok (b, s') \<and> inv P s' \<and> held s' = (held s)(n \<mapsto> b) \<and> view s' = view s \<and> dsk s' = dsk s \<and>
        writes s' = writes s \<and> same s s'"
    and put_ok: "inv P s \<Longrightarrow> held s n = Some b \<Longrightarrow> n \<in> P \<or> view s n = dsk s n \<Longrightarrow>
      \<exists>s'. put b s = Ok s' \<and> inv P s' \<and> held s' = (held s)(n := None) \<and> view s' = view s \<and> dsk s' = dsk s \<and>
        writes s' = writes s \<and> same s s'"
    and flush_ok: "inv P s \<Longrightarrow> held s n = Some b \<Longrightarrow>
      \<exists>s'. flush b s = Ok s' \<and> inv P s' \<and> held s' = held s \<and> view s' = view s \<and> dsk s' = (dsk s)(n := view s n) \<and>
        writes s' = writes s @ [(n, view s n)] \<and> same s s'"
    and set_ok: "inv P s \<Longrightarrow> held s n = Some b \<Longrightarrow> length d = bsize \<Longrightarrow>
      inv P (setd b d s) \<and> held (setd b d s) = held s \<and> view (setd b d s) = (view s)(n := d) \<and> dsk (setd b d s) = dsk s \<and>
        writes (setd b d s) = writes s \<and> same s (setd b d s)"
    and pin_ok: "inv P s \<Longrightarrow> held s n = Some b \<Longrightarrow> n \<notin> P \<Longrightarrow>
      \<exists>s'. pin b s = Ok s' \<and> inv (insert n P) s' \<and> held s' = held s \<and> view s' = view s \<and> dsk s' = dsk s \<and>
        writes s' = writes s \<and> same s s'"
    and unpin_ok: "inv P s \<Longrightarrow> held s n = Some b \<Longrightarrow> n \<in> P \<Longrightarrow>
      \<exists>s'. unpin b s = Ok s' \<and> inv (P - {n}) s' \<and> held s' = held s \<and> view s' = view s \<and> dsk s' = dsk s \<and>
        writes s' = writes s \<and> same s s'"
begin

text \<open>Reading a block that is not in use and giving it up again changes nothing.\<close>

lemma read_block:
  assumes "inv P s" and "held s = Map.empty" and "card P < nbuf"
  shows "\<exists>b s1 s2. get n s = Ok (b, s1) \<and> data b s1 = view s n \<and> put b s1 = Ok s2 \<and> inv P s2 \<and> held s2 = Map.empty \<and>
    view s2 = view s \<and> dsk s2 = dsk s \<and> writes s2 = writes s \<and> same s s2"
proof -
  from get_ok [OF assms(1), of n] assms(2,3) obtain b s1 where g: "get n s = Ok (b, s1)" "inv P s1" "held s1 = [n \<mapsto> b]"
    "view s1 = view s" "dsk s1 = dsk s" "writes s1 = writes s" "same s s1" by auto
  have "n \<in> P \<or> view s1 n = dsk s1 n" using view_disk [OF assms(1), of n] assms(2) g(4,5) by auto
  from put_ok [OF g(2) _ this, of b] g(3) obtain s2 where p: "put b s1 = Ok s2" "inv P s2" "held s2 = Map.empty"
    "view s2 = view s1" "dsk s2 = dsk s1" "writes s2 = writes s1" "same s1 s2" by auto
  have "data b s1 = view s n" using held_data [OF g(2), of n b] g(3,4) by simp
  then show ?thesis using g p same_trans [OF g(7) p(7)]
    by (intro exI [of _ b] exI [of _ s1] exI [of _ s2]) simp
qed

text \<open>Replacing the contents of a block, through to the disk.\<close>

lemma write_block:
  assumes "inv P s" and "held s = Map.empty" and "card P < nbuf" and "length d = bsize"
  shows "\<exists>b s1 s2 s3. get n s = Ok (b, s1) \<and> flush b (setd b d s1) = Ok s2 \<and> put b s2 = Ok s3 \<and> inv P s3 \<and>
    held s3 = Map.empty \<and> view s3 = (view s)(n := d) \<and> dsk s3 = (dsk s)(n := d) \<and> writes s3 = writes s @ [(n, d)] \<and> same s s3"
proof -
  from get_ok [OF assms(1), of n] assms(2,3) obtain b s1 where g: "get n s = Ok (b, s1)" "inv P s1" "held s1 = [n \<mapsto> b]"
    "view s1 = view s" "dsk s1 = dsk s" "writes s1 = writes s" "same s s1" by auto
  from set_ok [OF g(2) _ assms(4), of n b] g(3) have st: "inv P (setd b d s1)" "held (setd b d s1) = [n \<mapsto> b]"
    "view (setd b d s1) = (view s1)(n := d)" "dsk (setd b d s1) = dsk s1" "writes (setd b d s1) = writes s1" "same s1 (setd b d s1)"
    by auto
  from flush_ok [OF st(1), of n b] st(2) obtain s2 where f: "flush b (setd b d s1) = Ok s2" "inv P s2" "held s2 = [n \<mapsto> b]"
    "view s2 = view (setd b d s1)" "dsk s2 = (dsk s1)(n := d)" "writes s2 = writes s1 @ [(n, d)]" "same (setd b d s1) s2"
    using st(3,4,5) by auto
  from put_ok [OF f(2), of n b] f st(3) obtain s3 where p: "put b s2 = Ok s3" "inv P s3" "held s3 = Map.empty"
    "view s3 = view s2" "dsk s3 = dsk s2" "writes s3 = writes s2" "same s2 s3" by auto
  have "same s s3" by (rule same_trans [OF same_trans [OF same_trans [OF g(7) st(6)] f(7)] p(7)])
  then show ?thesis using g f p st(3) by (intro exI [of _ b] exI [of _ s1] exI [of _ s2] exI [of _ s3]) simp
qed

text \<open>
  Copying block \<open>src\<close> over block \<open>dst\<close> and writing \<open>dst\<close> to the disk, both blocks in use at
  the same time; the first one asked for is \<open>a\<close>.
\<close>

lemma copy_block:
  assumes inv: "inv P s" and held: "held s = Map.empty" and ne: "src \<noteq> dst"
    and room: "(dst \<in> P \<or> src \<in> P) \<and> card P < nbuf \<or> Suc (card P) < nbuf" and ab: "(a, b) = (src, dst) \<or> (a, b) = (dst, src)"
    and fin: "finite P"
  shows "\<exists>i s1 j s2 s3. get a s = Ok (i, s1) \<and> get b s1 = Ok (j, s2) \<and>
    flush (if a = dst then i else j) (setd (if a = dst then i else j) (data (if a = dst then j else i) s2) s2) = Ok s3 \<and>
    same s s1 \<and> same s s2 \<and> same s s3 \<and> inv P s3 \<and> held s3 = [a \<mapsto> i, b \<mapsto> j] \<and>
    view s3 = (view s)(dst := view s src) \<and> dsk s3 = (dsk s)(dst := view s src) \<and> writes s3 = writes s @ [(dst, view s src)]"
proof -
  have nab: "a \<noteq> b" and P2: "card P < nbuf" and ins: "b \<notin> P \<Longrightarrow> card (insert a P) < nbuf"
    using ne ab room fin by (auto simp: card_insert_if)
  from get_ok [OF inv, of a] held P2 obtain i s1 where g1: "get a s = Ok (i, s1)" "inv P s1" "held s1 = [a \<mapsto> i]"
    "view s1 = view s" "dsk s1 = dsk s" "writes s1 = writes s" "same s s1" by auto
  have "b \<in> P \<or> card (P \<union> dom (held s1)) < nbuf" using ins g1(3) by (cases "b \<in> P") simp_all
  with get_ok [OF g1(2), of b] g1(3) nab obtain j s2 where g2: "get b s1 = Ok (j, s2)" "inv P s2" "held s2 = [a \<mapsto> i, b \<mapsto> j]"
    "view s2 = view s" "dsk s2 = dsk s" "writes s2 = writes s" "same s1 s2" using g1 by auto
  let ?k = "if a = dst then i else j" and ?l = "if a = dst then j else i"
  have kd: "held s2 dst = Some ?k" "held s2 src = Some ?l" using ab nab g2(3) by auto
  have d: "data ?l s2 = view s src" using held_data [OF g2(2) kd(2)] g2(4) by simp
  have len: "length (view s src) = bsize" using view_size [OF g2(2), of src] g2(4) by simp
  from set_ok [OF g2(2) kd(1) len] have st: "inv P (setd ?k (view s src) s2)" "held (setd ?k (view s src) s2) = held s2"
    "view (setd ?k (view s src) s2) = (view s)(dst := view s src)" "dsk (setd ?k (view s src) s2) = dsk s"
    "writes (setd ?k (view s src) s2) = writes s" "same s2 (setd ?k (view s src) s2)" using g2 by auto
  from flush_ok [OF st(1), of dst ?k] kd(1) st(2) obtain s3 where f: "flush ?k (setd ?k (view s src) s2) = Ok s3" "inv P s3"
    "held s3 = held s2" "view s3 = (view s)(dst := view s src)" "dsk s3 = (dsk s)(dst := view s src)"
    "writes s3 = writes s @ [(dst, view s src)]" "same (setd ?k (view s src) s2) s3" using st(3-5) by auto
  note s12 = same_trans [OF g1(7) g2(7)]
  note s123 = same_trans [OF same_trans [OF s12 st(6)] f(7)]
  show ?thesis using g1 g2 f s12 s123 unfolding d [symmetric]
    by (intro exI [of _ i] exI [of _ s1] exI [of _ j] exI [of _ s2] exI [of _ s3]) simp
qed

text \<open>Giving up two clean or pinned blocks.\<close>

lemma put_two:
  assumes inv: "inv P s" and held: "held s = [a \<mapsto> i, b \<mapsto> j]" and ne: "a \<noteq> b"
    and clean: "a \<in> P \<or> view s a = dsk s a" "b \<in> P \<or> view s b = dsk s b"
  shows "\<exists>s1 s2. put i s = Ok s1 \<and> put j s1 = Ok s2 \<and> inv P s2 \<and> held s2 = Map.empty \<and> view s2 = view s \<and> dsk s2 = dsk s \<and>
      writes s2 = writes s \<and> same s s1 \<and> same s s2"
    and "\<exists>s1 s2. put j s = Ok s1 \<and> put i s1 = Ok s2 \<and> inv P s2 \<and> held s2 = Map.empty \<and> view s2 = view s \<and> dsk s2 = dsk s \<and>
      writes s2 = writes s \<and> same s s1 \<and> same s s2"
proof -
  from put_ok [OF inv, of a i] clean(1) held ne obtain s1 where p: "put i s = Ok s1" "inv P s1" "held s1 = (held s)(a := None)"
    "view s1 = view s" "dsk s1 = dsk s" "writes s1 = writes s" "same s s1" by auto
  from put_ok [OF p(2), of b j] clean(2) p held ne obtain s2 where p': "put j s1 = Ok s2" "inv P s2" "held s2 = Map.empty"
    "view s2 = view s" "dsk s2 = dsk s" "writes s2 = writes s" "same s1 s2" by auto
  show "\<exists>s1 s2. put i s = Ok s1 \<and> put j s1 = Ok s2 \<and> inv P s2 \<and> held s2 = Map.empty \<and> view s2 = view s \<and> dsk s2 = dsk s \<and>
      writes s2 = writes s \<and> same s s1 \<and> same s s2"
    using p p' same_trans [OF p(7) p'(7)] by blast
  from put_ok [OF inv, of b j] clean(2) held ne obtain s3 where q: "put j s = Ok s3" "inv P s3" "held s3 = (held s)(b := None)"
    "view s3 = view s" "dsk s3 = dsk s" "writes s3 = writes s" "same s s3" by auto
  from put_ok [OF q(2), of a i] clean(1) q held ne obtain s4 where q': "put i s3 = Ok s4" "inv P s4" "held s4 = Map.empty"
    "view s4 = view s" "dsk s4 = dsk s" "writes s4 = writes s" "same s3 s4" by auto
  show "\<exists>s1 s2. put j s = Ok s1 \<and> put i s1 = Ok s2 \<and> inv P s2 \<and> held s2 = Map.empty \<and> view s2 = view s \<and> dsk s2 = dsk s \<and>
      writes s2 = writes s \<and> same s s1 \<and> same s s2"
    using q q' same_trans [OF q(7) q'(7)] by blast
qed

end

end
