(* ===== verification/Kalloc.thy ===== *)
theory Kalloc
  imports Spinlock Kstring Interfaces
begin

text \<open>
  \<^verbatim>\<open>kernel/kalloc.c\<close>: the allocator of physical pages. The free list is threaded through
  the first eight bytes of the free pages themselves, in the byte-addressed physical
  memory. \<open>kend\<close> is the linker symbol \<^verbatim>\<open>end\<close>, the first address after the kernel.
\<close>

section \<open>State and operations\<close>

record physmem = harts +
  kend :: uint64
  mem :: memory
  freelist :: uint64

definition kfree :: "uint64 \<Rightarrow> 'a physmem_scheme \<Rightarrow> 'a physmem_scheme res" where
  "kfree pa s =
     (if pa mod PGSIZE \<noteq> 0 \<or> pa < kend s \<or> pa \<ge> PHYSTOP then Panic ''kfree''
      else let s1 = s\<lparr>mem := memset (mem s) pa 1 4096\<rparr> in
        res_bind
          (critical KmemLock
            (\<lambda>s. Ok ((), s\<lparr>mem := store64 (mem s) pa (freelist s), freelist := pa\<rparr>)) s1)
          (\<lambda>(_, s2). Ok s2))"

text \<open>The addresses of \<open>n\<close> consecutive pages from \<open>a\<close> on.\<close>

definition page_list :: "uint64 \<Rightarrow> nat \<Rightarrow> uint64 list" where
  "page_list a n = map (\<lambda>i. a + of_nat i * PGSIZE) [0..<n]"

definition freerange :: "uint64 \<Rightarrow> uint64 \<Rightarrow> 'a physmem_scheme \<Rightarrow> 'a physmem_scheme res" where
  "freerange pa_start pa_end s =
     (let p = PGROUNDUP pa_start in
      mfold kfree (page_list p ((unat pa_end - unat p) div 4096)) s)"

definition kinit :: "'a physmem_scheme \<Rightarrow> 'a physmem_scheme res" where
  "kinit s = freerange (kend s) PHYSTOP (initlock KmemLock ''kmem'' s)"

definition kalloc :: "'a physmem_scheme \<Rightarrow> (uint64 \<times> 'a physmem_scheme) res" where
  "kalloc s =
     res_bind
       (critical KmemLock
         (\<lambda>s. let r = freelist s in
              Ok (r, if r \<noteq> 0 then s\<lparr>freelist := load64 (mem s) r\<rparr> else s)) s)
       (\<lambda>(r, s1). Ok (r, if r \<noteq> 0 then s1\<lparr>mem := memset (mem s1) r 5 4096\<rparr> else s1))"

text \<open>The traversal of the free list; \<open>count\<close> is an \<^verbatim>\<open>int\<close>.\<close>

partial_function (option) count_free :: "memory \<Rightarrow> uint64 \<Rightarrow> 32 word \<Rightarrow> 32 word option" where
  "count_free m r count =
     (if r \<noteq> 0 then count_free m (load64 m r) (count + 1) else Some count)"

definition kfreepagecount :: "'a physmem_scheme \<Rightarrow> (uint64 \<times> 'a physmem_scheme) res" where
  "kfreepagecount =
     critical KmemLock (\<lambda>s.
       case count_free (mem s) (freelist s) 0 of
         None \<Rightarrow> Blocked | Some count \<Rightarrow> Ok (scast count, s))"

section \<open>The free list\<close>

definition valid_page :: "uint64 \<Rightarrow> uint64 \<Rightarrow> bool" where
  "valid_page e p \<longleftrightarrow> page_aligned p \<and> e \<le> p \<and> p < PHYSTOP"

primrec freechain :: "memory \<Rightarrow> uint64 \<Rightarrow> uint64 list \<Rightarrow> bool" where
  "freechain m p [] \<longleftrightarrow> p = 0"
| "freechain m p (q # qs) \<longleftrightarrow> p = q \<and> q \<noteq> 0 \<and> freechain m (load64 m q) qs"

definition kmem_ok :: "'a physmem_scheme \<Rightarrow> bool" where
  "kmem_ok s \<longleftrightarrow> hart_ok s \<and> lock_free KmemLock s \<and> 0 < kend s"

definition free_pages :: "'a physmem_scheme \<Rightarrow> uint64 list \<Rightarrow> bool" where
  "free_pages s ps \<longleftrightarrow>
     freechain (mem s) (freelist s) ps \<and> distinct ps \<and> (\<forall>p\<in>set ps. valid_page (kend s) p)"

lemma freechain_unique: "freechain m p qs \<Longrightarrow> freechain m p rs \<Longrightarrow> qs = rs"
proof (induction qs arbitrary: p rs)
  case Nil
  then show ?case by (cases rs) auto
next
  case (Cons q qs)
  then show ?case by (cases rs) auto
qed

lemma freechain_cong:
  "(\<And>q. q \<in> set qs \<Longrightarrow> load64 m' q = load64 m q) \<Longrightarrow> freechain m' p qs = freechain m p qs"
  by (induction qs arbitrary: p) auto

text \<open>Writes inside one page leave the words at the start of the others alone.\<close>

lemma load64_other_page:
  assumes "\<And>x. \<not> in_page p x \<Longrightarrow> m' x = m x" and "page_aligned p" and "page_aligned q"
    and "p \<noteq> q" and "unat i < 4089"
  shows "load64 m' (q + i) = load64 m (q + i)"
proof (rule load64_cong)
  fix j :: uint64 assume "j < 8"
  then have j: "unat j < 8" by (simp add: word_less_nat_alt)
  have "unat (i + j) \<le> unat i + unat j" by (simp add: unat_word_ariths)
  then have "in_page q (q + (i + j))" using assms(5) j by (intro in_page_plus) simp
  then have "\<not> in_page p (q + i + j)" using assms(2-4) in_page_unique by (metis add.assoc)
  then show "m' (q + i + j) = m (q + i + j)" by (rule assms(1))
qed

lemma memset_other_page: "\<not> in_page p x \<Longrightarrow> memset m p c 4096 x = m x"
  by (simp add: memset_eq in_page_def)

lemma store64_other_page:
  assumes "\<not> in_page p x" and "unat i < 4089" and "page_aligned p"
  shows "store64 m (p + i) v x = m x"
proof -
  have "\<not> x - (p + i) < 8"
  proof
    assume "x - (p + i) < 8"
    then have 8: "unat (x - (p + i)) < 8" by (simp add: word_less_nat_alt)
    have "x - p = i + (x - (p + i))" by simp
    then have "unat (x - p) \<le> unat i + unat (x - (p + i))"
      by (metis mod_less_eq_dividend unat_word_ariths(1))
    with 8 assms show False by (simp add: in_page_def)
  qed
  then show ?thesis by (simp add: store64_def)
qed

lemmas store64_page_start = store64_other_page [where i = 0, simplified]

lemma kmem_okD: "kmem_ok s \<Longrightarrow> hart_ok s" "kmem_ok s \<Longrightarrow> lock_free KmemLock s" "kmem_ok s \<Longrightarrow> 0 < kend s"
  by (simp_all add: kmem_ok_def)

lemma kmem_ok_relock [simp]: "kmem_ok (relock s) = kmem_ok s"
  by (simp add: kmem_ok_def) (simp add: relock_def)

lemma kmem_ok_upd [simp]:
  "kmem_ok (s\<lparr>mem := m\<rparr>) = kmem_ok s" "kmem_ok (s\<lparr>freelist := f\<rparr>) = kmem_ok s"
  by (simp_all add: kmem_ok_def lock_simps)

lemma relock_phys [simp]: "mem (relock s) = mem s" "freelist (relock s) = freelist s" "kend (relock s) = kend s"
  by (simp_all add: relock_def)

lemma kfree_eq:
  assumes "kmem_ok s" and "valid_page (kend s) pa"
  shows "kfree pa s = Ok ((relock s)\<lparr>mem := store64 (memset (mem s) pa 1 4096) pa (freelist s),
                                      freelist := pa\<rparr>)"
proof -
  let ?s1 = "s\<lparr>mem := memset (mem s) pa 1 4096\<rparr>"
  have "critical KmemLock
      (\<lambda>s. Ok ((), s\<lparr>mem := store64 (mem s) pa (freelist s), freelist := pa\<rparr>)) ?s1 =
    Ok ((), (inside KmemLock ?s1)\<lparr>mem := store64 (mem ?s1) pa (freelist ?s1), freelist := pa,
               sie := sie ?s1, cpus := cpus (relock ?s1), spin := spin ?s1\<rparr>)"
    using kmem_okD [OF assms(1)]
    by (intro critical_run) (auto simp: lock_simps inside_def)
  then show ?thesis
    using assms(2)
    by (auto simp: kfree_def valid_page_def page_aligned_iff_mod inside_def relock_def)
qed

lemma kalloc_eq:
  assumes "kmem_ok s"
  shows "kalloc s = Ok (freelist s,
    if freelist s \<noteq> 0
    then (relock s)\<lparr>freelist := load64 (mem s) (freelist s),
                    mem := memset (mem s) (freelist s) 5 4096\<rparr>
    else relock s)"
proof -
  let ?b = "\<lambda>s. (if freelist s \<noteq> 0 then s\<lparr>freelist := load64 (mem s) (freelist s)\<rparr> else s)"
  have "critical KmemLock (\<lambda>s. let r = freelist s in
      Ok (r, if r \<noteq> 0 then s\<lparr>freelist := load64 (mem s) r\<rparr> else s)) s =
    Ok (freelist s, (?b (inside KmemLock s))\<lparr>sie := sie s, cpus := cpus (relock s), spin := spin s\<rparr>)"
    using kmem_okD [OF assms]
    by (intro critical_run) (auto simp: inside_def Let_def)
  then show ?thesis
    by (auto simp: kalloc_def inside_def relock_def)
qed

lemma free_pages_unique: "free_pages s ps \<Longrightarrow> free_pages s qs \<Longrightarrow> ps = qs"
  unfolding free_pages_def using freechain_unique by blast

lemma free_pages_relock [simp]: "free_pages (relock s) ps = free_pages s ps"
  by (simp add: free_pages_def)

lemma valid_page_nonzero: "0 < e \<Longrightarrow> valid_page e p \<Longrightarrow> p \<noteq> 0"
  by (auto simp: valid_page_def)

lemma kfree_pages:
  assumes "kmem_ok s" and "free_pages s ps" and "valid_page (kend s) pa" and "pa \<notin> set ps"
  shows "free_pages ((relock s)\<lparr>mem := store64 (memset (mem s) pa 1 4096) pa (freelist s),
                               freelist := pa\<rparr>) (pa # ps)"
proof -
  let ?m = "store64 (memset (mem s) pa 1 4096) pa (freelist s)"
  have pal: "page_aligned pa" using assms(3) by (simp add: valid_page_def)
  have "load64 ?m q = load64 (mem s) q" if "q \<in> set ps" for q
  proof -
    have "page_aligned q" "pa \<noteq> q"
      using that assms(2,4) by (auto simp: free_pages_def valid_page_def)
    then show ?thesis
      using load64_other_page [of pa ?m "mem s" q 0] pal
      by (simp add: memset_other_page store64_page_start)
  qed
  then have "freechain ?m (freelist s) ps"
    using assms(2) freechain_cong [of ps ?m "mem s"] by (simp add: free_pages_def)
  then show ?thesis
    using assms valid_page_nonzero [of "kend s" pa] kmem_okD [OF assms(1)]
    by (auto simp: free_pages_def)
qed

lemma kalloc_pages:
  assumes "kmem_ok s" and "free_pages s (p # ps)"
  shows "free_pages ((relock s)\<lparr>freelist := load64 (mem s) p, mem := memset (mem s) p 5 4096\<rparr>) ps"
proof -
  have "load64 (memset (mem s) p 5 4096) q = load64 (mem s) q" if "q \<in> set ps" for q
  proof -
    have "page_aligned p" "page_aligned q" "p \<noteq> q"
      using that assms(2) by (auto simp: free_pages_def valid_page_def)
    then show ?thesis
      using load64_other_page [of p "memset (mem s) p 5 4096" "mem s" q 0]
      by (simp add: memset_other_page)
  qed
  then have "freechain (memset (mem s) p 5 4096) (load64 (mem s) p) ps"
    using assms(2) freechain_cong [of ps "memset (mem s) p 5 4096" "mem s"]
    by (simp add: free_pages_def)
  then show ?thesis
    using assms(2) by (auto simp: free_pages_def)
qed

lemma free_pages_head: "free_pages s ps \<Longrightarrow> freelist s = (if ps = [] then 0 else hd ps)"
  by (cases ps) (auto simp: free_pages_def)
section \<open>The allocator as a slot pool\<close>

definition kalloc_opt :: "'a physmem_scheme \<Rightarrow> (uint64 option \<times> 'a physmem_scheme) res" where
  "kalloc_opt s = res_bind (kalloc s) (\<lambda>(r, s'). Ok (if r = 0 then None else Some r, s'))"

definition kmem_inv :: "'a physmem_scheme \<Rightarrow> bool" where
  "kmem_inv s \<longleftrightarrow> kmem_ok s \<and> (\<exists>ps. free_pages s ps)"

definition kmem_avail :: "'a physmem_scheme \<Rightarrow> uint64 set" where
  "kmem_avail s = {p. \<exists>ps. free_pages s ps \<and> p \<in> set ps}"

definition kmem_owned :: "'a physmem_scheme \<Rightarrow> uint64 \<Rightarrow> bool" where
  "kmem_owned s p \<longleftrightarrow> valid_page (kend s) p \<and> p \<notin> kmem_avail s"

lemma kmem_avail_eq: "free_pages s ps \<Longrightarrow> kmem_avail s = set ps"
  by (auto simp: kmem_avail_def dest: free_pages_unique)

lemma kmem_invE:
  assumes "kmem_inv s"
  obtains ps where "kmem_ok s" and "free_pages s ps" and "kmem_avail s = set ps" and "distinct ps"
proof -
  from assms obtain ps where "kmem_ok s" and ps: "free_pages s ps" by (auto simp: kmem_inv_def)
  moreover from ps have "kmem_avail s = set ps" "distinct ps"
    using kmem_avail_eq [OF ps] by (simp_all add: free_pages_def)
  ultimately show thesis by (rule that)
qed

lemma kalloc_opt_Cons:
  assumes "kmem_ok s" and "free_pages s (p # ps)"
  shows "\<exists>s'. kalloc s = Ok (p, s') \<and> kalloc_opt s = Ok (Some p, s') \<and> free_pages s' ps \<and> kmem_ok s' \<and>
    kend s' = kend s \<and> p \<noteq> 0"
proof -
  have "freelist s = p" "p \<noteq> 0" using assms(2) by (auto simp: free_pages_def)
  then show ?thesis
    using kalloc_pages [OF assms] assms(1) by (simp add: kalloc_opt_def kalloc_eq)
qed

lemma kfree_Cons:
  assumes "kmem_ok s" and "free_pages s ps" and "valid_page (kend s) p" and "p \<notin> set ps"
  shows "\<exists>s'. kfree p s = Ok s' \<and> free_pages s' (p # ps) \<and> kmem_ok s' \<and> kend s' = kend s"
  using kfree_pages [OF assms] assms(1) by (simp add: kfree_eq [OF assms(1,3)])

interpretation kpool: slot_pool kmem_inv kmem_avail kmem_owned kalloc_opt kfree
proof (unfold_locales, goal_cases)
  case (1 s)
  then show ?case by (auto elim: kmem_invE)
next
  case (2 s)
  then obtain qs where qs: "kmem_ok s" "free_pages s qs" "qs \<noteq> []" "distinct qs"
    by (metis kmem_invE set_empty)
  then obtain p ps where ps: "kmem_ok s" "free_pages s (p # ps)" "distinct (p # ps)"
    by (cases qs) auto
  from kalloc_opt_Cons [OF ps(1,2)] obtain s' where s': "kalloc_opt s = Ok (Some p, s')"
    "free_pages s' ps" "kmem_ok s'" "kend s' = kend s" by blast
  have "valid_page (kend s) p" using ps(2) by (simp add: free_pages_def)
  moreover have "kmem_inv s'" using s'(2,3) by (auto simp: kmem_inv_def)
  ultimately show ?case using s' ps(3) kmem_avail_eq [OF ps(2)] kmem_avail_eq [OF s'(2)]
    by (simp add: kmem_owned_def)
next
  case (3 s)
  then have s: "kmem_ok s" "free_pages s []" by (auto elim!: kmem_invE)
  then have "freelist s = 0" by (simp add: free_pages_def)
  then have "kalloc_opt s = Ok (None, relock s)" using s by (simp add: kalloc_opt_def kalloc_eq)
  moreover have "free_pages (relock s) []" using s by simp
  ultimately show ?case
    using s kmem_avail_eq [of "relock s" "[]"] unfolding kmem_inv_def
    by (intro exI [of _ "relock s"]) auto
next
  case (4 s r)
  then obtain ps where ps: "kmem_ok s" "free_pages s ps" "kmem_avail s = set ps"
    by (auto elim: kmem_invE)
  with 4 have "valid_page (kend s) r" "r \<notin> set ps" by (auto simp: kmem_owned_def)
  with ps kfree_Cons [OF ps(1,2)] obtain s' where s': "kfree r s = Ok s'" "free_pages s' (r # ps)"
    "kmem_ok s'" by blast
  then show ?case using kmem_avail_eq [OF s'(2)] ps by (auto simp: kmem_inv_def)
next
  case (5 s r)
  then show ?case by (simp add: kmem_owned_def)
qed

section \<open>Initialisation and counting\<close>

lemma freerange_pages:
  assumes "kmem_ok s" and "free_pages s ps" and "\<forall>p\<in>set xs. valid_page (kend s) p"
    and "distinct xs" and "set xs \<inter> set ps = {}"
  shows "\<exists>s'. mfold kfree xs s = Ok s' \<and> free_pages s' (rev xs @ ps) \<and> kmem_ok s' \<and> kend s' = kend s"
  using assms
proof (induction xs arbitrary: s ps)
  case Nil
  then show ?case by simp
next
  case (Cons x xs)
  from Cons.prems obtain s1 where s1: "kfree x s = Ok s1" "free_pages s1 (x # ps)" "kmem_ok s1"
    "kend s1 = kend s"
    using kfree_Cons [of s ps x] by auto
  have "\<exists>s'. mfold kfree xs s1 = Ok s' \<and> free_pages s' (rev xs @ x # ps) \<and> kmem_ok s' \<and> kend s' = kend s1"
    using Cons.prems s1 by (intro Cons.IH) auto
  with s1 show ?case by auto
qed

lemma unat_PGROUNDUP:
  assumes "unat a + 4095 < 2 ^ 64"
  shows "unat (PGROUNDUP a) = (unat a + 4095) div 4096 * 4096"
proof -
  have "a + PGSIZE - 1 = a + 4095" by simp
  then have "PGROUNDUP a = push_bit 12 (drop_bit 12 (a + 4095))"
    by (simp add: PGROUNDUP_def and_not_mask12 add.commute)
  then show ?thesis using assms by (simp add: unat_push_drop12 unat_word_ariths)
qed

lemma unat_page_nth:
  assumes "page_aligned a" and "unat a + n * 4096 \<le> 2 ^ 64" and "i < n"
  shows "unat (a + of_nat i * PGSIZE) = unat a + i * 4096"
proof -
  have "Suc i * 4096 \<le> n * 4096" using assms(3) by (intro mult_le_mono1) simp
  then have lt: "unat a + i * 4096 < 2 ^ 64" using assms(2) by simp
  then have "unat (of_nat i * PGSIZE) = i * 4096"
    by (simp add: unat_word_ariths unat_of_nat take_bit_nat_eq_self)
  then show ?thesis using lt by (simp add: unat_word_ariths)
qed

lemma page_list_props:
  assumes "page_aligned a" and "unat a + n * 4096 \<le> 2 ^ 64"
  shows "distinct (page_list a n)"
    and "\<And>p. p \<in> set (page_list a n) \<longleftrightarrow> page_aligned p \<and> unat a \<le> unat p \<and> unat p < unat a + n * 4096"
proof -
  note nth = unat_page_nth [OF assms]
  have "inj_on (\<lambda>i. a + of_nat i * PGSIZE) {0..<n}"
  proof (rule inj_onI)
    fix i j assume ij: "i \<in> {0..<n}" "j \<in> {0..<n}"
      and "a + of_nat i * PGSIZE = a + of_nat j * PGSIZE"
    then have "unat (a + of_nat i * PGSIZE) = unat (a + of_nat j * PGSIZE)" by (simp only:)
    moreover have "unat (a + of_nat i * PGSIZE) = unat a + i * 4096"
      "unat (a + of_nat j * PGSIZE) = unat a + j * 4096"
      using ij by (auto intro: nth)
    ultimately show "i = j" by linarith
  qed
  then show "distinct (page_list a n)" by (simp add: page_list_def distinct_map)
  fix p
  show "p \<in> set (page_list a n) \<longleftrightarrow> page_aligned p \<and> unat a \<le> unat p \<and> unat p < unat a + n * 4096"
  proof
    assume "p \<in> set (page_list a n)"
    then obtain i where "i < n" "p = a + of_nat i * PGSIZE" by (auto simp: page_list_def)
    then show "page_aligned p \<and> unat a \<le> unat p \<and> unat p < unat a + n * 4096"
      using nth [of i] assms(1) by (auto simp: page_aligned_def)
  next
    assume p: "page_aligned p \<and> unat a \<le> unat p \<and> unat p < unat a + n * 4096"
    then obtain k l where k: "unat p = 4096 * k" and l: "unat a = 4096 * l"
      using assms(1) by (auto simp: page_aligned_def elim!: dvdE)
    with p have "k - l < n" "l \<le> k" by auto
    then have "unat (a + of_nat (k - l) * PGSIZE) = unat p"
      using nth [of "k - l"] k l by (simp add: algebra_simps)
    then have "p = a + of_nat (k - l) * PGSIZE" by (simp add: word_unat_eq_iff)
    with \<open>k - l < n\<close> show "p \<in> set (page_list a n)" by (auto simp: page_list_def)
  qed
qed

lemma count_free_0: "count_free m 0 c = Some c"
  by (subst count_free.simps) simp
lemma count_free_next: "p \<noteq> 0 \<Longrightarrow> count_free m p c = count_free m (load64 m p) (c + 1)"
  by (subst count_free.simps) (rule if_P)
lemma count_free_chain:
  "freechain m p ps \<Longrightarrow> count_free m p c = Some (c + of_nat (length ps))"
proof (induction ps arbitrary: p c)
  case Nil
  then show ?case by (simp add: count_free_0)
next
  case (Cons q qs)
  then have "count_free m p c = count_free m (load64 m p) (c + 1)"
    by (intro count_free_next) auto
  also have "\<dots> = Some (c + 1 + of_nat (length qs))"
    using Cons by (intro Cons.IH) auto
  finally show ?case by simp
qed

lemma free_pages_bound:
  assumes "free_pages s ps"
  shows "length ps \<le> 557056"
proof -
  have al: "p \<in> set ps \<Longrightarrow> page_aligned p \<and> unat p < 2281701376" for p
    using assms by (auto simp: free_pages_def valid_page_def word_less_nat_alt)
  have "inj_on (\<lambda>p. unat p div 4096) (set ps)"
  proof (rule inj_onI)
    fix p q assume "p \<in> set ps" "q \<in> set ps" "unat p div 4096 = unat q div 4096"
    with al [of p] al [of q] have "unat p = unat q"
      by (auto simp: page_aligned_def elim!: dvdE)
    then show "p = q" by (simp add: word_unat_eq_iff)
  qed
  moreover have "unat p div 4096 < 557056" if "p \<in> set ps" for p
    using al [OF that] by (intro less_mult_imp_div_less) simp
  ultimately have "card (set ps) \<le> card {..<557056::nat}"
    by (intro card_inj_on_le [where f = "\<lambda>p. unat p div 4096"]) auto
  then show ?thesis using assms by (simp add: free_pages_def distinct_card)
qed

lemma valid_page_iff_list:
  assumes "0 < e" and "e \<le> PHYSTOP"
  shows "p \<in> set (page_list (PGROUNDUP e) ((unat PHYSTOP - unat (PGROUNDUP e)) div 4096)) \<longleftrightarrow> valid_page e p"
    and "distinct (page_list (PGROUNDUP e) ((unat PHYSTOP - unat (PGROUNDUP e)) div 4096))"
proof -
  define k where "k = (unat e + 4095) div 4096"
  have e: "unat e \<le> 2281701376" using assms(2) by (simp add: word_le_nat_alt)
  have up: "unat (PGROUNDUP e) = k * 4096"
    using e unfolding k_def by (intro unat_PGROUNDUP) simp
  have k: "unat e \<le> k * 4096" "k * 4096 < unat e + 4096"
    using div_mult_mod_eq [of "unat e + 4095" 4096] mod_less_divisor [of 4096 "unat e + 4095"]
    unfolding k_def by linarith+
  have kmax: "k \<le> 557056" using k e by linarith
  have al: "page_aligned (PGROUNDUP e)" by (simp add: page_aligned_def up)
  have "unat PHYSTOP - k * 4096 = (557056 - k) * 4096" by (simp add: diff_mult_distrib)
  then have n: "(unat PHYSTOP - unat (PGROUNDUP e)) div 4096 = 557056 - k" unfolding up by simp
  have room: "unat (PGROUNDUP e) + (557056 - k) * 4096 = 2281701376"
    using kmax unfolding up by (simp add: diff_mult_distrib)
  note list = page_list_props [OF al, of "557056 - k"]
  have stop: "unat (PGROUNDUP e) + (557056 - k) * 4096 \<le> 2 ^ 64" unfolding room by simp
  show "distinct (page_list (PGROUNDUP e) ((unat PHYSTOP - unat (PGROUNDUP e)) div 4096))"
    unfolding n by (rule list(1) [OF stop])
  have "unat (PGROUNDUP e) \<le> unat p \<longleftrightarrow> unat e \<le> unat p" if "page_aligned p"
  proof -
    from that obtain j where j: "unat p = 4096 * j" by (auto simp: page_aligned_def elim!: dvdE)
    have "k * 4096 \<le> 4096 * j" if "unat e \<le> 4096 * j"
    proof -
      have "k * 4096 < 4096 * (j + 1)" using k(2) that by (simp add: algebra_simps)
      then show ?thesis by simp
    qed
    then show ?thesis using k(1) unfolding up j by linarith
  qed
  then show "p \<in> set (page_list (PGROUNDUP e) ((unat PHYSTOP - unat (PGROUNDUP e)) div 4096)) \<longleftrightarrow> valid_page e p"
    unfolding n list(2) [OF stop] room
    by (auto simp: valid_page_def word_le_nat_alt word_less_nat_alt)
qed

text \<open>
  Property C15. After \<^verbatim>\<open>kinit\<close> the free list holds every whole page between the end of
  the kernel and \<^verbatim>\<open>PHYSTOP\<close>, each exactly once, and nothing else.
\<close>

theorem kinit_frees_all_memory:
  assumes "hart_ok s" and "freelist s = 0" and "0 < kend s" and "kend s \<le> PHYSTOP"
  shows "\<exists>s' ps. kinit s = Ok s' \<and> kmem_ok s' \<and> free_pages s' ps \<and> distinct ps \<and>
    set ps = {p. valid_page (kend s) p}"
proof -
  let ?s1 = "initlock KmemLock ''kmem'' s"
  let ?xs = "page_list (PGROUNDUP (kend s)) ((unat PHYSTOP - unat (PGROUNDUP (kend s))) div 4096)"
  note xs = valid_page_iff_list [OF assms(3,4)]
  have s1: "kmem_ok ?s1" "free_pages ?s1 []" "kend ?s1 = kend s"
    using assms by (simp_all add: kmem_ok_def lock_simps free_pages_def initlock_def)
  have "\<exists>s'. mfold kfree ?xs ?s1 = Ok s' \<and> free_pages s' (rev ?xs @ []) \<and> kmem_ok s' \<and> kend s' = kend ?s1"
    using s1 xs by (intro freerange_pages) auto
  then obtain s' where "kinit s = Ok s'" "free_pages s' (rev ?xs)" "kmem_ok s'"
    by (auto simp: kinit_def freerange_def Let_def s1)
  then show ?thesis using xs by (intro exI [of _ s'] exI [of _ "rev ?xs"]) auto
qed

definition boot_mem :: "uint64 \<Rightarrow> physmem" where
  "boot_mem e = \<lparr>tp = 0, sie = (\<lambda>_. False), cpus = (\<lambda>_. \<lparr>cpu_proc = None, noff = 0, intena = False\<rparr>),
     spin = (\<lambda>_. \<lparr>locked = 0, lk_name = [], lk_cpu = None\<rparr>), kend = e, mem = (\<lambda>_. 0), freelist = 0\<rparr>"

theorem kinit_frees_all_memory_witness:
  "\<exists>s' ps. kinit (boot_mem 0x80027020) = Ok s' \<and> kmem_ok s' \<and> free_pages s' ps \<and> distinct ps \<and>
    set ps = {p. valid_page (kend (boot_mem 0x80027020)) p}"
  by (rule kinit_frees_all_memory) (simp_all add: boot_mem_def hart_ok_def)

text \<open>
  Property C16. As long as there are \<open>n\<close> free pages, \<open>n\<close> calls of \<^verbatim>\<open>kalloc\<close> in a row
  return \<open>n\<close> different pages that were free and take exactly these off the free list:
  no page is handed out twice.
\<close>

theorem kalloc_no_page_twice:
  assumes "kmem_ok s" and "free_pages s ps" and "n \<le> length ps"
  shows "\<exists>rs s'. alloc_many kalloc_opt n s = Ok (rs, s') \<and> length rs = n \<and> distinct rs \<and>
    set rs \<subseteq> set ps \<and> kmem_avail s' = set ps - set rs"
proof -
  have "distinct ps" using assms(2) by (simp add: free_pages_def)
  then have "n \<le> card (kmem_avail s)" using assms(3) kmem_avail_eq [OF assms(2)] by (simp add: distinct_card)
  moreover have "kmem_inv s" using assms by (auto simp: kmem_inv_def)
  ultimately show ?thesis
    using kpool.alloc_many_ok kmem_avail_eq [OF assms(2)] by metis
qed

definition two_pages :: physmem where
  "two_pages = (boot_mem 0x87ffd000)\<lparr>mem := store64 (\<lambda>_. 0) 0x87fff000 0x87ffe000, freelist := 0x87fff000\<rparr>"

lemma two_pages_free: "kmem_ok two_pages" "free_pages two_pages [0x87fff000, 0x87ffe000]"
proof -
  show "kmem_ok two_pages" by (simp add: two_pages_def boot_mem_def kmem_ok_def lock_simps)
  have "load64 (store64 (\<lambda>_. 0) 0x87fff000 0x87ffe000) 0x87ffe000 = 0" by code_simp
  then show "free_pages two_pages [0x87fff000, 0x87ffe000]"
    by (simp add: two_pages_def boot_mem_def free_pages_def valid_page_def page_aligned_def)
qed

theorem kalloc_no_page_twice_witness:
  "\<exists>rs s'. alloc_many kalloc_opt 2 two_pages = Ok (rs, s') \<and> length rs = 2 \<and> distinct rs \<and>
    set rs \<subseteq> set [0x87fff000, 0x87ffe000] \<and> kmem_avail s' = set [0x87fff000, 0x87ffe000] - set rs"
  by (rule kalloc_no_page_twice [OF two_pages_free]) simp

text \<open>
  Property C17. \<^verbatim>\<open>kfree\<close> of a page that is in use returns, puts exactly that page back on
  the free list, writes to no byte outside it, and the next \<^verbatim>\<open>kalloc\<close> returns it.
\<close>

theorem kfree_kalloc_roundtrip:
  assumes "kmem_ok s" and "free_pages s ps" and "valid_page (kend s) p" and "p \<notin> set ps"
  shows "\<exists>s1 s2. kfree p s = Ok s1 \<and> free_pages s1 (p # ps) \<and>
    (\<forall>x. \<not> in_page p x \<longrightarrow> mem s1 x = mem s x) \<and>
    kalloc s1 = Ok (p, s2) \<and> free_pages s2 ps \<and> kmem_ok s2"
proof -
  let ?s1 = "(relock s)\<lparr>mem := store64 (memset (mem s) p 1 4096) p (freelist s), freelist := p\<rparr>"
  have s1: "kfree p s = Ok ?s1" "free_pages ?s1 (p # ps)" "kmem_ok ?s1"
    using kfree_pages [OF assms] kfree_eq [OF assms(1,3)] assms(1) by auto
  have "page_aligned p" using assms(3) by (simp add: valid_page_def)
  then have "\<forall>x. \<not> in_page p x \<longrightarrow> mem ?s1 x = mem s x"
    by (simp add: store64_page_start memset_other_page)
  with s1 kalloc_opt_Cons [OF s1(3,2)] show ?thesis by blast
qed

lemma two_pages_used: "valid_page (kend two_pages) 0x87ffd000" "0x87ffd000 \<notin> set [0x87fff000, 0x87ffe000 :: uint64]"
  by (simp_all add: two_pages_def boot_mem_def valid_page_def page_aligned_def)

theorem kfree_kalloc_roundtrip_witness:
  "\<exists>s1 s2. kfree 0x87ffd000 two_pages = Ok s1 \<and>
    free_pages s1 [0x87ffd000, 0x87fff000, 0x87ffe000] \<and>
    (\<forall>x. \<not> in_page 0x87ffd000 x \<longrightarrow> mem s1 x = mem two_pages x) \<and>
    kalloc s1 = Ok (0x87ffd000, s2) \<and> free_pages s2 [0x87fff000, 0x87ffe000] \<and> kmem_ok s2"
  by (rule kfree_kalloc_roundtrip [OF two_pages_free two_pages_used])

text \<open>
  Property C18. \<^verbatim>\<open>kfreepagecount\<close> (the \<^verbatim>\<open>freepmem\<close> system call) returns, and its result is
  the exact number of free pages; the \<^verbatim>\<open>int\<close> counter cannot overflow.
\<close>

theorem kfreepagecount_exact:
  assumes "kmem_ok s" and "free_pages s ps"
  shows "\<exists>s'. kfreepagecount s = Ok (of_nat (length ps), s') \<and> mem s' = mem s \<and> freelist s' = freelist s"
proof -
  have chain: "count_free (mem s) (freelist s) 0 = Some (of_nat (length ps))"
    using assms(2) count_free_chain [of "mem s" "freelist s" ps 0] by (simp add: free_pages_def)
  have "length ps < 2 ^ 31" using free_pages_bound [OF assms(2)] by simp
  then have sc: "(scast (of_nat (length ps) :: 32 word) :: uint64) = of_nat (length ps)"
    by (simp add: signed_of_nat signed_take_bit_int_eq_self)
  have "kfreepagecount s = Ok (scast (of_nat (length ps) :: 32 word),
      (inside KmemLock s)\<lparr>sie := sie s, cpus := cpus (relock s), spin := spin s\<rparr>)"
    unfolding kfreepagecount_def using kmem_okD [OF assms(1)] chain
    by (intro critical_run) (auto simp: inside_def)
  then show ?thesis unfolding sc by (auto simp: inside_def)
qed

theorem kfreepagecount_exact_witness:
  "\<exists>s'. kfreepagecount two_pages = Ok (2, s') \<and> mem s' = mem two_pages \<and> freelist s' = freelist two_pages"
  using kfreepagecount_exact [OF two_pages_free] by simp

end
