(* ===== verification/Vm.thy ===== *)
theory Vm
  imports Kalloc
begin

text \<open>
  \<^verbatim>\<open>kernel/vm.c\<close>: Sv39 page tables. A page table is a tree of pages of 512 entries in
  physical memory; \<open>walk\<close> finds, and with \<open>alloc\<close> makes, the entry of a virtual address.
  Kernel memory is mapped one to one, so a kernel pointer is a physical address; the
  kernel side of \<^verbatim>\<open>copyout\<close> and \<^verbatim>\<open>copyin\<close> is the list of bytes at that pointer.
\<close>

unbundle bit_operations_syntax

section \<open>Page tables\<close>

text \<open>The loop of \<^verbatim>\<open>walk\<close> from \<open>level\<close> down to 1, and the final entry address.\<close>

primrec walk_levels ::
  "uint64 \<Rightarrow> bool \<Rightarrow> nat \<Rightarrow> uint64 \<Rightarrow> 'a physmem_scheme \<Rightarrow> (uint64 \<times> 'a physmem_scheme) res" where
  "walk_levels va alloc 0 pagetable s = Ok (pagetable + 8 * PX 0 va, s)"
| "walk_levels va alloc (Suc l) pagetable s =
     (let pte = pagetable + 8 * PX (Suc l) va in
      if load64 (mem s) pte AND PTE_V \<noteq> 0
      then walk_levels va alloc l (PTE2PA (load64 (mem s) pte)) s
      else if \<not> alloc then Ok (0, s)
      else res_bind (kalloc s) (\<lambda>(pt, s1).
        if pt = 0 then Ok (0, s1)
        else walk_levels va alloc l pt
          (s1\<lparr>mem := store64 (memset (mem s1) pt 0 4096) pte (PA2PTE pt OR PTE_V)\<rparr>)))"

definition walk ::
  "uint64 \<Rightarrow> uint64 \<Rightarrow> bool \<Rightarrow> 'a physmem_scheme \<Rightarrow> (uint64 \<times> 'a physmem_scheme) res" where
  "walk pagetable va alloc s =
     (if va \<ge> MAXVA then Panic ''walk'' else walk_levels va alloc 2 pagetable s)"

definition walkaddr :: "uint64 \<Rightarrow> uint64 \<Rightarrow> 'a physmem_scheme \<Rightarrow> uint64 res" where
  "walkaddr pagetable va s =
     (if va \<ge> MAXVA then Ok 0
      else res_bind (walk pagetable va False s) (\<lambda>(pte, s).
        if pte = 0 then Ok 0
        else if load64 (mem s) pte AND PTE_V = 0 then Ok 0
        else if load64 (mem s) pte AND PTE_U = 0 then Ok 0
        else Ok (PTE2PA (load64 (mem s) pte))))"

text \<open>
  The page loops. \<^verbatim>\<open>for(;;){ ... if(a == last) break; a += PGSIZE; }\<close> runs over
  \<open>pages_through a lst\<close>, \<^verbatim>\<open>for(a = b; a < e; a += PGSIZE)\<close> over \<open>pages_upto b e\<close>.
\<close>

definition pages_through :: "uint64 \<Rightarrow> uint64 \<Rightarrow> uint64 list" where
  "pages_through a lst = page_list a (unat (lst - a) div 4096 + 1)"

definition pages_upto :: "uint64 \<Rightarrow> uint64 \<Rightarrow> uint64 list" where
  "pages_upto b e = page_list b ((unat e - unat b + 4095) div 4096)"

text \<open>The body of the loop of \<^verbatim>\<open>mappages\<close>; \<open>pa\<close> is the physical address for the page \<open>a\<close>.\<close>

definition map_page ::
  "uint64 \<Rightarrow> uint64 \<Rightarrow> uint64 \<Rightarrow> uint64 \<Rightarrow> 'a physmem_scheme \<Rightarrow> (int option \<times> 'a physmem_scheme) res" where
  "map_page pagetable pa perm a s =
     res_bind (walk pagetable a True s) (\<lambda>(pte, s).
       if pte = 0 then Ok (Some (- 1), s)
       else if load64 (mem s) pte AND PTE_V \<noteq> 0 then Panic ''mappages: remap''
       else Ok (None, s\<lparr>mem := store64 (mem s) pte (PA2PTE pa OR perm OR PTE_V)\<rparr>))"

definition mappages ::
  "uint64 \<Rightarrow> uint64 \<Rightarrow> uint64 \<Rightarrow> uint64 \<Rightarrow> uint64 \<Rightarrow> 'a physmem_scheme \<Rightarrow> (int \<times> 'a physmem_scheme) res" where
  "mappages pagetable va sz pa perm s =
     (if sz = 0 then Panic ''mappages: size''
      else let first = PGROUNDDOWN va; lst = PGROUNDDOWN (va + sz - 1) in
        res_bind
          (mloop (\<lambda>a. map_page pagetable (pa + (a - first)) perm a) (pages_through first lst) s)
          (\<lambda>(r, s). Ok (case r of None \<Rightarrow> 0 | Some e \<Rightarrow> e, s)))"

definition kvmmap ::
  "uint64 \<Rightarrow> uint64 \<Rightarrow> uint64 \<Rightarrow> uint64 \<Rightarrow> uint64 \<Rightarrow> 'a physmem_scheme \<Rightarrow> 'a physmem_scheme res" where
  "kvmmap kpgtbl va pa sz perm s =
     res_bind (mappages kpgtbl va sz pa perm s) (\<lambda>(r, s).
       if r \<noteq> 0 then Panic ''kvmmap'' else Ok s)"

definition unmap_page ::
  "uint64 \<Rightarrow> bool \<Rightarrow> uint64 \<Rightarrow> 'a physmem_scheme \<Rightarrow> 'a physmem_scheme res" where
  "unmap_page pagetable do_free a s =
     res_bind (walk pagetable a False s) (\<lambda>(pte, s).
       if pte = 0 then Panic ''uvmunmap: walk''
       else if load64 (mem s) pte AND PTE_V = 0 then Panic ''uvmunmap: not mapped''
       else if PTE_FLAGS (load64 (mem s) pte) = PTE_V then Panic ''uvmunmap: not a leaf''
       else res_bind (if do_free then kfree (PTE2PA (load64 (mem s) pte)) s else Ok s) (\<lambda>s.
         Ok (s\<lparr>mem := store64 (mem s) pte 0\<rparr>)))"

definition uvmunmap ::
  "uint64 \<Rightarrow> uint64 \<Rightarrow> uint64 \<Rightarrow> bool \<Rightarrow> 'a physmem_scheme \<Rightarrow> 'a physmem_scheme res" where
  "uvmunmap pagetable va npages do_free s =
     (if va mod PGSIZE \<noteq> 0 then Panic ''uvmunmap: not aligned''
      else mfold (unmap_page pagetable do_free) (pages_upto va (va + npages * PGSIZE)) s)"

definition uvmcreate :: "'a physmem_scheme \<Rightarrow> (uint64 \<times> 'a physmem_scheme) res" where
  "uvmcreate s =
     res_bind (kalloc s) (\<lambda>(pagetable, s).
       if pagetable = 0 then Ok (0, s)
       else Ok (pagetable, s\<lparr>mem := memset (mem s) pagetable 0 4096\<rparr>))"

text \<open>Storing \<open>bs\<close> at \<open>a\<close>, and the \<open>n\<close> bytes at \<open>a\<close>.\<close>

definition write_bytes :: "memory \<Rightarrow> uint64 \<Rightarrow> uchar list \<Rightarrow> memory" where
  "write_bytes m a bs = (\<lambda>x. if unat (x - a) < length bs then bs ! unat (x - a) else m x)"

definition read_bytes :: "memory \<Rightarrow> uint64 \<Rightarrow> nat \<Rightarrow> uchar list" where
  "read_bytes m a n = map (\<lambda>i. m (a + of_nat i)) [0..<n]"

text \<open>\<open>src\<close> are the \<^verbatim>\<open>sz\<close> bytes of the first user program.\<close>

definition uvminit :: "uint64 \<Rightarrow> uchar list \<Rightarrow> 'a physmem_scheme \<Rightarrow> 'a physmem_scheme res" where
  "uvminit pagetable src s =
     (if length src \<ge> 4096 then Panic ''inituvm: more than a page''
      else res_bind (kalloc s) (\<lambda>(p, s).
        if p = 0 then Fault
        else res_bind (mappages pagetable 0 PGSIZE p (PTE_W OR PTE_R OR PTE_X OR PTE_U)
              (s\<lparr>mem := memset (mem s) p 0 4096\<rparr>)) (\<lambda>(_, s).
          Ok (s\<lparr>mem := write_bytes (mem s) p src\<rparr>))))"

text \<open>\<^verbatim>\<open>npages\<close> is an \<^verbatim>\<open>int\<close> here and a \<^verbatim>\<open>uint64\<close> in \<^verbatim>\<open>uvmunmap\<close>.\<close>

definition uvmdealloc ::
  "uint64 \<Rightarrow> uint64 \<Rightarrow> uint64 \<Rightarrow> 'a physmem_scheme \<Rightarrow> (uint64 \<times> 'a physmem_scheme) res" where
  "uvmdealloc pagetable oldsz newsz s =
     (if newsz \<ge> oldsz then Ok (oldsz, s)
      else if PGROUNDUP newsz < PGROUNDUP oldsz then
        let npages = (ucast ((PGROUNDUP oldsz - PGROUNDUP newsz) div PGSIZE) :: 32 word) in
        res_bind (uvmunmap pagetable (PGROUNDUP newsz) (scast npages) True s) (\<lambda>s. Ok (newsz, s))
      else Ok (newsz, s))"

definition uvmalloc ::
  "uint64 \<Rightarrow> uint64 \<Rightarrow> uint64 \<Rightarrow> 'a physmem_scheme \<Rightarrow> (uint64 \<times> 'a physmem_scheme) res" where
  "uvmalloc pagetable oldsz newsz s =
     (if newsz < oldsz then Ok (oldsz, s)
      else let oldsz = PGROUNDUP oldsz in
        res_bind
          (mloop (\<lambda>a s.
             res_bind (kalloc s) (\<lambda>(p, s).
               if p = 0 then
                 res_bind (uvmdealloc pagetable a oldsz s) (\<lambda>(_, s). Ok (Some 0, s))
               else
                 res_bind (mappages pagetable a PGSIZE p (PTE_W OR PTE_X OR PTE_R OR PTE_U)
                     (s\<lparr>mem := memset (mem s) p 0 4096\<rparr>)) (\<lambda>(r, s).
                   if r \<noteq> 0 then
                     res_bind (kfree p s) (\<lambda>s.
                       res_bind (uvmdealloc pagetable a oldsz s) (\<lambda>(_, s). Ok (Some 0, s)))
                   else Ok (None, s))))
             (pages_upto oldsz newsz) s)
          (\<lambda>(r, s). Ok (case r of None \<Rightarrow> newsz | Some v \<Rightarrow> v, s)))"

text \<open>
  \<^verbatim>\<open>freewalk\<close> calls itself once per level of the tree. \<open>depth\<close> counts the activations left; the
  trees that the kernel builds have three levels, so 64 are more than enough for them. On a tree
  with a cycle the code recurses until it runs off its stack page, which is \<open>Fault\<close> here.
\<close>

primrec freewalk_depth :: "nat \<Rightarrow> uint64 \<Rightarrow> 'a physmem_scheme \<Rightarrow> 'a physmem_scheme res" where
  "freewalk_depth 0 pagetable s = Fault"
| "freewalk_depth (Suc depth) pagetable s =
     res_bind
       (mfold (\<lambda>i s.
          let pte = load64 (mem s) (pagetable + 8 * of_nat i) in
          if pte AND PTE_V \<noteq> 0 \<and> pte AND (PTE_R OR PTE_W OR PTE_X) = 0 then
            res_bind (freewalk_depth depth (PTE2PA pte) s) (\<lambda>s.
              Ok (s\<lparr>mem := store64 (mem s) (pagetable + 8 * of_nat i) 0\<rparr>))
          else if pte AND PTE_V \<noteq> 0 then Panic ''freewalk: leaf''
          else Ok s) [0..<512] s)
       (kfree pagetable)"

definition freewalk :: "uint64 \<Rightarrow> 'a physmem_scheme \<Rightarrow> 'a physmem_scheme res" where
  "freewalk = freewalk_depth 64"

definition uvmfree :: "uint64 \<Rightarrow> uint64 \<Rightarrow> 'a physmem_scheme \<Rightarrow> 'a physmem_scheme res" where
  "uvmfree pagetable sz s =
     res_bind (if sz > 0 then uvmunmap pagetable 0 (PGROUNDUP sz div PGSIZE) True s else Ok s)
       (freewalk pagetable)"

definition uvmcopy ::
  "uint64 \<Rightarrow> uint64 \<Rightarrow> uint64 \<Rightarrow> uint64 \<Rightarrow> 'a physmem_scheme \<Rightarrow> (int \<times> 'a physmem_scheme) res" where
  "uvmcopy old new start end s =
     res_bind
       (mloop (\<lambda>i s.
          res_bind (walk old i False s) (\<lambda>(pte, s).
            if pte = 0 then Panic ''uvmcopy: pte should exist''
            else if load64 (mem s) pte AND PTE_V = 0 then Panic ''uvmcopy: page not present''
            else let pa = PTE2PA (load64 (mem s) pte); flags = PTE_FLAGS (load64 (mem s) pte) in
              res_bind (kalloc s) (\<lambda>(p, s).
                if p = 0 then Ok (Some i, s)
                else res_bind (mappages new i PGSIZE p flags
                       (s\<lparr>mem := memmove (mem s) p pa 4096\<rparr>)) (\<lambda>(r, s).
                  if r \<noteq> 0 then res_bind (kfree p s) (\<lambda>s. Ok (Some i, s))
                  else Ok (None, s)))))
          (pages_upto start end) s)
       (\<lambda>(r, s). case r of None \<Rightarrow> Ok (0, s)
        | Some i \<Rightarrow> res_bind (uvmunmap new 0 (i div PGSIZE) True s) (\<lambda>s. Ok (- 1, s)))"

definition uvmcopyshared ::
  "uint64 \<Rightarrow> uint64 \<Rightarrow> uint64 \<Rightarrow> uint64 \<Rightarrow> 'a physmem_scheme \<Rightarrow> (int \<times> 'a physmem_scheme) res" where
  "uvmcopyshared old new start end s =
     res_bind
       (mloop (\<lambda>i s.
          res_bind (walk old i False s) (\<lambda>(pte, s).
            if pte = 0 then Panic ''uvmcopy: pte should exist''
            else if load64 (mem s) pte AND PTE_V = 0 then Panic ''uvmcopy: page not present''
            else let pa = PTE2PA (load64 (mem s) pte); flags = PTE_FLAGS (load64 (mem s) pte) in
              res_bind (mappages new i PGSIZE pa flags s) (\<lambda>(r, s).
                if r \<noteq> 0 then Ok (Some i, s) else Ok (None, s))))
          (pages_upto start end) s)
       (\<lambda>(r, s). case r of None \<Rightarrow> Ok (0, s)
        | Some i \<Rightarrow> res_bind (uvmunmap new 0 (i div PGSIZE) True s) (\<lambda>s. Ok (- 1, s)))"

definition uvmclear :: "uint64 \<Rightarrow> uint64 \<Rightarrow> 'a physmem_scheme \<Rightarrow> 'a physmem_scheme res" where
  "uvmclear pagetable va s =
     res_bind (walk pagetable va False s) (\<lambda>(pte, s).
       if pte = 0 then Panic ''uvmclear''
       else Ok (s\<lparr>mem := store64 (mem s) pte (load64 (mem s) pte AND NOT PTE_U)\<rparr>))"

text \<open>Allocates the page-table pages of a range but leaves its entries invalid (added for mmap).\<close>

definition mapvpages ::
  "uint64 \<Rightarrow> uint64 \<Rightarrow> uint64 \<Rightarrow> 'a physmem_scheme \<Rightarrow> (int \<times> 'a physmem_scheme) res" where
  "mapvpages pagetable va sz s =
     (if sz = 0 then Panic ''mappages: size''
      else let first = PGROUNDDOWN va; lst = PGROUNDDOWN (va + sz - 1) in
        res_bind
          (mloop (\<lambda>a s.
             res_bind (walk pagetable a True s) (\<lambda>(pte, s).
               if pte = 0 then Ok (Some (- 1), s)
               else if load64 (mem s) pte AND PTE_V \<noteq> 0 then Panic ''mappages: remap''
               else Ok (None, s)))
             (pages_through first lst) s)
          (\<lambda>(r, s). Ok (case r of None \<Rightarrow> 0 | Some e \<Rightarrow> e, s)))"

section \<open>Copying between kernel and user space\<close>

text \<open>The number of bytes from \<open>a\<close> to the end of its page.\<close>

definition page_rest :: "uint64 \<Rightarrow> nat" where
  "page_rest a = unat (PGSIZE - (a - PGROUNDDOWN a))"

lemma page_rest_bounds: "0 < page_rest a" "page_rest a \<le> 4096"
proof -
  have "unat (a - PGROUNDDOWN a) < 4096" using in_page_PGROUNDDOWN [of a] by (simp add: in_page_def)
  then have "page_rest a = 4096 - unat (a - PGROUNDDOWN a)"
    unfolding page_rest_def by (subst unat_sub) (simp_all add: word_le_nat_alt)
  then show "0 < page_rest a" "page_rest a \<le> 4096"
    using \<open>unat (a - PGROUNDDOWN a) < 4096\<close> by simp_all
qed

text \<open>\<open>src\<close> are the \<^verbatim>\<open>len\<close> bytes to be copied out.\<close>

function copyout ::
  "uint64 \<Rightarrow> uint64 \<Rightarrow> uchar list \<Rightarrow> 'a physmem_scheme \<Rightarrow> (int \<times> 'a physmem_scheme) res" where
  "copyout pagetable dstva src s =
     (if src = [] then Ok (0, s)
      else let va0 = PGROUNDDOWN dstva in
        res_bind (walkaddr pagetable va0 s) (\<lambda>pa0.
          if pa0 = 0 then Ok (- 1, s)
          else let n = min (page_rest dstva) (length src) in
            copyout pagetable (va0 + PGSIZE) (drop n src)
              (s\<lparr>mem := write_bytes (mem s) (pa0 + (dstva - va0)) (take n src)\<rparr>)))"
  by pat_completeness auto
termination
  by (relation "measure (\<lambda>(_, _, src, _). length src)") (auto simp: page_rest_bounds)

text \<open>Returns the status and the bytes stored at \<^verbatim>\<open>dst\<close>.\<close>

function copyin ::
  "uint64 \<Rightarrow> uint64 \<Rightarrow> nat \<Rightarrow> 'a physmem_scheme \<Rightarrow> (int \<times> uchar list) res" where
  "copyin pagetable srcva len s =
     (if len = 0 then Ok (0, [])
      else let va0 = PGROUNDDOWN srcva in
        res_bind (walkaddr pagetable va0 s) (\<lambda>pa0.
          if pa0 = 0 then Ok (- 1, [])
          else let n = min (page_rest srcva) len in
            res_bind (copyin pagetable (va0 + PGSIZE) (len - n) s) (\<lambda>(r, bs).
              Ok (r, read_bytes (mem s) (pa0 + (srcva - va0)) n @ bs))))"
  by pat_completeness auto
termination
  by (relation "measure (\<lambda>(_, _, len, _). len)") (auto simp: page_rest_bounds)

text \<open>The inner loop of \<^verbatim>\<open>copyinstr\<close>: copy up to \<open>n\<close> bytes, stop after a NUL.\<close>

primrec copystr_page :: "memory \<Rightarrow> uint64 \<Rightarrow> nat \<Rightarrow> bool \<times> uchar list" where
  "copystr_page m p 0 = (False, [])"
| "copystr_page m p (Suc n) =
     (if m p = 0 then (True, [0])
      else let (got_null, bs) = copystr_page m (p + 1) n in (got_null, m p # bs))"

function copyinstr ::
  "uint64 \<Rightarrow> uint64 \<Rightarrow> nat \<Rightarrow> 'a physmem_scheme \<Rightarrow> (int \<times> uchar list) res" where
  "copyinstr pagetable srcva mx s =
     (if mx = 0 then Ok (- 1, [])
      else let va0 = PGROUNDDOWN srcva in
        res_bind (walkaddr pagetable va0 s) (\<lambda>pa0.
          if pa0 = 0 then Ok (- 1, [])
          else let n = min (page_rest srcva) mx;
                   (got_null, bs) = copystr_page (mem s) (pa0 + (srcva - va0)) n in
            if got_null then Ok (0, bs)
            else res_bind (copyinstr pagetable (va0 + PGSIZE) (mx - n) s) (\<lambda>(r, bs').
              Ok (r, bs @ bs'))))"
  by pat_completeness auto
termination
  by (relation "measure (\<lambda>(_, _, mx, _). mx)") (auto simp: page_rest_bounds)

declare copyout.simps [simp del] copyin.simps [simp del] copyinstr.simps [simp del]

section \<open>The kernel page table\<close>

definition proc_mapstacks :: "uint64 \<Rightarrow> 'a physmem_scheme \<Rightarrow> 'a physmem_scheme res" where
  "proc_mapstacks kpgtbl =
     mfold (\<lambda>i s.
       res_bind (kalloc s) (\<lambda>(pa, s).
         if pa = 0 then Panic ''kalloc''
         else kvmmap kpgtbl (KSTACK i) pa PGSIZE (PTE_R OR PTE_W) s)) [0..<NPROC]"

text \<open>
  The linker symbols \<^verbatim>\<open>etext\<close> and \<^verbatim>\<open>trampoline\<close> are arguments. The devices are at the
  addresses of \<^verbatim>\<open>memlayout.h\<close>.
\<close>

definition kvmmake ::
  "uint64 \<Rightarrow> uint64 \<Rightarrow> 'a physmem_scheme \<Rightarrow> (uint64 \<times> 'a physmem_scheme) res" where
  "kvmmake etext trampoline s =
     res_bind (kalloc s) (\<lambda>(kpgtbl, s).
       if kpgtbl = 0 then Fault
       else res_bind
         (mfold (\<lambda>(va, pa, sz, perm). kvmmap kpgtbl va pa sz perm)
           [(UART0, UART0, PGSIZE, PTE_R OR PTE_W),
            (VIRTIO0, VIRTIO0, PGSIZE, PTE_R OR PTE_W),
            (PLIC, PLIC, 0x400000, PTE_R OR PTE_W),
            (KERNBASE, KERNBASE, etext - KERNBASE, PTE_R OR PTE_X),
            (etext, etext, PHYSTOP - etext, PTE_R OR PTE_W),
            (TRAMPOLINE, trampoline, PGSIZE, PTE_R OR PTE_X)]
           (s\<lparr>mem := memset (mem s) kpgtbl 0 4096\<rparr>))
         (\<lambda>s. res_bind (proc_mapstacks kpgtbl s) (\<lambda>s. Ok (kpgtbl, s))))"

end
