(* ===== verification/Pagetable.thy ===== *)
theory Pagetable
  imports Vm
begin

text \<open>
  What the page tables of \<^verbatim>\<open>kernel/vm.c\<close> mean: the tree of page-table pages in physical
  memory, its well-formedness, the translation it stands for, and how storing an entry and
  allocating a page-table page change them.
\<close>

unbundle bit_operations_syntax

section \<open>The tree of page-table pages\<close>

abbreviation pte_at :: "memory \<Rightarrow> uint64 \<Rightarrow> nat \<Rightarrow> uint64" where
  "pte_at m pt i \<equiv> load64 m (pt + 8 * of_nat i)"

text \<open>The pages of the table at \<open>pt\<close> whose entries are of level \<open>l\<close>, and of one entry.\<close>

primrec tabs :: "nat \<Rightarrow> memory \<Rightarrow> uint64 \<Rightarrow> uint64 set" where
  "tabs 0 m pt = {pt}"
| "tabs (Suc l) m pt =
     insert pt (\<Union>i<512. if pte_at m pt i AND PTE_V \<noteq> 0 then tabs l m (PTE2PA (pte_at m pt i)) else {})"

definition kid :: "nat \<Rightarrow> memory \<Rightarrow> uint64 \<Rightarrow> nat \<Rightarrow> uint64 set" where
  "kid l m pt i = (if pte_at m pt i AND PTE_V \<noteq> 0 then tabs l m (PTE2PA (pte_at m pt i)) else {})"

text \<open>A tree: valid pages, none of them used twice.\<close>

primrec pt_wf :: "uint64 \<Rightarrow> nat \<Rightarrow> memory \<Rightarrow> uint64 \<Rightarrow> bool" where
  "pt_wf e 0 m pt \<longleftrightarrow> valid_page e pt"
| "pt_wf e (Suc l) m pt \<longleftrightarrow> valid_page e pt \<and>
     (\<forall>i<512. pte_at m pt i AND PTE_V \<noteq> 0 \<longrightarrow> pt_wf e l m (PTE2PA (pte_at m pt i))) \<and>
     (\<forall>i<512. pt \<notin> kid l m pt i) \<and>
     (\<forall>i<512. \<forall>j<512. i \<noteq> j \<longrightarrow> kid l m pt i \<inter> kid l m pt j = {})"

text \<open>The lowest-level table on the path of \<open>va\<close>, and the entry of \<open>va\<close> (0 when there is none).\<close>

primrec leaf_table :: "nat \<Rightarrow> memory \<Rightarrow> uint64 \<Rightarrow> uint64 \<Rightarrow> uint64 option" where
  "leaf_table 0 m pt va = Some pt"
| "leaf_table (Suc l) m pt va =
     (let pte = load64 m (pt + 8 * PX (Suc l) va) in
      if pte AND PTE_V \<noteq> 0 then leaf_table l m (PTE2PA pte) va else None)"

definition pte_of :: "nat \<Rightarrow> memory \<Rightarrow> uint64 \<Rightarrow> uint64 \<Rightarrow> uint64" where
  "pte_of l m pt va = (case leaf_table l m pt va of None \<Rightarrow> 0 | Some p \<Rightarrow> load64 m (p + 8 * PX 0 va))"

definition same_on :: "uint64 set \<Rightarrow> memory \<Rightarrow> memory \<Rightarrow> bool" where
  "same_on S m m' \<longleftrightarrow> (\<forall>p\<in>S. \<forall>x. in_page p x \<longrightarrow> m' x = m x)"

lemma tabs_Suc: "tabs (Suc l) m pt = insert pt (\<Union>i<512. kid l m pt i)"
  by (simp add: kid_def)

declare tabs.simps(2) [simp del]

lemma root_in_tabs [simp]: "pt \<in> tabs l m pt"
  by (cases l) (simp_all add: tabs_Suc)

lemma PX_less: "unat (PX l va) < 512"
proof -
  have "PX l va \<le> 511" unfolding PX_def by (rule word_and_le1)
  then have "unat (PX l va) \<le> unat (511 :: uint64)" by (simp only: word_le_nat_alt)
  then show ?thesis by simp
qed

lemma PX_index: obtains i where "i < 512" and "PX l va = of_nat i" and "unat (PX l va) = i"
  using PX_less [of l va] by (rule that) simp_all

lemma unat_slot: "i < 512 \<Longrightarrow> unat (8 * of_nat i :: uint64) = 8 * i"
  by (simp add: unat_word_ariths unat_of_nat)

lemma slot_in_page: "i < 512 \<Longrightarrow> j < 8 \<Longrightarrow> in_page pt (pt + 8 * of_nat i + j)"
proof -
  assume i: "i < 512" and "j < 8"
  then have j: "unat j < 8" by (simp add: word_less_nat_alt)
  have "unat (8 * of_nat i + j) \<le> unat (8 * of_nat i :: uint64) + unat j" by (simp add: unat_word_ariths)
  also have "\<dots> < 4096" using i j by (simp add: unat_slot)
  finally show ?thesis by (simp add: in_page_def add.assoc)
qed

lemma same_on_pte: "same_on S m m' \<Longrightarrow> pt \<in> S \<Longrightarrow> i < 512 \<Longrightarrow> pte_at m' pt i = pte_at m pt i"
  by (rule load64_cong) (simp add: same_on_def slot_in_page)

lemma same_on_mono: "same_on S m m' \<Longrightarrow> T \<subseteq> S \<Longrightarrow> same_on T m m'"
  by (auto simp: same_on_def)

lemma same_on_refl [simp]: "same_on S m m" by (simp add: same_on_def)

lemma same_on_trans: "same_on S m m1 \<Longrightarrow> same_on S m1 m2 \<Longrightarrow> same_on S m m2"
  by (simp add: same_on_def)

lemma kid_cong:
  assumes "pte_at m' pt i = pte_at m pt i"
    and "pte_at m pt i AND PTE_V \<noteq> 0 \<Longrightarrow> tabs l m' (PTE2PA (pte_at m pt i)) = tabs l m (PTE2PA (pte_at m pt i))"
  shows "kid l m' pt i = kid l m pt i"
  using assms by (simp add: kid_def)

lemma kid_child: "pte_at m pt i AND PTE_V \<noteq> 0 \<Longrightarrow> kid l m pt i = tabs l m (PTE2PA (pte_at m pt i))"
  by (simp add: kid_def)

lemma kid_subset: "i < 512 \<Longrightarrow> kid l m pt i \<subseteq> tabs (Suc l) m pt"
  by (auto simp: tabs_Suc)

lemma tabs_frame: "same_on (tabs l m pt) m m' \<Longrightarrow> tabs l m' pt = tabs l m pt"
proof (induction l arbitrary: pt)
  case 0
  then show ?case by simp
next
  case (Suc l)
  have "kid l m' pt i = kid l m pt i" if "i < 512" for i
  proof (rule kid_cong)
    show "pte_at m' pt i = pte_at m pt i" using Suc.prems that by (rule_tac same_on_pte) auto
    show "tabs l m' (PTE2PA (pte_at m pt i)) = tabs l m (PTE2PA (pte_at m pt i))"
      if "pte_at m pt i AND PTE_V \<noteq> 0"
      using Suc.prems kid_subset [OF \<open>i < 512\<close>, of l m pt] that
      by (intro Suc.IH) (auto simp: kid_child elim: same_on_mono)
  qed
  then show ?case by (simp add: tabs_Suc)
qed

lemma kid_frame:
  assumes "same_on (insert pt (kid l m pt i)) m m'" and "i < 512"
  shows "kid l m' pt i = kid l m pt i"
proof (rule kid_cong)
  show "pte_at m' pt i = pte_at m pt i" using assms by (rule_tac same_on_pte) auto
  show "tabs l m' (PTE2PA (pte_at m pt i)) = tabs l m (PTE2PA (pte_at m pt i))"
    if "pte_at m pt i AND PTE_V \<noteq> 0"
    using assms that by (intro tabs_frame) (auto simp: kid_child elim: same_on_mono)
qed

lemma pt_wf_frame: "same_on (tabs l m pt) m m' \<Longrightarrow> pt_wf e l m' pt = pt_wf e l m pt"
proof (induction l arbitrary: pt)
  case 0
  then show ?case by simp
next
  case (Suc l)
  have kids: "same_on (insert pt (kid l m pt i)) m m'" if "i < 512" for i
    using kid_subset [OF that, of l m pt] Suc.prems by (auto elim!: same_on_mono)
  have pte: "pte_at m' pt i = pte_at m pt i" if "i < 512" for i
    using Suc.prems that by (rule_tac same_on_pte) auto
  have "pt_wf e l m' (PTE2PA (pte_at m pt i)) = pt_wf e l m (PTE2PA (pte_at m pt i))"
    if "i < 512" "pte_at m pt i AND PTE_V \<noteq> 0" for i
    using kids [OF that(1)] that by (intro Suc.IH) (auto simp: kid_child elim: same_on_mono)
  then show ?case using kid_frame [OF kids] pte by simp
qed

lemma leaf_table_in: "leaf_table l m pt va = Some p \<Longrightarrow> p \<in> tabs l m pt"
proof (induction l arbitrary: pt)
  case 0
  then show ?case by simp
next
  case (Suc l)
  obtain i where i: "i < 512" "PX (Suc l) va = of_nat i" by (rule PX_index)
  with Suc.prems have v: "pte_at m pt i AND PTE_V \<noteq> 0" and "leaf_table l m (PTE2PA (pte_at m pt i)) va = Some p"
    by (auto simp: Let_def split: if_splits)
  with Suc.IH have "p \<in> kid l m pt i" by (simp add: kid_child)
  with i show ?case using kid_subset by blast
qed

lemma leaf_table_frame: "same_on (tabs l m pt) m m' \<Longrightarrow> leaf_table l m' pt va = leaf_table l m pt va"
proof (induction l arbitrary: pt)
  case 0
  then show ?case by simp
next
  case (Suc l)
  obtain i where i: "i < 512" "PX (Suc l) va = of_nat i" by (rule PX_index)
  have pte: "pte_at m' pt i = pte_at m pt i" using Suc.prems i by (rule_tac same_on_pte) auto
  have "leaf_table l m' (PTE2PA (pte_at m pt i)) va = leaf_table l m (PTE2PA (pte_at m pt i)) va"
    if "pte_at m pt i AND PTE_V \<noteq> 0"
    using Suc.prems kid_subset [OF i(1), of l m pt] that
    by (intro Suc.IH) (auto simp: kid_child elim: same_on_mono)
  then show ?case using i pte by (simp add: Let_def)
qed

lemma pte_of_frame:
  assumes "same_on (tabs l m pt) m m'"
  shows "pte_of l m' pt va = pte_of l m pt va"
proof (cases "leaf_table l m pt va")
  case None
  then show ?thesis using leaf_table_frame [OF assms] by (simp add: pte_of_def)
next
  case (Some p)
  obtain i where "i < 512" "PX 0 va = of_nat i" by (rule PX_index)
  with same_on_pte [OF assms leaf_table_in [OF Some]] Some show ?thesis
    using leaf_table_frame [OF assms] by (simp add: pte_of_def)
qed

lemma pt_wf_child:
  "pt_wf e (Suc l) m pt \<Longrightarrow> i < 512 \<Longrightarrow> pte_at m pt i AND PTE_V \<noteq> 0 \<Longrightarrow> pt_wf e l m (PTE2PA (pte_at m pt i))"
  by simp

lemma pt_wf_disj:
  assumes "pt_wf e (Suc l) m pt" and "i < 512" and "p \<in> kid l m pt i"
  shows "p \<noteq> pt" and "j < 512 \<Longrightarrow> j \<noteq> i \<Longrightarrow> p \<notin> kid l m pt j"
proof -
  have "\<forall>i<512. pt \<notin> kid l m pt i" and d: "\<forall>i<512. \<forall>j<512. i \<noteq> j \<longrightarrow> kid l m pt i \<inter> kid l m pt j = {}"
    using assms(1) by simp_all
  then show "p \<noteq> pt" using assms by blast
  show "j < 512 \<Longrightarrow> j \<noteq> i \<Longrightarrow> p \<notin> kid l m pt j" using d assms by blast
qed

lemma tabs_valid: "pt_wf e l m pt \<Longrightarrow> p \<in> tabs l m pt \<Longrightarrow> valid_page e p"
proof (induction l arbitrary: pt)
  case 0
  then show ?case by simp
next
  case (Suc l)
  show ?case
  proof (cases "p = pt")
    case True
    then show ?thesis using Suc.prems by simp
  next
    case False
    then obtain i where i: "i < 512" "p \<in> kid l m pt i" using Suc.prems(2) by (auto simp: tabs_Suc)
    then have v: "pte_at m pt i AND PTE_V \<noteq> 0" by (auto simp: kid_def split: if_splits)
    then show ?thesis using Suc.IH [OF pt_wf_child [OF Suc.prems(1) i(1) v]] i by (simp add: kid_child)
  qed
qed

lemma leaf_table_path:
  "pt_wf e l m pt \<Longrightarrow> leaf_table l m pt va = Some p \<Longrightarrow> leaf_table l m pt va' = Some p \<Longrightarrow>
   j \<in> {1..l} \<Longrightarrow> PX j va = PX j va'"
proof (induction l arbitrary: pt)
  case 0
  then show ?case by simp
next
  case (Suc l)
  obtain i where i: "i < 512" "PX (Suc l) va = of_nat i" by (rule PX_index)
  obtain i' where i': "i' < 512" "PX (Suc l) va' = of_nat i'" by (rule PX_index)
  from Suc.prems(2) i have v: "pte_at m pt i AND PTE_V \<noteq> 0" "leaf_table l m (PTE2PA (pte_at m pt i)) va = Some p"
    by (auto simp: Let_def split: if_splits)
  from Suc.prems(3) i' have v': "pte_at m pt i' AND PTE_V \<noteq> 0" "leaf_table l m (PTE2PA (pte_at m pt i')) va' = Some p"
    by (auto simp: Let_def split: if_splits)
  have "p \<in> kid l m pt i \<inter> kid l m pt i'"
    using v v' leaf_table_in by (auto simp: kid_child)
  with Suc.prems(1) i i' have ii: "i = i'" by (metis empty_iff pt_wf.simps(2))
  show ?case
  proof (cases "j = Suc l")
    case True
    then show ?thesis using i i' ii by simp
  next
    case False
    with Suc.prems(4) have "j \<in> {1..l}" by auto
    then show ?thesis using Suc.IH [OF pt_wf_child [OF Suc.prems(1) i(1) v(1)] v(2)] v'(2) ii by simp
  qed
qed


text \<open>
  Replacing what hangs below one entry: \<open>m'\<close> has the well-formed subtree \<open>c\<close> below entry
  \<open>i\<close> of \<open>pt\<close>, and is like \<open>m\<close> on the other entries and what hangs below them.
\<close>

definition grafted :: "uint64 \<Rightarrow> nat \<Rightarrow> memory \<Rightarrow> memory \<Rightarrow> uint64 \<Rightarrow> nat \<Rightarrow> uint64 \<Rightarrow> bool" where
  "grafted e l m m' pt i c \<longleftrightarrow> pt_wf e (Suc l) m pt \<and> i < 512 \<and>
     (\<forall>j<512. j \<noteq> i \<longrightarrow> pte_at m' pt j = pte_at m pt j \<and> same_on (kid l m pt j) m m' \<and>
        tabs l m' c \<inter> kid l m pt j = {}) \<and>
     pte_at m' pt i AND PTE_V \<noteq> 0 \<and> PTE2PA (pte_at m' pt i) = c \<and> pt_wf e l m' c \<and> pt \<notin> tabs l m' c"

lemma graft_child:
  assumes "grafted e l m m' pt i c" and "j < 512" and "j \<noteq> i" and "pte_at m pt j AND PTE_V \<noteq> 0"
  shows "same_on (tabs l m (PTE2PA (pte_at m pt j))) m m'"
  using assms by (metis grafted_def kid_child)

lemma graft_kid:
  assumes "grafted e l m m' pt i c" and "j < 512"
  shows "kid l m' pt j = (if j = i then tabs l m' c else kid l m pt j)"
proof (cases "j = i")
  case True
  then show ?thesis using assms by (simp add: grafted_def kid_child)
next
  case False
  have "kid l m' pt j = kid l m pt j"
    using assms False graft_child [OF assms False]
    by (intro kid_cong tabs_frame) (simp_all add: grafted_def)
  then show ?thesis using False by simp
qed

lemma graft_tabs:
  assumes "grafted e l m m' pt i c"
  shows "tabs (Suc l) m' pt = insert pt (tabs l m' c \<union> (\<Union>j\<in>{..<512} - {i}. kid l m pt j))"
proof -
  have i: "i < 512" using assms by (simp add: grafted_def)
  then have "{..<512} = insert i ({..<512} - {i})" by auto
  then have "(\<Union>j<512. kid l m' pt j) = kid l m' pt i \<union> (\<Union>j\<in>{..<512} - {i}. kid l m' pt j)" by blast
  also have "\<dots> = tabs l m' c \<union> (\<Union>j\<in>{..<512} - {i}. kid l m pt j)"
    using i graft_kid [OF assms] by simp
  finally show ?thesis by (simp add: tabs_Suc)
qed

lemma graft_wf:
  assumes "grafted e l m m' pt i c"
  shows "pt_wf e (Suc l) m' pt"
proof -
  have "pt_wf e l m' (PTE2PA (pte_at m' pt j))" if j: "j < 512" "pte_at m' pt j AND PTE_V \<noteq> 0" for j
  proof (cases "j = i")
    case True
    then show ?thesis using assms unfolding grafted_def by blast
  next
    case False
    with assms j have p: "pte_at m' pt j = pte_at m pt j" "pt_wf e (Suc l) m pt" by (simp_all add: grafted_def)
    with j have "pt_wf e l m (PTE2PA (pte_at m pt j))" by (intro pt_wf_child) simp_all
    then show ?thesis using pt_wf_frame [OF graft_child [OF assms j(1) False]] p j by simp
  qed
  moreover have "pt \<notin> kid l m' pt j" if "j < 512" for j
    using that assms graft_kid [OF assms that] by (simp add: grafted_def)
  moreover have "kid l m' pt j \<inter> kid l m' pt k = {}" if "j < 512" "k < 512" "j \<noteq> k" for j k
    using that assms graft_kid [OF assms that(1)] graft_kid [OF assms that(2)]
    by (simp add: grafted_def Int_commute)
  moreover have "valid_page e pt" using assms by (simp add: grafted_def)
  ultimately show ?thesis by simp
qed

lemma of_nat_index_eq: "i < 512 \<Longrightarrow> j < 512 \<Longrightarrow> (of_nat i :: uint64) = of_nat j \<longleftrightarrow> i = j"
  by (simp add: word_unat_eq_iff unat_of_nat)

lemma graft_leaf:
  assumes "grafted e l m m' pt i c"
  shows "leaf_table (Suc l) m' pt va =
    (if PX (Suc l) va = of_nat i then leaf_table l m' c va else leaf_table (Suc l) m pt va)"
proof -
  have i: "i < 512" using assms by (simp add: grafted_def)
  obtain j where j: "j < 512" "PX (Suc l) va = of_nat j" by (rule PX_index)
  show ?thesis
  proof (cases "j = i")
    case True
    then show ?thesis using j assms by (simp add: grafted_def)
  next
    case False
    then have "pte_at m' pt j = pte_at m pt j" using assms j by (simp add: grafted_def)
    then show ?thesis using j i False leaf_table_frame [OF graft_child [OF assms j(1) False]]
      by (auto simp: Let_def of_nat_index_eq)
  qed
qed

lemma graft_pte:
  assumes "grafted e l m m' pt i c"
  shows "pte_of (Suc l) m' pt va = (if PX (Suc l) va = of_nat i then pte_of l m' c va else pte_of (Suc l) m pt va)"
proof (cases "PX (Suc l) va = of_nat i")
  case True
  then show ?thesis by (simp only: pte_of_def graft_leaf [OF assms] refl if_True)
next
  case False
  have i: "i < 512" using assms by (simp add: grafted_def)
  obtain j where j: "j < 512" "PX (Suc l) va = of_nat j" by (rule PX_index)
  with False have ji: "j \<noteq> i" by auto
  with j assms have p: "pte_at m' pt j = pte_at m pt j" by (simp add: grafted_def)
  show ?thesis
  proof (cases "pte_at m pt j AND PTE_V = 0")
    case True
    then show ?thesis using j p ji i by (simp add: pte_of_def of_nat_index_eq)
  next
    case v: False
    then have "pte_of l m' (PTE2PA (pte_at m pt j)) va = pte_of l m (PTE2PA (pte_at m pt j)) va"
      by (rule pte_of_frame [OF graft_child [OF assms j(1) ji]])
    then show ?thesis using j p ji i v by (simp add: pte_of_def of_nat_index_eq)
  qed
qed

section \<open>Writing a leaf entry\<close>

text \<open>Writes that stay inside one page leave the others alone.\<close>

lemma same_on_other:
  assumes "\<And>x. \<not> in_page p x \<Longrightarrow> m' x = m x" and "page_aligned p"
    and "\<And>q. q \<in> S \<Longrightarrow> page_aligned q" and "p \<notin> S"
  shows "same_on S m m'"
  unfolding same_on_def using assms in_page_unique by metis

lemma tabs_aligned: "pt_wf e l m pt \<Longrightarrow> p \<in> tabs l m pt \<Longrightarrow> page_aligned p"
  using tabs_valid by (auto simp: valid_page_def)

lemma leaf_write_tree:
  assumes "pt_wf e l m pt" and "leaf_table l m pt va = Some p"
    and out: "\<And>x. \<not> in_page p x \<Longrightarrow> m' x = m x"
  shows "tabs l m' pt = tabs l m pt \<and> pt_wf e l m' pt \<and> (\<forall>v. leaf_table l m' pt v = leaf_table l m pt v)"
  using assms(1,2)
proof (induction l arbitrary: pt)
  case 0
  then show ?case by simp
next
  case (Suc l)
  obtain i where i: "i < 512" "PX (Suc l) va = of_nat i" by (rule PX_index)
  let ?c = "PTE2PA (pte_at m pt i)"
  from Suc.prems(2) i have v: "pte_at m pt i AND PTE_V \<noteq> 0" and leaf: "leaf_table l m ?c va = Some p"
    by (auto simp: Let_def split: if_splits)
  have c: "pt_wf e l m ?c" using Suc.prems(1) i(1) v by (rule pt_wf_child)
  have IH: "tabs l m' ?c = tabs l m ?c" "pt_wf e l m' ?c" "\<And>v. leaf_table l m' ?c v = leaf_table l m ?c v"
    using Suc.IH [OF c leaf] by simp_all
  have p: "p \<in> kid l m pt i" using leaf_table_in [OF leaf] v by (simp add: kid_child)
  have al: "page_aligned q" if "q \<in> tabs (Suc l) m pt" for q
    using Suc.prems(1) that by (rule tabs_aligned)
  have "p \<in> tabs (Suc l) m pt" using p kid_subset i by blast
  then have same: "same_on S m m'" if "p \<notin> S" "S \<subseteq> tabs (Suc l) m pt" for S
    using that al by (intro same_on_other [OF out]) auto
  note away = pt_wf_disj [OF Suc.prems(1) i(1) p]
  have pte: "pte_at m' pt j = pte_at m pt j" if "j < 512" for j
    using same_on_pte [OF same [of "{pt}"]] that away(1) by simp
  have "grafted e l m m' pt i ?c"
    unfolding grafted_def
  proof (intro conjI allI impI)
    fix j :: nat assume j: "j < 512" "j \<noteq> i"
    show "same_on (kid l m pt j) m m'" by (rule same [OF away(2) [OF j] kid_subset [OF j(1)]])
    show "tabs l m' ?c \<inter> kid l m pt j = {}"
      unfolding IH(1) using pt_wf_disj(2) [OF Suc.prems(1) i(1) _ j] v by (auto simp: kid_child)
  next
    show "pt \<notin> tabs l m' ?c"
      unfolding IH(1) using pt_wf_disj(1) [OF Suc.prems(1) i(1)] v by (auto simp: kid_child)
  qed (use Suc.prems(1) i v IH(2) pte in simp_all)
  note g = this
  have "tabs (Suc l) m' pt = tabs (Suc l) m pt"
    unfolding tabs_Suc using graft_kid [OF g] IH(1) v by (auto simp: kid_child)
  moreover have "leaf_table (Suc l) m' pt va' = leaf_table (Suc l) m pt va'" for va'
    using graft_leaf [OF g, of va'] IH(3) v by (simp add: Let_def)
  ultimately show ?case using graft_wf [OF g] by blast
qed

lemma leaf_table_cong: "(\<And>j. j \<in> {1..l} \<Longrightarrow> PX j va' = PX j va) \<Longrightarrow> leaf_table l m pt va' = leaf_table l m pt va"
proof (induction l arbitrary: pt)
  case 0
  then show ?case by simp
next
  case (Suc l)
  have "leaf_table l m c va' = leaf_table l m c va" for c using Suc.prems by (intro Suc.IH) auto
  moreover have "PX (Suc l) va' = PX (Suc l) va" using Suc.prems by simp
  ultimately show ?case by (simp only: leaf_table.simps)
qed

lemma slot_aligned: "page_aligned p \<Longrightarrow> 8 dvd unat (p + 8 * of_nat i)"
proof -
  assume "page_aligned p"
  then have "8 dvd unat p" unfolding page_aligned_def by (rule dvd_trans [rotated]) simp
  moreover have "8 dvd unat (8 * of_nat i :: uint64)"
    by (simp add: unat_word_ariths dvd_mod)
  ultimately show ?thesis by (simp add: unat_word_ariths dvd_mod)
qed

lemma store_slot_out: "page_aligned p \<Longrightarrow> i < 512 \<Longrightarrow> \<not> in_page p x \<Longrightarrow> store64 m (p + 8 * of_nat i) v x = m x"
  by (rule store64_other_page) (simp_all add: unat_slot)

lemma store_slot_load:
  assumes "page_aligned p" and "page_aligned q" and "i < 512" and "j < 512"
  shows "pte_at (store64 m (p + 8 * of_nat i) v) q j = (if p = q \<and> i = j then v else pte_at m q j)"
proof -
  have "p + 8 * of_nat i = q + 8 * of_nat j \<longleftrightarrow> p = q \<and> i = j"
  proof
    assume eq: "p + 8 * of_nat i = q + 8 * of_nat j"
    have "in_page p (p + 8 * of_nat i)" "in_page q (q + 8 * of_nat j)"
      using assms by (auto intro!: in_page_plus simp: unat_slot)
    then have "p = q" using eq in_page_unique [OF assms(1,2)] by metis
    with eq have "8 * of_nat i = (8 * of_nat j :: uint64)" by simp
    then have "8 * i = 8 * j" using assms(3,4) unat_slot by metis
    with \<open>p = q\<close> show "p = q \<and> i = j" by simp
  qed simp
  then show ?thesis
    using load64_store64_other [OF slot_aligned [OF assms(1)] slot_aligned [OF assms(2)]] by auto
qed

text \<open>Storing an entry changes the translation of exactly the addresses of its page.\<close>

lemma leaf_store:
  assumes "pt_wf e l m pt" and "leaf_table l m pt va = Some p"
  shows "pte_of l (store64 m (p + 8 * PX 0 va) v) pt va' =
    (if \<forall>j\<le>l. PX j va' = PX j va then v else pte_of l m pt va')"
proof -
  let ?m = "store64 m (p + 8 * PX 0 va) v"
  obtain i where i: "i < 512" "PX 0 va = of_nat i" by (rule PX_index)
  obtain i' where i': "i' < 512" "PX 0 va' = of_nat i'" by (rule PX_index)
  have al: "page_aligned q" if "leaf_table l m pt w = Some q" for q w
    using tabs_aligned [OF assms(1) leaf_table_in [OF that]] .
  have out: "\<And>x. \<not> in_page p x \<Longrightarrow> ?m x = m x"
    unfolding i by (rule store_slot_out [OF al [OF assms(2)] i(1)])
  have leaf: "leaf_table l ?m pt va' = leaf_table l m pt va'"
    using leaf_write_tree [OF assms out] by simp
  have up: "(\<forall>j\<le>l. PX j va' = PX j va) \<longleftrightarrow> i' = i \<and> (\<forall>j\<in>{1..l}. PX j va' = PX j va)"
  proof -
    have "j = 0 \<or> j \<in> {1..l}" if "j \<le> l" for j using that by (cases j) auto
    moreover have "PX 0 va' = PX 0 va \<longleftrightarrow> i' = i" using i i' of_nat_index_eq by simp
    ultimately show ?thesis by (metis atLeastAtMost_iff zero_le)
  qed
  show ?thesis
  proof (cases "leaf_table l m pt va'")
    case None
    then have "\<not> (\<forall>j\<in>{1..l}. PX j va' = PX j va)"
      using leaf_table_cong [of l va' va m pt] assms(2) None by (metis option.distinct(1))
    then show ?thesis unfolding up using None leaf by (auto simp: pte_of_def)
  next
    case (Some q)
    have "p = q \<longleftrightarrow> (\<forall>j\<in>{1..l}. PX j va' = PX j va)"
    proof
      assume "p = q"
      with Some have "leaf_table l m pt va' = Some p" by simp
      then show "\<forall>j\<in>{1..l}. PX j va' = PX j va" using leaf_table_path [OF assms(1) _ assms(2)] by blast
    next
      assume "\<forall>j\<in>{1..l}. PX j va' = PX j va"
      then have "leaf_table l m pt va' = leaf_table l m pt va" by (intro leaf_table_cong) simp
      then show "p = q" using Some assms(2) by simp
    qed
    moreover have "load64 ?m (q + 8 * PX 0 va') = (if p = q \<and> i = i' then v else load64 m (q + 8 * PX 0 va'))"
      unfolding i i' by (rule store_slot_load [OF al [OF assms(2)] al [OF Some] i(1) i'(1)])
    ultimately show ?thesis unfolding up using Some leaf by (simp add: pte_of_def)
  qed
qed

section \<open>Walking the tree\<close>

definition slot :: "uint64 option \<Rightarrow> uint64 \<Rightarrow> uint64" where
  "slot t va = (case t of None \<Rightarrow> 0 | Some p \<Rightarrow> p + 8 * PX 0 va)"

lemma walk_lookup: "walk_levels va False l pt s = Ok (slot (leaf_table l (mem s) pt va) va, s)"
  by (induction l arbitrary: pt) (simp_all add: Let_def slot_def)

lemma zero_table:
  assumes "\<And>i. i < 512 \<Longrightarrow> pte_at m pt i = 0"
  shows "tabs l m pt = {pt}" and "pt_wf e l m pt = valid_page e pt" and "pte_of l m pt va = 0"
proof -
  have "kid k m pt i = {}" if "i < 512" for i k using assms [OF that] by (simp add: kid_def)
  then show "tabs l m pt = {pt}" "pt_wf e l m pt = valid_page e pt"
    using assms by (cases l; simp add: tabs_Suc)+
  obtain i j where "i < 512" "PX 0 va = of_nat i" "j < 512" "PX l va = of_nat j"
    using PX_index by metis
  then show "pte_of l m pt va = 0" using assms by (cases l) (simp_all add: pte_of_def)
qed

text \<open>
  What a component may assume of the machine's memory beside its own pages: a routine that
  only allocates pages changes nothing but its own pages and those it took off the free list.
\<close>

definition phys_frame :: "'a physmem_scheme \<Rightarrow> 'a physmem_scheme \<Rightarrow> uint64 set \<Rightarrow> bool" where
  "phys_frame s s' S \<longleftrightarrow>
     s'\<lparr>cpus := cpus s, mem := mem s, freelist := freelist s\<rparr> = s \<and> (kmem_ok s \<longrightarrow> kmem_ok s') \<and>
     (\<forall>x. (\<forall>p\<in>S. \<not> in_page p x) \<longrightarrow> mem s' x = mem s x)"

lemma phys_frameD:
  assumes "phys_frame s s' S"
  shows "kend s' = kend s" and "kmem_ok s \<Longrightarrow> kmem_ok s'" and "(\<forall>p\<in>S. \<not> in_page p x) \<Longrightarrow> mem s' x = mem s x"
    and "tp s' = tp s" and "sie s' = sie s" and "spin s' = spin s"
proof -
  have eq: "s'\<lparr>cpus := cpus s, mem := mem s, freelist := freelist s\<rparr> = s"
    using assms by (simp add: phys_frame_def)
  show "kend s' = kend s" using arg_cong [OF eq, of kend] by simp
  show "tp s' = tp s" using arg_cong [OF eq, of tp] by simp
  show "sie s' = sie s" using arg_cong [OF eq, of sie] by simp
  show "spin s' = spin s" using arg_cong [OF eq, of spin] by simp
qed (use assms in \<open>simp_all add: phys_frame_def\<close>)

lemma phys_frame_trans:
  assumes "phys_frame s s1 S" and "phys_frame s1 s2 T" and "S \<union> T \<subseteq> U"
  shows "phys_frame s s2 U"
proof -
  let ?undo = "\<lambda>s :: 'a physmem_scheme. \<lambda>s'. s'\<lparr>cpus := cpus s, mem := mem s, freelist := freelist s\<rparr>"
  have "?undo s s2 = ?undo s (?undo s1 s2)" by simp
  also have "\<dots> = s" using assms(1,2) by (simp add: phys_frame_def)
  finally have "?undo s s2 = s" .
  moreover have "mem s2 x = mem s x" if "\<forall>p\<in>U. \<not> in_page p x" for x
  proof -
    have "\<forall>p\<in>S. \<not> in_page p x" "\<forall>p\<in>T. \<not> in_page p x" using that assms(3) by blast+
    then show ?thesis using phys_frameD(3) [OF assms(1), of x] phys_frameD(3) [OF assms(2), of x] by simp
  qed
  ultimately show ?thesis using assms(1,2) by (simp add: phys_frame_def)
qed

lemma phys_frame_refl [simp]: "phys_frame s s S" by (simp add: phys_frame_def)

lemma phys_frame_mem: "(\<And>x. (\<forall>p\<in>S. \<not> in_page p x) \<Longrightarrow> m x = mem s x) \<Longrightarrow> phys_frame s (s\<lparr>mem := m\<rparr>) S"
  by (simp add: phys_frame_def)

lemma kalloc_frame:
  assumes "kmem_ok s" and "free_pages s (p # ps)"
  shows "\<exists>s'. kalloc s = Ok (p, s') \<and> p \<noteq> 0 \<and> free_pages s' ps \<and> phys_frame s s' {p}"
proof -
  have p: "freelist s = p" "p \<noteq> 0" using assms(2) by (auto simp: free_pages_def)
  have "phys_frame s ((relock s)\<lparr>freelist := load64 (mem s) p, mem := memset (mem s) p 5 4096\<rparr>) {p}"
    unfolding phys_frame_def by (simp add: memset_other_page) (simp add: relock_def)
  then show ?thesis using kalloc_pages [OF assms] kalloc_eq [OF assms(1)] p by simp
qed

lemma kalloc_empty:
  assumes "kmem_ok s" and "free_pages s []"
  shows "\<exists>s'. kalloc s = Ok (0, s') \<and> free_pages s' [] \<and> phys_frame s s' {} \<and> mem s' = mem s"
proof -
  have "freelist s = 0" using assms(2) by (simp add: free_pages_def)
  moreover have "phys_frame s (relock s) {}" unfolding phys_frame_def by simp (simp add: relock_def)
  ultimately show ?thesis using assms kalloc_eq [OF assms(1)] by simp
qed

lemma kfree_frame:
  assumes "kmem_ok s" and "free_pages s ps" and "valid_page (kend s) p" and "p \<notin> set ps"
  shows "\<exists>s'. kfree p s = Ok s' \<and> free_pages s' (p # ps) \<and> phys_frame s s' {p}"
proof -
  let ?s = "(relock s)\<lparr>mem := store64 (memset (mem s) p 1 4096) p (freelist s), freelist := p\<rparr>"
  have "page_aligned p" using assms(3) by (simp add: valid_page_def)
  then have "phys_frame s ?s {p}"
    unfolding phys_frame_def by (simp add: memset_other_page store64_page_start) (simp add: relock_def)
  then show ?thesis using kfree_pages [OF assms] kfree_eq [OF assms(1,3)] by simp
qed

text \<open>
  The outcome of a walk that may allocate: it took the pages \<open>new\<close> off the free list
  \<open>new @ ps'\<close> and hung them into the tree, changed no translation, and found the entry
  unless the free list ran empty.
\<close>

definition walked ::
  "nat \<Rightarrow> uint64 \<Rightarrow> uint64 \<Rightarrow> 'a physmem_scheme \<Rightarrow> uint64 list \<Rightarrow> uint64 \<Rightarrow> 'a physmem_scheme \<Rightarrow> uint64 list \<Rightarrow> uint64 list \<Rightarrow> bool" where
  "walked l pt va s ps a s' new ps' \<longleftrightarrow>
     ps = new @ ps' \<and> free_pages s' ps' \<and> phys_frame s s' (tabs l (mem s) pt \<union> set new) \<and>
     pt_wf (kend s) l (mem s') pt \<and> tabs l (mem s') pt = tabs l (mem s) pt \<union> set new \<and>
     (\<forall>v. pte_of l (mem s') pt v = pte_of l (mem s) pt v) \<and>
     a = slot (leaf_table l (mem s') pt va) va \<and> (leaf_table l (mem s') pt va = None \<longrightarrow> ps' = [])"

lemma walked_same:
  assumes "pt_wf (kend s) l (mem s) pt" and "free_pages s ps" and "leaf_table l (mem s) pt va = None \<Longrightarrow> ps = []"
  shows "walked l pt va s ps (slot (leaf_table l (mem s) pt va) va) s [] ps"
  using assms by (simp add: walked_def)

lemma phys_frame_same:
  assumes "phys_frame s s' S" and "\<And>p. p \<in> S \<union> T \<Longrightarrow> page_aligned p" and "S \<inter> T = {}"
  shows "same_on T (mem s) (mem s')"
  unfolding same_on_def
proof (intro ballI allI impI)
  fix p x assume p: "p \<in> T" "in_page p x"
  have "\<forall>q\<in>S. \<not> in_page q x" using p assms(2,3) in_page_unique by (metis IntI Un_iff empty_iff)
  then show "mem s' x = mem s x" by (rule phys_frameD(3) [OF assms(1)])
qed

lemma free_pages_aligned: "free_pages s ps \<Longrightarrow> p \<in> set ps \<Longrightarrow> page_aligned p"
  by (auto simp: free_pages_def valid_page_def)

text \<open>A walk below entry \<open>i\<close> that was there before.\<close>

lemma walked_existing:
  assumes wf: "pt_wf (kend s) (Suc l) (mem s) pt" and i: "i < 512" "PX (Suc l) va = of_nat i"
    and v: "pte_at (mem s) pt i AND PTE_V \<noteq> 0" and c: "c = PTE2PA (pte_at (mem s) pt i)"
    and fp: "free_pages s ps" and dis: "tabs (Suc l) (mem s) pt \<inter> set ps = {}"
    and w: "walked l c va s ps a s' new ps'"
  shows "walked (Suc l) pt va s ps a s' new ps'"
proof -
  note w' = w [unfolded walked_def]
  have ki: "kid l (mem s) pt i = tabs l (mem s) c" using v c by (simp add: kid_child)
  have sub: "tabs l (mem s) c \<subseteq> tabs (Suc l) (mem s) pt" using kid_subset [OF i(1)] ki by metis
  have new: "set new \<subseteq> set ps" using w' by auto
  have fr: "phys_frame s s' (tabs l (mem s) c \<union> set new)" using w' by simp
  have al: "page_aligned p" if "p \<in> tabs (Suc l) (mem s) pt \<union> set new" for p
    using that tabs_aligned [OF wf] free_pages_aligned [OF fp] new by blast
  have same: "same_on T (mem s) (mem s')"
    if "T \<subseteq> tabs (Suc l) (mem s) pt" "T \<inter> tabs l (mem s) c = {}" for T
    using that sub dis new by (intro phys_frame_same [OF fr] al) auto
  have root: "pt \<notin> tabs l (mem s) c" using pt_wf_disj(1) [OF wf i(1)] ki by blast
  have pte: "pte_at (mem s') pt j = pte_at (mem s) pt j" if "j < 512" for j
    using same_on_pte [OF same [of "{pt}"] _ that] root by simp
  have kj: "kid l (mem s) pt j \<inter> tabs l (mem s) c = {}" if "j < 512" "j \<noteq> i" for j
    using pt_wf_disj(2) [OF wf i(1)] that ki by blast
  have g: "grafted (kend s) l (mem s) (mem s') pt i c"
    unfolding grafted_def
  proof (intro conjI allI impI)
    fix j :: nat assume j: "j < 512" "j \<noteq> i"
    show "same_on (kid l (mem s) pt j) (mem s) (mem s')" by (rule same [OF kid_subset [OF j(1)] kj [OF j]])
    have "kid l (mem s) pt j \<inter> set new = {}" using kid_subset [OF j(1), of l "mem s" pt] dis new by blast
    then show "tabs l (mem s') c \<inter> kid l (mem s) pt j = {}" using kj [OF j] w' by auto
  next
    show "pt \<notin> tabs l (mem s') c" using root w' dis new root_in_tabs by blast
  qed (use wf i v c pte w' in simp_all)
  have "(\<Union>j<512. kid l (mem s) pt j) = tabs l (mem s) c \<union> (\<Union>j\<in>{..<512} - {i}. kid l (mem s) pt j)"
    using i(1) ki by blast
  then have tabs: "tabs (Suc l) (mem s') pt = tabs (Suc l) (mem s) pt \<union> set new"
    unfolding graft_tabs [OF g] using w' by (auto simp: tabs_Suc)
  have pteof: "pte_of (Suc l) (mem s') pt u = pte_of (Suc l) (mem s) pt u" for u
    using graft_pte [OF g, of u] w' v c by (auto simp: pte_of_def)
  have leaf: "leaf_table (Suc l) (mem s') pt va = leaf_table l (mem s') c va"
    using graft_leaf [OF g, of va] i(2) by simp
  have "phys_frame s s' (tabs (Suc l) (mem s) pt \<union> set new)"
    by (rule phys_frame_trans [OF fr phys_frame_refl [of _ "{}"]]) (use sub in blast)
  with w' tabs pteof leaf graft_wf [OF g] show ?thesis by (simp add: walked_def)
qed

text \<open>A walk through a page-table page that it allocates for entry \<open>i\<close>.\<close>

lemma load64_zero: "(\<And>i. i < 8 \<Longrightarrow> m (a + i) = 0) \<Longrightarrow> load64 m a = 0"
  using load64_cong [of m a "\<lambda>_. 0"] by (auto intro!: bit_word_eqI simp: bit_load64)

lemma zeroed_page_pte: "i < 512 \<Longrightarrow> pte_at (memset m q 0 4096) q i = 0"
  by (rule load64_zero) (use slot_in_page in \<open>auto simp: memset_eq in_page_def\<close>)

lemma table_entry: "page_aligned q \<Longrightarrow> PTE2PA (PA2PTE q OR PTE_V) = q" "(PA2PTE q OR PTE_V) AND PTE_V \<noteq> 0"
proof -
  show "PTE2PA (PA2PTE q OR PTE_V) = q" if "page_aligned q"
    using that by (rule PTE2PA_PA2PTE) simp
  have "bit ((PA2PTE q OR PTE_V) AND PTE_V) 0" by (simp add: bit_simps)
  then show "(PA2PTE q OR PTE_V) AND PTE_V \<noteq> 0" by auto
qed

lemma fresh_table:
  assumes "page_aligned q" and "page_aligned pt" and "q \<noteq> pt" and "i < 512"
    and m: "m' = store64 (memset m q 0 4096) (pt + 8 * of_nat i) (PA2PTE q OR PTE_V)"
  shows "j < 512 \<Longrightarrow> pte_at m' q j = 0"
    and "j < 512 \<Longrightarrow> pte_at m' pt j = (if j = i then PA2PTE q OR PTE_V else pte_at m pt j)"
    and "\<not> in_page q x \<Longrightarrow> \<not> in_page pt x \<Longrightarrow> m' x = m x"
proof -
  show "pte_at m' q j = 0" if "j < 512"
    unfolding m using store_slot_load [OF assms(2,1,4) that] assms(3) zeroed_page_pte [OF that] by simp
  have "pte_at (memset m q 0 4096) pt j = pte_at m pt j" if "j < 512"
    by (rule same_on_pte [where S = "{pt}"])
      (use that assms memset_other_page in \<open>auto intro!: same_on_other [where p = q]\<close>)
  then show "pte_at m' pt j = (if j = i then PA2PTE q OR PTE_V else pte_at m pt j)" if "j < 512"
    unfolding m using store_slot_load [OF assms(2,2,4) that] that by auto
  show "m' x = m x" if "\<not> in_page q x" "\<not> in_page pt x"
    unfolding m using that assms by (simp add: store_slot_out memset_other_page)
qed

lemma walked_fresh:
  assumes wf: "pt_wf (kend s) (Suc l) (mem s) pt" and i: "i < 512" "PX (Suc l) va = of_nat i"
    and inv: "pte_at (mem s) pt i AND PTE_V = 0"
    and fp: "free_pages s (q # ps)" and dis: "tabs (Suc l) (mem s) pt \<inter> set (q # ps) = {}"
    and s1: "phys_frame s s1 {q}"
    and s2: "s2 = s1\<lparr>mem := store64 (memset (mem s1) q 0 4096) (pt + 8 * of_nat i) (PA2PTE q OR PTE_V)\<rparr>"
    and w: "walked l q va s2 ps a s' new ps'"
  shows "walked (Suc l) pt va s (q # ps) a s' (q # new) ps'"
proof -
  note w' = w [unfolded walked_def]
  have qpt: "q \<noteq> pt" using dis by (auto simp: tabs_Suc)
  have al: "page_aligned p" if "p \<in> tabs (Suc l) (mem s) pt \<union> set (q # ps)" for p
    using that tabs_aligned [OF wf] free_pages_aligned [OF fp] by blast
  then have alq: "page_aligned q" "page_aligned pt" by (auto simp: tabs_Suc)
  note f = fresh_table [OF alq qpt i(1), where m = "mem s1" and m' = "mem s2"]
  have m2: "mem s2 = store64 (memset (mem s1) q 0 4096) (pt + 8 * of_nat i) (PA2PTE q OR PTE_V)"
    using s2 by simp
  have z: "tabs l (mem s2) q = {q}" "pte_of l (mem s2) q u = 0" for u
    using f(1) [OF m2] by (rule zero_table; simp)+
  have "phys_frame s1 s2 {q, pt}" unfolding s2 by (rule phys_frame_mem) (use f(3) [OF m2] m2 in auto)
  then have f2: "phys_frame s s2 {q, pt}" by (rule phys_frame_trans [OF s1]) simp
  have f3: "phys_frame s2 s' (insert q (set new))" using w' z(1) by simp
  have fr: "phys_frame s s' (tabs (Suc l) (mem s) pt \<union> set (q # new))"
    by (rule phys_frame_trans [OF f2 f3]) (auto simp: tabs_Suc)
  have new: "set new \<subseteq> set ps" "q \<notin> set ps" using w' fp by (auto simp: free_pages_def)
  have pte: "pte_at (mem s') pt j = (if j = i then PA2PTE q OR PTE_V else pte_at (mem s) pt j)" if j: "j < 512" for j
  proof -
    have "pte_at (mem s') pt j = pte_at (mem s2) pt j"
      by (rule same_on_pte [OF phys_frame_same [OF f3, of "{pt}"] _ j])
        (use al new dis qpt in \<open>auto simp: tabs_Suc\<close>)
    moreover have "pte_at (mem s1) pt j = pte_at (mem s) pt j"
      by (rule same_on_pte [OF phys_frame_same [OF s1, of "{pt}"] _ j]) (use al qpt in \<open>auto simp: tabs_Suc\<close>)
    ultimately show ?thesis using f(2) [OF m2 j] by simp
  qed
  have kj: "kid l (mem s) pt j \<subseteq> tabs (Suc l) (mem s) pt - {pt}" if "j < 512" for j
    using pt_wf_disj(1) [OF wf that] kid_subset [OF that] by blast
  have wt: "tabs l (mem s') q = insert q (set new)" using w' z(1) by simp
  have ptn: "pt \<notin> set ps" using dis by (auto simp: tabs_Suc)
  have g: "grafted (kend s) l (mem s) (mem s') pt i q"
    unfolding grafted_def
  proof (intro conjI allI impI)
    fix j :: nat assume j: "j < 512" "j \<noteq> i"
    have k: "kid l (mem s) pt j \<inter> insert pt (insert q (set ps)) = {}"
      using kj [OF j(1)] dis by auto
    have "phys_frame s s' (insert pt (insert q (set new)))" by (rule phys_frame_trans [OF f2 f3]) auto
    then show "same_on (kid l (mem s) pt j) (mem s) (mem s')"
      by (rule phys_frame_same) (use k new kj [OF j(1)] alq al in auto)
    show "tabs l (mem s') q \<inter> kid l (mem s) pt j = {}" using wt k new by auto
    show "pte_at (mem s') pt j = pte_at (mem s) pt j" using pte j by simp
  next
    show "pt_wf (kend s) l (mem s') q" using w' phys_frameD(1) [OF f2] by simp
    show "pt \<notin> tabs l (mem s') q" using wt ptn qpt new by auto
    show "pte_at (mem s') pt i AND PTE_V \<noteq> 0" "PTE2PA (pte_at (mem s') pt i) = q"
      using pte [OF i(1)] table_entry alq by simp_all
  qed (rule wf i)+
  have "kid l (mem s) pt i = {}" using inv by (simp add: kid_def)
  then have "(\<Union>j<512. kid l (mem s) pt j) = (\<Union>j\<in>{..<512} - {i}. kid l (mem s) pt j)" using i(1) by blast
  then have tabs: "tabs (Suc l) (mem s') pt = tabs (Suc l) (mem s) pt \<union> set (q # new)"
    unfolding graft_tabs [OF g] wt by (auto simp: tabs_Suc)
  have "pte_of l (mem s') q u = 0" for u using w' z(2) by simp
  then have pteof: "pte_of (Suc l) (mem s') pt u = pte_of (Suc l) (mem s) pt u" for u
    using graft_pte [OF g, of u] i inv by (simp add: pte_of_def)
  have leaf: "leaf_table (Suc l) (mem s') pt va = leaf_table l (mem s') q va"
    using graft_leaf [OF g, of va] i(2) by simp
  with w' tabs pteof fr graft_wf [OF g] show ?thesis by (simp add: walked_def)
qed

theorem walk_levels_alloc:
  assumes "kmem_ok s" and "pt_wf (kend s) l (mem s) pt" and "free_pages s ps" and "tabs l (mem s) pt \<inter> set ps = {}"
  shows "\<exists>a s' new ps'. walk_levels va True l pt s = Ok (a, s') \<and> walked l pt va s ps a s' new ps'"
  using assms
proof (induction l arbitrary: pt s ps)
  case 0
  then show ?case using walked_same [of s 0 pt ps va] by (auto simp: slot_def)
next
  case (Suc l)
  obtain i where i: "i < 512" "PX (Suc l) va = of_nat i" by (rule PX_index)
  show ?case
  proof (cases "pte_at (mem s) pt i AND PTE_V = 0")
    case False
    let ?c = "PTE2PA (pte_at (mem s) pt i)"
    have sub: "tabs l (mem s) ?c \<subseteq> tabs (Suc l) (mem s) pt"
      using kid_subset [OF i(1)] False by (metis kid_child)
    have "\<exists>a s' new ps'. walk_levels va True l ?c s = Ok (a, s') \<and> walked l ?c va s ps a s' new ps'"
      using Suc.prems sub pt_wf_child [OF Suc.prems(2) i(1) False] by (intro Suc.IH) auto
    then obtain a s' new ps' where w: "walk_levels va True l ?c s = Ok (a, s')" "walked l ?c va s ps a s' new ps'"
      by blast
    have "walk_levels va True (Suc l) pt s = Ok (a, s')" using w(1) i False by (simp add: Let_def)
    then show ?thesis using walked_existing [OF Suc.prems(2) i False refl Suc.prems(3,4) w(2)] by blast
  next
    case inv: True
    show ?thesis
    proof (cases ps)
      case Nil
      then obtain s' where s': "kalloc s = Ok (0, s')" "free_pages s' []" "phys_frame s s' {}" "mem s' = mem s"
        using kalloc_empty [OF Suc.prems(1)] Suc.prems(3) by auto
      have "phys_frame s s' (tabs (Suc l) (mem s) pt)"
        by (rule phys_frame_trans [OF s'(3) phys_frame_refl [of _ "{}"]]) simp
      then have "walked (Suc l) pt va s ps 0 s' [] []"
        using s' Nil inv i Suc.prems(2) by (simp add: walked_def slot_def)
      moreover have "walk_levels va True (Suc l) pt s = Ok (0, s')" using s' i inv by (simp add: Let_def)
      ultimately show ?thesis by blast
    next
      case (Cons q qs)
      obtain s1 where s1: "kalloc s = Ok (q, s1)" "q \<noteq> 0" "free_pages s1 qs" "phys_frame s s1 {q}"
        using kalloc_frame [OF Suc.prems(1)] Suc.prems(3) Cons by blast
      let ?s2 = "s1\<lparr>mem := store64 (memset (mem s1) q 0 4096) (pt + 8 * of_nat i) (PA2PTE q OR PTE_V)\<rparr>"
      have al: "page_aligned q" "page_aligned pt" "q \<noteq> pt" "q \<notin> set qs" "pt \<notin> set qs"
        using Suc.prems(3,4) Cons tabs_aligned [OF Suc.prems(2)] by (auto simp: free_pages_def valid_page_def tabs_Suc)
      note f = fresh_table [OF al(1-3) i(1) refl, where m = "mem s1"]
      have "load64 (mem ?s2) p = load64 (mem s1) p" if "p \<in> set qs" for p
      proof -
        have "page_aligned p" using that Suc.prems(3) Cons by (auto simp: free_pages_def valid_page_def)
        then have "same_on {p} (mem s1) (mem ?s2)"
          unfolding same_on_def using f(3) al that in_page_unique by simp metis
        then show ?thesis using same_on_pte [of "{p}" "mem s1" "mem ?s2" p 0] by simp
      qed
      then have fp2: "free_pages ?s2 qs"
        using s1(3) freechain_cong [of qs "mem ?s2" "mem s1" "freelist s1"] by (simp add: free_pages_def)
      have z: "\<And>j. j < 512 \<Longrightarrow> pte_at (mem ?s2) q j = 0" using f(1) by simp
      have "valid_page (kend s) q" using Suc.prems(3) Cons by (simp add: free_pages_def)
      then have "\<exists>a s' new ps'. walk_levels va True l q ?s2 = Ok (a, s') \<and> walked l q va ?s2 qs a s' new ps'"
        using phys_frameD(1,2) [OF s1(4)] Suc.prems(1) fp2 al zero_table [OF z]
        by (intro Suc.IH) auto
      then obtain a s' new ps' where w: "walk_levels va True l q ?s2 = Ok (a, s')" "walked l q va ?s2 qs a s' new ps'"
        by blast
      have "walked (Suc l) pt va s (q # qs) a s' (q # new) ps'"
        by (rule walked_fresh [OF Suc.prems(2) i inv _ _ s1(4) refl w(2)]) (use Suc.prems Cons in simp_all)
      moreover have "walk_levels va True (Suc l) pt s = Ok (a, s')" using w(1) s1 i inv by (simp add: Let_def)
      ultimately show ?thesis using Cons by blast
    qed
  qed
qed
end
