(* ===== verification/Vm_Spec.thy ===== *)
theory Vm_Spec
  imports Pagetable
begin

text \<open>
  What the operations of \<^verbatim>\<open>kernel/vm.c\<close> do to an address space: the translation that a
  page table stands for after mapping, unmapping, growing and copying.
\<close>

unbundle bit_operations_syntax

section \<open>Address spaces\<close>

lemma bit_PX: "bit (PX l va) n \<longleftrightarrow> n < 9 \<and> bit va (12 + 9 * l + n)"
proof -
  have "(0x1FF :: uint64) = mask 9" by (simp add: mask_eq_exp_minus_1)
  then have "PX l va = drop_bit (12 + 9 * l) va AND mask 9" unfolding PX_def PXSHIFT_def by simp
  then show ?thesis by (auto simp: bit_simps ac_simps)
qed

lemma PGROUNDDOWN_eq_iff: "PGROUNDDOWN a = PGROUNDDOWN b \<longleftrightarrow> (\<forall>n\<ge>12. bit a n = bit b n)"
proof -
  have bits: "bit (PGROUNDDOWN c) n \<longleftrightarrow> 12 \<le> n \<and> bit c n" for c n
    using bit_imp_le_length [of c n] by (auto simp: PGROUNDDOWN_def and_not_mask12 bit_simps)
  have long: "n < 64" if "bit c n" for c :: uint64 and n using bit_imp_le_length [OF that] by simp
  show ?thesis unfolding bit_eq_iff bits by (auto dest: long)
qed

lemma MAXVA_bit:
  assumes "a < MAXVA" and "39 \<le> n"
  shows "\<not> bit a n"
proof -
  have "unat a < 2 ^ 39" using assms(1) by (simp add: word_less_nat_alt)
  also have "(2 :: nat) ^ 39 \<le> 2 ^ n" using assms(2) by (intro power_increasing) simp_all
  finally have "\<not> bit (unat a) n" by (simp add: bit_iff_odd)
  then show ?thesis using bit_imp_le_length [of a n] by (auto simp: bit_unsigned_iff)
qed

lemma same_page_iff:
  assumes "a < MAXVA" and "b < MAXVA"
  shows "(\<forall>j\<le>2. PX j a = PX j b) \<longleftrightarrow> PGROUNDDOWN a = PGROUNDDOWN b"
proof
  assume L: "\<forall>j\<le>2. PX j a = PX j b"
  have "bit a n = bit b n" if "12 \<le> n" for n
  proof (cases "n < 39")
    case True
    have "(n - 12) div 9 \<le> 2" using True by simp
    then have "bit (PX ((n - 12) div 9) a) ((n - 12) mod 9) = bit (PX ((n - 12) div 9) b) ((n - 12) mod 9)"
      using L by simp
    then show ?thesis using that by (simp add: bit_PX)
  next
    case False
    then show ?thesis using assms MAXVA_bit by simp
  qed
  then show "PGROUNDDOWN a = PGROUNDDOWN b" by (simp add: PGROUNDDOWN_eq_iff)
next
  assume R: "PGROUNDDOWN a = PGROUNDDOWN b"
  have "bit (PX j a) n = bit (PX j b) n" for j n
    using R by (simp add: bit_PX PGROUNDDOWN_eq_iff)
  then show "\<forall>j\<le>2. PX j a = PX j b" by (simp add: bit_eq_iff)
qed

text \<open>
  The entry that the page table at \<open>root\<close> has for \<open>va\<close>, the pages of the table itself, and
  a consistent memory: the page table is a tree of allocated pages.
\<close>

abbreviation xlate :: "'a physmem_scheme \<Rightarrow> uint64 \<Rightarrow> uint64 \<Rightarrow> uint64" where
  "xlate s root va \<equiv> pte_of 2 (mem s) root va"

abbreviation pt_pages :: "'a physmem_scheme \<Rightarrow> uint64 \<Rightarrow> uint64 set" where
  "pt_pages s root \<equiv> tabs 2 (mem s) root"

definition vm_ok :: "'a physmem_scheme \<Rightarrow> uint64 \<Rightarrow> uint64 list \<Rightarrow> bool" where
  "vm_ok s root ps \<longleftrightarrow>
     kmem_ok s \<and> free_pages s ps \<and> pt_wf (kend s) 2 (mem s) root \<and> pt_pages s root \<inter> set ps = {}"

lemma vm_okD:
  assumes "vm_ok s root ps"
  shows "kmem_ok s" and "free_pages s ps" and "pt_wf (kend s) 2 (mem s) root" and "pt_pages s root \<inter> set ps = {}"
  using assms by (simp_all add: vm_ok_def)

lemma slot_nonzero:
  assumes "vm_ok s root ps" and "leaf_table 2 (mem s) root va = Some p"
  shows "p + 8 * PX 0 va \<noteq> 0"
proof -
  have p: "valid_page (kend s) p" by (rule tabs_valid [OF vm_okD(3) [OF assms(1)] leaf_table_in [OF assms(2)]])
  then have "p \<noteq> 0" using vm_okD(1) [OF assms(1)] kmem_okD(3) valid_page_nonzero by blast
  then have "0 < unat p" by (simp add: unat_gt_0)
  moreover have "unat (p + 8 * PX 0 va) = unat p + unat (8 * PX 0 va)"
  proof -
    obtain i where "i < 512" "PX 0 va = of_nat i" by (rule PX_index)
    then show ?thesis using p by (intro unat_page_plus) (simp_all add: valid_page_def unat_slot)
  qed
  ultimately have "0 < unat (p + 8 * PX 0 va)" by simp
  then show ?thesis by (metis less_irrefl unsigned_0)
qed

lemma walk_no_alloc: "va < MAXVA \<Longrightarrow> walk root va False s = Ok (slot (leaf_table 2 (mem s) root va) va, s)"
  unfolding walk_def by (simp only: walk_lookup not_le [symmetric] if_False)

text \<open>The entry \<^verbatim>\<open>walk\<close> finds without allocating.\<close>

lemma walk_found:
  assumes "vm_ok s root ps" and "va < MAXVA" and "xlate s root va \<noteq> 0"
  obtains p where "leaf_table 2 (mem s) root va = Some p" and "walk root va False s = Ok (p + 8 * PX 0 va, s)"
    and "p + 8 * PX 0 va \<noteq> 0" and "load64 (mem s) (p + 8 * PX 0 va) = xlate s root va"
proof -
  from assms(3) obtain p where p: "leaf_table 2 (mem s) root va = Some p"
    by (auto simp: pte_of_def split: option.splits)
  show thesis by (rule that [OF p]) (use walk_no_alloc [OF assms(2), of root s] slot_nonzero [OF assms(1) p] p in \<open>simp_all add: slot_def pte_of_def\<close>)
qed

text \<open>The translation \<^verbatim>\<open>walkaddr\<close> computes.\<close>

lemma walkaddr_xlate:
  assumes "vm_ok s root ps"
  shows "walkaddr root va s = Ok (if va \<ge> MAXVA \<or> xlate s root va AND PTE_V = 0 \<or> xlate s root va AND PTE_U = 0
    then 0 else PTE2PA (xlate s root va))"
proof (cases "va \<ge> MAXVA")
  case True
  then show ?thesis by (simp add: walkaddr_def)
next
  case False
  then have va: "va < MAXVA" by simp
  note w = walk_no_alloc [OF va, of root s]
  show ?thesis
  proof (cases "leaf_table 2 (mem s) root va")
    case None
    then show ?thesis using False w by (simp add: walkaddr_def slot_def pte_of_def)
  next
    case (Some p)
    then show ?thesis using False w slot_nonzero [OF assms Some]
      by (simp add: walkaddr_def slot_def pte_of_def)
  qed
qed

section \<open>Mapping pages\<close>

text \<open>
  What mapping may do besides changing translations: take the pages \<open>new\<close> off the free
  list and make page-table pages of them.
\<close>

definition vm_grown ::
  "uint64 \<Rightarrow> 'a physmem_scheme \<Rightarrow> uint64 list \<Rightarrow> 'a physmem_scheme \<Rightarrow> uint64 list \<Rightarrow> uint64 list \<Rightarrow> bool" where
  "vm_grown root s ps s' new ps' \<longleftrightarrow>
     ps = new @ ps' \<and> vm_ok s' root ps' \<and> pt_pages s' root = pt_pages s root \<union> set new \<and>
     phys_frame s s' (pt_pages s root \<union> set new)"

lemma vm_grown_refl: "vm_ok s root ps \<Longrightarrow> vm_grown root s ps s [] ps"
  by (simp add: vm_grown_def)

lemma vm_grown_trans:
  assumes "vm_grown root s ps s1 new1 ps1" and "vm_grown root s1 ps1 s2 new2 ps2"
  shows "vm_grown root s ps s2 (new1 @ new2) ps2"
  using assms phys_frame_trans [of s s1 "pt_pages s root \<union> set new1" s2 "pt_pages s1 root \<union> set new2"]
  by (auto simp: vm_grown_def)

lemma free_pages_cong:
  assumes "free_pages s ps" and "freelist s' = freelist s" and "kend s' = kend s"
    and "same_on (set ps) (mem s) (mem s')"
  shows "free_pages s' ps"
proof -
  have "load64 (mem s') p = load64 (mem s) p" if "p \<in> set ps" for p
    using same_on_pte [OF assms(4) that, of 0] by simp
  then have "freechain (mem s') (freelist s) ps = freechain (mem s) (freelist s) ps"
    by (rule freechain_cong)
  then show ?thesis using assms(1-3) by (simp add: free_pages_def)
qed

text \<open>Storing an entry: the translation of exactly one page changes.\<close>

lemma store_entry:
  assumes ok: "vm_ok s root ps" and va: "va < MAXVA" and p: "leaf_table 2 (mem s) root va = Some p"
    and s': "s' = s\<lparr>mem := store64 (mem s) (p + 8 * PX 0 va) v\<rparr>"
  shows "vm_ok s' root ps" and "pt_pages s' root = pt_pages s root" and "phys_frame s s' {p}"
    and "\<And>w. w < MAXVA \<Longrightarrow> xlate s' root w = (if PGROUNDDOWN w = PGROUNDDOWN va then v else xlate s root w)"
proof -
  obtain i where i: "i < 512" "PX 0 va = of_nat i" by (rule PX_index)
  have pin: "p \<in> pt_pages s root" by (rule leaf_table_in [OF p])
  have al: "page_aligned p" by (rule tabs_aligned [OF vm_okD(3) [OF ok] pin])
  have out: "\<not> in_page p x \<Longrightarrow> mem s' x = mem s x" for x
    unfolding s' i using store_slot_out [OF al i(1)] by simp
  then show fr: "phys_frame s s' {p}" unfolding s' by (intro phys_frame_mem) simp
  note tree = leaf_write_tree [OF vm_okD(3) [OF ok] p out]
  then show pages: "pt_pages s' root = pt_pages s root" by simp
  have "same_on (set ps) (mem s) (mem s')"
    using al vm_okD(2,4) [OF ok] pin free_pages_aligned
    by (intro same_on_other [OF out]) auto
  then have "free_pages s' ps"
    by (rule free_pages_cong [OF vm_okD(2) [OF ok], rotated 2]) (simp_all add: s')
  then show "vm_ok s' root ps"
    using vm_okD [OF ok] tree phys_frameD(1,2) [OF fr] by (simp add: vm_ok_def)
  show "xlate s' root w = (if PGROUNDDOWN w = PGROUNDDOWN va then v else xlate s root w)" if "w < MAXVA" for w
    using leaf_store [OF vm_okD(3) [OF ok] p, of v w] same_page_iff [OF that va] by (simp add: s')
qed

lemma walk_alloc:
  assumes "vm_ok s root ps" and "va < MAXVA"
  obtains a s' new ps' where "walk root va True s = Ok (a, s')" and "vm_grown root s ps s' new ps'"
    and "\<And>w. xlate s' root w = xlate s root w" and "a = slot (leaf_table 2 (mem s') root va) va"
    and "leaf_table 2 (mem s') root va = None \<longrightarrow> ps' = []"
proof -
  obtain a s' new ps' where w: "walk_levels va True 2 root s = Ok (a, s')" "walked 2 root va s ps a s' new ps'"
    using walk_levels_alloc [OF vm_okD(1,3,2,4) [OF assms(1)], of va] by blast
  have walk: "walk root va True s = Ok (a, s')"
    unfolding walk_def using w(1) assms(2) by simp
  note w' = w(2) [unfolded walked_def]
  have "free_pages s (new @ ps')" using w' vm_okD(2) [OF assms(1)] by simp
  then have "set new \<inter> set ps' = {}" by (simp add: free_pages_def)
  then have "vm_ok s' root ps'"
    using w' vm_okD [OF assms(1)] phys_frameD(1,2) [of s s'] by (auto simp: vm_ok_def)
  then have "vm_grown root s ps s' new ps'" using w' by (simp add: vm_grown_def)
  moreover have "xlate s' root w = xlate s root w" for w using w' by simp
  ultimately show thesis using w' by (intro that [OF walk, of new ps']) blast+
qed

lemma map_page_spec:
  assumes ok: "vm_ok s root ps" and va: "va < MAXVA" and free: "xlate s root va AND PTE_V = 0"
  obtains r s' new ps' where "map_page root pa perm va s = Ok (r, s')" and "vm_grown root s ps s' new ps'"
    and "\<And>w. w < MAXVA \<Longrightarrow> xlate s' root w =
      (if r = None \<and> PGROUNDDOWN w = PGROUNDDOWN va then PA2PTE pa OR perm OR PTE_V else xlate s root w)"
    and "r \<noteq> None \<longrightarrow> r = Some (- 1) \<and> ps' = []"
proof -
  obtain a s1 new ps1 where w: "walk root va True s = Ok (a, s1)" "vm_grown root s ps s1 new ps1"
    "\<And>w. xlate s1 root w = xlate s root w" "a = slot (leaf_table 2 (mem s1) root va) va"
    "leaf_table 2 (mem s1) root va = None \<longrightarrow> ps1 = []"
    using walk_alloc [OF ok va] by metis
  have ok1: "vm_ok s1 root ps1" using w(2) by (simp add: vm_grown_def)
  show thesis
  proof (cases "leaf_table 2 (mem s1) root va")
    case None
    then have "map_page root pa perm va s = Ok (Some (- 1), s1)"
      using w by (simp add: map_page_def slot_def)
    then show thesis using w None by (intro that [of "Some (- 1)" s1 new ps1]) auto
  next
    case (Some p)
    let ?s2 = "s1\<lparr>mem := store64 (mem s1) (p + 8 * PX 0 va) (PA2PTE pa OR perm OR PTE_V)\<rparr>"
    note st = store_entry [OF ok1 va Some refl, where v = "PA2PTE pa OR perm OR PTE_V"]
    have "load64 (mem s1) (p + 8 * PX 0 va) = xlate s root va" using w(3) [of va] Some by (simp add: pte_of_def)
    then have run: "map_page root pa perm va s = Ok (None, ?s2)"
      using w Some slot_nonzero [OF ok1 Some] free by (simp add: map_page_def slot_def)
    have "phys_frame s1 ?s2 (pt_pages s1 root)"
      by (rule phys_frame_trans [OF st(3) phys_frame_refl [of _ "{}"]]) (use leaf_table_in [OF Some] in simp)
    then have "vm_grown root s1 ps1 ?s2 [] ps1" using st(1,2) by (simp add: vm_grown_def)
    from vm_grown_trans [OF w(2) this] have "vm_grown root s ps ?s2 new ps1" by simp
    then show thesis using st(4) w(3) by (intro that [OF run]) simp_all
  qed
qed

text \<open>
  The loop of \<^verbatim>\<open>mappages\<close> over any pages: either all of them get their entries, or the free
  list is exhausted and the pages before some point got theirs.
\<close>

lemma map_loop:
  assumes "vm_ok s root ps" and "\<forall>a\<in>set xs. a < MAXVA \<and> page_aligned a \<and> xlate s root a AND PTE_V = 0"
    and "distinct xs"
  shows "\<exists>r s' new ps' done. mloop (\<lambda>a. map_page root (f a) perm a) xs s = Ok (r, s') \<and>
    vm_grown root s ps s' new ps' \<and> done \<le> length xs \<and>
    (\<forall>w<MAXVA. xlate s' root w = (if PGROUNDDOWN w \<in> set (take done xs)
       then PA2PTE (f (PGROUNDDOWN w)) OR perm OR PTE_V else xlate s root w)) \<and>
    (if r = None then done = length xs else r = Some (- 1) \<and> ps' = [])"
  using assms
proof (induction xs arbitrary: s ps)
  case Nil
  then show ?case using vm_grown_refl by fastforce
next
  case (Cons a xs)
  have a: "a < MAXVA" "PGROUNDDOWN a = a" "xlate s root a AND PTE_V = 0"
    using Cons.prems(2) by (simp_all add: PGROUNDDOWN_aligned)
  obtain r s1 new ps1 where m: "map_page root (f a) perm a s = Ok (r, s1)" "vm_grown root s ps s1 new ps1"
    "\<And>w. w < MAXVA \<Longrightarrow> xlate s1 root w =
      (if r = None \<and> PGROUNDDOWN w = a then PA2PTE (f a) OR perm OR PTE_V else xlate s root w)"
    "r \<noteq> None \<longrightarrow> r = Some (- 1) \<and> ps1 = []"
    using map_page_spec [OF Cons.prems(1) a(1,3)] a(2) by metis
  show ?case
  proof (cases r)
    case (Some e)
    then have "mloop (\<lambda>a. map_page root (f a) perm a) (a # xs) s = Ok (Some (- 1), s1)"
      using m by simp
    then show ?thesis using m Some by (intro exI [of _ "Some (- 1)"] exI [of _ s1] exI [of _ new] exI [of _ ps1] exI [of _ 0]) simp
  next
    case None
    have ok1: "vm_ok s1 root ps1" using m(2) by (simp add: vm_grown_def)
    have bf: "\<forall>b\<in>set xs. b < MAXVA \<and> page_aligned b \<and> xlate s1 root b AND PTE_V = 0"
      using Cons.prems(2,3) m(3) by (auto simp: PGROUNDDOWN_aligned)
    have "distinct xs" using Cons.prems(3) by simp
    from Cons.IH [OF ok1 bf this] obtain r' s' new' ps' d where l:
      "mloop (\<lambda>a. map_page root (f a) perm a) xs s1 = Ok (r', s')" "vm_grown root s1 ps1 s' new' ps'"
      "d \<le> length xs"
      "\<forall>w<MAXVA. xlate s' root w = (if PGROUNDDOWN w \<in> set (take d xs)
         then PA2PTE (f (PGROUNDDOWN w)) OR perm OR PTE_V else xlate s1 root w)"
      "if r' = None then d = length xs else r' = Some (- 1) \<and> ps' = []"
      by (elim exE conjE) (rule that)
    have "\<forall>w<MAXVA. xlate s' root w = (if PGROUNDDOWN w \<in> set (take (Suc d) (a # xs))
         then PA2PTE (f (PGROUNDDOWN w)) OR perm OR PTE_V else xlate s root w)"
      using l(4) m(3) None by auto
    then show ?thesis using m(1) None l(1,3,5) vm_grown_trans [OF m(2) l(2)]
      by (intro exI [of _ r'] exI [of _ s'] exI [of _ "new @ new'"] exI [of _ ps'] exI [of _ "Suc d"]) simp
  qed
qed

subsection \<open>Ranges of pages\<close>

lemma PGROUNDDOWN_mono: "a \<le> b \<Longrightarrow> PGROUNDDOWN a \<le> PGROUNDDOWN b"
  by (simp add: word_le_nat_alt unat_PGROUNDDOWN div_le_mono)

lemma aligned_unat: "page_aligned a \<Longrightarrow> unat a = unat a div 4096 * 4096"
  by (simp add: page_aligned_def)

lemma pages_through_props:
  assumes "page_aligned a" and "page_aligned b" and "a \<le> b"
  shows "distinct (pages_through a b)" and "p \<in> set (pages_through a b) \<longleftrightarrow> page_aligned p \<and> a \<le> p \<and> p \<le> b"
proof -
  let ?n = "unat (b - a) div 4096 + 1"
  have ba: "unat (b - a) = unat b - unat a" using assms(3) by (rule unat_sub)
  obtain i j where ij: "unat a = 4096 * i" "unat b = 4096 * j"
    using assms(1,2) by (auto simp: page_aligned_def elim!: dvdE)
  have "i \<le> j" using assms(3) ij by (simp add: word_le_nat_alt)
  then have n: "unat a + ?n * 4096 = 4096 * (j + 1)" using ij ba by (simp add: algebra_simps flip: right_diff_distrib')
  have "4096 * j < 2 ^ 64" using ij unsigned_less [where ?'a = nat, of b] by simp
  then have le: "unat a + ?n * 4096 \<le> 2 ^ 64" unfolding n by simp
  note props = page_list_props [OF assms(1) le]
  show "distinct (pages_through a b)" unfolding pages_through_def by (rule props(1))
  have "unat p < 4096 * (j + 1) \<longleftrightarrow> unat p \<le> 4096 * j" if p: "page_aligned p"
  proof -
    obtain k where "unat p = 4096 * k" using p by (auto simp: page_aligned_def elim!: dvdE)
    then show ?thesis by (simp only: nat_mult_less_cancel_disj nat_mult_le_cancel_disj) auto
  qed
  then show "p \<in> set (pages_through a b) \<longleftrightarrow> page_aligned p \<and> a \<le> p \<and> p \<le> b"
    unfolding pages_through_def props(2) n using ij by (auto simp: word_le_nat_alt)
qed

lemma pages_upto_props:
  assumes "page_aligned a" and "page_aligned b"
  shows "distinct (pages_upto a b)" and "p \<in> set (pages_upto a b) \<longleftrightarrow> page_aligned p \<and> a \<le> p \<and> p < b"
proof -
  let ?n = "(unat b - unat a + 4095) div 4096"
  obtain i j where ij: "unat a = 4096 * i" "unat b = 4096 * j"
    using assms by (auto simp: page_aligned_def elim!: dvdE)
  have "unat b - unat a + 4095 = 4095 + 4096 * (j - i)" using ij by (simp add: right_diff_distrib')
  then have n: "?n = j - i" by simp
  have j: "4096 * j < 2 ^ 64" "4096 * i < 2 ^ 64"
    using ij unsigned_less [where ?'a = nat, of b] unsigned_less [where ?'a = nat, of a] by simp_all
  have le: "unat a + ?n * 4096 \<le> 2 ^ 64" unfolding n using ij j by (cases "i \<le> j") (simp_all add: algebra_simps)
  note props = page_list_props [OF assms(1) le, unfolded n]
  show "distinct (pages_upto a b)" unfolding pages_upto_def n by (rule props(1))
  have "unat a \<le> unat p \<and> unat p < unat a + (j - i) * 4096 \<longleftrightarrow> unat a \<le> unat p \<and> unat p < unat b"
    unfolding ij by (cases "i \<le> j") (auto simp: algebra_simps)
  then show "p \<in> set (pages_upto a b) \<longleftrightarrow> page_aligned p \<and> a \<le> p \<and> p < b"
    unfolding pages_upto_def n props(2) by (auto simp: word_le_nat_alt word_less_nat_alt)
qed

definition page_in :: "uint64 \<Rightarrow> uint64 \<Rightarrow> uint64 \<Rightarrow> bool" where
  "page_in va sz w \<longleftrightarrow> PGROUNDDOWN va \<le> PGROUNDDOWN w \<and> PGROUNDDOWN w \<le> PGROUNDDOWN (va + sz - 1)"

lemma range_bounds:
  assumes "sz \<noteq> 0" and "unat va + unat sz \<le> 2 ^ 38"
  shows "va \<le> va + sz - 1" and "va + sz - 1 < MAXVA"
proof -
  have "0 < unat sz" using assms(1) by (simp add: unat_gt_0)
  moreover have "unat (va + (sz - 1)) = unat va + unat (sz - 1)"
    using assms(2) unat_minus_one [OF assms(1)] by (simp add: unat_word_ariths)
  ultimately have "unat (va + sz - 1) = unat va + unat sz - 1"
    using unat_minus_one [OF assms(1)] by (simp add: add_diff_eq)
  then show "va \<le> va + sz - 1" "va + sz - 1 < MAXVA"
    using assms \<open>0 < unat sz\<close> by (simp_all add: word_le_nat_alt word_less_nat_alt)
qed

text \<open>
  Property C2. \<^verbatim>\<open>mappages\<close> on a range that has no valid entry returns 0 or -1. When it returns 0,
  the page table translates every page of the range to the consecutive physical pages from
  \<open>pa\<close> on, with the permissions asked for, and translates every other address as before.
  It returns -1 only when the free list is exhausted, and then still leaves every
  translation outside the range as it was. In both cases the page table stays a tree of
  allocated pages and no byte outside the page-table pages (old and new) is written.
\<close>

theorem mappages_correct:
  assumes "vm_ok s root ps" and "sz \<noteq> 0" and "unat va + unat sz \<le> 2 ^ 38"
    and "\<forall>w<MAXVA. page_in va sz w \<longrightarrow> xlate s root w AND PTE_V = 0"
  shows "\<exists>r s' new ps'. mappages root va sz pa perm s = Ok (r, s') \<and> vm_grown root s ps s' new ps' \<and>
    (\<forall>w<MAXVA. \<not> page_in va sz w \<longrightarrow> xlate s' root w = xlate s root w) \<and>
    (if r = 0 then \<forall>w<MAXVA. page_in va sz w \<longrightarrow>
       xlate s' root w = PA2PTE (pa + (PGROUNDDOWN w - PGROUNDDOWN va)) OR perm OR PTE_V
     else r = - 1 \<and> ps' = [])"
proof -
  note b = range_bounds [OF assms(2,3)]
  let ?a = "PGROUNDDOWN va" and ?b = "PGROUNDDOWN (va + sz - 1)"
  let ?xs = "pages_through ?a ?b" and ?f = "\<lambda>a. pa + (a - ?a)"
  note xs = pages_through_props [of ?a ?b, OF _ _ PGROUNDDOWN_mono [OF b(1)], simplified]
  have "x < MAXVA \<and> page_aligned x \<and> xlate s root x AND PTE_V = 0" if "x \<in> set ?xs" for x
  proof -
    have x: "page_aligned x" "?a \<le> x" "x \<le> ?b" using that xs(2) by auto
    then have "x < MAXVA" using b(2) PGROUNDDOWN_le by (meson le_less_trans order_trans)
    then show ?thesis using assms(4) x by (simp add: page_in_def PGROUNDDOWN_aligned)
  qed
  then obtain r s' new ps' d where l: "mloop (\<lambda>a. map_page root (?f a) perm a) ?xs s = Ok (r, s')"
    "vm_grown root s ps s' new ps'" "d \<le> length ?xs"
    "\<forall>w<MAXVA. xlate s' root w = (if PGROUNDDOWN w \<in> set (take d ?xs)
       then PA2PTE (?f (PGROUNDDOWN w)) OR perm OR PTE_V else xlate s root w)"
    "if r = None then d = length ?xs else r = Some (- 1) \<and> ps' = []"
    using map_loop [OF assms(1) _ xs(1), of ?f perm] by blast
  have "PGROUNDDOWN w \<in> set ?xs \<longleftrightarrow> page_in va sz w" for w by (simp add: xs(2) page_in_def)
  moreover have "set (take d ?xs) \<subseteq> set ?xs" by (rule set_take_subset)
  moreover have "mappages root va sz pa perm s = Ok (case r of None \<Rightarrow> 0 | Some e \<Rightarrow> e, s')"
    using l(1) assms(2) by (simp add: mappages_def)
  ultimately show ?thesis using l
    by (intro exI [of _ "case r of None \<Rightarrow> 0 | Some e \<Rightarrow> e"] exI [of _ s'] exI [of _ new] exI [of _ ps'])
      (auto split: option.splits if_splits)
qed

lemma two_pages_vm:
  "vm_ok two_pages 0x87ffd000 [0x87fff000, 0x87ffe000]" "\<And>w. xlate two_pages 0x87ffd000 w = 0"
proof -
  have z: "pte_at (mem two_pages) 0x87ffd000 i = 0" if i: "i < 512" for i
  proof (rule load64_zero)
    fix j :: uint64 assume "j < 8"
    then have "in_page 0x87ffd000 (0x87ffd000 + 8 * of_nat i + j)" using slot_in_page [OF i] by simp
    then have "\<not> in_page 0x87fff000 (0x87ffd000 + 8 * of_nat i + j)"
      using in_page_unique [of "0x87fff000" "0x87ffd000"] by (auto simp: page_aligned_def)
    then show "mem two_pages (0x87ffd000 + 8 * of_nat i + j) = 0"
      using store64_page_start [of "0x87fff000"] by (simp add: two_pages_def page_aligned_def)
  qed
  show "vm_ok two_pages 0x87ffd000 [0x87fff000, 0x87ffe000]"
    using two_pages_free zero_table(1) [OF z] zero_table(2) [OF z] two_pages_used(1)
    by (simp add: vm_ok_def)
  show "xlate two_pages 0x87ffd000 w = 0" for w by (rule zero_table(3) [OF z])
qed

theorem mappages_correct_witness:
  "\<exists>r s' new ps'. mappages 0x87ffd000 0x1000 0x1800 0x80000000 PTE_R two_pages = Ok (r, s') \<and>
    vm_grown 0x87ffd000 two_pages [0x87fff000, 0x87ffe000] s' new ps' \<and>
    (\<forall>w<MAXVA. \<not> page_in 0x1000 0x1800 w \<longrightarrow> xlate s' 0x87ffd000 w = xlate two_pages 0x87ffd000 w) \<and>
    (if r = 0 then \<forall>w<MAXVA. page_in 0x1000 0x1800 w \<longrightarrow>
       xlate s' 0x87ffd000 w = PA2PTE (0x80000000 + (PGROUNDDOWN w - PGROUNDDOWN 0x1000)) OR PTE_R OR PTE_V
     else r = - 1 \<and> ps' = [])"
  by (rule mappages_correct [OF two_pages_vm(1)]) (simp_all add: two_pages_vm(2))

lemma PGROUNDDOWN_between:
  assumes "page_aligned a" and "page_aligned b"
  shows "a \<le> PGROUNDDOWN w \<and> PGROUNDDOWN w < b \<longleftrightarrow> a \<le> w \<and> w < b"
proof -
  obtain i j where ij: "unat a = i * 4096" "unat b = j * 4096"
    using assms by (auto simp: page_aligned_def mult.commute elim!: dvdE)
  have "i * 4096 \<le> unat w div 4096 * 4096 \<longleftrightarrow> i * 4096 \<le> unat w"
    using less_eq_div_iff_mult_less_eq [of 4096 i "unat w"] by simp
  moreover have "unat w div 4096 * 4096 < j * 4096 \<longleftrightarrow> unat w < j * 4096"
    using div_less_iff_less_mult [of 4096 "unat w" j] by simp
  ultimately show ?thesis
    by (simp only: word_le_nat_alt word_less_nat_alt unat_PGROUNDDOWN ij)
qed

section \<open>Unmapping pages\<close>

text \<open>
  The physical pages that a range of virtual pages is mapped to may be freed when they are
  allocated, mapped once, and no page-table pages.
\<close>

definition releasable :: "'a physmem_scheme \<Rightarrow> uint64 \<Rightarrow> uint64 list \<Rightarrow> uint64 list \<Rightarrow> bool" where
  "releasable s root ps pas \<longleftrightarrow> distinct pas \<and> set pas \<inter> (pt_pages s root \<union> set ps) = {} \<and>
     (\<forall>p\<in>set pas. valid_page (kend s) p)"

lemma pages_frame_tree:
  assumes "phys_frame s s' S" and "pt_wf (kend s) 2 (mem s) root" and "S \<inter> pt_pages s root = {}"
    and "\<forall>p\<in>S. page_aligned p"
  shows "pt_pages s' root = pt_pages s root" and "pt_wf (kend s') 2 (mem s') root"
    and "xlate s' root w = xlate s root w" and "leaf_table 2 (mem s') root w = leaf_table 2 (mem s) root w"
proof -
  have same: "same_on (pt_pages s root) (mem s) (mem s')"
    by (rule phys_frame_same [OF assms(1)]) (use assms(3,4) tabs_aligned [OF assms(2)] in auto)
  show "pt_pages s' root = pt_pages s root" by (rule tabs_frame [OF same])
  show "pt_wf (kend s') 2 (mem s') root"
    using pt_wf_frame [OF same] assms(2) phys_frameD(1) [OF assms(1)] by simp
  show "xlate s' root w = xlate s root w" by (rule pte_of_frame [OF same])
  show "leaf_table 2 (mem s') root w = leaf_table 2 (mem s) root w" by (rule leaf_table_frame [OF same])
qed

lemma unmap_page_spec:
  assumes ok: "vm_ok s root ps" and va: "va < MAXVA" "page_aligned va"
    and leaf: "xlate s root va AND PTE_V \<noteq> 0" "PTE_FLAGS (xlate s root va) \<noteq> PTE_V"
    and pas: "do_free \<Longrightarrow> releasable s root ps [PTE2PA (xlate s root va)]"
  obtains s' where "unmap_page root do_free va s = Ok s'"
    and "vm_ok s' root (if do_free then PTE2PA (xlate s root va) # ps else ps)"
    and "pt_pages s' root = pt_pages s root"
    and "phys_frame s s' (pt_pages s root \<union> (if do_free then {PTE2PA (xlate s root va)} else {}))"
    and "\<And>w. w < MAXVA \<Longrightarrow> xlate s' root w = (if PGROUNDDOWN w = va then 0 else xlate s root w)"
proof -
  let ?pa = "PTE2PA (xlate s root va)"
  have "xlate s root va \<noteq> 0" using leaf(1) by auto
  then obtain p where p: "leaf_table 2 (mem s) root va = Some p" "walk root va False s = Ok (p + 8 * PX 0 va, s)"
    "p + 8 * PX 0 va \<noteq> 0" "load64 (mem s) (p + 8 * PX 0 va) = xlate s root va"
    by (rule walk_found [OF ok va(1)])
  obtain s1 where s1: "(if do_free then kfree ?pa s else Ok s) = Ok s1"
    "vm_ok s1 root (if do_free then ?pa # ps else ps)" "pt_pages s1 root = pt_pages s root"
    "phys_frame s s1 (if do_free then {?pa} else {})" "\<And>w. xlate s1 root w = xlate s root w"
    "leaf_table 2 (mem s1) root va = Some p"
  proof (cases do_free)
    case True
    note rel = pas [OF True, unfolded releasable_def]
    then obtain s1 where s1: "kfree ?pa s = Ok s1" "free_pages s1 (?pa # ps)" "phys_frame s s1 {?pa}"
      using kfree_frame [OF vm_okD(1,2) [OF ok], of ?pa] by auto
    have al: "page_aligned ?pa" using rel by (simp add: valid_page_def)
    note tree = pages_frame_tree [OF s1(3) vm_okD(3) [OF ok]]
    have "vm_ok s1 root (?pa # ps)"
      using rel s1 al tree vm_okD [OF ok] phys_frameD(2) [OF s1(3)] by (simp add: vm_ok_def)
    with True s1 rel al tree p(1) show thesis by (intro that [of s1]) simp_all
  next
    case False
    with ok p(1) show thesis by (intro that [of s]) simp_all
  qed
  let ?s2 = "s1\<lparr>mem := store64 (mem s1) (p + 8 * PX 0 va) 0\<rparr>"
  note st = store_entry [OF s1(2) va(1) s1(6) refl, where v = 0]
  have run: "unmap_page root do_free va s = Ok ?s2"
    using p leaf s1(1) by (auto simp: unmap_page_def split: if_splits)
  have "phys_frame s ?s2 (pt_pages s root \<union> (if do_free then {?pa} else {}))"
    by (rule phys_frame_trans [OF s1(4) st(3)]) (use leaf_table_in [OF p(1)] in auto)
  with st s1 show thesis by (intro that [OF run]) (simp_all add: PGROUNDDOWN_aligned [OF va(2)])
qed

lemma unmap_loop:
  assumes "vm_ok s root ps" and "distinct xs"
    and "\<forall>a\<in>set xs. a < MAXVA \<and> page_aligned a \<and> xlate s root a AND PTE_V \<noteq> 0 \<and> PTE_FLAGS (xlate s root a) \<noteq> PTE_V"
    and "do_free \<Longrightarrow> releasable s root ps (map (\<lambda>a. PTE2PA (xlate s root a)) xs)"
  shows "\<exists>s'. mfold (unmap_page root do_free) xs s = Ok s' \<and>
    vm_ok s' root (if do_free then rev (map (\<lambda>a. PTE2PA (xlate s root a)) xs) @ ps else ps) \<and>
    pt_pages s' root = pt_pages s root \<and>
    phys_frame s s' (pt_pages s root \<union> (if do_free then (\<lambda>a. PTE2PA (xlate s root a)) ` set xs else {})) \<and>
    (\<forall>w<MAXVA. xlate s' root w = (if PGROUNDDOWN w \<in> set xs then 0 else xlate s root w))"
  using assms
proof (induction xs arbitrary: s ps)
  case Nil
  then show ?case by auto
next
  case (Cons a xs)
  let ?pa = "\<lambda>s a. PTE2PA (xlate s root a)"
  let ?ps1 = "if do_free then ?pa s a # ps else ps"
  obtain s1 where s1: "unmap_page root do_free a s = Ok s1" "vm_ok s1 root ?ps1"
    "pt_pages s1 root = pt_pages s root"
    "phys_frame s s1 (pt_pages s root \<union> (if do_free then {?pa s a} else {}))"
    "\<And>w. w < MAXVA \<Longrightarrow> xlate s1 root w = (if PGROUNDDOWN w = a then 0 else xlate s root w)"
    by (rule unmap_page_spec [OF Cons.prems(1), of a do_free]) (use Cons.prems(3,4) in \<open>auto simp: releasable_def\<close>)
  have same: "xlate s1 root b = xlate s root b" if "b \<in> set xs" for b
    using Cons.prems(2,3) s1(5) [of b] that by (auto simp: PGROUNDDOWN_aligned)
  then have pas: "map (?pa s1) xs = map (?pa s) xs" "?pa s1 ` set xs = ?pa s ` set xs" by auto
  have "\<exists>s'. mfold (unmap_page root do_free) xs s1 = Ok s' \<and>
    vm_ok s' root (if do_free then rev (map (?pa s1) xs) @ ?ps1 else ?ps1) \<and>
    pt_pages s' root = pt_pages s1 root \<and>
    phys_frame s1 s' (pt_pages s1 root \<union> (if do_free then ?pa s1 ` set xs else {})) \<and>
    (\<forall>w<MAXVA. xlate s' root w = (if PGROUNDDOWN w \<in> set xs then 0 else xlate s1 root w))"
  proof (rule Cons.IH [OF s1(2)])
    show "releasable s1 root ?ps1 (map (?pa s1) xs)" if do_free
      unfolding pas(1) using Cons.prems(4) [OF that] that s1(3) phys_frameD(1) [OF s1(4)]
      by (auto simp: releasable_def)
  qed (use Cons.prems(2,3) same in auto)
  then obtain s' where s': "mfold (unmap_page root do_free) xs s1 = Ok s'"
    "vm_ok s' root (if do_free then rev (map (?pa s) xs) @ ?ps1 else ?ps1)"
    "pt_pages s' root = pt_pages s root"
    "phys_frame s1 s' (pt_pages s root \<union> (if do_free then ?pa s ` set xs else {}))"
    "\<forall>w<MAXVA. xlate s' root w = (if PGROUNDDOWN w \<in> set xs then 0 else xlate s1 root w)"
    unfolding pas s1(3) by blast
  have "phys_frame s s' (pt_pages s root \<union> (if do_free then ?pa s ` set (a # xs) else {}))"
    by (rule phys_frame_trans [OF s1(4) s'(4)]) auto
  moreover have "\<forall>w<MAXVA. xlate s' root w = (if PGROUNDDOWN w \<in> set (a # xs) then 0 else xlate s root w)"
    using s'(5) s1(5) by auto
  moreover have "vm_ok s' root (if do_free then rev (map (?pa s) (a # xs)) @ ps else ps)"
    using s'(2) by (cases do_free) simp_all
  ultimately show ?case using s1(1) s'(1,3) by (intro exI [of _ s']) (simp only: mfold.simps res_bind_simps simp_thms)
qed

text \<open>
  Property C12. \<^verbatim>\<open>uvmunmap\<close> on a page-aligned range whose pages are all mapped by leaf entries
  returns; afterwards no page of the range is mapped, every other address translates as
  before, and, when it was asked to free memory, exactly the physical pages of the range
  are back on the free list (provided none of them was free, mapped twice or in use as a
  page table).
\<close>

theorem uvmunmap_correct:
  assumes "vm_ok s root ps" and "page_aligned va" and "unat va + unat n * 4096 \<le> 2 ^ 38"
    and "\<forall>a\<in>set (pages_upto va (va + n * PGSIZE)).
      xlate s root a AND PTE_V \<noteq> 0 \<and> PTE_FLAGS (xlate s root a) \<noteq> PTE_V"
    and "releasable s root ps (map (\<lambda>a. PTE2PA (xlate s root a)) (pages_upto va (va + n * PGSIZE)))"
  shows "\<exists>s'. uvmunmap root va n do_free s = Ok s' \<and>
    vm_ok s' root (if do_free then rev (map (\<lambda>a. PTE2PA (xlate s root a)) (pages_upto va (va + n * PGSIZE))) @ ps else ps) \<and>
    (\<forall>w<MAXVA. xlate s' root w = (if va \<le> w \<and> w < va + n * PGSIZE then 0 else xlate s root w))"
proof -
  let ?xs = "pages_upto va (va + n * PGSIZE)"
  have "unat n * 4096 < 2 ^ 64" using assms(3) by simp
  then have n: "unat (n * PGSIZE) = unat n * 4096" by (simp add: unat_word_ariths)
  then have e: "unat (va + n * PGSIZE) = unat va + unat n * 4096" using assms(3) by (simp add: unat_word_ariths)
  have al: "page_aligned (va + n * PGSIZE)" unfolding page_aligned_def e using assms(2) by (simp add: page_aligned_def)
  note xs = pages_upto_props [OF assms(2) al]
  have "\<forall>a\<in>set ?xs. a < MAXVA \<and> page_aligned a \<and> xlate s root a AND PTE_V \<noteq> 0 \<and> PTE_FLAGS (xlate s root a) \<noteq> PTE_V"
    using assms(3,4) e by (auto simp: xs(2) word_less_nat_alt)
  from unmap_loop [OF assms(1) xs(1) this assms(5), of do_free] obtain s' where
    "mfold (unmap_page root do_free) ?xs s = Ok s'"
    "vm_ok s' root (if do_free then rev (map (\<lambda>a. PTE2PA (xlate s root a)) ?xs) @ ps else ps)"
    "\<forall>w<MAXVA. xlate s' root w = (if PGROUNDDOWN w \<in> set ?xs then 0 else xlate s root w)" by blast
  moreover have "PGROUNDDOWN w \<in> set ?xs \<longleftrightarrow> va \<le> w \<and> w < va + n * PGSIZE" for w
    using PGROUNDDOWN_between [OF assms(2) al] by (simp add: xs(2))
  moreover have "va mod PGSIZE = 0" using assms(2) by (simp add: page_aligned_iff_mod)
  ultimately show ?thesis by (intro exI [of _ s']) (simp add: uvmunmap_def)
qed

text \<open>A page table that maps virtual page 0 to the page \<open>0x87ffc000\<close>, for the examples.\<close>

definition mapped :: physmem where
  "mapped = (boot_mem 0x87ffc000)\<lparr>mem :=
     store64 (store64 (store64 (\<lambda>_. 0) 0x87fff000 (PA2PTE 0x87ffe000 OR PTE_V))
       0x87ffe000 (PA2PTE 0x87ffd000 OR PTE_V)) 0x87ffd000 (PA2PTE 0x87ffc000 OR 0x17)\<rparr>"

lemma mapped_pte:
  assumes "i < 512"
  shows "pte_at (mem mapped) 0x87fff000 i = (if i = 0 then PA2PTE 0x87ffe000 OR PTE_V else 0)"
    and "pte_at (mem mapped) 0x87ffe000 i = (if i = 0 then PA2PTE 0x87ffd000 OR PTE_V else 0)"
    and "pte_at (mem mapped) 0x87ffd000 i = (if i = 0 then PA2PTE 0x87ffc000 OR 0x17 else 0)"
proof -
  have al: "page_aligned 0x87fff000" "page_aligned 0x87ffe000" "page_aligned 0x87ffd000"
    by (simp_all add: page_aligned_def)
  note st = store_slot_load [where i = 0, simplified, OF _ _ assms]
  have z: "pte_at (\<lambda>_. 0) q i = 0" for q by (rule load64_zero) simp
  show "pte_at (mem mapped) 0x87fff000 i = (if i = 0 then PA2PTE 0x87ffe000 OR PTE_V else 0)"
    "pte_at (mem mapped) 0x87ffe000 i = (if i = 0 then PA2PTE 0x87ffd000 OR PTE_V else 0)"
    "pte_at (mem mapped) 0x87ffd000 i = (if i = 0 then PA2PTE 0x87ffc000 OR 0x17 else 0)"
    by (simp_all add: mapped_def st al z)
qed

lemmas mapped_first = mapped_pte [of 0, simplified]

lemma mapped_kid:
  assumes "i < 512"
  shows "kid 0 (mem mapped) 0x87ffe000 i = (if i = 0 then {0x87ffd000} else {})"
    and "tabs 1 (mem mapped) 0x87ffe000 = {0x87ffe000, 0x87ffd000}"
    and "kid 1 (mem mapped) 0x87fff000 i = (if i = 0 then {0x87ffe000, 0x87ffd000} else {})"
proof -
  have k0: "kid 0 (mem mapped) 0x87ffe000 i = (if i = 0 then {0x87ffd000} else {})" if "i < 512" for i
    using mapped_pte(2) [OF that] by (simp add: kid_def mapped_first PA2PTE_def PTE2PA_def)
  then have "(\<Union>i<512. kid 0 (mem mapped) 0x87ffe000 i) = {0x87ffd000}"
    by (auto split: if_splits)
  then show t1: "tabs 1 (mem mapped) 0x87ffe000 = {0x87ffe000, 0x87ffd000}"
    using tabs_Suc [of 0] by simp
  show "kid 0 (mem mapped) 0x87ffe000 i = (if i = 0 then {0x87ffd000} else {})" by (rule k0 [OF assms])
  show "kid 1 (mem mapped) 0x87fff000 i = (if i = 0 then {0x87ffe000, 0x87ffd000} else {})"
    using mapped_pte(1) [OF assms] t1 by (simp add: kid_def mapped_first PA2PTE_def PTE2PA_def)
qed

lemma mapped_vm: "vm_ok mapped 0x87fff000 []"
  and mapped_pages: "pt_pages mapped 0x87fff000 = {0x87fff000, 0x87ffe000, 0x87ffd000}"
  and mapped_xlate: "xlate mapped 0x87fff000 0 = PA2PTE 0x87ffc000 OR 0x17"
proof -
  have e: "kend mapped = 0x87ffc000" by (simp add: mapped_def boot_mem_def)
  have v: "valid_page 0x87ffc000 0x87fff000" "valid_page 0x87ffc000 0x87ffe000" "valid_page 0x87ffc000 0x87ffd000"
    by (simp_all add: valid_page_def page_aligned_def)
  have "pt_wf 0x87ffc000 (Suc 0) (mem mapped) 0x87ffe000"
    using v by (auto simp: mapped_kid(1) mapped_pte(2) mapped_first PA2PTE_def PTE2PA_def split: if_splits)
  then have wf: "pt_wf 0x87ffc000 (Suc (Suc 0)) (mem mapped) 0x87fff000"
    using v mapped_kid(3) by (auto simp: mapped_pte(1) mapped_first PA2PTE_def PTE2PA_def split: if_splits simp del: pt_wf.simps(2) simp: pt_wf.simps(2) [of _ "Suc 0"])
  have "(\<Union>i<512. kid 1 (mem mapped) 0x87fff000 i) = {0x87ffe000, 0x87ffd000}"
    using mapped_kid(3) by (auto split: if_splits)
  then show "pt_pages mapped 0x87fff000 = {0x87fff000, 0x87ffe000, 0x87ffd000}"
    using tabs_Suc [of 1] by (simp add: numeral_2_eq_2)
  have "kmem_ok mapped" "free_pages mapped []"
    by (simp_all add: mapped_def boot_mem_def kmem_ok_def lock_simps free_pages_def)
  with wf e show "vm_ok mapped 0x87fff000 []" by (simp add: vm_ok_def numeral_2_eq_2)
  have px: "PX l 0 = of_nat 0" for l by (simp add: PX_def)
  have "leaf_table (Suc (Suc 0)) (mem mapped) 0x87fff000 0 = Some 0x87ffd000"
    using px by (simp add: mapped_first PA2PTE_def PTE2PA_def)
  then have "leaf_table 2 (mem mapped) 0x87fff000 0 = Some 0x87ffd000" by (simp only: numeral_2_eq_2)
  then show "xlate mapped 0x87fff000 0 = PA2PTE 0x87ffc000 OR 0x17"
    using mapped_pte(3) [of 0] px by (simp add: pte_of_def)
qed

lemma mapped_releasable:
  "pages_upto 0 (0 + 1 * PGSIZE) = [0]" "releasable mapped 0x87fff000 [] (map (\<lambda>a. PTE2PA (xlate mapped 0x87fff000 a)) [0])"
  using mapped_xlate mapped_pages
  by (simp_all add: pages_upto_def page_list_def releasable_def PA2PTE_def PTE2PA_def mapped_def boot_mem_def valid_page_def page_aligned_def)

theorem uvmunmap_correct_witness:
  "\<exists>s'. uvmunmap 0x87fff000 0 1 True mapped = Ok s' \<and> vm_ok s' 0x87fff000 [0x87ffc000] \<and>
    (\<forall>w<MAXVA. xlate s' 0x87fff000 w = (if 0 \<le> w \<and> w < 0 + 1 * PGSIZE then 0 else xlate mapped 0x87fff000 w))"
  using uvmunmap_correct [OF mapped_vm, of 0 1 True] mapped_releasable mapped_xlate
  by (simp add: page_aligned_def PA2PTE_def PTE2PA_def PTE_FLAGS_def)

end
