(* ===== verification/Vm_Copy.thy ===== *)
theory Vm_Copy
  imports Vm_Spec
begin

text \<open>
  The user's view of memory, and what \<^verbatim>\<open>copyout\<close>, \<^verbatim>\<open>copyin\<close> and \<^verbatim>\<open>copyinstr\<close> of
  \<^verbatim>\<open>kernel/vm.c\<close> do to it.
\<close>

unbundle bit_operations_syntax

section \<open>User memory\<close>

text \<open>An address the user can access, the physical address behind it, and the byte there.\<close>

definition user_page :: "'a physmem_scheme \<Rightarrow> uint64 \<Rightarrow> uint64 \<Rightarrow> bool" where
  "user_page s root w \<longleftrightarrow> w < MAXVA \<and> xlate s root w AND PTE_V \<noteq> 0 \<and> xlate s root w AND PTE_U \<noteq> 0"

definition user_addr :: "'a physmem_scheme \<Rightarrow> uint64 \<Rightarrow> uint64 \<Rightarrow> uint64" where
  "user_addr s root w = PTE2PA (xlate s root w) + (w - PGROUNDDOWN w)"

definition user_byte :: "'a physmem_scheme \<Rightarrow> uint64 \<Rightarrow> uint64 \<Rightarrow> uchar" where
  "user_byte s root w = mem s (user_addr s root w)"

text \<open>
  A private address space: user pages are allocated pages that are neither free nor part of
  the page table, and no two virtual pages share one.
\<close>

definition aspace :: "'a physmem_scheme \<Rightarrow> uint64 \<Rightarrow> uint64 list \<Rightarrow> bool" where
  "aspace s root ps \<longleftrightarrow> vm_ok s root ps \<and>
     (\<forall>w. user_page s root w \<longrightarrow> valid_page (kend s) (PTE2PA (xlate s root w)) \<and>
        PTE2PA (xlate s root w) \<notin> pt_pages s root \<union> set ps) \<and>
     (\<forall>w w'. user_page s root w \<longrightarrow> user_page s root w' \<longrightarrow>
        PTE2PA (xlate s root w) = PTE2PA (xlate s root w') \<longrightarrow> PGROUNDDOWN w = PGROUNDDOWN w')"

lemma offset_mod: "unat (a - PGROUNDDOWN a) = unat a mod 4096"
  by (simp add: unat_sub [OF PGROUNDDOWN_le] unat_PGROUNDDOWN minus_div_mult_eq_mod)

lemma page_rest_mod: "page_rest a = 4096 - unat a mod 4096"
proof -
  have "a - PGROUNDDOWN a \<le> PGSIZE" by (simp add: word_le_nat_alt offset_mod)
  then show ?thesis unfolding page_rest_def by (simp add: unat_sub offset_mod)
qed

lemma unat_add_le: "unat (a + b :: uint64) \<le> unat a + unat b"
  by (simp add: unat_word_ariths)

lemma same_page_diff:
  assumes "PGROUNDDOWN w = PGROUNDDOWN va"
  shows "unat (w - va) < n \<Longrightarrow> n \<le> 4096 \<Longrightarrow> unat va \<le> unat w"
    and "unat va \<le> unat w \<Longrightarrow> unat (w - va) = unat w - unat va"
proof -
  show le: "unat (w - va) = unat w - unat va" if "unat va \<le> unat w" using that by (simp add: unat_sub word_le_nat_alt)
  have "unat w div 4096 = unat va div 4096" using assms by (simp add: word_unat_eq_iff unat_PGROUNDDOWN)
  then have near: "unat va - unat w < 4096"
    using div_mult_mod_eq [of "unat w" 4096] div_mult_mod_eq [of "unat va" 4096] mod_less_divisor [of 4096 "unat va"]
    by simp
  show "unat va \<le> unat w" if "unat (w - va) < n" "n \<le> 4096"
  proof (rule ccontr)
    assume lt: "\<not> unat va \<le> unat w"
    then have "unat (w - va) = unat w + 2 ^ 64 - unat va" by (simp add: unat_sub_if')
    then show False using that near lt by simp
  qed
qed

lemma other_page_range:
  assumes "PGROUNDDOWN w \<noteq> PGROUNDDOWN va" and "n \<le> page_rest va"
  shows "\<not> (unat va \<le> unat w \<and> unat w < unat va + n)"
proof
  assume r: "unat va \<le> unat w \<and> unat w < unat va + n"
  have "unat va + page_rest va = unat va div 4096 * 4096 + 4096"
    unfolding page_rest_mod using div_mult_mod_eq [of "unat va" 4096] mod_less_divisor [of 4096 "unat va"] by linarith
  with r assms(2) have "unat w < (unat va div 4096 + 1) * 4096" by simp
  then have "unat w div 4096 \<le> unat va div 4096" by (simp add: less_mult_imp_div_less)
  moreover have "unat va div 4096 \<le> unat w div 4096" using r by (simp add: div_le_mono)
  ultimately have "unat w div 4096 = unat va div 4096" by simp
  with assms(1) show False by (simp add: word_unat_eq_iff unat_PGROUNDDOWN)
qed

lemma xlate_rounddown:
  assumes "w < MAXVA"
  shows "xlate s root (PGROUNDDOWN w) = xlate s root w"
proof -
  have "PGROUNDDOWN w < MAXVA" using PGROUNDDOWN_le assms by (rule le_less_trans)
  then have px: "PX j (PGROUNDDOWN w) = PX j w" if "j \<le> 2" for j
    using that same_page_iff [of "PGROUNDDOWN w" w] assms by (simp add: PGROUNDDOWN_aligned)
  then show ?thesis using leaf_table_cong [of 2 "PGROUNDDOWN w" w "mem s" root] px [of 0] by (simp add: pte_of_def split: option.splits)
qed

lemma user_walkaddr:
  assumes "aspace s root ps" and "w < MAXVA"
  shows "walkaddr root (PGROUNDDOWN w) s = Ok (if user_page s root w then PTE2PA (xlate s root w) else 0)"
    and "user_page s root w \<Longrightarrow> PTE2PA (xlate s root w) \<noteq> 0"
proof -
  have ok: "vm_ok s root ps" using assms(1) by (simp add: aspace_def)
  have "PGROUNDDOWN w < MAXVA" using PGROUNDDOWN_le assms(2) by (rule le_less_trans)
  then show "walkaddr root (PGROUNDDOWN w) s = Ok (if user_page s root w then PTE2PA (xlate s root w) else 0)"
    using walkaddr_xlate [OF ok, of "PGROUNDDOWN w"] xlate_rounddown [OF assms(2), of s root] assms(2)
    by (auto simp: user_page_def dest: leD)
  show "PTE2PA (xlate s root w) \<noteq> 0" if "user_page s root w"
    using assms(1) that kmem_okD(3) [OF vm_okD(1) [OF ok]] by (auto simp: aspace_def dest: valid_page_nonzero)
qed

text \<open>Bytes written inside one user page.\<close>

lemma write_user_frame:
  assumes "length bs \<le> page_rest va" and "\<not> in_page (PTE2PA (xlate s root va)) x"
  shows "write_bytes (mem s) (user_addr s root va) bs x = mem s x"
proof -
  let ?pa = "PTE2PA (xlate s root va)"
  have "\<not> unat (x - user_addr s root va) < length bs"
  proof
    assume "unat (x - user_addr s root va) < length bs"
    moreover have "x - ?pa = (x - user_addr s root va) + (va - PGROUNDDOWN va)" by (simp add: user_addr_def)
    then have "unat (x - ?pa) \<le> unat (x - user_addr s root va) + unat va mod 4096"
      by (metis offset_mod unat_add_le)
    ultimately have "unat (x - ?pa) < 4096" using assms(1) by (simp add: page_rest_mod)
    with assms(2) show False by (simp add: in_page_def)
  qed
  then show ?thesis by (simp add: write_bytes_def)
qed

lemma write_user_page:
  assumes as: "aspace s root ps" and va: "user_page s root va"
    and n: "length bs \<le> page_rest va"
    and s': "s' = s\<lparr>mem := write_bytes (mem s) (user_addr s root va) bs\<rparr>"
  shows "aspace s' root ps" and "\<And>w. xlate s' root w = xlate s root w"
    and "\<And>w. user_page s root w \<Longrightarrow> user_byte s' root w =
      (if unat va \<le> unat w \<and> unat w < unat va + length bs then bs ! (unat w - unat va) else user_byte s root w)"
proof -
  let ?pa = "PTE2PA (xlate s root va)"
  note ok = as [unfolded aspace_def]
  have pa: "valid_page (kend s) ?pa" "?pa \<notin> pt_pages s root \<union> set ps" using ok va by blast+
  have al: "page_aligned ?pa" using pa by (simp add: valid_page_def)
  have out: "mem s' x = mem s x" if "\<not> in_page ?pa x" for x
    using write_user_frame [OF n that] by (simp add: s')
  have fr: "phys_frame s s' {?pa}" unfolding s' using out by (intro phys_frame_mem) (simp add: s')
  have okv: "vm_ok s root ps" using ok by blast
  have "{?pa} \<inter> pt_pages s root = {}" "\<forall>p\<in>{?pa}. page_aligned p" using pa al by auto
  note tree = pages_frame_tree [OF fr vm_okD(3) [OF okv] this]
  show x: "xlate s' root w = xlate s root w" for w by (rule tree(3))
  have fp: "free_pages s ps" by (rule vm_okD(2) [OF okv])
  have "same_on (set ps) (mem s) (mem s')"
    by (rule same_on_other [OF out]) (use al pa free_pages_aligned [OF fp] in auto)
  then have "free_pages s' ps"
    by (rule free_pages_cong [OF fp, rotated 2]) (simp_all add: s')
  then have ok': "vm_ok s' root ps"
    using vm_okD [OF okv] tree(1,2) phys_frameD(1,2) [OF fr] by (simp add: vm_ok_def)
  have up: "user_page s' root w = user_page s root w" for w using x by (simp add: user_page_def)
  have ad: "user_addr s' root w = user_addr s root w" for w using x by (simp add: user_addr_def)
  show "aspace s' root ps" unfolding aspace_def tree(1) up x phys_frameD(1) [OF fr] using ok ok' by blast
  show "user_byte s' root w =
      (if unat va \<le> unat w \<and> unat w < unat va + length bs then bs ! (unat w - unat va) else user_byte s root w)"
    if w: "user_page s root w" for w
  proof (cases "PGROUNDDOWN w = PGROUNDDOWN va")
    case True
    have "xlate s root w = xlate s root va" using True xlate_rounddown w va by (metis user_page_def)
    then have d: "user_addr s root w - user_addr s root va = w - va" using True by (simp add: user_addr_def)
    have "user_byte s' root w = write_bytes (mem s) (user_addr s root va) bs (user_addr s root w)"
      unfolding user_byte_def ad by (simp add: s')
    also have "\<dots> = (if unat (w - va) < length bs then bs ! unat (w - va) else user_byte s root w)"
      unfolding write_bytes_def d user_byte_def ..
    finally have eq: "user_byte s' root w = (if unat (w - va) < length bs then bs ! unat (w - va) else user_byte s root w)" .
    show ?thesis
    proof (cases "unat va \<le> unat w")
      case le: True
      then have "unat (w - va) = unat w - unat va" by (rule same_page_diff(2) [OF True])
      then show ?thesis using eq le by auto
    next
      case False
      moreover have "\<not> unat (w - va) < length bs"
        using same_page_diff(1) [OF True, of "length bs"] n page_rest_bounds(2) [of va] False by auto
      ultimately show ?thesis using eq by simp
    qed
  next
    case False
    then have "PTE2PA (xlate s root w) \<noteq> ?pa" using ok w va by blast
    moreover have "valid_page (kend s) (PTE2PA (xlate s root w))" using ok w by blast
    then have "page_aligned (PTE2PA (xlate s root w))" by (simp add: valid_page_def)
    moreover have "in_page (PTE2PA (xlate s root w)) (user_addr s root w)"
      unfolding user_addr_def by (rule in_page_plus) (simp add: offset_mod)
    ultimately have "\<not> in_page ?pa (user_addr s root w)" using al \<open>page_aligned (PTE2PA (xlate s root w))\<close> in_page_unique by metis
    then have "user_byte s' root w = user_byte s root w" using out by (simp add: user_byte_def ad)
    moreover have "\<not> (unat va \<le> unat w \<and> unat w < unat va + length bs)"
      by (rule other_page_range [OF False n])
    ultimately show ?thesis by auto
  qed
qed


section \<open>Copying\<close>

lemma next_page:
  assumes "unat va + n \<le> 2 ^ 38" and "page_rest va \<le> n"
  shows "unat (PGROUNDDOWN va + PGSIZE) = unat va + page_rest va"
proof -
  have r: "unat va + page_rest va = unat va div 4096 * 4096 + 4096"
    unfolding page_rest_mod using div_mult_mod_eq [of "unat va" 4096] mod_less_divisor [of 4096 "unat va"] by linarith
  have "unat va div 4096 * 4096 + 4096 < 2 ^ 64" using assms r by simp
  then show ?thesis using r by (simp add: unat_word_ariths unat_PGROUNDDOWN)
qed

text \<open>The addresses \<^verbatim>\<open>copyout\<close> and \<^verbatim>\<open>copyin\<close> touch are all user pages.\<close>

definition user_range :: "'a physmem_scheme \<Rightarrow> uint64 \<Rightarrow> uint64 \<Rightarrow> nat \<Rightarrow> bool" where
  "user_range s root va n \<longleftrightarrow> unat va + n \<le> 2 ^ 38 \<and>
     (\<forall>w. unat va \<le> unat w \<and> unat w < unat va + n \<longrightarrow> user_page s root w)"

lemma user_range_hd: "user_range s root va n \<Longrightarrow> 0 < n \<Longrightarrow> user_page s root va"
  by (simp add: user_range_def)

lemma user_range_tl:
  assumes "user_range s root va n" and "page_rest va \<le> n"
  shows "user_range s root (PGROUNDDOWN va + PGSIZE) (n - page_rest va)"
  using assms next_page [of va n] by (auto simp: user_range_def)

lemma copyout_user:
  assumes "aspace s root ps" and "user_range s root va (length bs)"
  shows "\<exists>s'. copyout root va bs s = Ok (0, s') \<and> aspace s' root ps \<and> (\<forall>w. xlate s' root w = xlate s root w) \<and>
    (\<forall>w. user_page s root w \<longrightarrow> user_byte s' root w =
      (if unat va \<le> unat w \<and> unat w < unat va + length bs then bs ! (unat w - unat va) else user_byte s root w))"
  using assms
proof (induction root va bs s rule: copyout.induct)
  case (1 root va bs s)
  show ?case
  proof (cases "bs = []")
    case True
    then show ?thesis using 1(2) by (auto simp: copyout.simps)
  next
    case False
    let ?n = "min (page_rest va) (length bs)"
    let ?s1 = "s\<lparr>mem := write_bytes (mem s) (user_addr s root va) (take ?n bs)\<rparr>"
    have va: "user_page s root va" using user_range_hd 1(3) False by blast
    then have lt: "va < MAXVA" by (simp add: user_page_def)
    note wa = user_walkaddr [OF 1(2) lt]
    have n: "length (take ?n bs) \<le> page_rest va" "length (take ?n bs) = ?n" by simp_all
    note w1 = write_user_page [OF 1(2) va n(1) refl]
    have step: "copyout root va bs s = copyout root (PGROUNDDOWN va + PGSIZE) (drop ?n bs) ?s1"
      using False wa va by (subst copyout.simps) (simp add: user_addr_def Let_def)
    show ?thesis
    proof (cases "length bs \<le> page_rest va")
      case True
      then have "drop ?n bs = []" "take ?n bs = bs" by simp_all
      then show ?thesis using step w1 by (simp add: copyout.simps)
    next
      case more: False
      have up: "user_page ?s1 root w = user_page s root w" for w using w1(2) by (simp add: user_page_def)
      have nx: "unat (PGROUNDDOWN va + PGSIZE) = unat va + page_rest va"
        using 1(3) more by (intro next_page [of _ "length bs"]) (simp_all add: user_range_def)
      have "user_range ?s1 root (PGROUNDDOWN va + PGSIZE) (length (drop ?n bs))"
        using user_range_tl [OF 1(3)] more up by (simp add: user_range_def)
      then obtain s' where s': "copyout root (PGROUNDDOWN va + PGSIZE) (drop ?n bs) ?s1 = Ok (0, s')"
        "aspace s' root ps" "\<forall>w. xlate s' root w = xlate ?s1 root w"
        "\<forall>w. user_page ?s1 root w \<longrightarrow> user_byte s' root w =
          (if unat va + page_rest va \<le> unat w \<and> unat w < unat va + page_rest va + length (drop ?n bs)
           then drop ?n bs ! (unat w - (unat va + page_rest va)) else user_byte ?s1 root w)"
        using 1(1) [OF False refl wa(1)] va wa(2) w1(1) nx by (auto simp: user_addr_def)
      have "user_byte s' root w =
          (if unat va \<le> unat w \<and> unat w < unat va + length bs then bs ! (unat w - unat va) else user_byte s root w)"
        if w: "user_page s root w" for w
        using s'(4) up w w1(3) [OF w] more by (auto simp: min_def)
      then show ?thesis using step s'(1-3) w1(2) by (intro exI [of _ s']) simp
    qed
  qed
qed

lemma read_user_page:
  assumes "user_page s root va" and "n \<le> page_rest va" and "unat va + n \<le> 2 ^ 38"
  shows "read_bytes (mem s) (user_addr s root va) n = map (\<lambda>i. user_byte s root (va + of_nat i)) [0..<n]"
  unfolding read_bytes_def
proof (rule map_cong [OF refl])
  fix i assume "i \<in> set [0..<n]"
  then have i: "i < n" by simp
  then have u: "unat (of_nat i :: uint64) = i" using assms(3) by (simp add: unat_of_nat)
  then have vi: "unat (va + of_nat i) = unat va + i" using i assms(3) by (simp add: unat_word_ariths)
  then have same: "PGROUNDDOWN (va + of_nat i) = PGROUNDDOWN va"
    using other_page_range [OF _ assms(2), of "va + of_nat i"] i by auto
  have "va + of_nat i < MAXVA" using vi i assms(3) by (simp add: word_less_nat_alt)
  then have "xlate s root (va + of_nat i) = xlate s root va"
    using xlate_rounddown [of "va + of_nat i" s root] xlate_rounddown [of va s root] same assms(1)
    by (simp add: user_page_def)
  then show "mem s (user_addr s root va + of_nat i) = user_byte s root (va + of_nat i)"
    using same by (simp add: user_byte_def user_addr_def algebra_simps)
qed

lemma copyin_user:
  assumes "aspace s root ps" and "user_range s root va n"
  shows "copyin root va n s = Ok (0, map (\<lambda>i. user_byte s root (va + of_nat i)) [0..<n])"
  using assms
proof (induction root va n s rule: copyin.induct)
  case (1 root va n s)
  show ?case
  proof (cases "n = 0")
    case True
    then show ?thesis by (simp add: copyin.simps)
  next
    case False
    let ?n = "min (page_rest va) n"
    have va: "user_page s root va" using user_range_hd 1(3) False by blast
    then have lt: "va < MAXVA" by (simp add: user_page_def)
    note wa = user_walkaddr [OF 1(2) lt]
    have rd: "read_bytes (mem s) (user_addr s root va) ?n = map (\<lambda>i. user_byte s root (va + of_nat i)) [0..<?n]"
      by (rule read_user_page [OF va]) (use 1(3) in \<open>auto simp: user_range_def min_def\<close>)
    have step: "copyin root va n s = res_bind (copyin root (PGROUNDDOWN va + PGSIZE) (n - ?n) s)
        (\<lambda>(r, bs). Ok (r, map (\<lambda>i. user_byte s root (va + of_nat i)) [0..<?n] @ bs))"
      using False wa va rd by (subst copyin.simps) (simp add: user_addr_def Let_def)
    show ?thesis
    proof (cases "n \<le> page_rest va")
      case True
      then show ?thesis using step by (simp add: copyin.simps min_def)
    next
      case more: False
      have "copyin root (PGROUNDDOWN va + PGSIZE) (n - ?n) s =
        Ok (0, map (\<lambda>i. user_byte s root (PGROUNDDOWN va + PGSIZE + of_nat i)) [0..<n - ?n])"
        using 1(1) [OF False refl wa(1)] va wa(2) user_range_tl [OF 1(3)] 1(2) more by (simp add: min_def)
      moreover have nx: "PGROUNDDOWN va + PGSIZE = va + of_nat (page_rest va)"
      proof -
        have "unat (PGROUNDDOWN va + PGSIZE) = unat va + page_rest va"
          using 1(3) more by (intro next_page [of _ n]) (simp_all add: user_range_def)
        also have "\<dots> = unat (va + of_nat (page_rest va))"
          using 1(3) more page_rest_bounds(2) [of va] by (simp add: user_range_def unat_word_ariths unat_of_nat)
        finally show ?thesis by (simp add: word_unat_eq_iff)
      qed
      moreover have "[0..<n] = [0..<?n] @ map (\<lambda>i. i + page_rest va) [0..<n - ?n]"
        using more upt_add_eq_append [of 0 "page_rest va" "n - page_rest va"]
          map_add_upt [of "page_rest va" "n - page_rest va"] by (simp add: min_def add.commute)
      ultimately show ?thesis using step more by (simp add: min_def o_def algebra_simps)
    qed
  qed
qed

text \<open>
  Property C13. What \<^verbatim>\<open>copyout\<close> stores at a user address range of a private address space,
  \<^verbatim>\<open>copyin\<close> reads back, across any number of page boundaries, and every other byte of user
  memory is left alone.
\<close>

theorem copyout_copyin_roundtrip:
  assumes "aspace s root ps" and "user_range s root va (length bs)"
  shows "\<exists>s'. copyout root va bs s = Ok (0, s') \<and> copyin root va (length bs) s' = Ok (0, bs) \<and>
    (\<forall>w. user_page s root w \<longrightarrow> \<not> (unat va \<le> unat w \<and> unat w < unat va + length bs) \<longrightarrow>
      user_byte s' root w = user_byte s root w)"
proof -
  obtain s' where s': "copyout root va bs s = Ok (0, s')" "aspace s' root ps" "\<forall>w. xlate s' root w = xlate s root w"
    "\<forall>w. user_page s root w \<longrightarrow> user_byte s' root w =
      (if unat va \<le> unat w \<and> unat w < unat va + length bs then bs ! (unat w - unat va) else user_byte s root w)"
    using copyout_user [OF assms] by blast
  have "user_range s' root va (length bs)"
    using assms(2) s'(3) by (simp add: user_range_def user_page_def)
  moreover have "map (\<lambda>i. user_byte s' root (va + of_nat i)) [0..<length bs] = bs"
  proof (rule nth_equalityI)
    fix i assume "i < length (map (\<lambda>i. user_byte s' root (va + of_nat i)) [0..<length bs])"
    then have i: "i < length bs" by simp
    have "unat va + length bs \<le> 2 ^ 38" using assms(2) by (simp add: user_range_def)
    with i have u: "unat (va + of_nat i) = unat va + i" by (simp add: unat_word_ariths unat_of_nat)
    with i assms(2) have "user_page s root (va + of_nat i)" by (simp add: user_range_def)
    with s'(4) u i show "map (\<lambda>i. user_byte s' root (va + of_nat i)) [0..<length bs] ! i = bs ! i" by simp
  qed simp
  ultimately have "copyin root va (length bs) s' = Ok (0, bs)" using copyin_user [OF s'(2)] by simp
  with s'(1,4) show ?thesis by (intro exI [of _ s']) auto
qed

lemma mapped_xlate_other:
  assumes "w < MAXVA"
  shows "xlate mapped 0x87fff000 w = (if unat w < 4096 then PA2PTE 0x87ffc000 OR 0x17 else 0)"
proof (cases "PGROUNDDOWN w = 0")
  case True
  then have "unat w div 4096 = 0" using unat_PGROUNDDOWN [of w] by simp
  then show ?thesis using mapped_xlate xlate_rounddown [OF assms, of mapped "0x87fff000"] True
    by (simp add: div_eq_0_iff)
next
  case False
  then have "unat w div 4096 \<noteq> 0" using unat_PGROUNDDOWN [of w] by (auto simp: word_unat_eq_iff)
  then have big: "\<not> unat w < 4096" by simp
  have "PGROUNDDOWN w \<noteq> PGROUNDDOWN 0" using False by (simp add: PGROUNDDOWN_def)
  then obtain j where j: "j \<le> 2" "PX j w \<noteq> PX j 0" using same_page_iff [OF assms, of 0] by auto
  obtain i0 i1 i2 where i: "i0 < 512" "PX 0 w = of_nat i0" "i1 < 512" "PX (Suc 0) w = of_nat i1"
    "i2 < 512" "PX (Suc (Suc 0)) w = of_nat i2" using PX_index by metis
  have "i0 \<noteq> 0 \<or> i1 \<noteq> 0 \<or> i2 \<noteq> 0"
  proof (rule ccontr)
    assume "\<not> ?thesis"
    moreover have "j = 0 \<or> j = Suc 0 \<or> j = Suc (Suc 0)" using j(1) by auto
    moreover have "PX j 0 = 0" by (simp add: PX_def)
    ultimately show False using j(2) i by auto
  qed
  then have "pte_of (Suc (Suc 0)) (mem mapped) 0x87fff000 w = 0"
    using i by (auto simp: pte_of_def mapped_pte mapped_first PA2PTE_def PTE2PA_def)
  then show ?thesis using big by (simp only: numeral_2_eq_2 if_False)
qed

lemma mapped_aspace: "aspace mapped 0x87fff000 []" "user_range mapped 0x87fff000 0xffd 3"
proof -
  have flags: "(PA2PTE 0x87ffc000 OR 0x17) AND PTE_V \<noteq> 0" "(PA2PTE 0x87ffc000 OR 0x17) AND PTE_U \<noteq> 0"
    "PTE2PA (PA2PTE 0x87ffc000 OR 0x17) = 0x87ffc000"
    by (simp_all add: PA2PTE_def PTE2PA_def)
  have up: "user_page mapped 0x87fff000 w \<longleftrightarrow> unat w < 4096" for w
  proof (cases "w < MAXVA")
    case True
    then show ?thesis using mapped_xlate_other flags by (simp add: user_page_def)
  next
    case False
    then have "\<not> unat w < 4096" by (simp add: word_less_nat_alt)
    then show ?thesis using False by (simp add: user_page_def)
  qed
  have pa: "PTE2PA (xlate mapped 0x87fff000 w) = 0x87ffc000" if "unat w < 4096" for w
    using that mapped_xlate_other [of w] flags(3) by (simp add: word_less_nat_alt)
  have "PGROUNDDOWN w = 0" if "unat w < 4096" for w
    using that unat_PGROUNDDOWN [of w] by (simp add: word_unat_eq_iff)
  then show "aspace mapped 0x87fff000 []"
    unfolding aspace_def using mapped_vm mapped_pages pa
    by (simp add: up) (simp add: mapped_def boot_mem_def valid_page_def page_aligned_def)
  show "user_range mapped 0x87fff000 0xffd 3" by (simp add: user_range_def up)
qed

theorem copyout_copyin_roundtrip_witness:
  "\<exists>s'. copyout 0x87fff000 0xffd [1, 2, 3] mapped = Ok (0, s') \<and> copyin 0x87fff000 0xffd 3 s' = Ok (0, [1, 2, 3]) \<and>
    (\<forall>w. user_page mapped 0x87fff000 w \<longrightarrow> \<not> (unat (0xffd :: uint64) \<le> unat w \<and> unat w < unat (0xffd :: uint64) + 3) \<longrightarrow>
      user_byte s' 0x87fff000 w = user_byte mapped 0x87fff000 w)"
  using copyout_copyin_roundtrip [OF mapped_aspace(1), of "0xffd" "[1, 2, 3]"] mapped_aspace(2) by (simp add: numeral_3_eq_3)

text \<open>
  Property C3. \<^verbatim>\<open>copyout\<close> is safe for every address a user may pass, mapped or not, below or
  above \<^verbatim>\<open>MAXVA\<close>: it returns 0 or -1, keeps the page table and its translation, and
  writes to no byte outside the pages that the process itself may access.
\<close>

theorem copyout_isolated:
  assumes "aspace s root ps"
  shows "\<exists>r s'. copyout root va bs s = Ok (r, s') \<and> r \<in> {0, - 1} \<and> aspace s' root ps \<and>
    (\<forall>w. xlate s' root w = xlate s root w) \<and>
    (\<forall>x. (\<forall>w. user_page s root w \<longrightarrow> \<not> in_page (PTE2PA (xlate s root w)) x) \<longrightarrow> mem s' x = mem s x)"
  using assms
proof (induction root va bs s rule: copyout.induct)
  case (1 root va bs s)
  show ?case
  proof (cases "bs = [] \<or> \<not> user_page s root va")
    case True
    have "copyout root va bs s = Ok (if bs = [] then 0 else - 1, s)"
    proof (cases "va < MAXVA")
      case lt: True
      then show ?thesis using True user_walkaddr(1) [OF 1(2) lt] by (subst copyout.simps) auto
    next
      case False
      then have "PGROUNDDOWN va \<ge> MAXVA"
        using PGROUNDDOWN_mono [of MAXVA va] PGROUNDDOWN_aligned [of MAXVA] by (simp add: page_aligned_def)
      then show ?thesis by (subst copyout.simps) (simp add: walkaddr_def)
    qed
    then show ?thesis using 1(2) by auto
  next
    case False
    then have ne: "bs \<noteq> []" and va: "user_page s root va" by auto
    let ?n = "min (page_rest va) (length bs)"
    let ?s1 = "s\<lparr>mem := write_bytes (mem s) (user_addr s root va) (take ?n bs)\<rparr>"
    have lt: "va < MAXVA" using va by (simp add: user_page_def)
    note wa = user_walkaddr [OF 1(2) lt]
    have n: "length (take ?n bs) \<le> page_rest va" by simp
    note w1 = write_user_page [OF 1(2) va n refl]
    have step: "copyout root va bs s = copyout root (PGROUNDDOWN va + PGSIZE) (drop ?n bs) ?s1"
      using ne wa va by (subst copyout.simps) (simp add: user_addr_def Let_def)
    obtain r s' where s': "copyout root (PGROUNDDOWN va + PGSIZE) (drop ?n bs) ?s1 = Ok (r, s')" "r \<in> {0, - 1}"
      "aspace s' root ps" "\<forall>w. xlate s' root w = xlate ?s1 root w"
      "\<forall>x. (\<forall>w. user_page ?s1 root w \<longrightarrow> \<not> in_page (PTE2PA (xlate ?s1 root w)) x) \<longrightarrow> mem s' x = mem ?s1 x"
      using 1(1) [OF ne refl wa(1)] va wa(2) w1(1) by (auto simp: user_addr_def)
    have "mem s' x = mem s x" if x: "\<forall>w. user_page s root w \<longrightarrow> \<not> in_page (PTE2PA (xlate s root w)) x" for x
    proof -
      have "mem s' x = mem ?s1 x" using s'(5) x w1(2) by (auto simp: user_page_def)
      moreover have "mem ?s1 x = mem s x" using write_user_frame [OF n, of s root x] x va by simp
      ultimately show ?thesis by simp
    qed
    then show ?thesis using step s' w1(2) by (intro exI [of _ r] exI [of _ s']) simp
  qed
qed

theorem copyout_isolated_witness:
  "\<exists>r s'. copyout 0x87fff000 0xffffffffffffff00 [1, 2, 3] mapped = Ok (r, s') \<and> r \<in> {0, - 1} \<and> aspace s' 0x87fff000 [] \<and>
    (\<forall>w. xlate s' 0x87fff000 w = xlate mapped 0x87fff000 w) \<and>
    (\<forall>x. (\<forall>w. user_page mapped 0x87fff000 w \<longrightarrow> \<not> in_page (PTE2PA (xlate mapped 0x87fff000 w)) x) \<longrightarrow> mem s' x = mem mapped x)"
  by (rule copyout_isolated [OF mapped_aspace(1)])

end
