(* ===== verification/Proc_Table.thy ===== *)
theory Proc_Table
  imports Vm
begin

text \<open>
  The process table of \<^verbatim>\<open>kernel/proc.c\<close> and \<^verbatim>\<open>kernel/proc.h\<close>: \<^verbatim>\<open>proc[]\<close>, the multilevel
  feedback queues \<^verbatim>\<open>queue[]\<close>, \<^verbatim>\<open>mmr_list[]\<close> and the counters, with the operations on the
  scheduling queues and on the list ids. Pointers into \<^verbatim>\<open>proc[]\<close> are indices, a null pointer
  is \<open>None\<close>; an index outside an array is \<open>Fault\<close>.
\<close>

section \<open>Data (kernel/proc.h)\<close>

type_synonym cint = "32 word"

datatype procstate = UNUSED | USED | SLEEPING | RUNNABLE | RUNNING | ZOMBIE

text \<open>
  The addresses that processes sleep on: \<^verbatim>\<open>struct proc\<close> (in wait), \<^verbatim>\<open>ticks\<close>, a sleep lock,
  a pipe's \<^verbatim>\<open>nread\<close> or \<^verbatim>\<open>nwrite\<close>, the log, the console's read index, the UART's transmit
  index, a disk buffer, the list of disk descriptors.
\<close>

datatype chan =
    ChProc nat | ChTicks | ChBufLock nat | ChInodeLock nat | ChPipeRead uint64 | ChPipeWrite uint64
  | ChLog | ChCons | ChUart | ChBuf nat | ChDesc

text \<open>\<^verbatim>\<open>struct mmr_node\<close>: the links point to the node of region \<open>j\<close> of process \<open>i\<close>, \<open>(i, j)\<close>.\<close>

record mmr_node =
  listid :: int
  node_proc :: "nat option"
  node_next :: "nat \<times> nat"
  node_prev :: "nat \<times> nat"

record mmr =
  mmr_addr :: uint64
  mmr_length :: cint
  mmr_prot :: cint
  mmr_flags :: cint
  mmr_valid :: cint
  mmr_fd :: cint
  mmr_family :: mmr_node

text \<open>
  \<^verbatim>\<open>struct proc\<close>. Its lock is \<open>ProcLock i\<close>. The trapframe is a page of physical memory, at
  the address \<open>trapframe\<close>.
\<close>

record proc =
  state :: procstate
  chan :: "chan option"
  killed :: cint
  xstate :: cint
  pid :: cint
  cputime :: uint64
  tsticks :: uint
  priority :: int
  p_timeslice :: uint
  yielded :: cint
  p_next :: "nat option"
  parent :: "nat option"
  kstack :: uint64
  p_sz :: uint64
  pagetable :: uint64
  trapframe :: uint64
  ctx_ra :: uint64
  ctx_sp :: uint64
  ofile :: "nat \<Rightarrow> nat option"
  cwd :: "nat option"
  p_name :: "uchar list"
  p_mmr :: "nat \<Rightarrow> mmr"
  cur_max :: uint64

record queue =
  q_timeslice :: uint
  q_head :: "nat option"
  q_tail :: "nat option"

text \<open>
  \<open>trampoline\<close> and \<open>forkret\<close> are the addresses of the code that the linker places;
  \<open>mmr_list_valid\<close> are the \<^verbatim>\<open>valid\<close> flags of \<^verbatim>\<open>mmr_list[]\<close>; \<open>ticks\<close> is the clock of
  \<^verbatim>\<open>kernel/trap.c\<close>.
\<close>

record procs = physmem +
  proc :: "nat \<Rightarrow> proc"
  queue :: "nat \<Rightarrow> queue"
  sched_policy :: int
  initproc :: "nat option"
  nextpid :: cint
  mmr_list_valid :: "nat \<Rightarrow> bool"
  ticks :: uint
  trampoline_va :: uint64
  forkret_va :: uint64

abbreviation (input) NQUEUE :: nat where "NQUEUE \<equiv> 3"
abbreviation (input) HIGH :: int where "HIGH \<equiv> 0"
abbreviation (input) MEDIUM :: int where "MEDIUM \<equiv> 1"
abbreviation (input) LOW :: int where "LOW \<equiv> 2"
abbreviation (input) TSTICKSHIGH :: uint where "TSTICKSHIGH \<equiv> 1"
abbreviation (input) TSTICKSMEDIUM :: uint where "TSTICKSMEDIUM \<equiv> 50"
abbreviation (input) TSTICKSLOW :: uint where "TSTICKSLOW \<equiv> 200"
abbreviation (input) RR :: int where "RR \<equiv> 0"
abbreviation (input) MLFQ :: int where "MLFQ \<equiv> 1"
abbreviation (input) NLISTID :: nat where "NLISTID \<equiv> 640"

definition upd_proc :: "nat \<Rightarrow> (proc \<Rightarrow> proc) \<Rightarrow> 'a procs_scheme \<Rightarrow> 'a procs_scheme" where
  "upd_proc i f s = s\<lparr>proc := (proc s)(i := f (proc s i))\<rparr>"

definition upd_queue :: "nat \<Rightarrow> (queue \<Rightarrow> queue) \<Rightarrow> 'a procs_scheme \<Rightarrow> 'a procs_scheme" where
  "upd_queue i f s = s\<lparr>queue := (queue s)(i := f (queue s i))\<rparr>"

section \<open>The scheduling queues\<close>

definition queueinit :: "'a procs_scheme \<Rightarrow> 'a procs_scheme" where
  "queueinit =
     fold (\<lambda>i s. upd_queue i (\<lambda>q. \<lparr>q_timeslice =
         (if i = 0 then TSTICKSHIGH else if i = 1 then TSTICKSMEDIUM else TSTICKSLOW),
         q_head = None, q_tail = None\<rparr>) (initlock (QueueLock i) ''queue'' s)) [0..<NQUEUE]"

definition timeslice :: "int \<Rightarrow> int" where
  "timeslice p =
     (if p = HIGH then sint TSTICKSHIGH else if p = MEDIUM then sint TSTICKSMEDIUM
      else if p = LOW then sint TSTICKSLOW else - 1)"

text \<open>An access to \<^verbatim>\<open>queue[priority]\<close>; outside the array it is a wild access.\<close>

definition queue_at :: "int \<Rightarrow> (nat \<Rightarrow> 'b res) \<Rightarrow> 'b res" where
  "queue_at pri f = (if 0 \<le> pri \<and> pri < int NQUEUE then f (nat pri) else Fault)"

definition queue_empty :: "int \<Rightarrow> 'a procs_scheme \<Rightarrow> bool res" where
  "queue_empty pri s = queue_at pri (\<lambda>q. Ok (q_head (queue s q) = None))"

text \<open>
  The guards of the three operations are written as in the code: \<^verbatim>\<open>!(priority >= 0) &&
  (priority < NQUEUE)\<close>. The argument \<open>p\<close> is the index of the process in the table.
\<close>

definition enqueue_at_tail :: "nat \<Rightarrow> int \<Rightarrow> 'a procs_scheme \<Rightarrow> 'a procs_scheme res" where
  "enqueue_at_tail p pri s =
     (if \<not> p < NPROC then Panic ''enqueue_at_tail''
      else if \<not> pri \<ge> 0 \<and> pri < int NQUEUE then Panic ''enqueue_at_tail''
      else queue_at pri (\<lambda>q.
        res_bind
          (critical (QueueLock q) (\<lambda>s.
            case (q_head (queue s q), q_tail (queue s q)) of
              (None, None) \<Rightarrow> Ok (True, upd_queue q (\<lambda>qu. qu\<lparr>q_head := Some p, q_tail := Some p\<rparr>) s)
            | (_, None) \<Rightarrow> Ok (False, s)
            | (_, Some t) \<Rightarrow>
                Ok (True, upd_queue q (\<lambda>qu. qu\<lparr>q_tail := Some p\<rparr>)
                     (upd_proc t (\<lambda>r. r\<lparr>p_next := Some p\<rparr>) s))) s)
          (\<lambda>(ok, s). if ok then Ok s else Panic ''enqueue_at_tail'')))"

definition enqueue_at_head :: "nat \<Rightarrow> int \<Rightarrow> 'a procs_scheme \<Rightarrow> 'a procs_scheme res" where
  "enqueue_at_head p pri s =
     (if \<not> p < NPROC then Panic ''enqueue_at_head''
      else if \<not> pri \<ge> 0 \<and> pri < int NQUEUE then Panic ''enqueue_at_head''
      else queue_at pri (\<lambda>q.
        res_bind
          (critical (QueueLock q) (\<lambda>s.
            case (q_head (queue s q), q_tail (queue s q)) of
              (None, None) \<Rightarrow> Ok (True, upd_queue q (\<lambda>qu. qu\<lparr>q_head := Some p, q_tail := Some p\<rparr>) s)
            | (None, _) \<Rightarrow> Ok (False, s)
            | (Some h, _) \<Rightarrow>
                Ok (True, upd_queue q (\<lambda>qu. qu\<lparr>q_head := Some p\<rparr>)
                     (upd_proc p (\<lambda>r. r\<lparr>p_next := Some h\<rparr>) s))) s)
          (\<lambda>(ok, s). if ok then Ok s else Panic ''enqueue_at_head'')))"

definition dequeue :: "int \<Rightarrow> 'a procs_scheme \<Rightarrow> (nat option \<times> 'a procs_scheme) res" where
  "dequeue pri s =
     (if \<not> pri \<ge> 0 \<and> pri < int NQUEUE then Ok (None, s)
      else queue_at pri (\<lambda>q.
        res_bind
          (critical (QueueLock q) (\<lambda>s.
            case (q_head (queue s q), q_tail (queue s q)) of
              (None, None) \<Rightarrow> Ok (Some None, s)
            | (None, _) \<Rightarrow> Ok (None, s)
            | (Some p, _) \<Rightarrow>
                res_bind
                  (critical (ProcLock p) (\<lambda>s.
                    Ok ((), upd_proc p (\<lambda>r. r\<lparr>p_next := None\<rparr>)
                              (upd_queue q (\<lambda>qu. qu\<lparr>q_head := p_next (proc s p)\<rparr>) s))) s)
                  (\<lambda>(_, s).
                    Ok (Some (Some p),
                      if q_head (queue s q) = None then upd_queue q (\<lambda>qu. qu\<lparr>q_tail := None\<rparr>) s else s))) s)
          (\<lambda>(r, s). case r of None \<Rightarrow> Panic ''dequeue'' | Some p \<Rightarrow> Ok (p, s))))"

section \<open>Process ids and family list ids\<close>

definition allocpid :: "'a procs_scheme \<Rightarrow> (cint \<times> 'a procs_scheme) res" where
  "allocpid = critical PidLock (\<lambda>s. Ok (nextpid s, s\<lparr>nextpid := nextpid s + 1\<rparr>))"

definition mmrlistinit :: "'a procs_scheme \<Rightarrow> 'a procs_scheme" where
  "mmrlistinit s =
     fold (\<lambda>i s. (initlock (MmrListLock i) ''mmrlist'' s)\<lparr>mmr_list_valid := (mmr_list_valid s)(i := False)\<rparr>)
       [0..<NLISTID] (initlock ListidLock ''listid'' s)"

text \<open>The list that \<open>listid\<close> names, or null.\<close>

definition get_mmr_list :: "int \<Rightarrow> 'a procs_scheme \<Rightarrow> (nat option \<times> 'a procs_scheme) res" where
  "get_mmr_list lid =
     critical ListidLock (\<lambda>s.
       Ok (if lid \<ge> 0 \<and> lid < int NLISTID \<and> mmr_list_valid s (nat lid) then Some (nat lid) else None, s))"

definition dealloc_mmr_listid :: "int \<Rightarrow> 'a procs_scheme \<Rightarrow> 'a procs_scheme res" where
  "dealloc_mmr_listid lid s =
     res_bind
       (critical ListidLock (\<lambda>s.
         if 0 \<le> lid \<and> lid < int NLISTID
         then Ok ((), s\<lparr>mmr_list_valid := (mmr_list_valid s)(nat lid := False)\<rparr>) else Fault) s)
       (\<lambda>(_, s). Ok s)"

definition alloc_mmr_listid :: "'a procs_scheme \<Rightarrow> (int \<times> 'a procs_scheme) res" where
  "alloc_mmr_listid =
     critical ListidLock (\<lambda>s.
       res_bind
         (mloop (\<lambda>i s. if \<not> mmr_list_valid s i
                       then Ok (Some (int i), s\<lparr>mmr_list_valid := (mmr_list_valid s)(i := True)\<rparr>)
                       else Ok (None, s)) [0..<NLISTID] s)
         (\<lambda>(r, s). Ok (case r of None \<Rightarrow> - 1 | Some i \<Rightarrow> i, s)))"

section \<open>Initialisation and the current process\<close>

definition procinit :: "'a procs_scheme \<Rightarrow> 'a procs_scheme" where
  "procinit s =
     fold (\<lambda>i s. upd_proc i (\<lambda>p. p\<lparr>kstack := KSTACK i\<rparr>) (initlock (ProcLock i) ''proc'' s)) [0..<NPROC]
       (initlock WaitLock ''wait_lock'' (initlock PidLock ''nextpid'' (queueinit s)))"

definition myproc :: "'a procs_scheme \<Rightarrow> (nat option \<times> 'a procs_scheme) res" where
  "myproc s =
     (let s1 = push_off s; p = cpu_proc (mycpu s1) in
      res_bind (pop_off s1) (\<lambda>s2. Ok (p, s2)))"

text \<open>Functions that use the result of \<^verbatim>\<open>myproc()\<close> as a pointer.\<close>

definition with_proc ::
  "(nat \<Rightarrow> 'a procs_scheme \<Rightarrow> 'b res) \<Rightarrow> 'a procs_scheme \<Rightarrow> 'b res" where
  "with_proc f s = res_bind (myproc s) (\<lambda>(p, s). case p of None \<Rightarrow> Fault | Some i \<Rightarrow> f i s)"

end
