(* ===== verification/Proc_Ops.thy ===== *)
theory Proc_Ops
  imports Proc_Table
begin

text \<open>
  The operations of \<^verbatim>\<open>kernel/proc.c\<close> that need no file system: allocating and freeing a
  process, growing it, scheduling, sleeping and waking up, killing, waiting for children and
  listing processes. A call of \<^verbatim>\<open>swtch\<close> ends an operation: the part before it and the part
  after it are two definitions, since other code runs in between.
\<close>

unbundle bit_operations_syntax

section \<open>Bytes of kernel objects\<close>

definition bytes32 :: "32 word \<Rightarrow> uchar list" where
  "bytes32 w = map (\<lambda>i. ucast (drop_bit (8 * i) w)) [0..<4]"

definition bytes64 :: "uint64 \<Rightarrow> uchar list" where
  "bytes64 w = map (\<lambda>i. ucast (drop_bit (8 * i) w)) [0..<8]"

abbreviation (input) TF_EPC :: uint64 where "TF_EPC \<equiv> 24"
abbreviation (input) TF_SP :: uint64 where "TF_SP \<equiv> 48"
abbreviation (input) TF_A0 :: uint64 where "TF_A0 \<equiv> 112"
abbreviation (input) MAP_PRIVATE :: cint where "MAP_PRIVATE \<equiv> 2"
abbreviation (input) MAP_SHARED :: cint where "MAP_SHARED \<equiv> 1"

section \<open>Page tables of processes\<close>

definition proc_pagetable :: "nat \<Rightarrow> 'a procs_scheme \<Rightarrow> (uint64 \<times> 'a procs_scheme) res" where
  "proc_pagetable p s =
     res_bind (uvmcreate s) (\<lambda>(pt, s).
       if pt = 0 then Ok (0, s)
       else res_bind (mappages pt TRAMPOLINE PGSIZE (trampoline_va s) (PTE_R OR PTE_X) s) (\<lambda>(r, s).
         if r < 0 then res_bind (uvmfree pt 0 s) (\<lambda>s. Ok (0, s))
         else res_bind (mappages pt TRAPFRAME PGSIZE (trapframe (proc s p)) (PTE_R OR PTE_W) s) (\<lambda>(r, s).
           if r < 0 then
             res_bind (uvmunmap pt TRAMPOLINE 1 False s) (\<lambda>s.
               res_bind (uvmfree pt 0 s) (\<lambda>s. Ok (0, s)))
           else Ok (pt, s))))"

definition proc_freepagetable :: "uint64 \<Rightarrow> uint64 \<Rightarrow> 'a procs_scheme \<Rightarrow> 'a procs_scheme res" where
  "proc_freepagetable pt sz s =
     res_bind (uvmunmap pt TRAMPOLINE 1 False s) (\<lambda>s.
       res_bind (uvmunmap pt TRAPFRAME 1 False s) (uvmfree pt sz))"

section \<open>Freeing and allocating a process\<close>

definition upd_mmr :: "nat \<Rightarrow> nat \<Rightarrow> (mmr \<Rightarrow> mmr) \<Rightarrow> 'a procs_scheme \<Rightarrow> 'a procs_scheme" where
  "upd_mmr p i f = upd_proc p (\<lambda>r. r\<lparr>p_mmr := (p_mmr r)(i := f (p_mmr r i))\<rparr>)"

definition upd_node :: "nat \<times> nat \<Rightarrow> (mmr_node \<Rightarrow> mmr_node) \<Rightarrow> 'a procs_scheme \<Rightarrow> 'a procs_scheme" where
  "upd_node n f = upd_mmr (fst n) (snd n) (\<lambda>m. m\<lparr>mmr_family := f (mmr_family m)\<rparr>)"

text \<open>The lock of \<^verbatim>\<open>mmr_list[listid]\<close>.\<close>

definition list_lock :: "int \<Rightarrow> (lockid \<Rightarrow> 'b res) \<Rightarrow> 'b res" where
  "list_lock lid f = (if 0 \<le> lid \<and> lid < int NLISTID then f (MmrListLock (nat lid)) else Fault)"

text \<open>The pages of region \<open>i\<close> of process \<open>p\<close>; \<^verbatim>\<open>length\<close> is an \<^verbatim>\<open>int\<close>.\<close>

definition mmr_pages :: "mmr \<Rightarrow> uint64 list" where
  "mmr_pages m = pages_upto (mmr_addr m) (mmr_addr m + scast (mmr_length m))"

text \<open>
  Leave the family of region \<open>i\<close>: the result says whether the physical pages are to be freed,
  which is so for a private region and for the last member of a shared one.
\<close>

definition leave_family :: "nat \<Rightarrow> nat \<Rightarrow> 'a procs_scheme \<Rightarrow> (bool \<times> 'a procs_scheme) res" where
  "leave_family p i s =
     (let m = p_mmr (proc s p) i in
      if mmr_flags m AND MAP_PRIVATE \<noteq> 0 then Ok (True, s)
      else list_lock (listid (mmr_family m)) (\<lambda>lk.
        res_bind (acquire lk s) (\<lambda>s.
          let fam = mmr_family (p_mmr (proc s p) i) in
          if node_next fam = (p, i) then
            res_bind (release lk s) (\<lambda>s.
              res_bind (dealloc_mmr_listid (listid fam) s) (\<lambda>s. Ok (True, s)))
          else
            let s = upd_node (node_next fam) (\<lambda>n. n\<lparr>node_prev := node_prev fam\<rparr>) s;
                fam = mmr_family (p_mmr (proc s p) i);
                s = upd_node (node_prev fam) (\<lambda>n. n\<lparr>node_next := node_next fam\<rparr>) s
            in res_bind (release lk s) (\<lambda>s. Ok (False, s)))))"

definition unmap_region :: "nat \<Rightarrow> nat \<Rightarrow> bool \<Rightarrow> 'a procs_scheme \<Rightarrow> 'a procs_scheme res" where
  "unmap_region p i dofree s =
     mfold (\<lambda>a s.
       res_bind (walkaddr (pagetable (proc s p)) a s) (\<lambda>pa.
         if pa \<noteq> 0 then uvmunmap (pagetable (proc s p)) a 1 dofree s else Ok s))
       (mmr_pages (p_mmr (proc s p) i)) s"

definition freeproc :: "nat \<Rightarrow> 'a procs_scheme \<Rightarrow> 'a procs_scheme res" where
  "freeproc p s =
     res_bind (if trapframe (proc s p) \<noteq> 0 then kfree (trapframe (proc s p)) s else Ok s) (\<lambda>s.
     res_bind
       (mfold (\<lambda>i s.
          if mmr_valid (p_mmr (proc s p) i) = 1 then
            res_bind (leave_family p i s) (\<lambda>(dofree, s). unmap_region p i dofree s)
          else Ok s) [0..<MAX_MMR] (upd_proc p (\<lambda>r. r\<lparr>trapframe := 0\<rparr>) s)) (\<lambda>s.
     res_bind
       (if pagetable (proc s p) \<noteq> 0 then proc_freepagetable (pagetable (proc s p)) (p_sz (proc s p)) s
        else Ok s) (\<lambda>s.
     Ok (upd_proc p (\<lambda>r. r\<lparr>pagetable := 0, p_sz := 0, pid := 0, parent := None,
           p_name := (p_name r)[0 := 0], chan := None, killed := 0, xstate := 0, state := UNUSED\<rparr>) s))))"

definition allocproc :: "'a procs_scheme \<Rightarrow> (nat option \<times> 'a procs_scheme) res" where
  "allocproc s =
     res_bind
       (mloop (\<lambda>p s.
          res_bind (acquire (ProcLock p) s) (\<lambda>s.
            if state (proc s p) = UNUSED then Ok (Some p, s)
            else res_bind (release (ProcLock p) s) (\<lambda>s. Ok (None, s)))) [0..<NPROC] s)
       (\<lambda>(r, s). case r of
          None \<Rightarrow> Ok (None, s)
        | Some p \<Rightarrow>
            res_bind (allocpid s) (\<lambda>(n, s).
            res_bind (kalloc (upd_proc p (\<lambda>r. r\<lparr>pid := n, state := USED, cputime := 0, priority := HIGH,
                p_timeslice := TSTICKSHIGH, tsticks := TSTICKSHIGH, yielded := 0, p_next := None\<rparr>) s)) (\<lambda>(tf, s).
            let s = upd_proc p (\<lambda>r. r\<lparr>trapframe := tf\<rparr>) s in
            if tf = 0 then
              res_bind (freeproc p s) (\<lambda>s. res_bind (release (ProcLock p) s) (\<lambda>s. Ok (None, s)))
            else res_bind (proc_pagetable p s) (\<lambda>(pt, s).
              let s = upd_proc p (\<lambda>r. r\<lparr>pagetable := pt\<rparr>) s in
              if pt = 0 then
                res_bind (freeproc p s) (\<lambda>s. res_bind (release (ProcLock p) s) (\<lambda>s. Ok (None, s)))
              else Ok (Some p, upd_proc p (\<lambda>r. r\<lparr>ctx_ra := forkret_va s, ctx_sp := kstack r + PGSIZE\<rparr>) s)))))"

text \<open>\<^verbatim>\<open>growproc\<close> computes sizes in a \<^verbatim>\<open>uint\<close>.\<close>

definition growproc :: "cint \<Rightarrow> 'a procs_scheme \<Rightarrow> (int \<times> 'a procs_scheme) res" where
  "growproc n = with_proc (\<lambda>p s.
     let sz = (ucast (p_sz (proc s p)) :: uint); pt = pagetable (proc s p) in
     if 0 < sint n then
       res_bind (uvmalloc pt (ucast sz) (ucast (sz + n)) s) (\<lambda>(v, s).
         let sz = (ucast v :: uint) in
         if sz = 0 then Ok (- 1, s) else Ok (0, upd_proc p (\<lambda>r. r\<lparr>p_sz := ucast sz\<rparr>) s))
     else if sint n < 0 then
       res_bind (uvmdealloc pt (ucast sz) (ucast (sz + n)) s) (\<lambda>(v, s).
         Ok (0, upd_proc p (\<lambda>r. r\<lparr>p_sz := ucast (ucast v :: uint)\<rparr>) s))
     else Ok (0, upd_proc p (\<lambda>r. r\<lparr>p_sz := ucast sz\<rparr>) s))"

section \<open>Switching between processes\<close>

definition set_cpu_proc :: "nat option \<Rightarrow> 'a procs_scheme \<Rightarrow> 'a procs_scheme" where
  "set_cpu_proc p s = set_mycpu ((mycpu s)\<lparr>cpu_proc := p\<rparr>) s"

text \<open>
  One visit of the scheduler to process \<open>p\<close>: with a runnable process it switches to it,
  still holding its lock (\<open>Some p\<close>); otherwise it releases the lock.
\<close>

definition sched_visit :: "nat \<Rightarrow> 'a procs_scheme \<Rightarrow> (nat option \<times> 'a procs_scheme) res" where
  "sched_visit p s =
     res_bind (acquire (ProcLock p) s) (\<lambda>s.
       if state (proc s p) = RUNNABLE then
         Ok (Some p, set_cpu_proc (Some p) (upd_proc p (\<lambda>r. r\<lparr>state := RUNNING\<rparr>) s))
       else res_bind (release (ProcLock p) s) (\<lambda>s. Ok (None, s)))"

text \<open>When the process switches back.\<close>

definition sched_back :: "nat \<Rightarrow> 'a procs_scheme \<Rightarrow> 'a procs_scheme res" where
  "sched_back p s = release (ProcLock p) (set_cpu_proc None s)"

text \<open>
  One round of the scheduler's endless loop, up to the first switch: round robin from process
  \<open>start\<close> on, or the first process of the highest non-empty queue.
\<close>

definition scheduler_round :: "nat \<Rightarrow> 'a procs_scheme \<Rightarrow> (nat option \<times> 'a procs_scheme) res" where
  "scheduler_round start s =
     (let s = intr_on s in
      if sched_policy s = RR then mloop sched_visit [start..<NPROC] s
      else if sched_policy s = MLFQ then
        res_bind (dequeue HIGH s) (\<lambda>(p, s).
        res_bind (case p of None \<Rightarrow> dequeue MEDIUM s | Some _ \<Rightarrow> Ok (p, s)) (\<lambda>(p, s).
        res_bind (case p of None \<Rightarrow> dequeue LOW s | Some _ \<Rightarrow> Ok (p, s)) (\<lambda>(p, s).
        case p of None \<Rightarrow> Ok (None, s) | Some p \<Rightarrow> sched_visit p s)))
      else Ok (None, s))"

text \<open>
  \<^verbatim>\<open>sched\<close> up to the switch: its four checks. The result is the \<^verbatim>\<open>intena\<close> that it restores
  when it comes back.
\<close>

definition sched :: "'a procs_scheme \<Rightarrow> (bool \<times> 'a procs_scheme) res" where
  "sched = with_proc (\<lambda>p s.
     if \<not> holding (ProcLock p) s then Panic ''sched p->lock''
     else if noff (mycpu s) \<noteq> 1 then Panic ''sched locks''
     else if state (proc s p) = RUNNING then Panic ''sched running''
     else if intr_get s then Panic ''sched interruptible''
     else Ok (intena (mycpu s), s))"

definition sched_return :: "bool \<Rightarrow> 'a procs_scheme \<Rightarrow> 'a procs_scheme" where
  "sched_return ie s = set_mycpu ((mycpu s)\<lparr>intena := ie\<rparr>) s"

definition yield :: "'a procs_scheme \<Rightarrow> (bool \<times> 'a procs_scheme) res" where
  "yield = with_proc (\<lambda>p s.
     res_bind (acquire (ProcLock p) s) (\<lambda>s.
       res_bind (enqueue_at_tail p (priority (proc s p)) (upd_proc p (\<lambda>r. r\<lparr>state := RUNNABLE\<rparr>) s)) sched))"

definition yield_return :: "nat \<Rightarrow> bool \<Rightarrow> 'a procs_scheme \<Rightarrow> 'a procs_scheme res" where
  "yield_return p ie s = release (ProcLock p) (sched_return ie s)"

definition sleep :: "chan \<Rightarrow> lockid \<Rightarrow> 'a procs_scheme \<Rightarrow> (bool \<times> 'a procs_scheme) res" where
  "sleep ch lk = with_proc (\<lambda>p s.
     res_bind (acquire (ProcLock p) s) (\<lambda>s.
     res_bind (release lk s) (\<lambda>s.
       sched (upd_proc p (\<lambda>r. r\<lparr>chan := Some ch, state := SLEEPING\<rparr>) s))))"

definition sleep_return :: "nat \<Rightarrow> lockid \<Rightarrow> bool \<Rightarrow> 'a procs_scheme \<Rightarrow> 'a procs_scheme res" where
  "sleep_return p lk ie s =
     res_bind (release (ProcLock p) (upd_proc p (\<lambda>r. r\<lparr>chan := None\<rparr>) (sched_return ie s))) (acquire lk)"

text \<open>The body of the loop of \<^verbatim>\<open>wakeup\<close>, for a process other than the current one.\<close>

definition wake_proc :: "chan option \<Rightarrow> nat \<Rightarrow> 'a procs_scheme \<Rightarrow> (unit \<times> 'a procs_scheme) res" where
  "wake_proc ch p =
     critical (ProcLock p) (\<lambda>s.
       if state (proc s p) = SLEEPING \<and> chan (proc s p) = ch then
         res_bind (enqueue_at_head p (priority (proc s p)) (upd_proc p (\<lambda>r. r\<lparr>state := RUNNABLE\<rparr>) s))
           (\<lambda>s. Ok ((), s))
       else Ok ((), s))"

definition wakeup_body :: "chan option \<Rightarrow> nat \<Rightarrow> 'a procs_scheme \<Rightarrow> 'a procs_scheme res" where
  "wakeup_body ch p s =
     res_bind (myproc s) (\<lambda>(me, s).
       if me \<noteq> Some p then res_bind (wake_proc ch p s) (\<lambda>(_, s). Ok s) else Ok s)"

definition wakeup :: "chan option \<Rightarrow> 'a procs_scheme \<Rightarrow> 'a procs_scheme res" where
  "wakeup ch = mfold (wakeup_body ch) [0..<NPROC]"

definition kill :: "cint \<Rightarrow> 'a procs_scheme \<Rightarrow> (int \<times> 'a procs_scheme) res" where
  "kill n s =
     res_bind
       (mloop (\<lambda>p.
          critical (ProcLock p) (\<lambda>s.
            if pid (proc s p) = n then
              let s = upd_proc p (\<lambda>r. r\<lparr>killed := 1\<rparr>) s in
              res_bind
                (if state (proc s p) = SLEEPING then
                   enqueue_at_tail p (priority (proc s p)) (upd_proc p (\<lambda>r. r\<lparr>state := RUNNABLE\<rparr>) s)
                 else Ok s)
                (\<lambda>s. Ok (Some 0, s))
            else Ok (None, s))) [0..<NPROC] s)
       (\<lambda>(r, s). Ok (case r of None \<Rightarrow> - 1 | Some v \<Rightarrow> v, s))"

definition reparent :: "nat \<Rightarrow> 'a procs_scheme \<Rightarrow> 'a procs_scheme res" where
  "reparent p =
     mfold (\<lambda>i s.
       if parent (proc s i) = Some p then
         wakeup (map_option ChProc (initproc s)) (upd_proc i (\<lambda>r. r\<lparr>parent := initproc s\<rparr>) s)
       else Ok s) [0..<NPROC]"

section \<open>Waiting for children\<close>

text \<open>
  \<^verbatim>\<open>wait\<close> and \<^verbatim>\<open>wait2\<close> return a value or go to sleep; \<open>Asleep ie\<close> is the sleep that
  \<^verbatim>\<open>sleep_return\<close> ends, after which the loop starts over.
\<close>

datatype wait_result = Returned int | Asleep bool

text \<open>The scan of the table: \<open>Some v\<close> to return \<open>v\<close>; the flag is \<^verbatim>\<open>havekids\<close>.\<close>

definition wait_scan ::
  "(nat \<Rightarrow> 'a procs_scheme \<Rightarrow> (int \<times> 'a procs_scheme) res) \<Rightarrow> nat \<Rightarrow> 'a procs_scheme \<Rightarrow>
   (int option \<times> bool \<times> 'a procs_scheme) res" where
  "wait_scan report p s =
     mloop (\<lambda>np (havekids, s).
       if parent (proc s np) = Some p then
         res_bind (acquire (ProcLock np) s) (\<lambda>s.
           if state (proc s np) = ZOMBIE then
             let n = pid (proc s np) in
             res_bind (report np s) (\<lambda>(r, s).
               if r < 0 then
                 res_bind (release (ProcLock np) s) (\<lambda>s.
                   res_bind (release WaitLock s) (\<lambda>s. Ok (Some (- 1), (True, s))))
               else
                 res_bind (freeproc np s) (\<lambda>s.
                   res_bind (release (ProcLock np) s) (\<lambda>s.
                     res_bind (release WaitLock s) (\<lambda>s. Ok (Some (sint n), (True, s))))))
           else res_bind (release (ProcLock np) s) (\<lambda>s. Ok (None, (True, s))))
       else Ok (None, (havekids, s))) [0..<NPROC] (False, s)"

definition wait_round ::
  "(nat \<Rightarrow> 'a procs_scheme \<Rightarrow> (int \<times> 'a procs_scheme) res) \<Rightarrow> nat \<Rightarrow> 'a procs_scheme \<Rightarrow>
   (wait_result \<times> 'a procs_scheme) res" where
  "wait_round report p s =
     res_bind (wait_scan report p s) (\<lambda>(r, havekids, s).
       case r of
         Some v \<Rightarrow> Ok (Returned v, s)
       | None \<Rightarrow>
           if \<not> havekids \<or> killed (proc s p) \<noteq> 0 then
             res_bind (release WaitLock s) (\<lambda>s. Ok (Returned (- 1), s))
           else res_bind (sleep (ChProc p) WaitLock s) (\<lambda>(ie, s). Ok (Asleep ie, s)))"

definition wait :: "uint64 \<Rightarrow> 'a procs_scheme \<Rightarrow> (wait_result \<times> 'a procs_scheme) res" where
  "wait addr = with_proc (\<lambda>p s.
     res_bind (acquire WaitLock s)
       (wait_round (\<lambda>np s.
          if addr \<noteq> 0 then copyout (pagetable (proc s p)) addr (bytes32 (xstate (proc s np))) s
          else Ok (0, s)) p))"

text \<open>\<^verbatim>\<open>wait2\<close> (added for the time command) also reports the child's CPU time at \<open>raddr\<close>.\<close>

definition wait2 :: "uint64 \<Rightarrow> uint64 \<Rightarrow> 'a procs_scheme \<Rightarrow> (wait_result \<times> 'a procs_scheme) res" where
  "wait2 addr raddr = with_proc (\<lambda>p s.
     res_bind (acquire WaitLock s)
       (wait_round (\<lambda>np s.
          res_bind (copyout (pagetable (proc s p)) raddr (bytes64 (cputime (proc s np))) s) (\<lambda>(_, s).
            copyout (pagetable (proc s p)) addr (bytes32 (xstate (proc s np))) s)) p))"

section \<open>Copying to user or kernel addresses\<close>

definition either_copyout :: "bool \<Rightarrow> uint64 \<Rightarrow> uchar list \<Rightarrow> 'a procs_scheme \<Rightarrow> (int \<times> 'a procs_scheme) res" where
  "either_copyout user_dst dst src = with_proc (\<lambda>p s.
     if user_dst then copyout (pagetable (proc s p)) dst src s
     else Ok (0, s\<lparr>mem := write_bytes (mem s) dst src\<rparr>))"

definition either_copyin :: "bool \<Rightarrow> uint64 \<Rightarrow> nat \<Rightarrow> 'a procs_scheme \<Rightarrow> (int \<times> uchar list \<times> 'a procs_scheme) res" where
  "either_copyin user_src src len = with_proc (\<lambda>p s.
     if user_src then res_bind (copyin (pagetable (proc s p)) src len s) (\<lambda>(r, bs). Ok (r, bs, s))
     else Ok (0, read_bytes (mem s) src len, s))"

section \<open>Listing processes\<close>

text \<open>
  The 56 bytes of \<^verbatim>\<open>struct pstat\<close>. The local variable is never initialised: \<open>stack\<close> are the
  bytes it starts with, which show through in the padding after \<^verbatim>\<open>name\<close> and in
  \<^verbatim>\<open>arrivaltime\<close>, which nothing sets.
\<close>

definition state_code :: "procstate \<Rightarrow> 32 word" where
  "state_code st = (case st of UNUSED \<Rightarrow> 0 | USED \<Rightarrow> 1 | SLEEPING \<Rightarrow> 2 | RUNNABLE \<Rightarrow> 3 | RUNNING \<Rightarrow> 4 | ZOMBIE \<Rightarrow> 5)"

definition pstat_bytes :: "uchar list \<Rightarrow> proc \<Rightarrow> cint \<Rightarrow> uchar list" where
  "pstat_bytes stack r ppid =
     bytes32 (pid r) @ bytes32 (state_code (state r)) @ bytes64 (p_sz r) @ bytes32 ppid @
     take 16 (p_name r) @ take 4 (drop 36 stack) @ bytes64 (cputime r) @ take 8 (drop 48 stack)"

definition procinfo :: "uchar list \<Rightarrow> uint64 \<Rightarrow> 'a procs_scheme \<Rightarrow> (int \<times> 'a procs_scheme) res" where
  "procinfo stack addr = with_proc (\<lambda>me s.
     res_bind
       (mloop (\<lambda>p (n, a, s).
          if state (proc s p) = UNUSED then Ok (None, (n, a, s))
          else
            let ppid = (case parent (proc s p) of None \<Rightarrow> 0 | Some q \<Rightarrow> pid (proc s q)) in
            res_bind (copyout (pagetable (proc s me)) a (pstat_bytes stack (proc s p) ppid) s) (\<lambda>(r, s).
              if r < 0 then Ok (Some (- 1), (n + 1, a + 56, s)) else Ok (None, (n + 1, a + 56, s))))
          [0..<NPROC] (0 :: int, addr, s))
       (\<lambda>(r, (n, a, s)). Ok (case r of None \<Rightarrow> n | Some e \<Rightarrow> e, s)))"

end
