(* ===== verification/Proc_Queue.thy ===== *)
theory Proc_Queue
  imports Proc_Table Interfaces
begin

text \<open>
  The multilevel feedback queues of \<^verbatim>\<open>kernel/proc.c\<close> as lists: the chain of \<^verbatim>\<open>next\<close>
  pointers from a queue's head stands for the list of waiting processes, and the three
  queue operations act on it as on a deque. The guards on \<^verbatim>\<open>priority\<close> are examined on their
  own.
\<close>

section \<open>Chains of processes\<close>

primrec pchain :: "(nat \<Rightarrow> proc) \<Rightarrow> nat option \<Rightarrow> nat list \<Rightarrow> bool" where
  "pchain P h [] \<longleftrightarrow> h = None"
| "pchain P h (x # xs) \<longleftrightarrow> h = Some x \<and> pchain P (p_next (P x)) xs"

definition queue_rep :: "'a procs_scheme \<Rightarrow> nat \<Rightarrow> nat list \<Rightarrow> bool" where
  "queue_rep s q xs \<longleftrightarrow> pchain (proc s) (q_head (queue s q)) xs \<and>
     q_tail (queue s q) = (if xs = [] then None else Some (last xs))"

text \<open>All queues together: no process waits twice, and one that does not wait has no successor.\<close>

definition mlfq_rep :: "'a procs_scheme \<Rightarrow> (nat \<Rightarrow> nat list) \<Rightarrow> bool" where
  "mlfq_rep s xs \<longleftrightarrow> (\<forall>q<NQUEUE. queue_rep s q (xs q)) \<and> distinct (xs 0 @ xs 1 @ xs 2) \<and>
     (\<forall>p\<in>set (xs 0 @ xs 1 @ xs 2). p < NPROC) \<and>
     (\<forall>p<NPROC. p \<notin> set (xs 0 @ xs 1 @ xs 2) \<longrightarrow> p_next (proc s p) = None)"

abbreviation waiting :: "(nat \<Rightarrow> nat list) \<Rightarrow> nat set" where
  "waiting xs \<equiv> set (xs 0 @ xs 1 @ xs 2)"

lemma pchain_cong: "(\<And>x. x \<in> set xs \<Longrightarrow> p_next (P' x) = p_next (P x)) \<Longrightarrow> pchain P' h xs = pchain P h xs"
  by (induction xs arbitrary: h) auto

lemma pchain_unique: "pchain P h xs \<Longrightarrow> pchain P h ys \<Longrightarrow> xs = ys"
proof (induction xs arbitrary: h ys)
  case Nil
  then show ?case by (cases ys) auto
next
  case (Cons x xs)
  then show ?case by (cases ys) auto
qed

lemma pchain_snoc:
  assumes "pchain P h xs" and "xs \<noteq> []" and "distinct xs" and "x \<notin> set xs" and "p_next (P x) = None"
  shows "pchain (P(last xs := (P (last xs))\<lparr>p_next := Some x\<rparr>)) h (xs @ [x])"
  using assms
proof (induction xs arbitrary: h)
  case Nil
  then show ?case by simp
next
  case (Cons y ys)
  show ?case
  proof (cases "ys = []")
    case True
    then show ?thesis using Cons.prems by auto
  next
    case False
    then have "last ys \<noteq> y" using Cons.prems(3) by auto
    moreover have "pchain (P(last ys := (P (last ys))\<lparr>p_next := Some x\<rparr>)) (p_next (P y)) (ys @ [x])"
      using Cons.prems False by (intro Cons.IH) auto
    ultimately show ?thesis using Cons.prems False by (simp add: fun_upd_def)
  qed
qed

lemma mlfq_rep_next:
  assumes "mlfq_rep s xs" and "q < NQUEUE" and "xs q = ys @ [y]"
  shows "p_next (proc s y) = None"
proof -
  have "pchain P h (ys @ [y]) \<Longrightarrow> p_next (P y) = None" for P h by (induction ys arbitrary: h) auto
  then show ?thesis using assms by (auto simp: mlfq_rep_def queue_rep_def)
qed

lemma q_cases: "q < NQUEUE \<Longrightarrow> q = 0 \<or> q = 1 \<or> q = 2"
  by auto

lemma waiting_queue: "q < NQUEUE \<Longrightarrow> set (xs q) \<subseteq> waiting xs"
  by (auto dest!: q_cases)

lemma mlfq_distinct:
  assumes "mlfq_rep s xs" and "q < NQUEUE"
  shows "distinct (xs q)" and "r < NQUEUE \<Longrightarrow> r \<noteq> q \<Longrightarrow> set (xs r) \<inter> set (xs q) = {}"
  using assms by (auto simp: mlfq_rep_def dest!: q_cases)

text \<open>A new representation, given queue by queue.\<close>

lemma mlfq_repI:
  assumes old: "mlfq_rep s xs" and q: "q < NQUEUE"
    and new: "queue_rep s' q ys" and ys: "distinct ys" "set ys \<subseteq> {..<NPROC}"
    and dis: "\<And>r. r < NQUEUE \<Longrightarrow> r \<noteq> q \<Longrightarrow> set (xs r) \<inter> set ys = {}"
    and others: "\<And>r. r < NQUEUE \<Longrightarrow> r \<noteq> q \<Longrightarrow> queue s' r = queue s r"
    and next_eq: "\<And>p. p \<notin> set (xs q) \<union> set ys \<Longrightarrow> p_next (proc s' p) = p_next (proc s p)"
    and left: "\<And>p. p \<in> set (xs q) - set ys \<Longrightarrow> p_next (proc s' p) = None"
  shows "mlfq_rep s' (xs(q := ys))"
proof -
  have rep: "queue_rep s' r ((xs(q := ys)) r)" if "r < NQUEUE" for r
  proof (cases "r = q")
    case True
    then show ?thesis using new by simp
  next
    case False
    then have "set (xs r) \<inter> (set (xs q) \<union> set ys) = {}"
      using mlfq_distinct(2) [OF old q that] dis [OF that] by auto
    then have "pchain (proc s') h (xs r) = pchain (proc s) h (xs r)" for h
      using next_eq by (intro pchain_cong) auto
    then show ?thesis using old that False others by (simp add: mlfq_rep_def queue_rep_def)
  qed
  have "distinct ((xs(q := ys)) 0 @ (xs(q := ys)) 1 @ (xs(q := ys)) 2)"
    using q_cases [OF q] old ys(1) dis [of 0] dis [of 1] dis [of 2] by (auto simp: mlfq_rep_def)
  moreover have "\<forall>p\<in>waiting (xs(q := ys)). p < NPROC"
    using q_cases [OF q] old ys(2) by (auto simp: mlfq_rep_def)
  moreover have "p_next (proc s' p) = None" if "p < NPROC" "p \<notin> waiting (xs(q := ys))" for p
  proof (cases "p \<in> set (xs q)")
    case True
    then show ?thesis using left that q_cases [OF q] by auto
  next
    case False
    then have "p \<notin> set (xs q) \<union> set ys" "p \<notin> waiting xs" using that q_cases [OF q] by auto
    then show ?thesis using next_eq old that(1) by (auto simp: mlfq_rep_def)
  qed
  ultimately show ?thesis using rep unfolding mlfq_rep_def by blast
qed

section \<open>The operations on lists\<close>

lemma critical_procs:
  assumes "hart_ok s" and "lock_free lk s" and "body (inside lk s) = Ok (r, (inside lk s)\<lparr>proc := P, queue := Q\<rparr>)"
  shows "critical lk body s = Ok (r, (relock s)\<lparr>proc := P, queue := Q\<rparr>)"
  using critical_run [OF assms(1,2), of body r "(inside lk s)\<lparr>proc := P, queue := Q\<rparr>"] assms(3)
  by (simp add: inside_def relock_def)

lemma inside_procs [simp]:
  "proc (inside lk s) = proc s" "queue (inside lk s) = queue s" "nextpid (inside lk s) = nextpid s"
  "mmr_list_valid (inside lk s) = mmr_list_valid s" "sched_policy (inside lk s) = sched_policy s"
  "initproc (inside lk s) = initproc s" "mem (inside lk s) = mem s" "tp (inside lk s) = tp s"
  by (simp_all add: inside_def)

lemma relock_procs [simp]:
  "proc (relock s) = proc s" "queue (relock s) = queue s" "nextpid (relock s) = nextpid s"
  "mmr_list_valid (relock s) = mmr_list_valid s" "sched_policy (relock s) = sched_policy s"
  "initproc (relock s) = initproc s"
  by (simp_all add: relock_def)

lemma hart_ok_inside [simp]: "hart_ok s \<Longrightarrow> hart_ok (inside lk s)"
  by (simp add: hart_ok_def inside_def)

lemma lock_free_inside [simp]: "lk' \<noteq> lk \<Longrightarrow> lock_free lk' (inside lk s) = lock_free lk' s"
  by (simp add: lock_free_def inside_def)

lemma lock_procs_upd [simp]:
  "hart_ok (s\<lparr>proc := P\<rparr>) = hart_ok s" "hart_ok (s\<lparr>queue := Q\<rparr>) = hart_ok s"
  "lock_free lk (s\<lparr>proc := P\<rparr>) = lock_free lk s" "lock_free lk (s\<lparr>queue := Q\<rparr>) = lock_free lk s"
  by (simp_all add: lock_simps)

lemma enqueue_at_tail_rep:
  assumes ok: "hart_ok s" "lock_free (QueueLock q) s" and rep: "mlfq_rep s xs"
    and q: "q < NQUEUE" and p: "p < NPROC" "p \<notin> waiting xs"
  shows "\<exists>P Q. enqueue_at_tail p (int q) s = Ok ((relock s)\<lparr>proc := P, queue := Q\<rparr>) \<and>
    mlfq_rep ((relock s)\<lparr>proc := P, queue := Q\<rparr>) (xs(q := xs q @ [p])) \<and>
    (\<forall>i. P i = (proc s i)\<lparr>p_next := p_next (P i)\<rparr>)"
proof -
  have rq: "queue_rep s q (xs q)" using rep q by (simp add: mlfq_rep_def)
  have dis: "set (xs r) \<inter> set (xs q @ [p]) = {}" if "r < NQUEUE" "r \<noteq> q" for r
    using mlfq_distinct(2) [OF rep q that] waiting_queue [OF that(1), of xs] p(2) by auto
  have bound: "set (xs q @ [p]) \<subseteq> {..<NPROC}"
    using rep p(1) waiting_queue [OF q, of xs] by (auto simp: mlfq_rep_def)
  have dist: "distinct (xs q @ [p])" using mlfq_distinct(1) [OF rep q] p(2) waiting_queue [OF q, of xs] by auto
  have nn: "p_next (proc s p) = None" using rep p by (simp add: mlfq_rep_def)
  note enq = enqueue_at_tail_def queue_at_def upd_queue_def upd_proc_def
  show ?thesis
  proof (cases "xs q = []")
    case True
    then have ht: "q_head (queue s q) = None" "q_tail (queue s q) = None" using rq by (simp_all add: queue_rep_def)
    let ?Q = "(queue s)(q := (queue s q)\<lparr>q_head := Some p, q_tail := Some p\<rparr>)"
    have "enqueue_at_tail p (int q) s = Ok ((relock s)\<lparr>proc := proc s, queue := ?Q\<rparr>)"
      using p(1) q ht
      by (simp add: enq critical_procs [OF ok, where P = "proc s" and Q = ?Q and r = True])
    moreover have "mlfq_rep ((relock s)\<lparr>proc := proc s, queue := ?Q\<rparr>) (xs(q := xs q @ [p]))"
      by (rule mlfq_repI [OF rep q]) (use True nn dis bound dist in \<open>simp_all add: queue_rep_def\<close>)
    ultimately show ?thesis by (intro exI [of _ "proc s"] exI [of _ ?Q]) simp
  next
    case False
    let ?t = "last (xs q)"
    have ht: "q_tail (queue s q) = Some ?t" "pchain (proc s) (q_head (queue s q)) (xs q)"
      using rq False by (simp_all add: queue_rep_def)
    then obtain h where h: "q_head (queue s q) = Some h" using False by (cases "xs q") auto
    let ?P = "(proc s)(?t := (proc s ?t)\<lparr>p_next := Some p\<rparr>)"
    let ?Q = "(queue s)(q := (queue s q)\<lparr>q_tail := Some p\<rparr>)"
    have "enqueue_at_tail p (int q) s = Ok ((relock s)\<lparr>proc := ?P, queue := ?Q\<rparr>)"
      using p(1) q ht(1) h
      by (simp add: enq critical_procs [OF ok, where P = ?P and Q = ?Q and r = True])
    moreover have "mlfq_rep ((relock s)\<lparr>proc := ?P, queue := ?Q\<rparr>) (xs(q := xs q @ [p]))"
    proof (rule mlfq_repI [OF rep q _ dist bound dis])
      have "pchain ?P (q_head (queue s q)) (xs q @ [p])"
        using ht(2) False dist nn by (intro pchain_snoc) simp_all
      then show "queue_rep ((relock s)\<lparr>proc := ?P, queue := ?Q\<rparr>) q (xs q @ [p])"
        by (simp add: queue_rep_def)
    qed (use False in auto)
    ultimately show ?thesis by (intro exI [of _ ?P] exI [of _ ?Q]) simp
  qed
qed

lemma enqueue_at_head_rep:
  assumes ok: "hart_ok s" "lock_free (QueueLock q) s" and rep: "mlfq_rep s xs"
    and q: "q < NQUEUE" and p: "p < NPROC" "p \<notin> waiting xs"
  shows "\<exists>P Q. enqueue_at_head p (int q) s = Ok ((relock s)\<lparr>proc := P, queue := Q\<rparr>) \<and>
    mlfq_rep ((relock s)\<lparr>proc := P, queue := Q\<rparr>) (xs(q := p # xs q)) \<and>
    (\<forall>i. P i = (proc s i)\<lparr>p_next := p_next (P i)\<rparr>)"
proof -
  have rq: "queue_rep s q (xs q)" using rep q by (simp add: mlfq_rep_def)
  have dis: "set (xs r) \<inter> set (p # xs q) = {}" if "r < NQUEUE" "r \<noteq> q" for r
    using mlfq_distinct(2) [OF rep q that] waiting_queue [OF that(1), of xs] p(2) by auto
  have bound: "set (p # xs q) \<subseteq> {..<NPROC}"
    using rep p(1) waiting_queue [OF q, of xs] by (auto simp: mlfq_rep_def)
  have dist: "distinct (p # xs q)" using mlfq_distinct(1) [OF rep q] p(2) waiting_queue [OF q, of xs] by auto
  have nn: "p_next (proc s p) = None" using rep p by (simp add: mlfq_rep_def)
  note enq = enqueue_at_head_def queue_at_def upd_queue_def upd_proc_def
  show ?thesis
  proof (cases "xs q = []")
    case True
    then have ht: "q_head (queue s q) = None" "q_tail (queue s q) = None" using rq by (simp_all add: queue_rep_def)
    let ?Q = "(queue s)(q := (queue s q)\<lparr>q_head := Some p, q_tail := Some p\<rparr>)"
    have "enqueue_at_head p (int q) s = Ok ((relock s)\<lparr>proc := proc s, queue := ?Q\<rparr>)"
      using p(1) q ht
      by (simp add: enq critical_procs [OF ok, where P = "proc s" and Q = ?Q and r = True])
    moreover have "mlfq_rep ((relock s)\<lparr>proc := proc s, queue := ?Q\<rparr>) (xs(q := p # xs q))"
      by (rule mlfq_repI [OF rep q]) (use True nn dis bound dist in \<open>simp_all add: queue_rep_def\<close>)
    ultimately show ?thesis by (intro exI [of _ "proc s"] exI [of _ ?Q]) simp
  next
    case False
    have ht: "q_tail (queue s q) = Some (last (xs q))" "pchain (proc s) (q_head (queue s q)) (xs q)"
      using rq False by (simp_all add: queue_rep_def)
    then obtain h where h: "q_head (queue s q) = Some h" using False by (cases "xs q") auto
    let ?P = "(proc s)(p := (proc s p)\<lparr>p_next := Some h\<rparr>)"
    let ?Q = "(queue s)(q := (queue s q)\<lparr>q_head := Some p\<rparr>)"
    have "enqueue_at_head p (int q) s = Ok ((relock s)\<lparr>proc := ?P, queue := ?Q\<rparr>)"
      using p(1) q ht(1) h
      by (simp add: enq critical_procs [OF ok, where P = ?P and Q = ?Q and r = True])
    moreover have "mlfq_rep ((relock s)\<lparr>proc := ?P, queue := ?Q\<rparr>) (xs(q := p # xs q))"
    proof (rule mlfq_repI [OF rep q _ dist bound dis])
      have "pchain ?P (Some h) (xs q) = pchain (proc s) (Some h) (xs q)"
        using dist by (intro pchain_cong) auto
      then show "queue_rep ((relock s)\<lparr>proc := ?P, queue := ?Q\<rparr>) q (p # xs q)"
        using ht h False by (simp add: queue_rep_def)
    qed auto
    ultimately show ?thesis by (intro exI [of _ ?P] exI [of _ ?Q]) simp
  qed
qed

lemma dequeue_rep:
  assumes ok: "hart_ok s" "lock_free (QueueLock q) s" and rep: "mlfq_rep s xs"
    and q: "q < NQUEUE" and pl: "xs q \<noteq> [] \<Longrightarrow> lock_free (ProcLock (hd (xs q))) s"
  shows "\<exists>P Q. dequeue (int q) s =
      Ok (if xs q = [] then None else Some (hd (xs q)), (relock s)\<lparr>proc := P, queue := Q\<rparr>) \<and>
    mlfq_rep ((relock s)\<lparr>proc := P, queue := Q\<rparr>) (xs(q := tl (xs q))) \<and>
    (\<forall>i. P i = (proc s i)\<lparr>p_next := p_next (P i)\<rparr>)"
proof (cases "xs q")
  case Nil
  have "queue_rep s q (xs q)" using rep q by (simp add: mlfq_rep_def)
  then have ht: "q_head (queue s q) = None" "q_tail (queue s q) = None" using Nil by (simp_all add: queue_rep_def)
  have "dequeue (int q) s = Ok (None, (relock s)\<lparr>proc := proc s, queue := queue s\<rparr>)"
    using q ht by (simp add: dequeue_def queue_at_def
      critical_procs [OF ok, where P = "proc s" and Q = "queue s" and r = "Some None"])
  moreover have "xs(q := tl (xs q)) = xs" using Nil by auto
  moreover have "mlfq_rep ((relock s)\<lparr>proc := proc s, queue := queue s\<rparr>) xs"
    using rep by (simp add: mlfq_rep_def queue_rep_def)
  ultimately show ?thesis using Nil by (intro exI [of _ "proc s"] exI [of _ "queue s"]) simp
next
  case (Cons p ys)
  have "queue_rep s q (xs q)" using rep q by (simp add: mlfq_rep_def)
  then have rq: "queue_rep s q (p # ys)" using Cons by simp
  then have h: "q_head (queue s q) = Some p" "pchain (proc s) (p_next (proc s p)) ys"
    "q_tail (queue s q) = Some (last (p # ys))" by (simp_all add: queue_rep_def)
  have dist: "distinct (p # ys)" using mlfq_distinct(1) [OF rep q] Cons by simp
  let ?P = "(proc s)(p := (proc s p)\<lparr>p_next := None\<rparr>)"
  let ?Q1 = "(queue s)(q := (queue s q)\<lparr>q_head := p_next (proc s p)\<rparr>)"
  let ?Q = "if p_next (proc s p) = None then ?Q1(q := (?Q1 q)\<lparr>q_tail := None\<rparr>) else ?Q1"
  let ?in = "inside (QueueLock q) s"
  have "critical (ProcLock p) (\<lambda>s. Ok ((), upd_proc p (\<lambda>r. r\<lparr>p_next := None\<rparr>)
        (upd_queue q (\<lambda>qu. qu\<lparr>q_head := p_next (proc s p)\<rparr>) s))) ?in =
      Ok ((), (relock ?in)\<lparr>proc := ?P, queue := ?Q1\<rparr>)"
    using ok pl Cons by (intro critical_procs) (simp_all add: upd_proc_def upd_queue_def)
  moreover have "relock ?in = ?in" using ok by (simp add: relock_def inside_def relock_cpus_def hart_ok_def)
  ultimately have inner: "critical (ProcLock p) (\<lambda>s. Ok ((), upd_proc p (\<lambda>r. r\<lparr>p_next := None\<rparr>)
        (upd_queue q (\<lambda>qu. qu\<lparr>q_head := p_next (proc s p)\<rparr>) s))) ?in = Ok ((), ?in\<lparr>proc := ?P, queue := ?Q1\<rparr>)"
    by simp
  have "dequeue (int q) s = Ok (Some p, (relock s)\<lparr>proc := ?P, queue := ?Q\<rparr>)"
    using q h(1) inner
    by (simp add: dequeue_def queue_at_def upd_queue_def
      critical_procs [OF ok, where P = ?P and Q = ?Q and r = "Some (Some p)"])
  moreover have "mlfq_rep ((relock s)\<lparr>proc := ?P, queue := ?Q\<rparr>) (xs(q := ys))"
  proof (rule mlfq_repI [OF rep q])
    have "pchain ?P (p_next (proc s p)) ys = pchain (proc s) (p_next (proc s p)) ys"
      using dist by (intro pchain_cong) auto
    moreover have "p_next (proc s p) = None \<longleftrightarrow> ys = []" using h(2) by (cases ys) auto
    ultimately show "queue_rep ((relock s)\<lparr>proc := ?P, queue := ?Q\<rparr>) q ys"
      using h by (simp add: queue_rep_def)
    show "set ys \<subseteq> {..<NPROC}" using rep Cons waiting_queue [OF q, of xs] by (auto simp: mlfq_rep_def)
    show "set (xs r) \<inter> set ys = {}" if "r < NQUEUE" "r \<noteq> q" for r
      using mlfq_distinct(2) [OF rep q that] Cons by auto
  qed (use Cons dist in auto)
  ultimately show ?thesis using Cons by (intro exI [of _ ?P] exI [of _ ?Q]) simp
qed

section \<open>Each queue is a first-in first-out buffer\<close>

definition mlfq_inv :: "nat \<Rightarrow> 'a procs_scheme \<Rightarrow> bool" where
  "mlfq_inv q s \<longleftrightarrow> q < NQUEUE \<and> hart_ok s \<and> lock_free (QueueLock q) s \<and>
     (\<forall>i<NPROC. lock_free (ProcLock i) s) \<and> (\<exists>xs. mlfq_rep s xs)"

definition queue_items :: "nat \<Rightarrow> 'a procs_scheme \<Rightarrow> nat list" where
  "queue_items q s = (THE xs. queue_rep s q xs)"

definition unqueued :: "'a procs_scheme \<Rightarrow> nat \<Rightarrow> bool" where
  "unqueued s p \<longleftrightarrow> p < NPROC \<and> (\<forall>q<NQUEUE. p \<notin> set (queue_items q s))"

lemma queue_items_eq:
  assumes "mlfq_rep s xs" and "q < NQUEUE"
  shows "queue_items q s = xs q"
  unfolding queue_items_def
proof (rule the_equality)
  show "queue_rep s q (xs q)" using assms by (simp add: mlfq_rep_def)
  then show "ys = xs q" if "queue_rep s q ys" for ys using that pchain_unique by (auto simp: queue_rep_def)
qed

lemma unqueued_eq: "mlfq_rep s xs \<Longrightarrow> unqueued s p \<longleftrightarrow> p < NPROC \<and> p \<notin> waiting xs"
  using queue_items_eq [of s xs] by (auto simp: unqueued_def dest: q_cases)

lemma mlfq_inv_upd:
  assumes "mlfq_inv q s" and "mlfq_rep ((relock s)\<lparr>proc := P, queue := Q\<rparr>) xs"
  shows "mlfq_inv q ((relock s)\<lparr>proc := P, queue := Q\<rparr>)"
  using assms by (auto simp: mlfq_inv_def)

interpretation mlfq: fifo "mlfq_inv q" "queue_items q" unqueued
  "\<lambda>p. enqueue_at_tail p (int q)" "dequeue (int q)" for q
proof (unfold_locales, goal_cases)
  case (1 s x)
  then obtain xs where rep: "mlfq_rep s xs" and ok: "hart_ok s" "lock_free (QueueLock q) s" "q < NQUEUE"
    by (auto simp: mlfq_inv_def)
  with 1 have x: "x < NPROC" "x \<notin> waiting xs" by (simp_all add: unqueued_eq)
  from enqueue_at_tail_rep [OF ok(1,2) rep ok(3) x] obtain P Q where
    e: "enqueue_at_tail x (int q) s = Ok ((relock s)\<lparr>proc := P, queue := Q\<rparr>)"
    "mlfq_rep ((relock s)\<lparr>proc := P, queue := Q\<rparr>) (xs(q := xs q @ [x]))" by blast
  then show ?case
    using mlfq_inv_upd [OF 1(1) e(2)] queue_items_eq [OF e(2) ok(3)] queue_items_eq [OF rep ok(3)]
    by (intro exI [of _ "(relock s)\<lparr>proc := P, queue := Q\<rparr>"]) simp
next
  case (2 s x ys)
  then obtain xs where rep: "mlfq_rep s xs" and ok: "hart_ok s" "lock_free (QueueLock q) s" "q < NQUEUE"
    and pl: "\<forall>i<NPROC. lock_free (ProcLock i) s"
    by (auto simp: mlfq_inv_def)
  have xq: "xs q = x # ys" using queue_items_eq [OF rep ok(3)] 2(2) by simp
  then have "x < NPROC" using rep waiting_queue [OF ok(3), of xs] by (auto simp: mlfq_rep_def)
  then have "lock_free (ProcLock (hd (xs q))) s" using pl xq by simp
  from dequeue_rep [OF ok(1,2) rep ok(3) this] xq obtain P Q where
    d: "dequeue (int q) s = Ok (Some x, (relock s)\<lparr>proc := P, queue := Q\<rparr>)"
    "mlfq_rep ((relock s)\<lparr>proc := P, queue := Q\<rparr>) (xs(q := ys))" by auto
  then show ?case
    using mlfq_inv_upd [OF 2(1) d(2)] queue_items_eq [OF d(2) ok(3)]
    by (intro exI [of _ "(relock s)\<lparr>proc := P, queue := Q\<rparr>"]) simp
next
  case (3 s)
  then obtain xs where rep: "mlfq_rep s xs" and ok: "hart_ok s" "lock_free (QueueLock q) s" "q < NQUEUE"
    by (auto simp: mlfq_inv_def)
  have xq: "xs q = []" using queue_items_eq [OF rep ok(3)] 3(2) by simp
  with dequeue_rep [OF ok(1,2) rep ok(3)] obtain P Q where
    d: "dequeue (int q) s = Ok (None, (relock s)\<lparr>proc := P, queue := Q\<rparr>)"
    "mlfq_rep ((relock s)\<lparr>proc := P, queue := Q\<rparr>) (xs(q := tl (xs q)))" by auto
  then show ?case
    using mlfq_inv_upd [OF 3(1) d(2)] queue_items_eq [OF d(2) ok(3)] xq
    by (intro exI [of _ "(relock s)\<lparr>proc := P, queue := Q\<rparr>"]) simp
qed

text \<open>
  Property C9. The pointer queues refine lists: a process put at the tail of a queue comes out
  of \<^verbatim>\<open>dequeue\<close> after every process that was in that queue before, in their order, and then
  the queue is empty.
\<close>

theorem mlfq_queue_is_fifo:
  assumes "mlfq_inv q s" and "unqueued s p"
  shows "\<exists>s1 s2. enqueue_at_tail p (int q) s = Ok s1 \<and>
    get_many (dequeue (int q)) (Suc (length (queue_items q s))) s1 = Ok (queue_items q s @ [p], s2) \<and>
    mlfq_inv q s2 \<and> queue_items q s2 = []"
  using assms by (rule mlfq.put_then_drain)

definition idle_proc :: proc where
  "idle_proc = \<lparr>state = UNUSED, chan = None, killed = 0, xstate = 0, pid = 0, cputime = 0, tsticks = 0,
     priority = 0, p_timeslice = 0, yielded = 0, p_next = None, parent = None, kstack = 0, p_sz = 0,
     pagetable = 0, trapframe = 0, ctx_ra = 0, ctx_sp = 0, ofile = (\<lambda>_. None), cwd = None,
     p_name = replicate 16 0,
     p_mmr = (\<lambda>_. \<lparr>mmr_addr = 0, mmr_length = 0, mmr_prot = 0, mmr_flags = 0, mmr_valid = 0, mmr_fd = 0,
       mmr_family = \<lparr>listid = 0, node_proc = None, node_next = (0, 0), node_prev = (0, 0)\<rparr>\<rparr>),
     cur_max = 0\<rparr>"

definition boot_procs :: procs where
  "boot_procs = physmem.extend (boot_mem 0x80027020)
     \<lparr>proc = (\<lambda>_. idle_proc), queue = (\<lambda>_. \<lparr>q_timeslice = 0, q_head = None, q_tail = None\<rparr>),
      sched_policy = RR, initproc = None, nextpid = 1, mmr_list_valid = (\<lambda>_. False), ticks = 0,
      trampoline_va = 0x80006000, forkret_va = 0x80001000\<rparr>"

lemma boot_procs_sel [simp]:
  "proc boot_procs = (\<lambda>_. idle_proc)" "queue boot_procs = (\<lambda>_. \<lparr>q_timeslice = 0, q_head = None, q_tail = None\<rparr>)"
  "p_next idle_proc = None" "hart_ok boot_procs" "lock_free lk boot_procs" "tp boot_procs = 0"
  by (simp_all add: boot_procs_def idle_proc_def physmem.defs boot_mem_def lock_simps)

lemma boot_procs_rep: "mlfq_rep boot_procs (\<lambda>_. [])"
  by (simp add: mlfq_rep_def queue_rep_def)

lemma boot_procs_inv: "q < NQUEUE \<Longrightarrow> mlfq_inv q boot_procs" "unqueued boot_procs 7" "q < NQUEUE \<Longrightarrow> queue_items q boot_procs = []"
proof -
  show "q < NQUEUE \<Longrightarrow> mlfq_inv q boot_procs"
    unfolding mlfq_inv_def using boot_procs_rep by auto
  show "unqueued boot_procs 7" using unqueued_eq [OF boot_procs_rep] by simp
  show "q < NQUEUE \<Longrightarrow> queue_items q boot_procs = []" by (rule queue_items_eq [OF boot_procs_rep])
qed

theorem mlfq_queue_is_fifo_witness:
  "\<exists>s1 s2. enqueue_at_tail 7 (int 1) boot_procs = Ok s1 \<and>
    get_many (dequeue (int 1)) (Suc (length (queue_items 1 boot_procs))) s1 = Ok (queue_items 1 boot_procs @ [7], s2) \<and>
    mlfq_inv 1 s2 \<and> queue_items 1 s2 = []"
  by (rule mlfq_queue_is_fifo [OF boot_procs_inv(1) boot_procs_inv(2)]) simp

section \<open>What goes wrong\<close>

text \<open>
  Property C20. The guards of the queue operations read \<^verbatim>\<open>!(priority >= 0) && (priority < NQUEUE)\<close>
  and were meant to reject every invalid priority. They reject only negative ones: with a
  priority of 3 or more all three operations go on and access memory outside \<^verbatim>\<open>queue[]\<close>.
\<close>

theorem queue_guards_miss_large_priority:
  assumes "p < NPROC" and "int NQUEUE \<le> pri"
  shows "enqueue_at_tail p pri s = Fault \<and> enqueue_at_head p pri s = Fault \<and> dequeue pri s = Fault"
  using assms by (simp_all add: enqueue_at_tail_def enqueue_at_head_def dequeue_def queue_at_def)

theorem queue_guards_miss_large_priority_witness:
  "enqueue_at_tail 7 3 boot_procs = Fault \<and> enqueue_at_head 7 3 boot_procs = Fault \<and> dequeue 3 boot_procs = Fault"
  using queue_guards_miss_large_priority [of 7 3 boot_procs] by simp

lemma pchain_self_loop: "p_next (P p) = Some p \<Longrightarrow> \<not> pchain P (Some p) xs"
  by (induction xs) auto

lemma pchain_reach: "pchain P h xs \<Longrightarrow> x \<in> set xs \<Longrightarrow> \<exists>ys. pchain P (Some x) ys"
proof (induction xs arbitrary: h)
  case Nil
  then show ?case by simp
next
  case (Cons y ys)
  then show ?case by (cases "x = y") (auto intro: exI [of _ "y # ys"])
qed

text \<open>
  Property C21. Putting a process at the tail of a queue that it already ends (which the round-robin
  policy does, since it enqueues in \<^verbatim>\<open>yield\<close> and never dequeues) makes it its own successor:
  the queue no longer stands for any list of processes.
\<close>

theorem requeue_makes_cycle:
  assumes "hart_ok s" and "lock_free (QueueLock q) s" and "q < NQUEUE" and "p < NPROC"
    and "queue_rep s q xs" and "xs \<noteq> []" and "last xs = p"
  shows "\<exists>s'. enqueue_at_tail p (int q) s = Ok s' \<and> p_next (proc s' p) = Some p \<and> (\<nexists>ys. p \<in> set ys \<and> queue_rep s' q ys)"
proof -
  have ht: "q_tail (queue s q) = Some p" "pchain (proc s) (q_head (queue s q)) xs"
    using assms(5-7) by (simp_all add: queue_rep_def)
  then obtain h where h: "q_head (queue s q) = Some h" using assms(6) by (cases xs) auto
  let ?P = "(proc s)(p := (proc s p)\<lparr>p_next := Some p\<rparr>)"
  let ?Q = "(queue s)(q := (queue s q)\<lparr>q_tail := Some p\<rparr>)"
  have "enqueue_at_tail p (int q) s = Ok ((relock s)\<lparr>proc := ?P, queue := ?Q\<rparr>)"
    using assms(3,4) ht(1) h
    by (simp add: enqueue_at_tail_def queue_at_def upd_queue_def upd_proc_def
      critical_procs [OF assms(1,2), where P = ?P and Q = ?Q and r = True])
  moreover have "\<not> pchain ?P (Some p) ys" for ys by (rule pchain_self_loop) simp
  then have "\<nexists>ys. p \<in> set ys \<and> queue_rep ((relock s)\<lparr>proc := ?P, queue := ?Q\<rparr>) q ys"
    using pchain_reach by (fastforce simp: queue_rep_def)
  ultimately show ?thesis by (intro exI [of _ "(relock s)\<lparr>proc := ?P, queue := ?Q\<rparr>"]) simp
qed

definition queued_once :: procs where
  "queued_once = boot_procs\<lparr>queue := \<lambda>_. \<lparr>q_timeslice = 0, q_head = Some 7, q_tail = Some 7\<rparr>\<rparr>"

theorem requeue_makes_cycle_witness:
  "\<exists>s'. enqueue_at_tail 7 (int 0) queued_once = Ok s' \<and> p_next (proc s' 7) = Some 7 \<and>
    (\<nexists>ys. 7 \<in> set ys \<and> queue_rep s' 0 ys)"
  by (rule requeue_makes_cycle [where xs = "[7]"]) (simp_all add: queued_once_def queue_rep_def)

end
