(* ===== verification/Proc_Spec.thy ===== *)
theory Proc_Spec
  imports Proc_Ops Proc_Queue
begin

text \<open>
  What the scheduler, \<^verbatim>\<open>sleep\<close>, \<^verbatim>\<open>wakeup\<close>, \<^verbatim>\<open>kill\<close> and the id allocators of
  \<^verbatim>\<open>kernel/proc.c\<close> do to the process table.
\<close>

section \<open>Running with a current process\<close>

lemma cpu_noff_same: "noff c = 0 \<Longrightarrow> c\<lparr>intena := b, noff := 0\<rparr> = c\<lparr>intena := b\<rparr>" "c\<lparr>noff := noff c\<rparr> = c"
  by (cases c; simp)+

lemma myproc_eq: "hart_ok s \<Longrightarrow> myproc s = Ok (cpu_proc (cpus s (tp s)), relock s)"
  by (cases "noff (cpus s (tp s)) = 0")
    (auto simp: myproc_def hart_defs Let_def hart_ok_def relock_def relock_cpus_def fun_upd_idem cpu_noff_same)

lemma with_proc_run:
  "hart_ok s \<Longrightarrow> cpu_proc (cpus s (tp s)) = Some p \<Longrightarrow> with_proc f s = f p (relock s)"
  by (simp add: with_proc_def myproc_eq)

text \<open>A quiet machine: this hart is fine and nobody holds a process or queue lock.\<close>

definition quiet :: "'a procs_scheme \<Rightarrow> bool" where
  "quiet s \<longleftrightarrow> hart_ok s \<and> (\<forall>i<NPROC. lock_free (ProcLock i) s) \<and> (\<forall>q<NQUEUE. lock_free (QueueLock q) s)"

lemma quiet_upd [simp]: "quiet ((relock s)\<lparr>proc := P, queue := Q\<rparr>) = quiet s" "quiet (relock s) = quiet s"
  by (simp_all add: quiet_def)

definition valid_priority :: "'a procs_scheme \<Rightarrow> bool" where
  "valid_priority s \<longleftrightarrow> (\<forall>p<NPROC. 0 \<le> priority (proc s p) \<and> priority (proc s p) < int NQUEUE)"

text \<open>The processes that wait in a queue are the runnable ones.\<close>

definition queued_runnable :: "'a procs_scheme \<Rightarrow> (nat \<Rightarrow> nat list) \<Rightarrow> bool" where
  "queued_runnable s xs \<longleftrightarrow> (\<forall>p<NPROC. p \<in> waiting xs \<longleftrightarrow> state (proc s p) = RUNNABLE)"

section \<open>Waking up\<close>

text \<open>One process after a wakeup on \<open>ch\<close>; the queue link is the queue's business.\<close>

definition woken :: "chan option \<Rightarrow> proc \<Rightarrow> proc" where
  "woken ch r = (if state r = SLEEPING \<and> chan r = ch then r\<lparr>state := RUNNABLE\<rparr> else r)"

abbreviation unlinked :: "proc \<Rightarrow> proc" where
  "unlinked r \<equiv> r\<lparr>p_next := None\<rparr>"

lemma inside_noff: "hart_ok s \<Longrightarrow> noff (cpus (inside lk s) (tp (inside lk s))) \<noteq> 0"
  by (simp add: hart_ok_def inside_def)

lemma relock_inside [simp]: "hart_ok s \<Longrightarrow> relock (inside lk s) = inside lk s"
  using inside_noff [of s lk] by (simp add: relock_def relock_cpus_def)

lemma mlfq_rep_cong:
  assumes "mlfq_rep s xs" and "queue s' = queue s" and "\<And>p. p_next (proc s' p) = p_next (proc s p)"
  shows "mlfq_rep s' xs"
proof -
  have "pchain (proc s') h ys = pchain (proc s) h ys" for h ys by (rule pchain_cong) (rule assms(3))
  then show ?thesis using assms by (simp add: mlfq_rep_def queue_rep_def)
qed

lemma wake_one:
  assumes q: "quiet s" and rep: "mlfq_rep s xs" and pr: "valid_priority s" and run: "queued_runnable s xs"
    and p: "p < NPROC"
  shows "\<exists>P Q ys. wake_proc ch p s = Ok ((), (relock s)\<lparr>proc := P, queue := Q\<rparr>) \<and>
    mlfq_rep ((relock s)\<lparr>proc := P, queue := Q\<rparr>) ys \<and> queued_runnable ((relock s)\<lparr>proc := P, queue := Q\<rparr>) ys \<and>
    (\<forall>i. unlinked (P i) = unlinked (if i = p then woken ch (proc s i) else proc s i))"
proof (cases "state (proc s p) = SLEEPING \<and> chan (proc s p) = ch")
  case False
  then have "wake_proc ch p s = Ok ((), (relock s)\<lparr>proc := proc s, queue := queue s\<rparr>)"
    unfolding wake_proc_def using q p by (intro critical_procs) (auto simp: quiet_def inside_def)
  moreover have "mlfq_rep ((relock s)\<lparr>proc := proc s, queue := queue s\<rparr>) xs" by (rule mlfq_rep_cong [OF rep]) simp_all
  moreover have "queued_runnable ((relock s)\<lparr>proc := proc s, queue := queue s\<rparr>) xs" using run by (simp add: queued_runnable_def)
  ultimately show ?thesis using False by (intro exI [of _ "proc s"] exI [of _ "queue s"] exI [of _ xs]) (simp add: woken_def)
next
  case True
  let ?in = "upd_proc p (\<lambda>r. r\<lparr>state := RUNNABLE\<rparr>) (inside (ProcLock p) s)"
  obtain k where k: "k < NQUEUE" "priority (proc s p) = int k"
    using pr p by (metis valid_priority_def zero_le_imp_eq_int of_nat_less_iff)
  have pw: "p \<notin> waiting xs" using run p True unfolding queued_runnable_def by auto
  have lk: "hart_ok ?in" "lock_free (QueueLock k) ?in" using q k(1) by (simp_all add: quiet_def upd_proc_def)
  have "mlfq_rep ?in xs" by (rule mlfq_rep_cong [OF rep]) (simp_all add: upd_proc_def)
  from enqueue_at_head_rep [OF lk this k(1) p pw] obtain P Q where e:
    "enqueue_at_head p (int k) ?in = Ok ((relock ?in)\<lparr>proc := P, queue := Q\<rparr>)"
    "mlfq_rep ((relock ?in)\<lparr>proc := P, queue := Q\<rparr>) (xs(k := p # xs k))"
    "\<forall>i. P i = (proc ?in i)\<lparr>p_next := p_next (P i)\<rparr>" by blast
  have "(relock ?in)\<lparr>proc := P, queue := Q\<rparr> = (inside (ProcLock p) s)\<lparr>proc := P, queue := Q\<rparr>"
    using q relock_inside [of s "ProcLock p"] by (simp add: quiet_def upd_proc_def relock_def)
  then have "wake_proc ch p s = Ok ((), (relock s)\<lparr>proc := P, queue := Q\<rparr>)"
    unfolding wake_proc_def using q p True e(1) k(2) by (intro critical_procs) (simp_all add: quiet_def)
  moreover have "mlfq_rep ((relock s)\<lparr>proc := P, queue := Q\<rparr>) (xs(k := p # xs k))"
    by (rule mlfq_rep_cong [OF e(2)]) simp_all
  moreover have un: "unlinked (P i) = unlinked (proc ?in i)" for i
    using arg_cong [OF e(3) [rule_format, of i], of "\<lambda>r. r\<lparr>p_next := None\<rparr>"] by simp
  moreover have st: "state (P i) = state (proc ?in i)" for i using arg_cong [OF un [of i], of state] by simp
  then have "queued_runnable ((relock s)\<lparr>proc := P, queue := Q\<rparr>) (xs(k := p # xs k))"
    using run q_cases [OF k(1)] by (auto simp: queued_runnable_def st upd_proc_def)
  ultimately show ?thesis using un True
    by (intro exI [of _ P] exI [of _ Q] exI [of _ "xs(k := p # xs k)"]) (simp add: woken_def upd_proc_def)
qed

lemma relock_cpu_proc [simp]: "cpu_proc (cpus (relock s) h) = cpu_proc (cpus s h)"
  by simp

lemma unlinked_sel:
  assumes "unlinked r = unlinked r'"
  shows "priority r = priority r'" and "state r = state r'" and "chan r = chan r'" and "pid r = pid r'"
    and "killed r = killed r'"
  using arg_cong [OF assms, of priority] arg_cong [OF assms, of state] arg_cong [OF assms, of chan]
    arg_cong [OF assms, of pid] arg_cong [OF assms, of killed]
  by simp_all

lemma unlinked_woken:
  assumes "unlinked r = unlinked r'"
  shows "unlinked (woken ch r) = unlinked (woken ch r')"
proof -
  have "unlinked (r\<lparr>state := RUNNABLE\<rparr>) = (unlinked r)\<lparr>state := RUNNABLE\<rparr>" by simp
  also have "\<dots> = unlinked (r'\<lparr>state := RUNNABLE\<rparr>)" unfolding assms by simp
  finally show ?thesis using unlinked_sel(2,3) [OF assms] assms by (simp add: woken_def)
qed

lemma wakeup_loop:
  assumes "quiet s" and "mlfq_rep s xs" and "valid_priority s" and "queued_runnable s xs"
    and "set ps \<subseteq> {..<NPROC}" and "distinct ps"
  shows "\<exists>P Q c ys. mfold (wakeup_body ch) ps s = Ok (s\<lparr>cpus := c, proc := P, queue := Q\<rparr>) \<and>
    quiet (s\<lparr>cpus := c, proc := P, queue := Q\<rparr>) \<and> (\<forall>h. cpu_proc (c h) = cpu_proc (cpus s h)) \<and>
    mlfq_rep (s\<lparr>cpus := c, proc := P, queue := Q\<rparr>) ys \<and> queued_runnable (s\<lparr>cpus := c, proc := P, queue := Q\<rparr>) ys \<and>
    (\<forall>i. unlinked (P i) = unlinked (if i \<in> set ps \<and> Some i \<noteq> cpu_proc (cpus s (tp s)) then woken ch (proc s i) else proc s i))"
  using assms
proof (induction ps arbitrary: s xs)
  case Nil
  then show ?case by (intro exI [of _ "proc s"] exI [of _ "queue s"] exI [of _ "cpus s"] exI [of _ xs]) simp
next
  case (Cons p ps)
  let ?me = "cpu_proc (cpus s (tp s))"
  let ?r = "relock s"
  have q: "quiet ?r" "hart_ok s" using Cons.prems(1) by (simp_all add: quiet_def)
  have rep: "mlfq_rep ?r xs" by (rule mlfq_rep_cong [OF Cons.prems(2)]) simp_all
  have pr: "valid_priority ?r" "queued_runnable ?r xs"
    using Cons.prems(3,4) by (simp_all add: valid_priority_def queued_runnable_def)
  have p: "p < NPROC" using Cons.prems(5) by simp
  obtain P Q ys where step:
    "(if ?me \<noteq> Some p then
           res_bind (wake_proc ch p ?r) (\<lambda>(_, s). Ok s) else Ok ?r) = Ok (?r\<lparr>proc := P, queue := Q\<rparr>)"
    "mlfq_rep (?r\<lparr>proc := P, queue := Q\<rparr>) ys" "queued_runnable (?r\<lparr>proc := P, queue := Q\<rparr>) ys"
    "\<forall>i. unlinked (P i) = unlinked (if i = p \<and> Some i \<noteq> ?me then woken ch (proc s i) else proc s i)"
  proof (cases "?me = Some p")
    case True
    then show thesis using rep pr by (intro that [of "queue s" "proc s" xs]) (auto intro: mlfq_rep_cong simp: queued_runnable_def)
  next
    case False
    from wake_one [OF q(1) rep pr p, of ch] obtain P Q ys where
      "wake_proc ch p ?r = Ok ((), (relock ?r)\<lparr>proc := P, queue := Q\<rparr>)"
      "mlfq_rep ((relock ?r)\<lparr>proc := P, queue := Q\<rparr>) ys" "queued_runnable ((relock ?r)\<lparr>proc := P, queue := Q\<rparr>) ys"
      "\<forall>i. unlinked (P i) = unlinked (if i = p then woken ch (proc ?r i) else proc ?r i)" by blast
    then show thesis using False by (intro that [of Q P ys]) auto
  qed
  let ?s1 = "?r\<lparr>proc := P, queue := Q\<rparr>"
  have "priority (P i) = priority (proc s i)" for i
    using unlinked_sel(1) [OF step(4) [rule_format, of i]] by (simp add: woken_def split: if_splits)
  then have "valid_priority ?s1" using Cons.prems(3) by (simp add: valid_priority_def)
  from Cons.IH [OF _ step(2) this step(3)] q Cons.prems(5,6) obtain P' Q' c ys' where l:
    "mfold (wakeup_body ch) ps ?s1 = Ok (?s1\<lparr>cpus := c, proc := P', queue := Q'\<rparr>)"
    "quiet (?s1\<lparr>cpus := c, proc := P', queue := Q'\<rparr>)" "\<forall>h. cpu_proc (c h) = cpu_proc (cpus ?s1 h)"
    "mlfq_rep (?s1\<lparr>cpus := c, proc := P', queue := Q'\<rparr>) ys'" "queued_runnable (?s1\<lparr>cpus := c, proc := P', queue := Q'\<rparr>) ys'"
    "\<forall>i. unlinked (P' i) = unlinked (if i \<in> set ps \<and> Some i \<noteq> cpu_proc (cpus ?s1 (tp ?s1)) then woken ch (P i) else P i)"
    by (auto simp del: mfold.simps)
  have st: "?s1\<lparr>cpus := c, proc := P', queue := Q'\<rparr> = s\<lparr>cpus := c, proc := P', queue := Q'\<rparr>"
    by (simp add: relock_def)
  have "unlinked (P' i) = unlinked (if i \<in> set (p # ps) \<and> Some i \<noteq> ?me then woken ch (proc s i) else proc s i)" for i
  proof (cases "i = p")
    case True
    then show ?thesis using Cons.prems(6) l(6) [rule_format, of i] step(4) [rule_format, of i] by simp
  next
    case False
    then have "unlinked (P i) = unlinked (proc s i)" using step(4) [rule_format, of i] by simp
    then have "unlinked (woken ch (P i)) = unlinked (woken ch (proc s i))" by (rule unlinked_woken)
    then show ?thesis using l(6) [rule_format, of i] False \<open>unlinked (P i) = unlinked (proc s i)\<close> by simp
  qed
  moreover have "\<forall>h. cpu_proc (c h) = cpu_proc (cpus s h)" using l(3) by simp
  moreover have "wakeup_body ch p s = Ok ?s1" using step(1) q(2) by (simp add: wakeup_body_def myproc_eq)
  then have "mfold (wakeup_body ch) (p # ps) s = Ok (s\<lparr>cpus := c, proc := P', queue := Q'\<rparr>)"
    using l(1) st by simp
  ultimately show ?case using l(2,4,5) unfolding st by blast
qed

text \<open>
  Property C14. \<^verbatim>\<open>wakeup(chan)\<close> makes runnable exactly the other processes that sleep on \<^verbatim>\<open>chan\<close>
  and changes nothing else of any process but its place in a queue; afterwards the
  processes in the scheduling queues are again exactly the runnable ones.
\<close>

theorem wakeup_exact:
  assumes "quiet s" and "mlfq_rep s xs" and "valid_priority s" and "queued_runnable s xs"
  shows "\<exists>s' ys. wakeup ch s = Ok s' \<and> quiet s' \<and> mlfq_rep s' ys \<and> queued_runnable s' ys \<and>
    (\<forall>i<NPROC. unlinked (proc s' i) =
      unlinked (if Some i \<noteq> cpu_proc (cpus s (tp s)) then woken ch (proc s i) else proc s i))"
  unfolding wakeup_def
proof -
  obtain P Q c ys where "mfold (wakeup_body ch) [0..<NPROC] s = Ok (s\<lparr>cpus := c, proc := P, queue := Q\<rparr>)"
    "quiet (s\<lparr>cpus := c, proc := P, queue := Q\<rparr>)" "mlfq_rep (s\<lparr>cpus := c, proc := P, queue := Q\<rparr>) ys"
    "queued_runnable (s\<lparr>cpus := c, proc := P, queue := Q\<rparr>) ys"
    "\<forall>i. unlinked (P i) = unlinked (if i \<in> set [0..<NPROC] \<and> Some i \<noteq> cpu_proc (cpus s (tp s)) then woken ch (proc s i) else proc s i)"
    using wakeup_loop [OF assms, of "[0..<NPROC]" ch] by (auto simp: atLeast0LessThan)
  then show "\<exists>s' ys. mfold (wakeup_body ch) [0..<NPROC] s = Ok s' \<and> quiet s' \<and> mlfq_rep s' ys \<and> queued_runnable s' ys \<and>
    (\<forall>i<NPROC. unlinked (proc s' i) =
      unlinked (if Some i \<noteq> cpu_proc (cpus s (tp s)) then woken ch (proc s i) else proc s i))"
    by (intro exI [of _ "s\<lparr>cpus := c, proc := P, queue := Q\<rparr>"] exI [of _ ys]) (simp del: upt_rec_numeral)
qed

definition one_sleeper :: procs where
  "one_sleeper = boot_procs\<lparr>proc := (\<lambda>_. idle_proc)(3 := idle_proc\<lparr>state := SLEEPING, chan := Some ChTicks\<rparr>)\<rparr>"

lemma one_sleeper_ok: "quiet one_sleeper" "mlfq_rep one_sleeper (\<lambda>_. [])" "valid_priority one_sleeper"
  "queued_runnable one_sleeper (\<lambda>_. [])"
proof -
  show "mlfq_rep one_sleeper (\<lambda>_. [])" by (rule mlfq_rep_cong [OF boot_procs_rep]) (simp_all add: one_sleeper_def)
qed (simp_all add: one_sleeper_def quiet_def valid_priority_def queued_runnable_def idle_proc_def)

theorem wakeup_exact_witness:
  "\<exists>s' ys. wakeup (Some ChTicks) one_sleeper = Ok s' \<and> quiet s' \<and> mlfq_rep s' ys \<and> queued_runnable s' ys \<and>
    (\<forall>i<NPROC. unlinked (proc s' i) =
      unlinked (if Some i \<noteq> cpu_proc (cpus one_sleeper (tp one_sleeper)) then woken (Some ChTicks) (proc one_sleeper i)
                else proc one_sleeper i))"
  by (rule wakeup_exact [OF one_sleeper_ok])

section \<open>The scheduler\<close>

lemma unlinkedI: "r = r'\<lparr>p_next := x\<rparr> \<Longrightarrow> unlinked r = unlinked r'"
  by simp

lemma mlfq_head:
  assumes "mlfq_rep s xs" and "q < NQUEUE" and "xs q \<noteq> []"
  shows "hd (xs q) \<in> waiting xs" and "hd (xs q) < NPROC"
proof -
  show "hd (xs q) \<in> waiting xs" using waiting_queue [OF assms(2), of xs] hd_in_set [OF assms(3)] by blast
  then show "hd (xs q) < NPROC" using assms(1) unfolding mlfq_rep_def by blast
qed

lemma dequeue_quiet:
  assumes "quiet s" and "mlfq_rep s xs" and "q < NQUEUE"
  shows "\<exists>s'. dequeue (int q) s = Ok (if xs q = [] then None else Some (hd (xs q)), s') \<and> quiet s' \<and>
    mlfq_rep s' (xs(q := tl (xs q))) \<and> tp s' = tp s \<and> (\<forall>i. unlinked (proc s' i) = unlinked (proc s i))"
proof -
  have lk: "hart_ok s" "lock_free (QueueLock q) s" using assms(1,3) by (simp_all add: quiet_def)
  have "xs q \<noteq> [] \<Longrightarrow> hd (xs q) < NPROC" by (rule mlfq_head(2) [OF assms(2,3)])
  then have "xs q \<noteq> [] \<Longrightarrow> lock_free (ProcLock (hd (xs q))) s" using assms(1) by (simp add: quiet_def)
  from dequeue_rep [OF lk assms(2,3) this] obtain P Q where d:
    "dequeue (int q) s = Ok (if xs q = [] then None else Some (hd (xs q)), (relock s)\<lparr>proc := P, queue := Q\<rparr>)"
    "mlfq_rep ((relock s)\<lparr>proc := P, queue := Q\<rparr>) (xs(q := tl (xs q)))"
    "\<forall>i. P i = (proc s i)\<lparr>p_next := p_next (P i)\<rparr>" by blast
  have "unlinked (P i) = unlinked (proc s i)" for i by (rule unlinkedI [OF d(3) [rule_format]])
  then show ?thesis using d(1,2) assms(1)
    by (intro exI [of _ "(relock s)\<lparr>proc := P, queue := Q\<rparr>"]) simp
qed

lemma sched_visit_runnable:
  assumes "lock_free (ProcLock p) s" and "state (proc s p) = RUNNABLE"
  shows "\<exists>s'. sched_visit p s = Ok (Some p, s') \<and> holding (ProcLock p) s' \<and> cpu_proc (cpus s' (tp s')) = Some p \<and>
    tp s' = tp s \<and> queue s' = queue s \<and> proc s' = (proc s)(p := (proc s p)\<lparr>state := RUNNING\<rparr>)"
  using assms
  by (simp add: sched_visit_def acquire_free set_cpu_proc_def upd_proc_def hart_defs) (simp add: inside_def)

text \<open>The highest queue that is not empty.\<close>

definition top_queue :: "(nat \<Rightarrow> nat list) \<Rightarrow> nat option" where
  "top_queue xs = find (\<lambda>q. xs q \<noteq> []) [0, 1, 2]"

text \<open>
  Property C8. Under the multilevel feedback policy a scheduling round picks the first process
  of the highest-priority queue that is not empty, takes exactly that process off the
  queues, marks it running on this hart and switches to it holding its lock; with all
  queues empty it switches to nobody.
\<close>

theorem mlfq_runs_highest_priority:
  assumes "quiet s" and "mlfq_rep s xs" and "queued_runnable s xs" and "sched_policy s = MLFQ"
    and "noff (cpus s (tp s)) = 0"
  shows "\<exists>s'. case top_queue xs of
      None \<Rightarrow> scheduler_round start s = Ok (None, s')
    | Some q \<Rightarrow> scheduler_round start s = Ok (Some (hd (xs q)), s') \<and> state (proc s' (hd (xs q))) = RUNNING \<and>
        cpu_proc (cpus s' (tp s)) = Some (hd (xs q)) \<and> holding (ProcLock (hd (xs q))) s' \<and>
        mlfq_rep s' (xs(q := tl (xs q))) \<and> queued_runnable s' (xs(q := tl (xs q)))"
proof -
  let ?s0 = "intr_on s"
  have q0: "quiet ?s0" and r0: "mlfq_rep ?s0 xs"
    using assms by (auto simp: quiet_def intr_on_def lock_simps intro: mlfq_rep_cong)
  have pol: "sched_policy ?s0 = MLFQ" using assms(4) by (simp add: intr_on_def)
  obtain s1 where s1: "dequeue HIGH ?s0 = Ok (if xs 0 = [] then None else Some (hd (xs 0)), s1)" "quiet s1"
    "mlfq_rep s1 (xs(0 := tl (xs 0)))" "tp s1 = tp s" "\<forall>i. unlinked (proc s1 i) = unlinked (proc s i)"
    using dequeue_quiet [OF q0 r0, of 0] by (auto simp: intr_on_def)
  have visit: ?thesis
    if top: "top_queue xs = Some q" and sq: "quiet t" "mlfq_rep t (xs(q := tl (xs q)))" "tp t = tp s"
      "\<forall>i. unlinked (proc t i) = unlinked (proc s i)" and run: "scheduler_round start s = sched_visit (hd (xs q)) t"
    for q t
  proof -
    let ?p = "hd (xs q)"
    have q: "q < NQUEUE" "xs q \<noteq> []" using top by (auto simp: top_queue_def split: if_splits)
    then have pw: "?p \<in> waiting xs" "?p < NPROC"
      using mlfq_head [OF assms(2) q] by simp_all
    have st: "state (proc t i) = state (proc s i)" for i by (rule unlinked_sel(2) [OF sq(4) [rule_format]])
    have "lock_free (ProcLock ?p) t" "state (proc t ?p) = RUNNABLE"
      using sq(1) pw assms(3) st by (auto simp: quiet_def queued_runnable_def)
    from sched_visit_runnable [OF this] obtain s' where s': "sched_visit ?p t = Ok (Some ?p, s')"
      "holding (ProcLock ?p) s'" "cpu_proc (cpus s' (tp s')) = Some ?p" "tp s' = tp t" "queue s' = queue t"
      "proc s' = (proc t)(?p := (proc t ?p)\<lparr>state := RUNNING\<rparr>)" by blast
    have "mlfq_rep s' (xs(q := tl (xs q)))" by (rule mlfq_rep_cong [OF sq(2) s'(5)]) (simp add: s'(6))
    moreover have "queued_runnable s' (xs(q := tl (xs q)))"
    proof -
      have "waiting (xs(q := tl (xs q))) = waiting xs - {?p}"
        using q_cases [OF q(1)] q(2) assms(2) by (cases "xs q") (auto simp: mlfq_rep_def)
      then show ?thesis using assms(3) st by (auto simp: queued_runnable_def s'(6))
    qed
    ultimately show ?thesis using top run s' sq(3) by (intro exI [of _ s']) simp
  qed
  show ?thesis
  proof (cases "xs 0 = []")
    case False
    then show ?thesis using s1 pol by (intro visit [of 0 s1]) (simp_all add: top_queue_def scheduler_round_def Let_def)
  next
    case e0: True
    then have "xs(0 := tl (xs 0)) = xs" by auto
    with s1 have r1: "mlfq_rep s1 xs" by simp
    obtain s2 where s2: "dequeue MEDIUM s1 = Ok (if xs 1 = [] then None else Some (hd (xs 1)), s2)" "quiet s2"
      "mlfq_rep s2 (xs(1 := tl (xs 1)))" "tp s2 = tp s" "\<forall>i. unlinked (proc s2 i) = unlinked (proc s i)"
      using dequeue_quiet [OF s1(2) r1, of 1] s1(4,5) by auto
    show ?thesis
    proof (cases "xs 1 = []")
      case False
      then show ?thesis using s1 s2 e0 pol
        by (intro visit [of 1 s2]) (simp_all add: top_queue_def scheduler_round_def Let_def)
    next
      case e1: True
      then have "xs(1 := tl (xs 1)) = xs" by auto
      with s2 have r2: "mlfq_rep s2 xs" by simp
      obtain s3 where s3: "dequeue LOW s2 = Ok (if xs 2 = [] then None else Some (hd (xs 2)), s3)" "quiet s3"
        "mlfq_rep s3 (xs(2 := tl (xs 2)))" "tp s3 = tp s" "\<forall>i. unlinked (proc s3 i) = unlinked (proc s i)"
        using dequeue_quiet [OF s2(2) r2, of 2] s2(4,5) by auto
      show ?thesis
      proof (cases "xs 2 = []")
        case False
        then show ?thesis using s1 s2 s3 e0 e1 pol
          by (intro visit [of 2 s3]) (simp_all add: top_queue_def scheduler_round_def Let_def)
      next
        case True
        then show ?thesis using s1 s2 s3 e0 e1 pol
          by (intro exI [of _ s3]) (simp add: top_queue_def scheduler_round_def Let_def)
      qed
    qed
  qed
qed

definition mlfq_ready :: procs where
  "mlfq_ready = boot_procs\<lparr>sched_policy := MLFQ,
     proc := (\<lambda>_. idle_proc)(5 := idle_proc\<lparr>state := RUNNABLE, priority := MEDIUM\<rparr>),
     queue := (\<lambda>_. \<lparr>q_timeslice = 0, q_head = None, q_tail = None\<rparr>)
       (1 := \<lparr>q_timeslice = 50, q_head = Some 5, q_tail = Some 5\<rparr>)\<rparr>"

lemma mlfq_ready_ok: "quiet mlfq_ready" "mlfq_rep mlfq_ready ((\<lambda>_. [])(1 := [5]))"
  "queued_runnable mlfq_ready ((\<lambda>_. [])(1 := [5]))" "sched_policy mlfq_ready = MLFQ" "noff (cpus mlfq_ready (tp mlfq_ready)) = 0"
  by (simp_all add: mlfq_ready_def quiet_def lock_simps mlfq_rep_def queue_rep_def queued_runnable_def idle_proc_def
    boot_procs_def physmem.defs boot_mem_def)

theorem mlfq_runs_highest_priority_witness:
  "\<exists>s'. scheduler_round 0 mlfq_ready = Ok (Some 5, s') \<and> state (proc s' 5) = RUNNING"
  using mlfq_runs_highest_priority [OF mlfq_ready_ok, of 0] by (auto simp: top_queue_def)

section \<open>Family list ids\<close>

definition alloc_listid_opt :: "'a procs_scheme \<Rightarrow> (nat option \<times> 'a procs_scheme) res" where
  "alloc_listid_opt s =
     res_bind (alloc_mmr_listid s) (\<lambda>(i, s). Ok (if i < 0 then None else Some (nat i), s))"

definition listid_inv :: "'a procs_scheme \<Rightarrow> bool" where
  "listid_inv s \<longleftrightarrow> hart_ok s \<and> lock_free ListidLock s"

definition listid_avail :: "'a procs_scheme \<Rightarrow> nat set" where
  "listid_avail s = {i. i < NLISTID \<and> \<not> mmr_list_valid s i}"

definition listid_owned :: "'a procs_scheme \<Rightarrow> nat \<Rightarrow> bool" where
  "listid_owned s i \<longleftrightarrow> i < NLISTID \<and> mmr_list_valid s i"

lemma critical_listid:
  assumes "listid_inv s" and "body (inside ListidLock s) = Ok (r, (inside ListidLock s)\<lparr>mmr_list_valid := v\<rparr>)"
  shows "critical ListidLock body s = Ok (r, (relock s)\<lparr>mmr_list_valid := v\<rparr>)"
  using critical_run [of s ListidLock body r "(inside ListidLock s)\<lparr>mmr_list_valid := v\<rparr>"] assms
  by (simp add: listid_inv_def inside_def relock_def)

lemma listid_inv_upd [simp]: "listid_inv ((relock s)\<lparr>mmr_list_valid := v\<rparr>) = listid_inv s"
proof -
  have "hart_ok (t\<lparr>mmr_list_valid := v\<rparr>) = hart_ok t" "lock_free lk (t\<lparr>mmr_list_valid := v\<rparr>) = lock_free lk t" for t :: "'a procs_scheme" and lk
    by (simp_all add: lock_simps)
  then show ?thesis by (simp add: listid_inv_def)
qed

lemma alloc_mmr_listid_eq:
  assumes "listid_inv s"
  shows "alloc_mmr_listid s =
    (case find (\<lambda>i. \<not> mmr_list_valid s i) [0..<NLISTID] of
       None \<Rightarrow> Ok (- 1, (relock s)\<lparr>mmr_list_valid := mmr_list_valid s\<rparr>)
     | Some i \<Rightarrow> Ok (int i, (relock s)\<lparr>mmr_list_valid := (mmr_list_valid s)(i := True)\<rparr>))"
proof (cases "find (\<lambda>i. \<not> mmr_list_valid s i) [0..<NLISTID]")
  case None
  have "alloc_mmr_listid s = Ok (- 1, (relock s)\<lparr>mmr_list_valid := mmr_list_valid s\<rparr>)"
    unfolding alloc_mmr_listid_def
    by (rule critical_listid [OF assms]) (use None in \<open>simp add: mloop_find del: upt_rec_numeral\<close>)
  then show ?thesis using None by (simp del: upt_rec_numeral)
next
  case (Some i)
  have "alloc_mmr_listid s = Ok (int i, (relock s)\<lparr>mmr_list_valid := (mmr_list_valid s)(i := True)\<rparr>)"
    unfolding alloc_mmr_listid_def
    by (rule critical_listid [OF assms]) (use Some in \<open>simp add: mloop_find del: upt_rec_numeral\<close>)
  then show ?thesis using Some by (simp del: upt_rec_numeral)
qed

interpretation listids: slot_pool listid_inv listid_avail listid_owned alloc_listid_opt
  "\<lambda>i. dealloc_mmr_listid (int i)"
proof (unfold_locales, goal_cases)
  case (1 s)
  show ?case by (simp add: listid_avail_def)
next
  case (2 s)
  then have "find (\<lambda>i. \<not> mmr_list_valid s i) [0..<NLISTID] \<noteq> None"
    by (auto simp: find_None_iff listid_avail_def simp del: upt_rec_numeral)
  then obtain i where i: "find (\<lambda>i. \<not> mmr_list_valid s i) [0..<NLISTID] = Some i" by blast
  then have "i < NLISTID" "\<not> mmr_list_valid s i" by (auto simp: find_Some_iff simp del: upt_rec_numeral)
  with 2(1) i show ?case
    by (intro exI [of _ i] exI [of _ "(relock s)\<lparr>mmr_list_valid := (mmr_list_valid s)(i := True)\<rparr>"])
      (auto simp: alloc_listid_opt_def alloc_mmr_listid_eq listid_avail_def listid_owned_def simp del: upt_rec_numeral)
next
  case (3 s)
  then have "find (\<lambda>i. \<not> mmr_list_valid s i) [0..<NLISTID] = None"
    by (auto simp: find_None_iff listid_avail_def simp del: upt_rec_numeral)
  with 3 show ?case
    by (intro exI [of _ "(relock s)\<lparr>mmr_list_valid := mmr_list_valid s\<rparr>"])
      (simp add: alloc_listid_opt_def alloc_mmr_listid_eq listid_avail_def del: upt_rec_numeral)
next
  case (4 s i)
  then have "critical ListidLock (\<lambda>s.
         if 0 \<le> int i \<and> int i < int NLISTID
         then Ok ((), s\<lparr>mmr_list_valid := (mmr_list_valid s)(nat (int i) := False)\<rparr>) else Fault) s =
      Ok ((), (relock s)\<lparr>mmr_list_valid := (mmr_list_valid s)(i := False)\<rparr>)"
    by (intro critical_listid) (simp_all add: listid_owned_def)
  with 4 show ?case
    by (intro exI [of _ "(relock s)\<lparr>mmr_list_valid := (mmr_list_valid s)(i := False)\<rparr>"])
      (auto simp: dealloc_mmr_listid_def listid_avail_def listid_owned_def)
next
  case (5 s i)
  then show ?case by (simp add: listid_owned_def listid_avail_def)
qed

text \<open>
  Property C19. \<^verbatim>\<open>alloc_mmr_listid\<close> hands out every unused list id once before it fails: called as
  often as there are unused ids it returns that many different ones, and the next call
  returns -1.
\<close>

theorem listids_all_used_then_fail:
  assumes "listid_inv s"
  shows "\<exists>rs s' s''. alloc_many alloc_listid_opt (card (listid_avail s)) s = Ok (rs, s') \<and> distinct rs \<and>
    set rs = listid_avail s \<and> alloc_mmr_listid s' = Ok (- 1, s'')"
proof -
  obtain rs s' where rs: "alloc_many alloc_listid_opt (card (listid_avail s)) s = Ok (rs, s')"
    "length rs = card (listid_avail s)" "distinct rs" "set rs \<subseteq> listid_avail s"
    "listid_avail s' = listid_avail s - set rs" "listid_inv s'"
    using listids.alloc_many_ok [OF assms] by blast
  then have all: "set rs = listid_avail s"
    using listids.avail_finite [OF assms] by (metis card_subset_eq distinct_card)
  then have "find (\<lambda>i. \<not> mmr_list_valid s' i) [0..<NLISTID] = None"
    using rs(5) by (auto simp: find_None_iff listid_avail_def simp del: upt_rec_numeral)
  then have "alloc_mmr_listid s' = Ok (- 1, (relock s')\<lparr>mmr_list_valid := mmr_list_valid s'\<rparr>)"
    using alloc_mmr_listid_eq [OF rs(6)] by (simp del: upt_rec_numeral)
  then show ?thesis using rs(1,3) all by blast
qed

theorem listids_all_used_then_fail_witness:
  "\<exists>rs s' s''. alloc_many alloc_listid_opt (card (listid_avail boot_procs)) boot_procs = Ok (rs, s') \<and> distinct rs \<and>
    set rs = listid_avail boot_procs \<and> alloc_mmr_listid s' = Ok (- 1, s'')"
  by (rule listids_all_used_then_fail) (simp add: listid_inv_def)

end
