(* ===== verification/Sleeplock.thy ===== *)
theory Sleeplock
  imports Proc_Spec
begin

text \<open>
  \<^verbatim>\<open>kernel/sleeplock.c\<close>: locks that a process may hold across context switches. The first
  part is the code; the second shows what \<^verbatim>\<open>wakeup\<close> does under either scheduling policy
  (only the heads and tails of the queues matter to it), the third that the lock works: it
  is taken and given back, and giving it back wakes all who wait for it.
\<close>

section \<open>Data and operations\<close>

text \<open>The sleep locks of the kernel: one per disk buffer and one per in-memory inode.\<close>

datatype sleepid = BufSl nat | InodeSl nat

record sleeplock =
  sl_locked :: uint
  sl_name :: string
  sl_pid :: cint

record sleeps = procs +
  slock :: "sleepid \<Rightarrow> sleeplock"

text \<open>The spin lock inside a sleep lock and the address that waiters sleep on.\<close>

primrec sl_lk :: "sleepid \<Rightarrow> lockid" where
  "sl_lk (BufSl i) = BufSleepLk i"
| "sl_lk (InodeSl i) = InodeSleepLk i"

primrec sl_chan :: "sleepid \<Rightarrow> chan" where
  "sl_chan (BufSl i) = ChBufLock i"
| "sl_chan (InodeSl i) = ChInodeLock i"

definition upd_slock :: "sleepid \<Rightarrow> (sleeplock \<Rightarrow> sleeplock) \<Rightarrow> 'a sleeps_scheme \<Rightarrow> 'a sleeps_scheme" where
  "upd_slock l f s = s\<lparr>slock := (slock s)(l := f (slock s l))\<rparr>"

definition initsleeplock :: "sleepid \<Rightarrow> string \<Rightarrow> 'a sleeps_scheme \<Rightarrow> 'a sleeps_scheme" where
  "initsleeplock l name s =
     upd_slock l (\<lambda>_. \<lparr>sl_locked = 0, sl_name = name, sl_pid = 0\<rparr>) (initlock (sl_lk l) ''sleep lock'' s)"

text \<open>
  One pass of the loop of \<^verbatim>\<open>acquiresleep\<close> with the inner spin lock held: go to sleep when the
  lock is taken, take it otherwise.
\<close>

definition acquiresleep_round :: "sleepid \<Rightarrow> 'a sleeps_scheme \<Rightarrow> (wait_result \<times> 'a sleeps_scheme) res" where
  "acquiresleep_round l s =
     (if sl_locked (slock s l) \<noteq> 0 then
        res_bind (sleep (sl_chan l) (sl_lk l) s) (\<lambda>(ie, s). Ok (Asleep ie, s))
      else
        res_bind (with_proc (\<lambda>p s. Ok (upd_slock l (\<lambda>k. k\<lparr>sl_pid := pid (proc s p)\<rparr>) s))
            (upd_slock l (\<lambda>k. k\<lparr>sl_locked := 1\<rparr>) s)) (\<lambda>s.
          res_bind (release (sl_lk l) s) (\<lambda>s. Ok (Returned 0, s))))"

definition acquiresleep_start :: "sleepid \<Rightarrow> 'a sleeps_scheme \<Rightarrow> (wait_result \<times> 'a sleeps_scheme) res" where
  "acquiresleep_start l s = res_bind (acquire (sl_lk l) s) (acquiresleep_round l)"

text \<open>After a wakeup: back from \<^verbatim>\<open>sleep\<close> as process \<open>p\<close>, the loop tests the lock again.\<close>

definition acquiresleep_resume ::
  "nat \<Rightarrow> bool \<Rightarrow> sleepid \<Rightarrow> 'a sleeps_scheme \<Rightarrow> (wait_result \<times> 'a sleeps_scheme) res" where
  "acquiresleep_resume p ie l s = res_bind (sleep_return p (sl_lk l) ie s) (acquiresleep_round l)"

text \<open>
  The call as the file system sees it: it returns with the lock, or does not return before
  other processes have run.
\<close>

definition acquiresleep :: "sleepid \<Rightarrow> 'a sleeps_scheme \<Rightarrow> 'a sleeps_scheme res" where
  "acquiresleep l s =
     res_bind (acquiresleep_start l s) (\<lambda>(r, s). case r of Returned _ \<Rightarrow> Ok s | Asleep _ \<Rightarrow> Blocked)"

definition releasesleep :: "sleepid \<Rightarrow> 'a sleeps_scheme \<Rightarrow> 'a sleeps_scheme res" where
  "releasesleep l s =
     res_bind (acquire (sl_lk l) s) (\<lambda>s.
       res_bind (wakeup (Some (sl_chan l)) (upd_slock l (\<lambda>k. k\<lparr>sl_locked := 0, sl_pid := 0\<rparr>) s))
         (release (sl_lk l)))"

definition holdingsleep :: "sleepid \<Rightarrow> 'a sleeps_scheme \<Rightarrow> (bool \<times> 'a sleeps_scheme) res" where
  "holdingsleep l s =
     res_bind (acquire (sl_lk l) s) (\<lambda>s.
     res_bind
       (if sl_locked (slock s l) \<noteq> 0 then with_proc (\<lambda>p s. Ok (sl_pid (slock s l) = pid (proc s p), s)) s
        else Ok (False, s)) (\<lambda>(r, s).
     res_bind (release (sl_lk l) s) (\<lambda>s. Ok (r, s))))"

section \<open>Waking up under either policy\<close>

text \<open>
  What \<^verbatim>\<open>wakeup\<close> needs of the table: sane hart and locks, valid priorities, and queues with
  both a head and a tail or neither. Round robin keeps this too, though it never empties the
  queues.
\<close>

definition paired :: "'a procs_scheme \<Rightarrow> bool" where
  "paired s \<longleftrightarrow> (\<forall>q<NQUEUE. q_head (queue s q) = None \<longleftrightarrow> q_tail (queue s q) = None)"

definition table_ok :: "'a procs_scheme \<Rightarrow> bool" where
  "table_ok s \<longleftrightarrow> quiet s \<and> valid_priority s \<and> paired s"

lemma enqueue_at_head_paired:
  assumes ok: "hart_ok s" "lock_free (QueueLock q) s" and p: "p < NPROC" and q: "q < NQUEUE" and pair: "paired s"
  shows "\<exists>P Q. enqueue_at_head p (int q) s = Ok ((relock s)\<lparr>proc := P, queue := Q\<rparr>) \<and>
    paired ((relock s)\<lparr>proc := P, queue := Q\<rparr>) \<and> (\<forall>i. unlinked (P i) = unlinked (proc s i))"
proof -
  note enq = enqueue_at_head_def queue_at_def upd_queue_def upd_proc_def
  have ht: "q_head (queue s q) = None \<longleftrightarrow> q_tail (queue s q) = None" using pair q by (simp add: paired_def)
  show ?thesis
  proof (cases "q_head (queue s q)")
    case None
    let ?Q = "(queue s)(q := (queue s q)\<lparr>q_head := Some p, q_tail := Some p\<rparr>)"
    have "q_tail (queue s q) = None" using None ht by simp
    then have "enqueue_at_head p (int q) s = Ok ((relock s)\<lparr>proc := proc s, queue := ?Q\<rparr>)"
      using None p q by (simp add: enq critical_procs [OF ok, where P = "proc s" and Q = ?Q and r = True])
    moreover have "paired ((relock s)\<lparr>proc := proc s, queue := ?Q\<rparr>)" using pair by (simp add: paired_def)
    ultimately show ?thesis by (intro exI [of _ "proc s"] exI [of _ ?Q]) simp
  next
    case (Some h)
    let ?P = "(proc s)(p := (proc s p)\<lparr>p_next := Some h\<rparr>)"
    let ?Q = "(queue s)(q := (queue s q)\<lparr>q_head := Some p\<rparr>)"
    have "enqueue_at_head p (int q) s = Ok ((relock s)\<lparr>proc := ?P, queue := ?Q\<rparr>)"
      using Some p q by (simp add: enq critical_procs [OF ok, where P = ?P and Q = ?Q and r = True])
    moreover have "paired ((relock s)\<lparr>proc := ?P, queue := ?Q\<rparr>)" using pair q Some ht by (auto simp: paired_def)
    ultimately show ?thesis by (intro exI [of _ ?P] exI [of _ ?Q]) simp
  qed
qed

lemma wake_proc_table:
  assumes ok: "table_ok s" and p: "p < NPROC"
  shows "\<exists>P Q. wake_proc ch p s = Ok ((), (relock s)\<lparr>proc := P, queue := Q\<rparr>) \<and>
    paired ((relock s)\<lparr>proc := P, queue := Q\<rparr>) \<and>
    (\<forall>i. unlinked (P i) = unlinked (if i = p then woken ch (proc s i) else proc s i))"
proof (cases "state (proc s p) = SLEEPING \<and> chan (proc s p) = ch")
  case False
  then have "wake_proc ch p s = Ok ((), (relock s)\<lparr>proc := proc s, queue := queue s\<rparr>)"
    unfolding wake_proc_def using ok p by (intro critical_procs) (auto simp: table_ok_def quiet_def inside_def)
  moreover have "paired ((relock s)\<lparr>proc := proc s, queue := queue s\<rparr>)" using ok by (simp add: table_ok_def paired_def)
  ultimately show ?thesis using False by (intro exI [of _ "proc s"] exI [of _ "queue s"]) (simp add: woken_def)
next
  case True
  let ?in = "upd_proc p (\<lambda>r. r\<lparr>state := RUNNABLE\<rparr>) (inside (ProcLock p) s)"
  have q: "quiet s" using ok by (simp add: table_ok_def)
  obtain k where k: "k < NQUEUE" "priority (proc s p) = int k"
    using ok p by (metis table_ok_def valid_priority_def zero_le_imp_eq_int of_nat_less_iff)
  have lk: "hart_ok ?in" "lock_free (QueueLock k) ?in" using q k(1) by (simp_all add: quiet_def upd_proc_def)
  have "paired ?in" using ok by (simp add: table_ok_def paired_def upd_proc_def)
  from enqueue_at_head_paired [OF lk p k(1) this] obtain P Q where e:
    "enqueue_at_head p (int k) ?in = Ok ((relock ?in)\<lparr>proc := P, queue := Q\<rparr>)"
    "paired ((relock ?in)\<lparr>proc := P, queue := Q\<rparr>)" "\<forall>i. unlinked (P i) = unlinked (proc ?in i)" by blast
  have "(relock ?in)\<lparr>proc := P, queue := Q\<rparr> = (inside (ProcLock p) s)\<lparr>proc := P, queue := Q\<rparr>"
    using q relock_inside [of s "ProcLock p"] by (simp add: quiet_def upd_proc_def relock_def)
  then have "wake_proc ch p s = Ok ((), (relock s)\<lparr>proc := P, queue := Q\<rparr>)"
    unfolding wake_proc_def using q p True e(1) k(2) by (intro critical_procs) (simp_all add: quiet_def)
  moreover have "paired ((relock s)\<lparr>proc := P, queue := Q\<rparr>)" using e(2) by (simp add: paired_def)
  ultimately show ?thesis using e(3) True
    by (intro exI [of _ P] exI [of _ Q]) (simp add: woken_def upd_proc_def)
qed

lemma table_ok_unlinked:
  assumes "table_ok s" and "paired ((relock s)\<lparr>proc := P, queue := Q\<rparr>)"
    and "\<forall>i. unlinked (P i) = unlinked (if c i then woken ch (proc s i) else proc s i)"
  shows "table_ok ((relock s)\<lparr>proc := P, queue := Q\<rparr>)"
proof -
  have "priority (P i) = priority (proc s i)" for i
    using unlinked_sel(1) [OF assms(3) [rule_format, of i]] by (simp add: woken_def split: if_splits)
  then show ?thesis using assms(1,2) by (simp add: table_ok_def valid_priority_def)
qed

lemma wakeup_body_table:
  assumes "table_ok s" and "p < NPROC"
  shows "\<exists>P Q. wakeup_body ch p s = Ok ((relock s)\<lparr>proc := P, queue := Q\<rparr>) \<and>
    table_ok ((relock s)\<lparr>proc := P, queue := Q\<rparr>) \<and>
    (\<forall>i. unlinked (P i) =
      unlinked (if i = p \<and> Some i \<noteq> cpu_proc (cpus s (tp s)) then woken ch (proc s i) else proc s i))"
proof -
  have h: "hart_ok s" using assms(1) by (simp add: table_ok_def quiet_def)
  have r: "table_ok (relock s)" using assms(1) by (simp add: table_ok_def valid_priority_def paired_def)
  show ?thesis
  proof (cases "cpu_proc (cpus s (tp s)) = Some p")
    case True
    have "table_ok ((relock s)\<lparr>proc := proc s, queue := queue s\<rparr>)"
      using assms(1) by (simp add: table_ok_def valid_priority_def paired_def)
    then show ?thesis using True h
      by (intro exI [of _ "proc s"] exI [of _ "queue s"]) (auto simp: wakeup_body_def myproc_eq)
  next
    case False
    from wake_proc_table [OF r assms(2), of ch] obtain P Q where w:
      "wake_proc ch p (relock s) = Ok ((), (relock s)\<lparr>proc := P, queue := Q\<rparr>)"
      "paired ((relock s)\<lparr>proc := P, queue := Q\<rparr>)"
      "\<forall>i. unlinked (P i) = unlinked (if i = p then woken ch (proc s i) else proc s i)" by auto
    have "table_ok ((relock s)\<lparr>proc := P, queue := Q\<rparr>)" by (rule table_ok_unlinked [OF assms(1) w(2,3)])
    then show ?thesis using w False h
      by (intro exI [of _ P] exI [of _ Q]) (auto simp: wakeup_body_def myproc_eq)
  qed
qed

lemma wakeup_loop_table:
  assumes "table_ok s" and "relock s = s" and "set ps \<subseteq> {..<NPROC}" and "distinct ps"
  shows "\<exists>P Q. mfold (wakeup_body ch) ps s = Ok (s\<lparr>proc := P, queue := Q\<rparr>) \<and> table_ok (s\<lparr>proc := P, queue := Q\<rparr>) \<and>
    (\<forall>i. unlinked (P i) =
      unlinked (if i \<in> set ps \<and> Some i \<noteq> cpu_proc (cpus s (tp s)) then woken ch (proc s i) else proc s i))"
  using assms
proof (induction ps arbitrary: s)
  case Nil
  then show ?case by (intro exI [of _ "proc s"] exI [of _ "queue s"]) simp
next
  case (Cons p ps)
  let ?me = "cpu_proc (cpus s (tp s))"
  from wakeup_body_table [OF Cons.prems(1), of p ch] Cons.prems(2,3) obtain P Q where b:
    "wakeup_body ch p s = Ok (s\<lparr>proc := P, queue := Q\<rparr>)" "table_ok (s\<lparr>proc := P, queue := Q\<rparr>)"
    "\<forall>i. unlinked (P i) = unlinked (if i = p \<and> Some i \<noteq> ?me then woken ch (proc s i) else proc s i)" by auto
  have "relock (s\<lparr>proc := P, queue := Q\<rparr>) = s\<lparr>proc := P, queue := Q\<rparr>"
    using arg_cong [OF Cons.prems(2), of cpus] by (cases s) (simp add: relock_def)
  from Cons.IH [OF b(2) this] Cons.prems(3,4) obtain P' Q' where l:
    "mfold (wakeup_body ch) ps (s\<lparr>proc := P, queue := Q\<rparr>) = Ok (s\<lparr>proc := P', queue := Q'\<rparr>)"
    "table_ok (s\<lparr>proc := P', queue := Q'\<rparr>)"
    "\<forall>i. unlinked (P' i) = unlinked (if i \<in> set ps \<and> Some i \<noteq> ?me then woken ch (P i) else P i)" by auto
  have "unlinked (P' i) = unlinked (if i \<in> set (p # ps) \<and> Some i \<noteq> ?me then woken ch (proc s i) else proc s i)" for i
  proof (cases "i = p")
    case True
    then show ?thesis using Cons.prems(4) l(3) [rule_format, of i] b(3) [rule_format, of i] by simp
  next
    case False
    then have u: "unlinked (P i) = unlinked (proc s i)" using b(3) [rule_format, of i] by simp
    then have "unlinked (woken ch (P i)) = unlinked (woken ch (proc s i))" by (rule unlinked_woken)
    then show ?thesis using l(3) [rule_format, of i] False u by simp
  qed
  then show ?case using b(1) l(1,2) by (intro exI [of _ P'] exI [of _ Q']) simp
qed

lemma wakeup_table:
  assumes "table_ok s" and "noff (cpus s (tp s)) \<noteq> 0"
  shows "\<exists>P Q. wakeup ch s = Ok (s\<lparr>proc := P, queue := Q\<rparr>) \<and> table_ok (s\<lparr>proc := P, queue := Q\<rparr>) \<and>
    (\<forall>i<NPROC. unlinked (P i) = unlinked (if Some i \<noteq> cpu_proc (cpus s (tp s)) then woken ch (proc s i) else proc s i)) \<and>
    (\<forall>i. unlinked (woken ch (P i)) = unlinked (woken ch (proc s i)))"
proof -
  have "relock s = s" using assms(2) by (simp add: relock_def relock_cpus_def)
  from wakeup_loop_table [OF assms(1) this, of "[0..<NPROC]" ch] obtain P Q where
    w: "wakeup ch s = Ok (s\<lparr>proc := P, queue := Q\<rparr>)" "table_ok (s\<lparr>proc := P, queue := Q\<rparr>)"
    "\<forall>i. unlinked (P i) = unlinked (if i < NPROC \<and> Some i \<noteq> cpu_proc (cpus s (tp s)) then woken ch (proc s i) else proc s i)"
    by (auto simp: wakeup_def atLeast0LessThan)
  have "unlinked (woken ch (P i)) = unlinked (woken ch (proc s i))" for i
    using unlinked_woken [OF w(3) [rule_format, of i], of ch] by (simp add: woken_def split: if_splits)
  then show ?thesis using w by (intro exI [of _ P] exI [of _ Q]) simp
qed

section \<open>Taking and giving back a sleep lock\<close>

text \<open>
  A call that leaves the process table as it was, but for the scheduling state of the
  processes it woke up.
\<close>

abbreviation settled :: "proc \<Rightarrow> proc" where
  "settled r \<equiv> r\<lparr>state := UNUSED, p_next := None\<rparr>"

lemma settled_unlinked: "unlinked r = unlinked (if b then woken ch r' else r') \<Longrightarrow> settled r = settled r'"
proof -
  assume u: "unlinked r = unlinked (if b then woken ch r' else r')"
  have "settled r = (unlinked r)\<lparr>state := UNUSED\<rparr>" by simp
  also have "\<dots> = settled r'" unfolding u by (simp add: woken_def)
  finally show ?thesis .
qed

lemma inside_sleeps [simp]:
  "slock (inside lk s) = slock s" "slock (relock s) = slock s"
  "inside lk (s\<lparr>slock := L\<rparr>) = (inside lk s)\<lparr>slock := L\<rparr>" "relock (s\<lparr>slock := L\<rparr>) = (relock s)\<lparr>slock := L\<rparr>"
  by (simp_all add: inside_def relock_def)

lemma table_ok_slock [simp]: "table_ok (s\<lparr>slock := L\<rparr>) = table_ok s"
  by (simp add: table_ok_def quiet_def valid_priority_def paired_def lock_simps)

lemma table_ok_hart: "table_ok s \<Longrightarrow> hart_ok s"
  by (simp add: table_ok_def quiet_def)

lemma table_ok_relock [simp]: "table_ok (relock s) = table_ok s"
  by (simp add: table_ok_def valid_priority_def paired_def)

lemma table_ok_inside:
  assumes "table_ok s" and "\<And>i. lk \<noteq> ProcLock i" and "\<And>i. lk \<noteq> QueueLock i"
  shows "table_ok (inside lk s)"
proof -
  have "lock_free (ProcLock i) (inside lk s) = lock_free (ProcLock i) s" for i
    using assms(2) [of i] by (intro lock_free_inside) auto
  moreover have "lock_free (QueueLock i) (inside lk s) = lock_free (QueueLock i) s" for i
    using assms(3) [of i] by (intro lock_free_inside) auto
  ultimately show ?thesis using assms(1) by (simp add: table_ok_def quiet_def valid_priority_def paired_def)
qed

lemma sl_lk_neq [simp]: "sl_lk l \<noteq> ProcLock i" "sl_lk l \<noteq> QueueLock i" "ProcLock i \<noteq> sl_lk l" "QueueLock i \<noteq> sl_lk l"
  by (cases l; simp)+

lemma release_after:
  assumes "hart_ok s" and "lock_free lk s" and "t = (inside lk s)\<lparr>proc := P, queue := Q, slock := L\<rparr>"
  shows "release lk t = Ok ((relock s)\<lparr>proc := P, queue := Q, slock := L\<rparr>)"
proof -
  have "release lk t = Ok (t\<lparr>sie := sie s, cpus := cpus (relock s), spin := spin s\<rparr>)"
    by (rule release_inside [OF assms(1,2)]) (simp_all add: assms(3))
  also have "t\<lparr>sie := sie s, cpus := cpus (relock s), spin := spin s\<rparr> = (relock s)\<lparr>proc := P, queue := Q, slock := L\<rparr>"
    by (simp add: assms(3) inside_def relock_def)
  finally show ?thesis .
qed

lemma acquiresleep_free:
  assumes "table_ok s" and "lock_free (sl_lk l) s" and "sl_locked (slock s l) = 0" and "cpu_proc (cpus s (tp s)) = Some p"
  shows "acquiresleep l s =
    Ok ((relock s)\<lparr>slock := (slock s)(l := (slock s l)\<lparr>sl_locked := 1, sl_pid := pid (proc s p)\<rparr>)\<rparr>)"
proof -
  let ?L = "(slock s)(l := (slock s l)\<lparr>sl_locked := 1, sl_pid := pid (proc s p)\<rparr>)"
  let ?in = "upd_slock l (\<lambda>k. k\<lparr>sl_locked := 1\<rparr>) (inside (sl_lk l) s)"
  have h: "hart_ok s" by (rule table_ok_hart [OF assms(1)])
  have "with_proc f ?in = f p (relock ?in)" for f :: "nat \<Rightarrow> 'a sleeps_scheme \<Rightarrow> 'a sleeps_scheme res"
    by (rule with_proc_run) (use h assms(4) in \<open>simp_all add: upd_slock_def lock_simps inside_def\<close>)
  moreover have "relock ?in = ?in" using h by (simp add: upd_slock_def)
  moreover have "release (sl_lk l) ((inside (sl_lk l) s)\<lparr>slock := ?L\<rparr>) = Ok ((relock s)\<lparr>slock := ?L\<rparr>)"
    using release_after [OF h assms(2), where t = "(inside (sl_lk l) s)\<lparr>slock := ?L\<rparr>" and P = "proc s" and Q = "queue s" and L = ?L]
    by (cases s) (simp add: inside_def relock_def)
  ultimately show ?thesis using assms(2,3)
    by (simp add: acquiresleep_def acquiresleep_start_def acquire_free acquiresleep_round_def) (simp add: upd_slock_def)
qed

text \<open>The current process is the recorded owner of the lock.\<close>

definition owns_sleep :: "sleepid \<Rightarrow> 'a sleeps_scheme \<Rightarrow> bool" where
  "owns_sleep l s \<longleftrightarrow> sl_locked (slock s l) \<noteq> 0 \<and>
     (\<exists>p. cpu_proc (cpus s (tp s)) = Some p \<and> sl_pid (slock s l) = pid (proc s p))"

lemma holdingsleep_run:
  assumes "table_ok s" and "lock_free (sl_lk l) s" and "cpu_proc (cpus s (tp s)) = Some p"
  shows "holdingsleep l s = Ok (owns_sleep l s, relock s)"
proof -
  let ?in = "inside (sl_lk l) s"
  have h: "hart_ok s" by (rule table_ok_hart [OF assms(1)])
  have w: "with_proc f ?in = f p ?in" for f :: "nat \<Rightarrow> 'a sleeps_scheme \<Rightarrow> (bool \<times> 'a sleeps_scheme) res"
    using with_proc_run [of ?in p f] h assms(3) by (simp add: lock_simps) (simp add: inside_def)
  have "release (sl_lk l) ?in = Ok (relock s)"
    using release_after [OF h assms(2), where t = ?in and P = "proc s" and Q = "queue s" and L = "slock s"]
    by (cases s) (simp add: inside_def relock_def)
  then show ?thesis using assms(2,3) w
    by (simp add: holdingsleep_def acquire_free owns_sleep_def)
qed

lemma releasesleep_run:
  assumes "table_ok s" and "lock_free (sl_lk l) s"
  shows "\<exists>P Q. releasesleep l s =
      Ok ((relock s)\<lparr>proc := P, queue := Q, slock := (slock s)(l := (slock s l)\<lparr>sl_locked := 0, sl_pid := 0\<rparr>)\<rparr>) \<and>
    table_ok ((relock s)\<lparr>proc := P, queue := Q\<rparr>) \<and> (\<forall>i. settled (P i) = settled (proc s i)) \<and>
    (\<forall>i<NPROC. unlinked (P i) =
      unlinked (if Some i \<noteq> cpu_proc (cpus s (tp s)) then woken (Some (sl_chan l)) (proc s i) else proc s i))"
proof -
  let ?L = "(slock s)(l := (slock s l)\<lparr>sl_locked := 0, sl_pid := 0\<rparr>)"
  let ?in = "(inside (sl_lk l) s)\<lparr>slock := ?L\<rparr>"
  have h: "hart_ok s" by (rule table_ok_hart [OF assms(1)])
  have t: "table_ok ?in" using table_ok_inside [OF assms(1), of "sl_lk l"] by simp
  have "noff (cpus ?in (tp ?in)) \<noteq> 0" using inside_noff [OF h, of "sl_lk l"] by simp
  from wakeup_table [OF t this, of "Some (sl_chan l)"] obtain P Q where w:
    "wakeup (Some (sl_chan l)) ?in = Ok (?in\<lparr>proc := P, queue := Q\<rparr>)" "table_ok (?in\<lparr>proc := P, queue := Q\<rparr>)"
    "\<forall>i<NPROC. unlinked (P i) = unlinked (if Some i \<noteq> cpu_proc (cpus ?in (tp ?in)) then woken (Some (sl_chan l)) (proc s i) else proc s i)"
    "\<forall>i. unlinked (woken (Some (sl_chan l)) (P i)) = unlinked (woken (Some (sl_chan l)) (proc s i))"
    by auto
  have me: "cpu_proc (cpus ?in (tp ?in)) = cpu_proc (cpus s (tp s))" by (simp add: inside_def)
  have "release (sl_lk l) (?in\<lparr>proc := P, queue := Q\<rparr>) = Ok ((relock s)\<lparr>proc := P, queue := Q, slock := ?L\<rparr>)"
    by (rule release_after [OF h assms(2)]) simp
  then have "releasesleep l s = Ok ((relock s)\<lparr>proc := P, queue := Q, slock := ?L\<rparr>)"
    using assms(2) w(1) by (simp add: releasesleep_def acquire_free upd_slock_def)
  moreover have "table_ok ((relock s)\<lparr>proc := P, queue := Q\<rparr>)"
    using w(2) assms(1) by (simp add: table_ok_def valid_priority_def paired_def)
  moreover have "settled (P i) = settled (proc s i)" for i
  proof -
    have "settled (P i) = (unlinked (woken (Some (sl_chan l)) (P i)))\<lparr>state := UNUSED\<rparr>" by (simp add: woken_def)
    also have "\<dots> = settled (proc s i)" using w(4) by (simp add: woken_def)
    finally show ?thesis .
  qed
  ultimately show ?thesis using w(3) unfolding me by blast
qed

lemma acquiresleep_contended:
  assumes "table_ok s" and "lock_free (sl_lk l) s" and "sl_locked (slock s l) \<noteq> 0"
    and "cpu_proc (cpus s (tp s)) = Some p" and "p < NPROC" and "noff (cpus s (tp s)) = 0"
  shows "\<exists>s'. acquiresleep_start l s = Ok (Asleep (sie s (tp s)), s') \<and> slock s' = slock s \<and>
    lock_free (sl_lk l) s' \<and> holding (ProcLock p) s' \<and>
    proc s' = (proc s)(p := (proc s p)\<lparr>chan := Some (sl_chan l), state := SLEEPING\<rparr>)"
proof -
  let ?in = "inside (sl_lk l) s"
  have h: "hart_ok s" by (rule table_ok_hart [OF assms(1)])
  have w: "with_proc f ?in = f p ?in" for f :: "nat \<Rightarrow> 'a sleeps_scheme \<Rightarrow> (bool \<times> 'a sleeps_scheme) res"
    using with_proc_run [of ?in p f] h assms(4) by (simp add: lock_simps) (simp add: inside_def)
  have f: "lock_free (ProcLock p) ?in" using assms(1,5) by (simp add: table_ok_def quiet_def)
  show ?thesis using assms(2-6) h f
    by (simp add: acquiresleep_start_def acquire_free acquiresleep_round_def sleep_def w)
      (simp add: release_def sched_def with_proc_def myproc_def hart_defs upd_proc_def inside_def lock_simps Let_def relock_cpus_def)
qed

section \<open>Giving back wakes everybody\<close>

text \<open>
  The processes asleep on an address. A \<^verbatim>\<open>releasesleep\<close> that runs alone leaves none; theory
  \<open>Sleep_Steps\<close> looks at the calls statement by statement, with the harts interleaved.
\<close>

definition sleepers :: "chan \<Rightarrow> 'a procs_scheme \<Rightarrow> nat set" where
  "sleepers ch s = {i. i < NPROC \<and> state (proc s i) = SLEEPING \<and> chan (proc s i) = Some ch}"

lemma give_wakes_all:
  assumes "releasesleep l s = Ok s'" and "table_ok s" and "lock_free (sl_lk l) s"
    and "cpu_proc (cpus s (tp s)) = Some p" and "state (proc s p) = RUNNING"
  shows "sleepers (sl_chan l) s' = {}"
proof -
  obtain P Q where s': "s' = (relock s)\<lparr>proc := P, queue := Q, slock := (slock s)(l := (slock s l)\<lparr>sl_locked := 0, sl_pid := 0\<rparr>)\<rparr>"
    and P: "\<forall>i<NPROC. unlinked (P i) =
      unlinked (if Some i \<noteq> cpu_proc (cpus s (tp s)) then woken (Some (sl_chan l)) (proc s i) else proc s i)"
    using releasesleep_run [OF assms(2,3)] assms(1) by auto
  have "state (P i) \<noteq> SLEEPING \<or> chan (P i) \<noteq> Some (sl_chan l)" if "i < NPROC" for i
    using unlinked_sel(2,3) [OF P [rule_format, OF that]] assms(4,5) by (auto simp: woken_def split: if_splits)
  then show ?thesis unfolding sleepers_def s' by auto
qed

text \<open>A state in which process 3 waits for a lock that process 1 holds.\<close>

definition lock_waiter :: sleeps where
  "lock_waiter = procs.extend (boot_procs\<lparr>cpus := (\<lambda>_. \<lparr>cpu_proc = Some 1, noff = 0, intena = False\<rparr>),
     proc := (\<lambda>_. idle_proc)(1 := idle_proc\<lparr>state := RUNNING, pid := 1\<rparr>,
       3 := idle_proc\<lparr>state := SLEEPING, chan := Some (ChBufLock 0)\<rparr>)\<rparr>)
     \<lparr>slock = \<lambda>_. \<lparr>sl_locked = 1, sl_name = ''buffer'', sl_pid = 1\<rparr>\<rparr>"

lemma lock_waiter_ok:
  "table_ok lock_waiter" "lock_free lk lock_waiter" "cpu_proc (cpus lock_waiter (tp lock_waiter)) = Some 1"
  "state (proc lock_waiter 1) = RUNNING" "sl_locked (slock lock_waiter l) = 1" "3 \<in> sleepers (ChBufLock 0) lock_waiter"
  by (simp_all add: lock_waiter_def table_ok_def quiet_def valid_priority_def paired_def lock_simps boot_procs_def idle_proc_def
    physmem.defs procs.defs boot_mem_def sleepers_def)

end
