(* ===== verification/Bio.thy ===== *)
theory Bio
  imports Sleeplock
begin

text \<open>
  \<^verbatim>\<open>kernel/bio.c\<close>: the cache of disk blocks. The buffers form a doubly linked ring around
  \<^verbatim>\<open>bcache.head\<close>, most recently used first; pointers are indices, the head has index \<open>NBUF\<close>.
  The disk is the function from block numbers to contents that \<^verbatim>\<open>virtio_disk_rw\<close> reads and
  writes a block at a time, with the history of the writes that reached it. The lemmas
  establish what the rest of the file system relies on: \<open>bread\<close> returns the current contents
  of a block, locked, and the cache never loses or duplicates a block.
\<close>

section \<open>Data\<close>

abbreviation (input) NBUF :: nat where "NBUF \<equiv> 30"
abbreviation (input) BSIZE :: nat where "BSIZE \<equiv> 1024"
abbreviation (input) ROOTDEV :: uint where "ROOTDEV \<equiv> 1"
abbreviation (input) HEAD :: nat where "HEAD \<equiv> NBUF"

record buf =
  b_valid :: cint
  b_disk :: cint
  b_dev :: uint
  b_blockno :: uint
  b_refcnt :: uint
  b_prev :: nat
  b_next :: nat
  b_data :: "uchar list"

record bcache = sleeps +
  buf :: "nat \<Rightarrow> buf"
  disk :: "uint \<Rightarrow> uchar list"
  disk_writes :: "(uint \<times> uchar list) list"

definition upd_buf :: "nat \<Rightarrow> (buf \<Rightarrow> buf) \<Rightarrow> 'a bcache_scheme \<Rightarrow> 'a bcache_scheme" where
  "upd_buf b f s = s\<lparr>buf := (buf s)(b := f (buf s b))\<rparr>"

section \<open>Operations\<close>

definition binit :: "'a bcache_scheme \<Rightarrow> 'a bcache_scheme" where
  "binit s =
     fold (\<lambda>b s.
         let s = upd_buf b (\<lambda>r. r\<lparr>b_next := b_next (buf s HEAD), b_prev := HEAD\<rparr>) s;
             s = initsleeplock (BufSl b) ''buffer'' s;
             s = upd_buf (b_next (buf s HEAD)) (\<lambda>r. r\<lparr>b_prev := b\<rparr>) s
         in upd_buf HEAD (\<lambda>r. r\<lparr>b_next := b\<rparr>) s)
       [0..<NBUF] (upd_buf HEAD (\<lambda>r. r\<lparr>b_prev := HEAD, b_next := HEAD\<rparr>) (initlock BcacheLock ''bcache'' s))"

text \<open>
  The loop along \<^verbatim>\<open>next\<close> or \<^verbatim>\<open>prev\<close> links up to the head, for the first buffer with some
  property. There are \<open>NBUF\<close> buffers besides the head, so that a walk that has not come to
  the head after that many steps never does.
\<close>

fun lru_scan :: "(nat \<Rightarrow> nat) \<Rightarrow> (nat \<Rightarrow> bool) \<Rightarrow> nat \<Rightarrow> nat \<Rightarrow> nat option res" where
  "lru_scan nx hit fuel b =
     (if b = HEAD then Ok None
      else if hit b then Ok (Some b)
      else case fuel of 0 \<Rightarrow> Blocked | Suc fuel \<Rightarrow> lru_scan nx hit fuel (nx b))"

definition bget :: "uint \<Rightarrow> uint \<Rightarrow> 'a bcache_scheme \<Rightarrow> (nat \<times> 'a bcache_scheme) res" where
  "bget dev blockno s =
     res_bind (acquire BcacheLock s) (\<lambda>s.
     res_bind (lru_scan (\<lambda>b. b_next (buf s b)) (\<lambda>b. b_dev (buf s b) = dev \<and> b_blockno (buf s b) = blockno)
         NBUF (b_next (buf s HEAD))) (\<lambda>r. case r of
       Some b \<Rightarrow>
         res_bind (release BcacheLock (upd_buf b (\<lambda>r. r\<lparr>b_refcnt := b_refcnt r + 1\<rparr>) s)) (\<lambda>s.
         res_bind (acquiresleep (BufSl b) s) (\<lambda>s. Ok (b, s)))
     | None \<Rightarrow>
         res_bind (lru_scan (\<lambda>b. b_prev (buf s b)) (\<lambda>b. b_refcnt (buf s b) = 0) NBUF (b_prev (buf s HEAD))) (\<lambda>r. case r of
           Some b \<Rightarrow>
             res_bind (release BcacheLock
                 (upd_buf b (\<lambda>r. r\<lparr>b_dev := dev, b_blockno := blockno, b_valid := 0, b_refcnt := 1\<rparr>) s)) (\<lambda>s.
             res_bind (acquiresleep (BufSl b) s) (\<lambda>s. Ok (b, s)))
         | None \<Rightarrow> Panic ''bget: no buffers'')))"

text \<open>
  A transfer between buffer \<open>b\<close> and its block on the disk, as the callers of
  \<^verbatim>\<open>virtio_disk_rw\<close> see it when it returns.
\<close>

definition disk_rw :: "nat \<Rightarrow> bool \<Rightarrow> 'a bcache_scheme \<Rightarrow> 'a bcache_scheme" where
  "disk_rw b wr s =
     (let n = b_blockno (buf s b) in
      if wr then s\<lparr>disk := (disk s)(n := b_data (buf s b)), disk_writes := disk_writes s @ [(n, b_data (buf s b))]\<rparr>
      else upd_buf b (\<lambda>r. r\<lparr>b_data := disk s n\<rparr>) s)"

definition bread :: "uint \<Rightarrow> uint \<Rightarrow> 'a bcache_scheme \<Rightarrow> (nat \<times> 'a bcache_scheme) res" where
  "bread dev blockno s =
     res_bind (bget dev blockno s) (\<lambda>(b, s).
       Ok (b, if b_valid (buf s b) = 0 then upd_buf b (\<lambda>r. r\<lparr>b_valid := 1\<rparr>) (disk_rw b False s) else s))"

definition bwrite :: "nat \<Rightarrow> 'a bcache_scheme \<Rightarrow> 'a bcache_scheme res" where
  "bwrite b s =
     res_bind (holdingsleep (BufSl b) s) (\<lambda>(h, s). if \<not> h then Panic ''bwrite'' else Ok (disk_rw b True s))"

text \<open>Move buffer \<open>b\<close> to the front of the ring, link by link.\<close>

definition lru_front :: "nat \<Rightarrow> 'a bcache_scheme \<Rightarrow> 'a bcache_scheme" where
  "lru_front b s =
     (let s = upd_buf (b_next (buf s b)) (\<lambda>r. r\<lparr>b_prev := b_prev (buf s b)\<rparr>) s;
          s = upd_buf (b_prev (buf s b)) (\<lambda>r. r\<lparr>b_next := b_next (buf s b)\<rparr>) s;
          s = upd_buf b (\<lambda>r. r\<lparr>b_next := b_next (buf s HEAD)\<rparr>) s;
          s = upd_buf b (\<lambda>r. r\<lparr>b_prev := HEAD\<rparr>) s;
          s = upd_buf (b_next (buf s HEAD)) (\<lambda>r. r\<lparr>b_prev := b\<rparr>) s
      in upd_buf HEAD (\<lambda>r. r\<lparr>b_next := b\<rparr>) s)"

definition brelse :: "nat \<Rightarrow> 'a bcache_scheme \<Rightarrow> 'a bcache_scheme res" where
  "brelse b s =
     res_bind (holdingsleep (BufSl b) s) (\<lambda>(h, s).
       if \<not> h then Panic ''brelse''
       else res_bind (releasesleep (BufSl b) s) (\<lambda>s.
         res_bind (critical BcacheLock (\<lambda>s.
           let s = upd_buf b (\<lambda>r. r\<lparr>b_refcnt := b_refcnt r - 1\<rparr>) s in
           Ok ((), if b_refcnt (buf s b) = 0 then lru_front b s else s)) s) (\<lambda>(_, s). Ok s)))"

definition bpin :: "nat \<Rightarrow> 'a bcache_scheme \<Rightarrow> 'a bcache_scheme res" where
  "bpin b s =
     res_bind (critical BcacheLock (\<lambda>s. Ok ((), upd_buf b (\<lambda>r. r\<lparr>b_refcnt := b_refcnt r + 1\<rparr>) s)) s) (\<lambda>(_, s). Ok s)"

definition bunpin :: "nat \<Rightarrow> 'a bcache_scheme \<Rightarrow> 'a bcache_scheme res" where
  "bunpin b s =
     res_bind (critical BcacheLock (\<lambda>s. Ok ((), upd_buf b (\<lambda>r. r\<lparr>b_refcnt := b_refcnt r - 1\<rparr>) s)) s) (\<lambda>(_, s). Ok s)"

section \<open>The ring\<close>

text \<open>A doubly linked segment from \<open>a\<close> over \<open>xs\<close> to \<open>z\<close>.\<close>

fun dll :: "(nat \<Rightarrow> nat) \<Rightarrow> (nat \<Rightarrow> nat) \<Rightarrow> nat \<Rightarrow> nat list \<Rightarrow> nat \<Rightarrow> bool" where
  "dll nx pv a [] z \<longleftrightarrow> nx a = z \<and> pv z = a"
| "dll nx pv a (x # xs) z \<longleftrightarrow> nx a = x \<and> pv x = a \<and> dll nx pv x xs z"

lemma dll_append: "dll nx pv a (xs @ b # ys) z \<longleftrightarrow> dll nx pv a xs b \<and> dll nx pv b ys z"
  by (induction xs arbitrary: a) auto

lemma dll_cong:
  "(\<And>x. x \<in> set (a # xs) \<Longrightarrow> nx' x = nx x) \<Longrightarrow> (\<And>x. x \<in> set (xs @ [z]) \<Longrightarrow> pv' x = pv x) \<Longrightarrow>
   dll nx' pv' a xs z = dll nx pv a xs z"
  by (induction xs arbitrary: a) auto

lemma dll_ends: "dll nx pv a xs z \<Longrightarrow> nx a = hd (xs @ [z]) \<and> pv z = last (a # xs)"
  by (induction xs arbitrary: a) auto

lemma dll_retarget:
  "dll nx pv a xs b \<Longrightarrow> distinct (a # xs) \<Longrightarrow> c \<notin> set xs \<Longrightarrow>
   dll (nx(last (a # xs) := c)) (pv(c := last (a # xs))) a xs c"
proof (induction xs arbitrary: a)
  case (Cons x xs)
  have "dll (nx(last (x # xs) := c)) (pv(c := last (x # xs))) x xs c" by (rule Cons.IH) (use Cons.prems in auto)
  moreover have "last (x # xs) \<noteq> a" using Cons.prems(2) last_in_set [of "x # xs"] by force
  moreover have l: "last (a # x # xs) = last (x # xs)" by simp
  ultimately show ?case using Cons.prems unfolding l dll.simps by (simp del: last.simps fun_upd_apply add: fun_upd_other)
qed simp

lemma dll_unlink:
  assumes d: "dll nx pv a (xs @ b # ys) z" and dist: "distinct (a # xs @ b # ys)" and z: "z \<notin> set (xs @ b # ys)"
  shows "dll (nx(pv b := nx b)) (pv(nx b := pv b)) a (xs @ ys) z"
proof -
  have ab: "dll nx pv a xs b" and bz: "dll nx pv b ys z" using d by (simp_all add: dll_append)
  have p: "pv b = last (a # xs)" using dll_ends [OF ab] by simp
  have pin: "pv b \<in> set (a # xs)" unfolding p by (rule last_in_set) simp
  show ?thesis
  proof (cases ys)
    case Nil
    then have "nx b = z" using bz by simp
    then show ?thesis using dll_retarget [OF ab, of z] dist z Nil unfolding p by simp
  next
    case (Cons y ys')
    have y: "nx b = y" "dll nx pv y ys' z" using bz Cons by simp_all
    have "dll (nx(pv b := y)) (pv(y := pv b)) a xs y"
      using dll_retarget [OF ab, of y] dist Cons unfolding p by auto
    moreover have "dll (nx(pv b := y)) (pv(y := pv b)) y ys' z = dll nx pv y ys' z"
      by (rule dll_cong) (use pin dist z Cons in auto)
    ultimately show ?thesis using y unfolding Cons by (simp add: dll_append)
  qed
qed

lemma dll_insert:
  assumes d: "dll nx pv a xs z" and dist: "distinct xs" and new: "b \<notin> set (a # xs @ [z])" and ends: "a \<notin> set xs" "z \<notin> set xs"
  shows "dll (nx(b := nx a, a := b)) ((pv(b := a))(nx a := b)) a (b # xs) z"
proof (cases xs)
  case Nil
  then show ?thesis using assms by auto
next
  case (Cons y ys)
  have y: "nx a = y" "dll nx pv y ys z" using d Cons by simp_all
  have "dll (nx(b := y, a := b)) ((pv(b := a))(y := b)) y ys z = dll nx pv y ys z"
    by (rule dll_cong) (use assms Cons in auto)
  then show ?thesis using y new Cons by auto
qed

lemma lru_scan_next:
  assumes "dll nx pv a xs HEAD" and "HEAD \<notin> set xs" and "length xs \<le> fuel"
  shows "lru_scan nx hit fuel (nx a) = Ok (find hit xs)"
  using assms
proof (induction xs arbitrary: a fuel)
  case (Cons x xs)
  then obtain f where "fuel = Suc f" "length xs \<le> f" by (cases fuel) auto
  then show ?case using Cons by auto
qed simp

lemma dll_snoc: "dll nx pv a (xs @ [x]) z \<longleftrightarrow> dll nx pv a xs x \<and> nx x = z \<and> pv z = x"
  using dll_append [of nx pv a xs x "[]" z] by simp

lemma lru_scan_prev:
  assumes "dll nx pv HEAD xs z" and "HEAD \<notin> set xs" and "length xs \<le> fuel"
  shows "lru_scan pv hit fuel (pv z) = Ok (find hit (rev xs))"
  using assms
proof (induction xs arbitrary: z fuel rule: rev_induct)
  case (snoc x xs)
  then obtain f where "fuel = Suc f" "length xs \<le> f" by (cases fuel) auto
  then show ?case using snoc by (auto simp: dll_snoc simp del: lru_scan.simps) (auto simp: lru_scan.simps)
qed simp

definition lru :: "(nat \<Rightarrow> buf) \<Rightarrow> nat list \<Rightarrow> bool" where
  "lru B bs \<longleftrightarrow> dll (\<lambda>b. b_next (B b)) (\<lambda>b. b_prev (B b)) HEAD bs HEAD \<and> distinct bs \<and> set bs = {..<NBUF}"

abbreviation unring :: "buf \<Rightarrow> buf" where
  "unring r \<equiv> r\<lparr>b_prev := 0, b_next := 0\<rparr>"

lemma lru_cong: "(\<And>i. b_next (B' i) = b_next (B i)) \<Longrightarrow> (\<And>i. b_prev (B' i) = b_prev (B i)) \<Longrightarrow> lru B' bs = lru B bs"
  by (simp add: lru_def)

lemma lru_length: "lru B bs \<Longrightarrow> length bs = NBUF"
  using distinct_card [of bs] by (simp add: lru_def)

lemma relink_sel:
  "b_next (buf (upd_buf j (\<lambda>r. r\<lparr>b_prev := x\<rparr>) s) i) = b_next (buf s i)"
  "b_prev (buf (upd_buf j (\<lambda>r. r\<lparr>b_next := x\<rparr>) s) i) = b_prev (buf s i)"
  "b_next (buf (upd_buf j (\<lambda>r. r\<lparr>b_next := x\<rparr>) s) i) = ((\<lambda>i. b_next (buf s i))(j := x)) i"
  "b_prev (buf (upd_buf j (\<lambda>r. r\<lparr>b_prev := x\<rparr>) s) i) = ((\<lambda>i. b_prev (buf s i))(j := x)) i"
  "unring (buf (upd_buf j (\<lambda>r. r\<lparr>b_prev := x\<rparr>) s) i) = unring (buf s i)"
  "unring (buf (upd_buf j (\<lambda>r. r\<lparr>b_next := x\<rparr>) s) i) = unring (buf s i)"
  by (simp_all add: upd_buf_def)

lemma lru_front_links:
  assumes "b_next (buf s b) \<noteq> b" and "b_prev (buf s b) \<noteq> b" and "b \<noteq> HEAD"
  shows "(\<lambda>i. b_next (buf (lru_front b s) i)) =
      (let nx = (\<lambda>i. b_next (buf s i))(b_prev (buf s b) := b_next (buf s b)) in nx(b := nx HEAD, HEAD := b))"
    and "(\<lambda>i. b_prev (buf (lru_front b s) i)) =
      (let nx = (\<lambda>i. b_next (buf s i))(b_prev (buf s b) := b_next (buf s b));
           pv = (\<lambda>i. b_prev (buf s i))(b_next (buf s b) := b_prev (buf s b)) in (pv(b := HEAD))(nx HEAD := b))"
proof -
  have "b \<noteq> b_next (buf s b)" "b \<noteq> b_prev (buf s b)" "30 \<noteq> b" using assms by auto
  note ne = this assms
  show "(\<lambda>i. b_next (buf (lru_front b s) i)) =
      (let nx = (\<lambda>i. b_next (buf s i))(b_prev (buf s b) := b_next (buf s b)) in nx(b := nx HEAD, HEAD := b))"
    unfolding lru_front_def Let_def relink_sel by (rule ext) (simp add: ne)
  show "(\<lambda>i. b_prev (buf (lru_front b s) i)) =
      (let nx = (\<lambda>i. b_next (buf s i))(b_prev (buf s b) := b_next (buf s b));
           pv = (\<lambda>i. b_prev (buf s i))(b_next (buf s b) := b_prev (buf s b)) in (pv(b := HEAD))(nx HEAD := b))"
    unfolding lru_front_def Let_def relink_sel by (rule ext) (simp add: ne)
qed

lemma lru_front_content: "unring (buf (lru_front b s) i) = unring (buf s i)"
  unfolding lru_front_def Let_def relink_sel ..

lemma lru_front_ring:
  assumes "lru (buf s) bs" and "b < NBUF"
  shows "\<exists>bs. lru (buf (lru_front b s)) bs"
proof -
  let ?nx = "\<lambda>i. b_next (buf s i)" and ?pv = "\<lambda>i. b_prev (buf s i)"
  obtain xs ys where bs: "bs = xs @ b # ys" using assms by (metis lessThan_iff lru_def split_list)
  have d: "dll ?nx ?pv HEAD (xs @ b # ys) HEAD" and dist: "distinct (HEAD # xs @ b # ys)" and set: "set (xs @ b # ys) = {..<NBUF}"
    using assms(1) unfolding lru_def bs by auto
  have nb: "HEAD \<notin> set (xs @ b # ys)" using set by simp
  have "dll ?nx ?pv HEAD xs b" and "dll ?nx ?pv b ys HEAD" using d by (simp_all add: dll_append)
  then have ends: "?pv b = last (HEAD # xs)" "?nx b = hd (ys @ [HEAD])" using dll_ends by metis+
  have pin: "?pv b \<in> set (HEAD # xs)" unfolding ends(1) by (rule last_in_set) simp
  have nin: "?nx b \<in> set (ys @ [HEAD])" unfolding ends(2) by (rule hd_in_set) simp
  have ne: "?nx b \<noteq> b" "?pv b \<noteq> b" "b \<noteq> HEAD" using pin nin dist assms(2) by auto
  have "dll (?nx(?pv b := ?nx b)) (?pv(?nx b := ?pv b)) HEAD (xs @ ys) HEAD" by (rule dll_unlink [OF d dist nb])
  from dll_insert [OF this, of b]
  have "dll (\<lambda>i. b_next (buf (lru_front b s) i)) (\<lambda>i. b_prev (buf (lru_front b s) i)) HEAD (b # xs @ ys) HEAD"
    unfolding lru_front_links(1,2) [OF ne] Let_def using dist nb by auto
  then have "lru (buf (lru_front b s)) (b # xs @ ys)" unfolding lru_def using dist set by auto
  then show ?thesis ..
qed

section \<open>Running the operations\<close>

lemma bcache_comm [simp]:
  "buf (inside lk s) = buf s" "disk (inside lk s) = disk s" "disk_writes (inside lk s) = disk_writes s"
  "buf (relock s) = buf s" "disk (relock s) = disk s" "disk_writes (relock s) = disk_writes s"
  "relock (s\<lparr>buf := B\<rparr>) = (relock s)\<lparr>buf := B\<rparr>" "inside lk (s\<lparr>buf := B\<rparr>) = (inside lk s)\<lparr>buf := B\<rparr>"
  by (simp_all add: inside_def relock_def)

lemma table_ok_buf [simp]: "table_ok (s\<lparr>buf := B\<rparr>) = table_ok s" "table_ok (s\<lparr>disk := D, disk_writes := w\<rparr>) = table_ok s"
  by (simp_all add: table_ok_def quiet_def valid_priority_def paired_def lock_simps)

lemma lock_free_buf [simp]: "lock_free lk (s\<lparr>buf := B\<rparr>) = lock_free lk s" "lock_free lk (s\<lparr>slock := L\<rparr>) = lock_free lk s"
  "lock_free lk (s\<lparr>proc := P, queue := Q\<rparr>) = lock_free lk s" "lock_free lk (s\<lparr>disk := D, disk_writes := w\<rparr>) = lock_free lk s"
  by (simp_all add: lock_simps)

lemma release_buf:
  assumes "hart_ok s" and "lock_free lk s"
  shows "release lk ((inside lk s)\<lparr>buf := B\<rparr>) = Ok ((relock s)\<lparr>buf := B\<rparr>)"
proof -
  have "release lk ((inside lk s)\<lparr>buf := B\<rparr>) =
      Ok (((inside lk s)\<lparr>buf := B\<rparr>)\<lparr>sie := sie s, cpus := cpus (relock s), spin := spin s\<rparr>)"
    by (rule release_inside [OF assms]) simp_all
  then show ?thesis by (simp add: inside_def relock_def)
qed

text \<open>
  The current process may use the disk: nobody holds a spin lock of the cache or of its
  buffers and the process table is sound.
\<close>

definition ready :: "nat \<Rightarrow> 'a procs_scheme \<Rightarrow> bool" where
  "ready p s \<longleftrightarrow> table_ok s \<and> lock_free BcacheLock s \<and> (\<forall>i. lock_free (BufSleepLk i) s) \<and> cpu_proc (cpus s (tp s)) = Some p"

lemma ready_upd [simp]:
  "ready p (relock s) = ready p s" "ready p (s\<lparr>slock := L\<rparr>) = ready p s" "ready p (s\<lparr>buf := B\<rparr>) = ready p s"
  "ready p (s\<lparr>disk := D, disk_writes := w\<rparr>) = ready p s"
  by (simp_all add: ready_def)

lemma lru_find:
  assumes "lru B bs" and "\<And>b. b < NBUF \<Longrightarrow> hit b \<longleftrightarrow> b = i" and "i < NBUF"
  shows "find hit bs = Some i"
proof -
  have "find hit bs \<noteq> None" using assms by (auto simp: find_None_iff lru_def)
  then obtain j where j: "find hit bs = Some j" by blast
  then have "hit j" "j \<in> set bs" by (auto simp: find_Some_iff)
  with assms j show ?thesis by (auto simp: lru_def)
qed

lemma bget_run:
  assumes rdy: "ready p s" and ring: "lru (buf s) bs" and free: "sl_locked (slock s (BufSl b)) = 0"
    and hit: "find (\<lambda>i. b_dev (buf s i) = dev \<and> b_blockno (buf s i) = n) bs = Some b \<and>
        r = (buf s b)\<lparr>b_refcnt := b_refcnt (buf s b) + 1\<rparr> \<or>
      find (\<lambda>i. b_dev (buf s i) = dev \<and> b_blockno (buf s i) = n) bs = None \<and>
        find (\<lambda>i. b_refcnt (buf s i) = 0) (rev bs) = Some b \<and>
        r = (buf s b)\<lparr>b_dev := dev, b_blockno := n, b_valid := 0, b_refcnt := 1\<rparr>"
  shows "bget dev n s = Ok (b, (relock s)\<lparr>buf := (buf s)(b := r),
    slock := (slock s)(BufSl b := (slock s (BufSl b))\<lparr>sl_locked := 1, sl_pid := pid (proc s p)\<rparr>)\<rparr>)"
proof -
  let ?nx = "\<lambda>b. b_next (buf s b)" and ?pv = "\<lambda>b. b_prev (buf s b)"
  have d: "dll ?nx ?pv HEAD bs HEAD" and hd: "HEAD \<notin> set bs" and len: "length bs \<le> NBUF"
    using ring lru_length [OF ring] by (auto simp: lru_def)
  note scan = lru_scan_next [OF d hd len] lru_scan_prev [OF d hd len]
  have h: "hart_ok s" "lock_free BcacheLock s" using rdy by (simp_all add: ready_def table_ok_hart)
  let ?s1 = "(relock s)\<lparr>buf := (buf s)(b := r)\<rparr>"
  have "release BcacheLock ((inside BcacheLock s)\<lparr>buf := (buf s)(b := r)\<rparr>) = Ok ?s1" by (rule release_buf [OF h])
  moreover have "acquiresleep (BufSl b) ?s1 =
      Ok ((relock ?s1)\<lparr>slock := (slock ?s1)(BufSl b := (slock ?s1 (BufSl b))\<lparr>sl_locked := 1, sl_pid := pid (proc ?s1 p)\<rparr>)\<rparr>)"
    by (rule acquiresleep_free) (use rdy free in \<open>simp_all add: ready_def\<close>)
  ultimately show ?thesis using hit h
    by (elim disjE) (simp_all add: bget_def acquire_free scan upd_buf_def del: lru_scan.simps)
qed

section \<open>The invariant of the cache\<close>

definition caches :: "(nat \<Rightarrow> buf) \<Rightarrow> nat \<Rightarrow> uint \<Rightarrow> bool" where
  "caches B i n \<longleftrightarrow> i < NBUF \<and> b_dev (B i) = ROOTDEV \<and> b_blockno (B i) = n"

definition in_use :: "(sleepid \<Rightarrow> sleeplock) \<Rightarrow> nat \<Rightarrow> bool" where
  "in_use L i \<longleftrightarrow> sl_locked (L (BufSl i)) \<noteq> 0"

text \<open>
  \<open>P\<close> are the pinned blocks, \<open>me\<close> is the id of the process that uses the disk. Buffers are
  in the ring once; no block is cached twice; a buffer that is neither pinned nor in use has
  the contents of its block on the disk; the reference count counts the pin and the use.
\<close>

definition cinv ::
  "uint set \<Rightarrow> cint \<Rightarrow> (sleepid \<Rightarrow> sleeplock) \<Rightarrow> (nat \<Rightarrow> buf) \<Rightarrow> (uint \<Rightarrow> uchar list) \<Rightarrow> bool" where
  "cinv P me L B D \<longleftrightarrow>
     (\<exists>bs. lru B bs) \<and> (\<forall>n. length (D n) = BSIZE) \<and>
     (\<forall>n i j. caches B i n \<longrightarrow> caches B j n \<longrightarrow> i = j) \<and>
     (\<forall>n\<in>P. \<exists>i. caches B i n \<and> b_valid (B i) \<noteq> 0) \<and>
     (\<forall>i<NBUF. b_valid (B i) \<noteq> 0 \<longrightarrow> b_dev (B i) = ROOTDEV \<and> length (b_data (B i)) = BSIZE) \<and>
     (\<forall>i<NBUF. b_valid (B i) \<noteq> 0 \<longrightarrow> b_blockno (B i) \<notin> P \<longrightarrow> \<not> in_use L i \<longrightarrow> b_data (B i) = D (b_blockno (B i))) \<and>
     (\<forall>i<NBUF. unat (b_refcnt (B i)) = of_bool (caches B i (b_blockno (B i)) \<and> b_blockno (B i) \<in> P) + of_bool (in_use L i)) \<and>
     (\<forall>i<NBUF. in_use L i \<longrightarrow> b_valid (B i) \<noteq> 0 \<and> sl_pid (L (BufSl i)) = me)"

lemma cinvI:
  assumes "lru B bs" and "\<And>n. length (D n) = BSIZE" and "\<And>n i j. caches B i n \<Longrightarrow> caches B j n \<Longrightarrow> i = j"
    and "\<And>n. n \<in> P \<Longrightarrow> \<exists>i. caches B i n \<and> b_valid (B i) \<noteq> 0"
    and "\<And>i. i < NBUF \<Longrightarrow> b_valid (B i) \<noteq> 0 \<Longrightarrow> b_dev (B i) = ROOTDEV \<and> length (b_data (B i)) = BSIZE"
    and "\<And>i. i < NBUF \<Longrightarrow> b_valid (B i) \<noteq> 0 \<Longrightarrow> b_blockno (B i) \<notin> P \<Longrightarrow> \<not> in_use L i \<Longrightarrow> b_data (B i) = D (b_blockno (B i))"
    and "\<And>i. i < NBUF \<Longrightarrow> unat (b_refcnt (B i)) = of_bool (caches B i (b_blockno (B i)) \<and> b_blockno (B i) \<in> P) + of_bool (in_use L i)"
    and "\<And>i. i < NBUF \<Longrightarrow> in_use L i \<Longrightarrow> b_valid (B i) \<noteq> 0 \<and> sl_pid (L (BufSl i)) = me"
  shows "cinv P me L B D"
  unfolding cinv_def using assms by blast

lemma cinvD:
  assumes "cinv P me L B D"
  shows "\<exists>bs. lru B bs" and "length (D n) = BSIZE" and "caches B i n \<Longrightarrow> caches B j n \<Longrightarrow> i = j"
    and "n \<in> P \<Longrightarrow> \<exists>i. caches B i n \<and> b_valid (B i) \<noteq> 0"
    and "i < NBUF \<Longrightarrow> b_valid (B i) \<noteq> 0 \<Longrightarrow> b_dev (B i) = ROOTDEV \<and> length (b_data (B i)) = BSIZE"
    and "i < NBUF \<Longrightarrow> b_valid (B i) \<noteq> 0 \<Longrightarrow> b_blockno (B i) \<notin> P \<Longrightarrow> \<not> in_use L i \<Longrightarrow> b_data (B i) = D (b_blockno (B i))"
    and "i < NBUF \<Longrightarrow> unat (b_refcnt (B i)) = of_bool (caches B i (b_blockno (B i)) \<and> b_blockno (B i) \<in> P) + of_bool (in_use L i)"
    and "i < NBUF \<Longrightarrow> in_use L i \<Longrightarrow> b_valid (B i) \<noteq> 0 \<and> sl_pid (L (BufSl i)) = me"
  using assms unfolding cinv_def by blast+

text \<open>The current contents of block \<open>n\<close>, and the buffer through which it is in use.\<close>

definition cview :: "(nat \<Rightarrow> buf) \<Rightarrow> (uint \<Rightarrow> uchar list) \<Rightarrow> uint \<Rightarrow> uchar list" where
  "cview B D n = (case find (\<lambda>i. caches B i n \<and> b_valid (B i) \<noteq> 0) [0..<NBUF] of None \<Rightarrow> D n | Some i \<Rightarrow> b_data (B i))"

definition cheld :: "(sleepid \<Rightarrow> sleeplock) \<Rightarrow> (nat \<Rightarrow> buf) \<Rightarrow> uint \<Rightarrow> nat option" where
  "cheld L B n = find (\<lambda>i. caches B i n \<and> in_use L i) [0..<NBUF]"

lemma cview_cached:
  assumes "cinv P me L B D" and "caches B i n"
  shows "cview B D n = (if b_valid (B i) \<noteq> 0 then b_data (B i) else D n)"
proof (cases "find (\<lambda>i. caches B i n \<and> b_valid (B i) \<noteq> 0) [0..<NBUF]")
  case None
  then have "\<not> b_valid (B i) \<noteq> 0" using assms(2) by (auto simp: find_None_iff caches_def simp del: upt_rec_numeral)
  then show ?thesis unfolding cview_def None by simp
next
  case (Some j)
  then have "caches B j n" "b_valid (B j) \<noteq> 0" by (auto simp: find_Some_iff simp del: upt_rec_numeral)
  with cinvD(3) [OF assms(1)] assms(2) show ?thesis unfolding cview_def Some by auto
qed

lemma cview_uncached: "(\<And>i. \<not> caches B i n) \<Longrightarrow> cview B D n = D n"
  by (simp add: cview_def find_None_iff [THEN iffD2] del: upt_rec_numeral)

lemma cview_disk:
  assumes "cinv P me L B D" and "n \<notin> P" and "\<And>i. caches B i n \<Longrightarrow> \<not> in_use L i"
  shows "cview B D n = D n"
proof (cases "\<exists>i. caches B i n")
  case True
  then obtain i where i: "caches B i n" by blast
  then have "i < NBUF" "b_blockno (B i) = n" by (simp_all add: caches_def)
  then show ?thesis using cview_cached [OF assms(1) i] cinvD(6) [OF assms(1), of i] assms(2) assms(3) [OF i] by auto
next
  case False
  then show ?thesis by (intro cview_uncached) blast
qed

lemma cheld_iff:
  assumes "cinv P me L B D"
  shows "cheld L B n = Some i \<longleftrightarrow> caches B i n \<and> in_use L i"
proof
  assume "cheld L B n = Some i"
  then show "caches B i n \<and> in_use L i" by (auto simp: cheld_def find_Some_iff simp del: upt_rec_numeral)
next
  assume i: "caches B i n \<and> in_use L i"
  then have "cheld L B n \<noteq> None" by (auto simp: cheld_def find_None_iff caches_def simp del: upt_rec_numeral)
  then obtain j where j: "cheld L B n = Some j" by blast
  then have "caches B j n" by (auto simp: cheld_def find_Some_iff simp del: upt_rec_numeral)
  with i cinvD(3) [OF assms] j show "cheld L B n = Some i" by blast
qed

lemma length_cview: "cinv P me L B D \<Longrightarrow> length (cview B D n) = BSIZE"
proof (cases "\<exists>i. caches B i n")
  case True
  assume inv: "cinv P me L B D"
  from True obtain i where i: "caches B i n" by blast
  then have "i < NBUF" by (simp add: caches_def)
  then show ?thesis using cview_cached [OF inv i] cinvD(2) [OF inv, of n] cinvD(5) [OF inv, of i] by simp
next
  case False
  assume "cinv P me L B D"
  then show ?thesis using False cview_uncached cinvD(2) by metis
qed

section \<open>What each operation does to the invariant\<close>

text \<open>
  All updates keep the blocks of the other buffers; \<open>b\<close> either held block \<open>n\<close> before, or
  was unreferenced and nobody held \<open>n\<close>.
\<close>

definition slot_for :: "(nat \<Rightarrow> buf) \<Rightarrow> nat \<Rightarrow> uint \<Rightarrow> bool" where
  "slot_for B b n \<longleftrightarrow> b < NBUF \<and> (caches B b n \<or> (\<forall>i. \<not> caches B i n) \<and> b_refcnt (B b) = 0)"

lemma slot_for_caches:
  assumes "slot_for B b n" and "b_dev r = ROOTDEV" and "b_blockno r = n"
  shows "caches (B(b := r)) i m \<longleftrightarrow> (if i = b then m = n else caches B i m)"
  using assms by (auto simp: slot_for_def caches_def)

lemma lru_upd: "lru B bs \<Longrightarrow> b_next r = b_next (B b) \<Longrightarrow> b_prev r = b_prev (B b) \<Longrightarrow> lru (B(b := r)) bs"
  by (subst lru_cong [of "B(b := r)" B]) auto

lemma unpinned_slot:
  assumes "cinv P me L B D" and "i < NBUF" and "b_refcnt (B i) = 0"
  shows "caches B i n \<Longrightarrow> n \<notin> P" and "\<not> in_use L i"
proof -
  have "of_bool (caches B i (b_blockno (B i)) \<and> b_blockno (B i) \<in> P) + of_bool (in_use L i) = (0 :: nat)"
    using cinvD(7) [OF assms(1,2)] assms(3) by simp
  then show "caches B i n \<Longrightarrow> n \<notin> P" "\<not> in_use L i" by (auto simp: caches_def split: if_splits)
qed

lemma unat_Suc: "unat (x :: uint) \<le> 1 \<Longrightarrow> unat (x + 1) = unat x + 1"
  by (simp add: unat_plus_simple [THEN iffD1] word_le_nat_alt unat_word_ariths)

lemma cinv_get:
  assumes inv: "cinv P me L B D" and b: "slot_for B b n" "\<not> in_use L b"
    and r: "b_dev r = ROOTDEV" "b_blockno r = n" "b_valid r \<noteq> 0" "b_data r = cview B D n"
      "b_refcnt r = b_refcnt (B b) + 1" "b_next r = b_next (B b)" "b_prev r = b_prev (B b)"
    and L': "in_use L' b" "sl_pid (L' (BufSl b)) = me" "\<And>i. i \<noteq> b \<Longrightarrow> L' (BufSl i) = L (BufSl i)"
  shows "cinv P me L' (B(b := r)) D" and "cview (B(b := r)) D = cview B D" and "cheld L' (B(b := r)) = (cheld L B)(n \<mapsto> b)"
proof -
  note c = slot_for_caches [OF b(1) r(1,2)]
  have bn: "b < NBUF" using b(1) by (simp add: slot_for_def)
  have use: "in_use L' i = in_use L i" if "i \<noteq> b" for i using L'(3) [OF that] by (simp add: in_use_def)
  have evict: "\<not> caches B b m" if "m \<in> P" "m \<noteq> n" for m
    using b(1) that unpinned_slot(1) [OF inv bn] by (auto simp: slot_for_def caches_def)
  have other: "\<not> caches B i n" if "i \<noteq> b" for i
    using b(1) that cinvD(3) [OF inv] by (auto simp: slot_for_def)
  have refc: "unat (b_refcnt (B b)) = of_bool (n \<in> P)"
  proof (cases "caches B b n")
    case True
    then have "b_blockno (B b) = n" by (simp add: caches_def)
    then show ?thesis using cinvD(7) [OF inv bn] b(2) True by simp
  next
    case False
    then have "\<forall>i. \<not> caches B i n" "b_refcnt (B b) = 0" using b(1) by (auto simp: slot_for_def)
    then show ?thesis using cinvD(4) [OF inv, of n] by auto
  qed
  from cinvD(1) [OF inv] obtain bs where "lru B bs" by blast
  from lru_upd [OF this r(6,7)] show inv': "cinv P me L' (B(b := r)) D"
  proof (rule cinvI)
    show "\<exists>i. caches (B(b := r)) i m \<and> b_valid ((B(b := r)) i) \<noteq> 0" if "m \<in> P" for m
    proof (cases "m = n")
      case True
      then show ?thesis using r(3) by (intro exI [of _ b]) (simp add: c)
    next
      case False
      from cinvD(4) [OF inv that] obtain i where i: "caches B i m" "b_valid (B i) \<noteq> 0" by blast
      then have "i \<noteq> b" using evict [OF that False] by auto
      then show ?thesis using i by (intro exI [of _ i]) (simp add: c)
    qed
    show "unat (b_refcnt ((B(b := r)) i)) =
        of_bool (caches (B(b := r)) i (b_blockno ((B(b := r)) i)) \<and> b_blockno ((B(b := r)) i) \<in> P) + of_bool (in_use L' i)"
      if "i < NBUF" for i
      using cinvD(7) [OF inv that] refc unat_Suc [of "b_refcnt (B b)"] use [of i] L'(1) r(2,5) by (auto simp: c)
    show "length (D m) = BSIZE" for m by (rule cinvD(2) [OF inv])
    show "i = j" if "caches (B(b := r)) i m" "caches (B(b := r)) j m" for m i j
      using that cinvD(3) [OF inv, of i m j] other [of i] other [of j] by (auto simp: c split: if_splits)
    show "b_dev ((B(b := r)) i) = ROOTDEV \<and> length (b_data ((B(b := r)) i)) = BSIZE" if "i < NBUF" "b_valid ((B(b := r)) i) \<noteq> 0" for i
      using that cinvD(5) [OF inv, of i] r(1,4) length_cview [OF inv, of n] by (auto split: if_splits)
    show "b_data ((B(b := r)) i) = D (b_blockno ((B(b := r)) i))"
      if "i < NBUF" "b_valid ((B(b := r)) i) \<noteq> 0" "b_blockno ((B(b := r)) i) \<notin> P" "\<not> in_use L' i" for i
      using that cinvD(6) [OF inv, of i] L'(1) use [of i] by (auto split: if_splits)
    show "b_valid ((B(b := r)) i) \<noteq> 0 \<and> sl_pid (L' (BufSl i)) = me" if "i < NBUF" "in_use L' i" for i
      using that cinvD(8) [OF inv, of i] L'(2) L'(3) [of i] use [of i] r(3) by (auto split: if_splits)
  qed
  show "cview (B(b := r)) D = cview B D"
  proof
    fix m
    show "cview (B(b := r)) D m = cview B D m"
    proof (cases "\<exists>i. caches (B(b := r)) i m")
      case True
      then obtain i where i: "caches (B(b := r)) i m" by blast
      show ?thesis using cview_cached [OF inv' i] cview_cached [OF inv, of i m] i r(3,4) by (auto simp: c split: if_splits)
    next
      case False
      then have "m \<noteq> n" and no: "\<And>i. i \<noteq> b \<Longrightarrow> \<not> caches B i m" by (auto simp: c split: if_splits)
      have "cview B D m = D m"
      proof (rule cview_disk [OF inv])
        show "m \<notin> P" using False cinvD(4) [OF inv'] by blast
        show "\<not> in_use L i" if "caches B i m" for i using no [of i] that b(2) by (cases "i = b") auto
      qed
      then show ?thesis using cview_uncached [of "B(b := r)" m D] False by simp
    qed
  qed
  show "cheld L' (B(b := r)) = (cheld L B)(n \<mapsto> b)"
  proof
    fix m
    have "cheld L' (B(b := r)) m = Some i \<longleftrightarrow> ((cheld L B)(n \<mapsto> b)) m = Some i" for i
      unfolding cheld_iff [OF inv'] c using cheld_iff [OF inv, of m i] L'(1) use [of i] b(2) other [of i]
      by (cases "i = b"; cases "m = n") simp_all
    then show "cheld L' (B(b := r)) m = ((cheld L B)(n \<mapsto> b)) m" by (metis option.exhaust)
  qed
qed

lemma caches_cong: "(\<And>i. b_dev (B' i) = b_dev (B i) \<and> b_blockno (B' i) = b_blockno (B i)) \<Longrightarrow> caches B' = caches B"
  by (auto simp: caches_def fun_eq_iff)

lemma caches_upd [simp]:
  "caches (B(b := (B b)\<lparr>b_data := d\<rparr>)) = caches B" "caches (B(b := (B b)\<lparr>b_refcnt := c\<rparr>)) = caches B"
  by (rule caches_cong; simp)+

lemma cview_cong:
  assumes "caches B' = caches B" and "\<And>i. b_valid (B' i) = b_valid (B i) \<and> b_data (B' i) = b_data (B i)"
  shows "cview B' = cview B"
  by (rule ext)+ (simp add: cview_def assms del: upt_rec_numeral split: option.split)

lemma cheld_cong:
  assumes "caches B' = caches B" and "\<And>i. in_use L' i = in_use L i"
  shows "cheld L' B' = cheld L B"
  by (rule ext) (simp add: cheld_def assms del: upt_rec_numeral)

lemma cached_refcnt:
  assumes "cinv P me L B D" and "caches B b n" and "in_use L b"
  shows "unat (b_refcnt (B b)) = of_bool (n \<in> P) + 1" and "b < NBUF" and "b_blockno (B b) = n" and "b_valid (B b) \<noteq> 0"
    and "cview B D n = b_data (B b)"
proof -
  show bn: "b < NBUF" "b_blockno (B b) = n" using assms(2) by (simp_all add: caches_def)
  then show "unat (b_refcnt (B b)) = of_bool (n \<in> P) + 1" using cinvD(7) [OF assms(1) bn(1)] assms(2,3) by simp
  show v: "b_valid (B b) \<noteq> 0" using cinvD(8) [OF assms(1) bn(1) assms(3)] by simp
  show "cview B D n = b_data (B b)" using cview_cached [OF assms(1,2)] v by simp
qed

lemma cinv_set:
  assumes inv: "cinv P me L B D" and b: "caches B b n" "in_use L b" and len: "length d = BSIZE"
  shows "cinv P me L (B(b := (B b)\<lparr>b_data := d\<rparr>)) D" (is "cinv P me L ?B D")
    and "cview (B(b := (B b)\<lparr>b_data := d\<rparr>)) D = (cview B D)(n := d)"
proof -
  note cb = cached_refcnt [OF inv b]
  from cinvD(1) [OF inv] obtain bs where "lru B bs" by blast
  then have "lru ?B bs" by (rule lru_upd) simp_all
  then show inv': "cinv P me L ?B D"
  proof (rule cinvI)
    show "\<exists>i. caches ?B i m \<and> b_valid (?B i) \<noteq> 0" if "m \<in> P" for m
      using cinvD(4) [OF inv that] by (auto split: if_splits)
    show "i = j" if "caches ?B i m" "caches ?B j m" for m i j using that cinvD(3) [OF inv, of i m j] by simp
    show "length (D m) = BSIZE" for m by (rule cinvD(2) [OF inv])
  qed (use cinvD(5-8) [OF inv] b(2) len in \<open>auto split: if_splits\<close>)
  show "cview ?B D = (cview B D)(n := d)"
  proof
    fix m
    show "cview ?B D m = ((cview B D)(n := d)) m"
    proof (cases "\<exists>i. caches B i m")
      case True
      then obtain i where i: "caches B i m" by blast
      then have i': "caches ?B i m" by simp
      have "i = b \<longleftrightarrow> m = n" using i b(1) cinvD(3) [OF inv, of i m b] by (auto simp: caches_def)
      then show ?thesis using cview_cached [OF inv i] cview_cached [OF inv' i'] cb(4) by auto
    next
      case False
      then have "m \<noteq> n" using b(1) by blast
      then show ?thesis using False cview_uncached [of B m D] cview_uncached [of ?B m D] by simp
    qed
  qed
qed

lemma cinv_flush:
  assumes inv: "cinv P me L B D" and b: "caches B b n" "in_use L b"
  shows "cinv P me L B (D(n := b_data (B b)))" (is "cinv P me L B ?D") and "cview B (D(n := b_data (B b))) = cview B D"
proof -
  note cb = cached_refcnt [OF inv b]
  have same: "b_blockno (B i) \<noteq> n" if "i < NBUF" "i \<noteq> b" "b_valid (B i) \<noteq> 0" for i
    using that b(1) cinvD(5) [OF inv that(1,3)] cinvD(3) [OF inv, of i n b] by (auto simp: caches_def)
  from cinvD(1) [OF inv] obtain bs where "lru B bs" by blast
  then show inv': "cinv P me L B ?D"
  proof (rule cinvI)
    show "length (?D m) = BSIZE" for m using cinvD(2) [OF inv, of m] cinvD(5) [OF inv cb(2,4)] by simp
    show "i = j" if "caches B i m" "caches B j m" for m i j using that cinvD(3) [OF inv, of i m j] by simp
    show "b_data (B i) = ?D (b_blockno (B i))" if "i < NBUF" "b_valid (B i) \<noteq> 0" "b_blockno (B i) \<notin> P" "\<not> in_use L i" for i
      using cinvD(6) [OF inv that] same [of i] that b(2) by auto
  qed (use cinvD(4,5,7,8) [OF inv] in auto)
  show "cview B ?D = cview B D"
  proof
    fix m
    show "cview B ?D m = cview B D m"
      using cview_cached [OF inv, of _ m] cview_cached [OF inv', of _ m] cview_uncached [of B m] b cb(4)
      by (cases "m = n"; cases "\<exists>i. caches B i m") auto
  qed
qed

lemma unat_pred: "unat (x :: uint) \<noteq> 0 \<Longrightarrow> unat (x - 1) = unat x - 1"
  using unat_sub [of 1 x] by (simp add: word_le_nat_alt Suc_le_eq unat_gt_0)

text \<open>Changing the references of buffer \<open>b\<close>, and perhaps its place in the ring.\<close>

lemma cinv_refs:
  assumes inv: "cinv P me L B D" and b: "caches B b n" "in_use L b" and ring: "lru B' bs"
    and same: "\<And>i. unring (B' i) = unring (if i = b then (B b)\<lparr>b_refcnt := c\<rparr> else B i)"
    and L': "\<And>i. i \<noteq> b \<Longrightarrow> L' (BufSl i) = L (BufSl i)" "in_use L' b \<Longrightarrow> sl_pid (L' (BufSl b)) = me"
    and P': "P' - {n} = P - {n}" and c: "unat c = of_bool (n \<in> P') + of_bool (in_use L' b)"
    and clean: "n \<notin> P' \<Longrightarrow> \<not> in_use L' b \<Longrightarrow> b_data (B b) = D n"
  shows "cinv P' me L' B' D" and "cview B' D = cview B D"
    and "cheld L' B' = (if in_use L' b then cheld L B else (cheld L B)(n := None))"
proof -
  note cb = cached_refcnt [OF inv b]
  have sel: "b_dev (B' i) = b_dev (B i)" "b_blockno (B' i) = b_blockno (B i)" "b_valid (B' i) = b_valid (B i)"
    "b_data (B' i) = b_data (B i)" "b_refcnt (B' i) = (if i = b then c else b_refcnt (B i))" for i
    using arg_cong [OF same [of i], of b_dev] arg_cong [OF same [of i], of b_blockno] arg_cong [OF same [of i], of b_valid]
      arg_cong [OF same [of i], of b_data] arg_cong [OF same [of i], of b_refcnt] by (simp_all split: if_splits)
  have ca: "caches B' = caches B" by (rule caches_cong) (simp add: sel)
  have use: "in_use L' i = in_use L i" if "i \<noteq> b" for i using L'(1) [OF that] by (simp add: in_use_def)
  have other: "\<not> caches B i n" if "i \<noteq> b" for i using that b(1) cinvD(3) [OF inv] by blast
  have neq: "m \<in> P' \<longleftrightarrow> m \<in> P" if "m \<noteq> n" for m using P' that by blast
  from ring show inv': "cinv P' me L' B' D"
  proof (rule cinvI)
    show "\<exists>i. caches B' i m \<and> b_valid (B' i) \<noteq> 0" if "m \<in> P'" for m
      using cinvD(4) [OF inv, of m] neq [of m] that b(1) cb(4) unfolding ca sel by (cases "m = n") auto
    show "length (D m) = BSIZE" for m by (rule cinvD(2) [OF inv])
    show "i = j" if "caches B' i m" "caches B' j m" for m i j using that cinvD(3) [OF inv, of i m j] unfolding ca by blast
    show "b_dev (B' i) = ROOTDEV \<and> length (b_data (B' i)) = BSIZE" if "i < NBUF" "b_valid (B' i) \<noteq> 0" for i
      using cinvD(5) [OF inv, of i] that unfolding sel by blast
    show "b_data (B' i) = D (b_blockno (B' i))"
      if "i < NBUF" "b_valid (B' i) \<noteq> 0" "b_blockno (B' i) \<notin> P'" "\<not> in_use L' i" for i
    proof (cases "i = b")
      case True
      then show ?thesis using that clean cb(3) unfolding sel by simp
    next
      case False
      then have "b_blockno (B i) \<noteq> n" using other [of i] that(1,2) cinvD(5) [OF inv, of i] unfolding sel by (auto simp: caches_def)
      then show ?thesis using that cinvD(6) [OF inv, of i] use [OF False] neq [of "b_blockno (B i)"] unfolding sel by simp
    qed
    show "unat (b_refcnt (B' i)) = of_bool (caches B' i (b_blockno (B' i)) \<and> b_blockno (B' i) \<in> P') + of_bool (in_use L' i)"
      if "i < NBUF" for i
    proof (cases "i = b")
      case True
      then show ?thesis using c b(1) cb(3) unfolding sel ca by simp
    next
      case False
      then have "caches B i (b_blockno (B i)) \<Longrightarrow> b_blockno (B i) \<noteq> n" using other [of i] by auto
      then show ?thesis using False cinvD(7) [OF inv that] use [OF False] neq [of "b_blockno (B i)"] unfolding sel ca by auto
    qed
    show "b_valid (B' i) \<noteq> 0 \<and> sl_pid (L' (BufSl i)) = me" if "i < NBUF" "in_use L' i" for i
      using cinvD(8) [OF inv, of i] that use [of i] L'(1) [of i] L'(2) cb(4) unfolding sel by (cases "i = b") auto
  qed
  show "cview B' D = cview B D" by (subst cview_cong [OF ca]) (simp_all add: sel)
  show "cheld L' B' = (if in_use L' b then cheld L B else (cheld L B)(n := None))"
  proof
    fix m
    have "cheld L' B' m = Some i \<longleftrightarrow> (if in_use L' b then cheld L B else (cheld L B)(n := None)) m = Some i" for i
      unfolding cheld_iff [OF inv'] ca using cheld_iff [OF inv, of m i] use [of i] b other [of i]
      by (cases "i = b"; cases "m = n") (auto simp: caches_def)
    then show "cheld L' B' m = (if in_use L' b then cheld L B else (cheld L B)(n := None)) m" by (metis option.exhaust)
  qed
qed

section \<open>The operations on the invariant\<close>

definition io_inv :: "uint set \<Rightarrow> 'a bcache_scheme \<Rightarrow> bool" where
  "io_inv P s \<longleftrightarrow> (\<exists>p. ready p s \<and> cinv P (pid (proc s p)) (slock s) (buf s) (disk s))"

definition bview :: "'a bcache_scheme \<Rightarrow> uint \<Rightarrow> uchar list" where
  "bview s = cview (buf s) (disk s)"

definition bheld :: "'a bcache_scheme \<Rightarrow> uint \<Rightarrow> nat option" where
  "bheld s = cheld (slock s) (buf s)"

text \<open>What no disk operation touches.\<close>

definition io_same :: "'a bcache_scheme \<Rightarrow> 'a bcache_scheme \<Rightarrow> bool" where
  "io_same s s' \<longleftrightarrow>
     s'\<lparr>cpus := cpus s, proc := proc s, queue := queue s, slock := slock s, buf := buf s, disk := disk s,
        disk_writes := disk_writes s\<rparr> = s \<and>
     (\<forall>h. cpu_proc (cpus s' h) = cpu_proc (cpus s h) \<and> noff (cpus s' h) = noff (cpus s h)) \<and>
     (\<forall>i. settled (proc s' i) = settled (proc s i)) \<and> (\<forall>i. slock s' (InodeSl i) = slock s (InodeSl i))"

lemma io_same_refl: "io_same s s"
  by (simp add: io_same_def)

lemma io_same_trans:
  assumes "io_same s s1" and "io_same s1 s2"
  shows "io_same s s2"
proof -
  let ?undo = "\<lambda>s :: 'a bcache_scheme. \<lambda>s'. s'\<lparr>cpus := cpus s, proc := proc s, queue := queue s, slock := slock s,
    buf := buf s, disk := disk s, disk_writes := disk_writes s\<rparr>"
  have "?undo s s2 = ?undo s (?undo s1 s2)" by simp
  also have "\<dots> = s" using assms by (simp add: io_same_def)
  finally have "?undo s s2 = s" .
  then show ?thesis using assms unfolding io_same_def by simp
qed

lemma io_sameI:
  assumes "s' = s\<lparr>cpus := c, proc := R, queue := Q, slock := L, buf := B, disk := D, disk_writes := w\<rparr>"
    and "\<And>h. cpu_proc (c h) = cpu_proc (cpus s h) \<and> noff (c h) = noff (cpus s h)" and "\<And>i. settled (R i) = settled (proc s i)"
    and "\<And>i. L (InodeSl i) = slock s (InodeSl i)"
  shows "io_same s s'"
  unfolding io_same_def assms(1) using assms(2-4) by simp

lemma free_slot:
  assumes inv: "cinv P me L B D" and room: "card (P \<union> dom (cheld L B)) < NBUF"
  shows "\<exists>i<NBUF. b_refcnt (B i) = 0"
proof (rule ccontr)
  assume "\<not> ?thesis"
  then have ref: "b_refcnt (B i) \<noteq> 0" if "i < NBUF" for i using that by blast
  let ?U = "P \<union> dom (cheld L B)"
  have sub: "?U \<subseteq> (\<lambda>i. b_blockno (B i)) ` {..<NBUF}"
  proof
    fix n assume "n \<in> ?U"
    then obtain i where "caches B i n" using cinvD(4) [OF inv, of n] cheld_iff [OF inv, of n] by blast
    then show "n \<in> (\<lambda>i. b_blockno (B i)) ` {..<NBUF}" by (auto simp: caches_def)
  qed
  have used: "caches B i (b_blockno (B i)) \<and> b_blockno (B i) \<in> ?U" if "i < NBUF" for i
  proof (cases "in_use L i")
    case True
    then have "caches B i (b_blockno (B i))"
      using cinvD(8) [OF inv that True] cinvD(5) [OF inv that] that by (simp add: caches_def)
    then show ?thesis using True cheld_iff [OF inv, of "b_blockno (B i)" i] by auto
  next
    case False
    have "unat (b_refcnt (B i)) \<noteq> 0" using ref [OF that] by (simp add: unat_eq_zero)
    then show ?thesis using cinvD(7) [OF inv that] False by (auto split: if_splits)
  qed
  have inj: "inj_on (\<lambda>i. b_blockno (B i)) {..<NBUF}"
  proof (rule inj_onI)
    fix i j assume ij: "i \<in> {..<NBUF}" "j \<in> {..<NBUF}" "b_blockno (B i) = b_blockno (B j)"
    then show "i = j" using used [of i] used [of j] cinvD(3) [OF inv, of i "b_blockno (B j)" j] by simp
  qed
  have "(\<lambda>i. b_blockno (B i)) ` {..<NBUF} \<subseteq> ?U" using used by blast
  moreover have "finite ?U" by (rule finite_subset [OF sub]) simp
  ultimately have "card ((\<lambda>i. b_blockno (B i)) ` {..<NBUF}) \<le> card ?U" by (intro card_mono)
  then show False using room card_image [OF inj] by simp
qed

text \<open>The buffer that \<^verbatim>\<open>bget\<close> settles on, and what it does to its fields.\<close>

definition bget_slot :: "nat list \<Rightarrow> (nat \<Rightarrow> buf) \<Rightarrow> uint \<Rightarrow> nat \<Rightarrow> buf \<Rightarrow> bool" where
  "bget_slot bs B n b r \<longleftrightarrow>
     find (\<lambda>i. b_dev (B i) = ROOTDEV \<and> b_blockno (B i) = n) bs = Some b \<and> r = (B b)\<lparr>b_refcnt := b_refcnt (B b) + 1\<rparr> \<or>
     find (\<lambda>i. b_dev (B i) = ROOTDEV \<and> b_blockno (B i) = n) bs = None \<and> find (\<lambda>i. b_refcnt (B i) = 0) (rev bs) = Some b \<and>
       r = (B b)\<lparr>b_dev := ROOTDEV, b_blockno := n, b_valid := 0, b_refcnt := 1\<rparr>"

lemma bget_slot_exists:
  assumes c: "cinv P me L B D" and bs: "lru B bs" and new: "cheld L B n = None"
    and room: "n \<in> P \<or> card (P \<union> dom (cheld L B)) < NBUF"
  shows "\<exists>b r. bget_slot bs B n b r \<and> slot_for B b n \<and> \<not> in_use L b"
proof -
  let ?hit = "\<lambda>i. b_dev (B i) = ROOTDEV \<and> b_blockno (B i) = n"
  have hit: "?hit i \<and> i \<in> set bs \<longleftrightarrow> caches B i n" for i using bs by (auto simp: caches_def lru_def)
  show ?thesis
  proof (cases "find ?hit bs")
    case None
    then have none: "\<not> caches B i n" for i using hit [of i] by (auto simp: find_None_iff)
    then have "n \<notin> P" using cinvD(4) [OF c] by blast
    then obtain i where i: "i < NBUF" "b_refcnt (B i) = 0" using free_slot [OF c] room by auto
    then have "find (\<lambda>i. b_refcnt (B i) = 0) (rev bs) \<noteq> None" using bs by (auto simp: find_None_iff lru_def)
    then obtain b where b: "find (\<lambda>i. b_refcnt (B i) = 0) (rev bs) = Some b" by blast
    then have "b < NBUF" "b_refcnt (B b) = 0" using bs find_SomeD [OF b] by (auto simp: lru_def)
    then have "slot_for B b n" "\<not> in_use L b" using none unpinned_slot(2) [OF c] by (simp_all add: slot_for_def)
    then show ?thesis using None b
      by (intro exI [of _ b] exI [of _ "(B b)\<lparr>b_dev := ROOTDEV, b_blockno := n, b_valid := 0, b_refcnt := 1\<rparr>"]) (simp add: bget_slot_def)
  next
    case (Some b)
    then have "caches B b n" using hit [of b] find_SomeD [OF Some] by simp
    moreover from this have "\<not> in_use L b" using new cheld_iff [OF c, of n b] by auto
    ultimately have "slot_for B b n" "\<not> in_use L b" by (simp_all add: slot_for_def caches_def)
    then show ?thesis using Some
      by (intro exI [of _ b] exI [of _ "(B b)\<lparr>b_refcnt := b_refcnt (B b) + 1\<rparr>"]) (simp add: bget_slot_def)
  qed
qed

lemma bget_slot_content:
  assumes c: "cinv P me L B D" and bs: "lru B bs" and b: "bget_slot bs B n b r"
  shows "b_blockno r = n" and "b_dev r = ROOTDEV" and "b_refcnt r = b_refcnt (B b) + 1" and "b_next r = b_next (B b)"
    and "b_prev r = b_prev (B b)" and "(if b_valid r = 0 then D n else b_data r) = cview B D n"
proof -
  let ?hit = "\<lambda>i. b_dev (B i) = ROOTDEV \<and> b_blockno (B i) = n"
  have hit: "?hit i \<and> i \<in> set bs \<longleftrightarrow> caches B i n" for i using bs by (auto simp: caches_def lru_def)
  show "b_blockno r = n" "b_dev r = ROOTDEV" "b_refcnt r = b_refcnt (B b) + 1" "b_next r = b_next (B b)" "b_prev r = b_prev (B b)"
    using b find_SomeD [of ?hit bs b] find_SomeD [of "\<lambda>i. b_refcnt (B i) = 0" "rev bs" b] by (auto simp: bget_slot_def)
  show "(if b_valid r = 0 then D n else b_data r) = cview B D n"
  proof (cases "find ?hit bs")
    case None
    then have "\<not> caches B i n" for i using hit [of i] by (auto simp: find_None_iff)
    then show ?thesis using b None cview_uncached [of B n] by (simp add: bget_slot_def)
  next
    case (Some i)
    then have i: "i = b" "r = (B b)\<lparr>b_refcnt := b_refcnt (B b) + 1\<rparr>" using b by (auto simp: bget_slot_def)
    have "caches B b n" using hit [of b] find_SomeD [OF Some] i(1) by simp
    then show ?thesis using cview_cached [OF c] i(2) by simp
  qed
qed

lemma bread_run:
  assumes inv: "io_inv P s" and new: "bheld s n = None" and room: "n \<in> P \<or> card (P \<union> dom (bheld s)) < NBUF"
  shows "\<exists>b s'. bread ROOTDEV n s = Ok (b, s') \<and> io_inv P s' \<and> bheld s' = (bheld s)(n \<mapsto> b) \<and> bview s' = bview s \<and>
    disk s' = disk s \<and> disk_writes s' = disk_writes s \<and> io_same s s'"
proof -
  obtain p where p: "ready p s" and c: "cinv P (pid (proc s p)) (slock s) (buf s) (disk s)"
    using inv by (auto simp: io_inv_def)
  obtain bs where bs: "lru (buf s) bs" using cinvD(1) [OF c] by blast
  obtain b r where b: "bget_slot bs (buf s) n b r" and slot: "slot_for (buf s) b n" and free: "\<not> in_use (slock s) b"
    using bget_slot_exists [OF c bs new [unfolded bheld_def] room [unfolded bheld_def]] by blast
  note rf = bget_slot_content [OF c bs b]
  let ?L = "(slock s)(BufSl b := (slock s (BufSl b))\<lparr>sl_locked := 1, sl_pid := pid (proc s p)\<rparr>)"
  let ?r = "if b_valid r = 0 then r\<lparr>b_data := disk s n, b_valid := 1\<rparr> else r"
  let ?s = "(relock s)\<lparr>buf := (buf s)(b := ?r), slock := ?L\<rparr>"
  have "bget ROOTDEV n s = Ok (b, (relock s)\<lparr>buf := (buf s)(b := r), slock := ?L\<rparr>)"
    by (rule bget_run [OF p bs _ b [unfolded bget_slot_def]]) (use free in \<open>simp add: in_use_def\<close>)
  then have run: "bread ROOTDEV n s = Ok (b, ?s)" using rf(1) by (simp add: bread_def disk_rw_def upd_buf_def)
  note g = cinv_get [OF c slot free, of ?r ?L]
  have "cinv P (pid (proc s p)) ?L ((buf s)(b := ?r)) (disk s)" "cview ((buf s)(b := ?r)) (disk s) = cview (buf s) (disk s)"
    "cheld ?L ((buf s)(b := ?r)) = (cheld (slock s) (buf s))(n \<mapsto> b)"
    by (rule g; use rf in \<open>auto simp: in_use_def split: if_splits\<close>)+
  moreover have "io_same s ?s"
    by (rule io_sameI [where c = "cpus (relock s)" and R = "proc s" and Q = "queue s" and D = "disk s" and w = "disk_writes s"
          and B = "(buf s)(b := ?r)" and L = ?L])
      (simp_all add: relock_def)
  ultimately show ?thesis unfolding run using p
    by (intro exI [of _ b] exI [of _ ?s]) (simp add: io_inv_def bheld_def bview_def exI [of _ p])
qed

lemma upd_buf_frame: "\<exists>B. t = s\<lparr>buf := B\<rparr> \<Longrightarrow> \<exists>B. upd_buf j f t = s\<lparr>buf := B\<rparr>"
  by (auto simp: upd_buf_def)

lemma lru_front_frame: "lru_front b s = s\<lparr>buf := buf (lru_front b s)\<rparr>"
proof -
  have "\<exists>B. s = s\<lparr>buf := B\<rparr>" by (rule exI [of _ "buf s"]) simp
  then have "\<exists>B. lru_front b s = s\<lparr>buf := B\<rparr>" unfolding lru_front_def Let_def by (intro upd_buf_frame)
  then show ?thesis by auto
qed

lemma critical_buf:
  assumes "hart_ok s" and "lock_free lk s" and "body (inside lk s) = Ok (r, (inside lk s)\<lparr>buf := B\<rparr>)"
  shows "critical lk body s = Ok (r, (relock s)\<lparr>buf := B\<rparr>)"
  using assms by (simp add: critical_def acquire_free release_buf)

lemma bheld_owned:
  assumes "ready p s" and "cinv P (pid (proc s p)) (slock s) (buf s) (disk s)" and "bheld s n = Some b"
  shows "caches (buf s) b n" and "in_use (slock s) b" and "holdingsleep (BufSl b) s = Ok (True, relock s)"
proof -
  show c: "caches (buf s) b n" "in_use (slock s) b" using assms(2,3) by (simp_all add: bheld_def cheld_iff)
  then have "sl_pid (slock s (BufSl b)) = pid (proc s p)" using cinvD(8) [OF assms(2), of b] by (simp add: caches_def)
  then have "owns_sleep (BufSl b) s" using c(2) assms(1) by (auto simp: owns_sleep_def in_use_def ready_def)
  then show "holdingsleep (BufSl b) s = Ok (True, relock s)"
    using holdingsleep_run [of s "BufSl b" p] assms(1) by (simp add: ready_def)
qed

lemma bwrite_run:
  assumes inv: "io_inv P s" and held: "bheld s n = Some b"
  shows "\<exists>s'. bwrite b s = Ok s' \<and> io_inv P s' \<and> bheld s' = bheld s \<and> bview s' = bview s \<and>
    disk s' = (disk s)(n := bview s n) \<and> disk_writes s' = disk_writes s @ [(n, bview s n)] \<and> io_same s s'"
proof -
  obtain p where p: "ready p s" and c: "cinv P (pid (proc s p)) (slock s) (buf s) (disk s)"
    using inv by (auto simp: io_inv_def)
  note h = bheld_owned [OF p c held]
  note cb = cached_refcnt [OF c h(1,2)]
  let ?d = "b_data (buf s b)"
  let ?s = "(relock s)\<lparr>disk := (disk s)(n := ?d), disk_writes := disk_writes s @ [(n, ?d)]\<rparr>"
  have "bwrite b s = Ok ?s" using h(3) cb(3) by (simp add: bwrite_def disk_rw_def)
  moreover have "cinv P (pid (proc ?s p)) (slock ?s) (buf ?s) (disk ?s)" "bview ?s = bview s"
    using cinv_flush [OF c h(1,2)] by (simp_all add: bview_def)
  moreover have "io_same s ?s"
    by (rule io_sameI [where c = "cpus (relock s)" and R = "proc s" and Q = "queue s" and D = "(disk s)(n := ?d)"
          and w = "disk_writes s @ [(n, ?d)]" and B = "buf s" and L = "slock s"])
      (simp_all add: relock_def)
  ultimately show ?thesis using p cb(5)
    by (intro exI [of _ ?s]) (simp add: io_inv_def bheld_def bview_def exI [of _ p])
qed

lemma bset_run:
  assumes inv: "io_inv P s" and held: "bheld s n = Some b" and len: "length d = BSIZE"
  shows "io_inv P (upd_buf b (\<lambda>r. r\<lparr>b_data := d\<rparr>) s) \<and> bheld (upd_buf b (\<lambda>r. r\<lparr>b_data := d\<rparr>) s) = bheld s \<and>
    bview (upd_buf b (\<lambda>r. r\<lparr>b_data := d\<rparr>) s) = (bview s)(n := d) \<and> io_same s (upd_buf b (\<lambda>r. r\<lparr>b_data := d\<rparr>) s)"
proof -
  obtain p where p: "ready p s" and c: "cinv P (pid (proc s p)) (slock s) (buf s) (disk s)"
    using inv by (auto simp: io_inv_def)
  note h = bheld_owned [OF p c held]
  let ?s = "s\<lparr>buf := (buf s)(b := (buf s b)\<lparr>b_data := d\<rparr>)\<rparr>"
  have "bheld ?s = bheld s" unfolding bheld_def by (rule cheld_cong) simp_all
  moreover have "io_same s ?s"
    by (rule io_sameI [where c = "cpus s" and R = "proc s" and Q = "queue s" and D = "disk s"
          and w = "disk_writes s" and B = "buf ?s" and L = "slock s"]) simp_all
  ultimately show ?thesis using p cinv_set [OF c h(1,2) len]
    by (simp add: io_inv_def bview_def upd_buf_def exI [of _ p])
qed

lemma brelse_run:
  assumes inv: "io_inv P s" and held: "bheld s n = Some b" and clean: "n \<in> P \<or> bview s n = disk s n"
  shows "\<exists>s'. brelse b s = Ok s' \<and> io_inv P s' \<and> bheld s' = (bheld s)(n := None) \<and> bview s' = bview s \<and>
    disk s' = disk s \<and> disk_writes s' = disk_writes s \<and> io_same s s'"
proof -
  obtain p where p: "ready p s" and c: "cinv P (pid (proc s p)) (slock s) (buf s) (disk s)"
    using inv by (auto simp: io_inv_def)
  note h = bheld_owned [OF p c held]
  note cb = cached_refcnt [OF c h(1,2)]
  let ?L = "(slock s)(BufSl b := (slock s (BufSl b))\<lparr>sl_locked := 0, sl_pid := 0\<rparr>)"
  let ?B = "(buf s)(b := (buf s b)\<lparr>b_refcnt := b_refcnt (buf s b) - 1\<rparr>)"
  have "table_ok (relock s)" "lock_free (sl_lk (BufSl b)) (relock s)" using p by (simp_all add: ready_def)
  from releasesleep_run [OF this] obtain R Q where rel:
    "releasesleep (BufSl b) (relock s) = Ok ((relock s)\<lparr>proc := R, queue := Q, slock := ?L\<rparr>)"
    "table_ok ((relock s)\<lparr>proc := R, queue := Q\<rparr>)" "\<forall>i. settled (R i) = settled (proc s i)" by auto
  let ?s1 = "(relock s)\<lparr>proc := R, queue := Q, slock := ?L\<rparr>"
  define t where "t = (inside BcacheLock ?s1)\<lparr>buf := ?B\<rparr>"
  define B' where "B' = (if b_refcnt (?B b) = 0 then buf (lru_front b t) else ?B)"
  have t: "buf t = ?B" by (simp add: t_def)
  have h1: "hart_ok ?s1" "lock_free BcacheLock ?s1" using table_ok_hart [of s] p by (simp_all add: ready_def lock_simps)
  let ?s = "?s1\<lparr>buf := B'\<rparr>"
  have "critical BcacheLock (\<lambda>s. let s = upd_buf b (\<lambda>r. r\<lparr>b_refcnt := b_refcnt r - 1\<rparr>) s in
      Ok ((), if b_refcnt (buf s b) = 0 then lru_front b s else s)) ?s1 = Ok ((), (relock ?s1)\<lparr>buf := B'\<rparr>)"
    by (rule critical_buf [OF h1])
      (use lru_front_frame [of b t] in \<open>auto simp: upd_buf_def Let_def B'_def t_def\<close>)
  then have run: "brelse b s = Ok ?s" using h(3) rel(1) by (simp add: brelse_def) (simp add: relock_def)
  obtain bs where "lru (buf s) bs" using cinvD(1) [OF c] by blast
  then have lB: "lru ?B bs" by (rule lru_upd) simp_all
  have same: "unring (B' i) = unring (if i = b then (buf s b)\<lparr>b_refcnt := b_refcnt (buf s b) - 1\<rparr> else buf s i)" for i
    unfolding B'_def using lru_front_content [of b t i] by (auto simp: t)
  have "\<exists>bs. lru B' bs"
    unfolding B'_def using lru_front_ring [of t bs b] lB cb(2) by (auto simp: t)
  then obtain bs' where bs': "lru B' bs'" ..
  have ref: "unat (b_refcnt (buf s b) - 1) = of_bool (n \<in> P) + of_bool (in_use ?L b)"
    using cb(1) unat_pred [of "b_refcnt (buf s b)"] by (auto simp: in_use_def)
  have cl: "n \<notin> P \<Longrightarrow> b_data (buf s b) = disk s n" using clean cb(5) by (simp add: bview_def)
  note refs = cinv_refs [OF c h(1,2) bs' same _ _ refl ref cl, simplified]
  have "cinv P (pid (proc s p)) ?L B' (disk s)" "cview B' (disk s) = cview (buf s) (disk s)"
    "cheld ?L B' = (cheld (slock s) (buf s))(n := None)"
    using refs by (auto simp: in_use_def)
  moreover have "pid (R p) = pid (proc s p)" using arg_cong [OF rel(3) [rule_format, of p], of pid] by simp
  moreover have "ready p ?s" using p rel(2) by (simp add: ready_def)
  moreover have "io_same s ?s"
    by (rule io_sameI [where c = "cpus (relock s)" and R = R and Q = Q and D = "disk s" and w = "disk_writes s" and B = B' and L = ?L])
      (use rel(3) in \<open>simp_all add: relock_def\<close>)
  ultimately show ?thesis unfolding run
    by (intro exI [of _ ?s]) (simp add: io_inv_def bheld_def bview_def exI [of _ p])
qed

lemma repin_run:
  assumes inv: "io_inv P s" and held: "bheld s n = Some b" and P': "P' - {n} = P - {n}"
    and c': "unat c = of_bool (n \<in> P') + 1"
  shows "\<exists>s'. critical BcacheLock (\<lambda>s. Ok ((), upd_buf b (\<lambda>r. r\<lparr>b_refcnt := c\<rparr>) s)) s = Ok ((), s') \<and> io_inv P' s' \<and>
    bheld s' = bheld s \<and> bview s' = bview s \<and> disk s' = disk s \<and> disk_writes s' = disk_writes s \<and> io_same s s'"
proof -
  obtain p where p: "ready p s" and c: "cinv P (pid (proc s p)) (slock s) (buf s) (disk s)"
    using inv by (auto simp: io_inv_def)
  note h = bheld_owned [OF p c held]
  let ?B = "(buf s)(b := (buf s b)\<lparr>b_refcnt := c\<rparr>)"
  let ?s = "(relock s)\<lparr>buf := ?B\<rparr>"
  have "hart_ok s" "lock_free BcacheLock s" using p by (simp_all add: ready_def table_ok_hart)
  then have run: "critical BcacheLock (\<lambda>s. Ok ((), upd_buf b (\<lambda>r. r\<lparr>b_refcnt := c\<rparr>) s)) s = Ok ((), ?s)"
    by (rule critical_buf) (simp add: upd_buf_def)
  obtain bs where "lru (buf s) bs" using cinvD(1) [OF c] by blast
  then have "lru ?B bs" by (rule lru_upd) simp_all
  note refs = cinv_refs [OF c h(1,2) this, of c "slock s" P']
  have "cinv P' (pid (proc s p)) (slock s) ?B (disk s)" "cview ?B (disk s) = cview (buf s) (disk s)"
    "cheld (slock s) ?B = cheld (slock s) (buf s)"
    using refs P' c' h(2) cinvD(8) [OF c, of b] h(1) by (simp_all add: caches_def)
  moreover have "io_same s ?s"
    by (rule io_sameI [where c = "cpus (relock s)" and R = "proc s" and Q = "queue s" and D = "disk s" and w = "disk_writes s"
          and B = ?B and L = "slock s"]) (simp_all add: relock_def)
  ultimately show ?thesis unfolding run using p
    by (intro exI [of _ ?s]) (simp add: io_inv_def bheld_def bview_def exI [of _ p])
qed

lemma critical_refcnt:
  assumes "lock_free lk s"
  shows "critical lk (\<lambda>s. Ok ((), upd_buf b (\<lambda>r. r\<lparr>b_refcnt := f (b_refcnt r)\<rparr>) s)) s =
    critical lk (\<lambda>t. Ok ((), upd_buf b (\<lambda>r. r\<lparr>b_refcnt := f (b_refcnt (buf s b))\<rparr>) t)) s"
  using assms by (simp add: critical_def acquire_free upd_buf_def)

lemma pin_run:
  assumes inv: "io_inv P s" and held: "bheld s n = Some b"
  shows "n \<notin> P \<Longrightarrow> \<exists>s'. bpin b s = Ok s' \<and> io_inv (insert n P) s' \<and> bheld s' = bheld s \<and> bview s' = bview s \<and> disk s' = disk s \<and>
      disk_writes s' = disk_writes s \<and> io_same s s'"
    and "n \<in> P \<Longrightarrow> \<exists>s'. bunpin b s = Ok s' \<and> io_inv (P - {n}) s' \<and> bheld s' = bheld s \<and> bview s' = bview s \<and> disk s' = disk s \<and>
      disk_writes s' = disk_writes s \<and> io_same s s'"
proof -
  obtain p where p: "ready p s" and c: "cinv P (pid (proc s p)) (slock s) (buf s) (disk s)"
    using inv by (auto simp: io_inv_def)
  note h = bheld_owned [OF p c held]
  note ref = cached_refcnt(1) [OF c h(1,2)]
  have lk: "lock_free BcacheLock s" using p by (simp add: ready_def)
  { assume n: "n \<notin> P"
    then have "unat (b_refcnt (buf s b) + 1) = of_bool (n \<in> insert n P) + 1" using ref unat_Suc [of "b_refcnt (buf s b)"] by simp
    from repin_run [OF inv held _ this] n show "\<exists>s'. bpin b s = Ok s' \<and> io_inv (insert n P) s' \<and> bheld s' = bheld s \<and>
      bview s' = bview s \<and> disk s' = disk s \<and> disk_writes s' = disk_writes s \<and> io_same s s'"
      unfolding bpin_def critical_refcnt [OF lk, where f = "\<lambda>c. c + 1"] by auto }
  { assume n: "n \<in> P"
    then have "unat (b_refcnt (buf s b) - 1) = of_bool (n \<in> P - {n}) + 1" using ref unat_pred [of "b_refcnt (buf s b)"] by simp
    from repin_run [OF inv held _ this] n show "\<exists>s'. bunpin b s = Ok s' \<and> io_inv (P - {n}) s' \<and> bheld s' = bheld s \<and>
      bview s' = bview s \<and> disk s' = disk s \<and> disk_writes s' = disk_writes s \<and> io_same s s'"
      unfolding bunpin_def critical_refcnt [OF lk, where f = "\<lambda>c. c - 1"] by auto }
qed

interpretation bc: block_cache io_inv bview disk disk_writes bheld io_same NBUF BSIZE "bread ROOTDEV" brelse bwrite
  "\<lambda>b d. upd_buf b (\<lambda>r. r\<lparr>b_data := d\<rparr>)" "\<lambda>b s. b_data (buf s b)" bpin bunpin
proof (unfold_locales, goal_cases)
  case 1 show ?case by (rule io_same_refl)
next
  case 2 then show ?case by (rule io_same_trans)
next
  case (3 P s n)
  then obtain me where c: "cinv P me (slock s) (buf s) (disk s)" by (auto simp: io_inv_def)
  show ?case unfolding bview_def by (rule cview_disk [OF c 3(2)]) (use 3(3) cheld_iff [OF c, of n] in \<open>auto simp: bheld_def\<close>)
next
  case (4 P s n) then show ?case by (auto simp: io_inv_def bview_def length_cview)
next
  case (5 P s n b)
  then obtain p where "ready p s" "cinv P (pid (proc s p)) (slock s) (buf s) (disk s)" by (auto simp: io_inv_def)
  then show ?case using bheld_owned(1,2) [OF _ _ 5(2)] cached_refcnt(5) unfolding bview_def by metis
next
  case 6 then show ?case by (rule bread_run)
next
  case 7 then show ?case by (rule brelse_run)
next
  case 8 then show ?case by (rule bwrite_run)
next
  case 9 then show ?case using bset_run by (simp add: upd_buf_def)
next
  case 10 then show ?case by (rule pin_run(1))
next
  case 11 then show ?case by (rule pin_run(2))
qed

section \<open>Initialisation\<close>

definition binit_step :: "nat \<Rightarrow> 'a bcache_scheme \<Rightarrow> 'a bcache_scheme" where
  "binit_step b s =
     (let s = upd_buf b (\<lambda>r. r\<lparr>b_next := b_next (buf s HEAD), b_prev := HEAD\<rparr>) s;
          s = initsleeplock (BufSl b) ''buffer'' s;
          s = upd_buf (b_next (buf s HEAD)) (\<lambda>r. r\<lparr>b_prev := b\<rparr>) s
      in upd_buf HEAD (\<lambda>r. r\<lparr>b_next := b\<rparr>) s)"

lemma binit_steps:
  "binit s = fold binit_step [0..<NBUF] (upd_buf HEAD (\<lambda>r. r\<lparr>b_prev := HEAD, b_next := HEAD\<rparr>) (initlock BcacheLock ''bcache'' s))"
  by (simp only: binit_def binit_step_def [abs_def])

lemma binit_step_links:
  assumes "b \<noteq> HEAD"
  shows "(\<lambda>i. b_next (buf (binit_step b s) i)) = (\<lambda>i. b_next (buf s i))(b := b_next (buf s HEAD), HEAD := b)"
    and "(\<lambda>i. b_prev (buf (binit_step b s) i)) = ((\<lambda>i. b_prev (buf s i))(b := HEAD))(b_next (buf s HEAD) := b)"
    and "unring (buf (binit_step b s) i) = unring (buf s i)"
    and "slock (binit_step b s) = (slock s)(BufSl b := \<lparr>sl_locked = 0, sl_name = ''buffer'', sl_pid = 0\<rparr>)"
  using assms by (auto simp: binit_step_def upd_buf_def Let_def fun_eq_iff initsleeplock_def initlock_def upd_slock_def)

lemma binit_step_other:
  assumes "lock_free lk s"
  shows "\<exists>k L B. binit_step b s = s\<lparr>spin := k, slock := L, buf := B\<rparr>" and "lock_free lk (binit_step b s)"
  using assms by (auto simp: binit_step_def upd_buf_def Let_def initsleeplock_def initlock_def upd_slock_def lock_simps)

lemma binit_fold:
  assumes "n \<le> NBUF" and "b_next (buf s HEAD) = HEAD" and "b_prev (buf s HEAD) = HEAD"
  shows "dll (\<lambda>i. b_next (buf (fold binit_step [0..<n] s) i)) (\<lambda>i. b_prev (buf (fold binit_step [0..<n] s) i)) HEAD (rev [0..<n]) HEAD \<and>
    (\<forall>i. unring (buf (fold binit_step [0..<n] s) i) = unring (buf s i)) \<and>
    (\<forall>i<n. sl_locked (slock (fold binit_step [0..<n] s) (BufSl i)) = 0) \<and>
    ((\<forall>lk. lock_free lk s) \<longrightarrow> (\<forall>lk. lock_free lk (fold binit_step [0..<n] s)) \<and>
      (\<exists>k L B. fold binit_step [0..<n] s = s\<lparr>spin := k, slock := L, buf := B\<rparr>))"
  using assms(1)
proof (induction n)
  case 0
  have "s = s\<lparr>spin := spin s, slock := slock s, buf := buf s\<rparr>" by simp
  then have "\<exists>k L B. s = s\<lparr>spin := k, slock := L, buf := B\<rparr>" by blast
  then show ?case using assms(2,3) by simp
next
  case (Suc n)
  let ?t = "fold binit_step [0..<n] s"
  let ?nx = "\<lambda>i. b_next (buf ?t i)" and ?pv = "\<lambda>i. b_prev (buf ?t i)"
  have n: "n \<noteq> HEAD" using Suc.prems by simp
  have st: "fold binit_step [0..<Suc n] s = binit_step n ?t" by simp
  have "dll (?nx(n := ?nx HEAD, HEAD := n)) ((?pv(n := HEAD))(?nx HEAD := n)) HEAD (n # rev [0..<n]) HEAD"
    by (rule dll_insert) (use Suc in auto)
  then have "dll (\<lambda>i. b_next (buf (binit_step n ?t) i)) (\<lambda>i. b_prev (buf (binit_step n ?t) i)) HEAD (rev [0..<Suc n]) HEAD"
    unfolding binit_step_links(1,2) [OF n] by simp
  moreover have "\<forall>i. unring (buf (binit_step n ?t) i) = unring (buf s i)"
    using Suc binit_step_links(3) [OF n, of ?t] by simp
  moreover have "\<forall>i<Suc n. sl_locked (slock (binit_step n ?t) (BufSl i)) = 0"
    unfolding binit_step_links(4) [OF n] using Suc by (auto simp: less_Suc_eq)
  moreover have "(\<forall>lk. lock_free lk (binit_step n ?t)) \<and> (\<exists>k L B. binit_step n ?t = s\<lparr>spin := k, slock := L, buf := B\<rparr>)"
    if "\<forall>lk. lock_free lk s"
    using Suc that binit_step_other(1) [of _ ?t n] binit_step_other(2) [of _ ?t n] by fastforce
  ultimately show ?case unfolding st by blast
qed

text \<open>
  From a machine whose buffers are still zeroed, \<^verbatim>\<open>binit\<close> builds the ring, and a disk cache
  in which nothing is pinned or in use.
\<close>

lemma binit_ok:
  assumes "\<And>lk. lock_free lk s" and "\<And>i. b_dev (buf s i) = 0 \<and> b_valid (buf s i) = 0 \<and> b_refcnt (buf s i) = 0"
    and "\<And>n. length (disk s n) = BSIZE"
  shows "cinv {} me (slock (binit s)) (buf (binit s)) (disk (binit s))" and "lock_free lk (binit s)"
    and "\<exists>k L B. binit s = s\<lparr>spin := k, slock := L, buf := B\<rparr>" and "\<not> caches (buf (binit s)) i n"
proof -
  let ?s0 = "upd_buf HEAD (\<lambda>r. r\<lparr>b_prev := HEAD, b_next := HEAD\<rparr>) (initlock BcacheLock ''bcache'' s)"
  have "b_next (buf ?s0 HEAD) = HEAD" "b_prev (buf ?s0 HEAD) = HEAD" by (simp_all add: upd_buf_def)
  note f = binit_fold [OF order_refl this]
  have lf: "\<forall>lk. lock_free lk ?s0" using assms(1) by (simp add: upd_buf_def initlock_def lock_simps)
  have u: "unring (buf (binit s) i) = unring (buf s i)" for i
    using f unfolding binit_steps by (auto simp: upd_buf_def initlock_def simp del: upt_rec_numeral)
  have sel: "b_dev (buf (binit s) i) = 0" "b_valid (buf (binit s) i) = 0" "b_refcnt (buf (binit s) i) = 0" for i
    using arg_cong [OF u [of i], of b_dev] arg_cong [OF u [of i], of b_valid] arg_cong [OF u [of i], of b_refcnt] assms(2) [of i]
    by simp_all
  show ca: "\<not> caches (buf (binit s)) i n" for i n using sel(1) by (simp add: caches_def)
  have use: "\<not> in_use (slock (binit s)) i" if "i < NBUF" for i
    using f that unfolding binit_steps in_use_def by (simp del: upt_rec_numeral)
  have ring: "lru (buf (binit s)) (rev [0..<NBUF])"
    using f unfolding binit_steps lru_def by (simp add: atLeast0LessThan del: upt_rec_numeral)
  obtain k L B where fr: "binit s = ?s0\<lparr>spin := k, slock := L, buf := B\<rparr>" and lk: "\<forall>lk. lock_free lk (binit s)"
    using f lf unfolding binit_steps by blast
  then have fr': "binit s = s\<lparr>spin := k, slock := L, buf := B\<rparr>" by (simp add: upd_buf_def initlock_def)
  then show "\<exists>k L B. binit s = s\<lparr>spin := k, slock := L, buf := B\<rparr>" by blast
  show "lock_free lk (binit s)" using lk by blast
  have "disk (binit s) = disk s" unfolding fr' by simp
  with ring show "cinv {} me (slock (binit s)) (buf (binit s)) (disk (binit s))"
    by (intro cinvI) (use ca use sel assms(3) in simp_all)
qed

section \<open>Reading back what was written\<close>

text \<open>The two things a client does with one block: replace its contents, or look at it.\<close>

definition write_through :: "uint \<Rightarrow> uchar list \<Rightarrow> 'a bcache_scheme \<Rightarrow> 'a bcache_scheme res" where
  "write_through n d s =
     res_bind (bread ROOTDEV n s) (\<lambda>(b, s). res_bind (bwrite b (upd_buf b (\<lambda>r. r\<lparr>b_data := d\<rparr>) s)) (brelse b))"

definition look_at :: "uint \<Rightarrow> 'a bcache_scheme \<Rightarrow> (uchar list \<times> 'a bcache_scheme) res" where
  "look_at n s =
     res_bind (bread ROOTDEV n s) (\<lambda>(b, s). let d = b_data (buf s b) in res_bind (brelse b s) (\<lambda>s. Ok (d, s)))"

lemma look_at_run:
  assumes "io_inv P s" and "bheld s = Map.empty" and "card P < NBUF"
  shows "\<exists>s'. look_at n s = Ok (bview s n, s') \<and> io_inv P s' \<and> bheld s' = Map.empty \<and> bview s' = bview s"
  using bc.read_block [OF assms, of n] by (auto simp: look_at_def)

lemma look_at_many:
  assumes "io_inv P s" and "bheld s = Map.empty" and "card P < NBUF"
  shows "\<exists>s'. mfold (\<lambda>n s. res_bind (look_at n s) (\<lambda>(_, s). Ok s)) ns s = Ok s' \<and> io_inv P s' \<and> bheld s' = Map.empty \<and>
    bview s' = bview s"
  using assms
proof (induction ns arbitrary: s)
  case (Cons n ns)
  from look_at_run [OF Cons.prems, of n] obtain s1 where s1: "look_at n s = Ok (bview s n, s1)" "io_inv P s1"
    "bheld s1 = Map.empty" "bview s1 = bview s" by blast
  from Cons.IH [OF s1(2,3) Cons.prems(3)] s1(1,4) show ?case by auto
qed simp

text \<open>
  Property C11. The cache is transparent: after block \<open>n\<close> has been read, overwritten with \<open>d\<close>, written and
  released, any number of other blocks may be looked at, so that buffers are recycled over
  and over, and reading block \<open>n\<close> again still gives \<open>d\<close>, while every other block
  reads as before. All these calls succeed, and \<open>d\<close> is on the disk.
\<close>

theorem cache_read_after_write:
  assumes "io_inv P s" and "bheld s = Map.empty" and "card P < NBUF" and "length d = BSIZE"
  shows "\<exists>s1 s2 s3. write_through n d s = Ok s1 \<and> disk s1 n = d \<and>
    mfold (\<lambda>n s. res_bind (look_at n s) (\<lambda>(_, s). Ok s)) ns s1 = Ok s2 \<and>
    look_at m s2 = Ok (if m = n then d else bview s m, s3)"
proof -
  from bc.write_block [OF assms, of n] obtain s1 where s1: "write_through n d s = Ok s1" "io_inv P s1" "bheld s1 = Map.empty"
    "bview s1 = (bview s)(n := d)" "disk s1 = (disk s)(n := d)" by (auto simp: write_through_def)
  from look_at_many [OF s1(2,3) assms(3), of ns] obtain s2 where s2:
    "mfold (\<lambda>n s. res_bind (look_at n s) (\<lambda>(_, s). Ok s)) ns s1 = Ok s2" "io_inv P s2" "bheld s2 = Map.empty" "bview s2 = bview s1"
    by blast
  from look_at_run [OF s2(2,3) assms(3), of m] s1 s2 show ?thesis by auto
qed

text \<open>A machine with an empty disk just after \<^verbatim>\<open>binit\<close>.\<close>

definition zero_buf :: buf where
  "zero_buf = \<lparr>b_valid = 0, b_disk = 0, b_dev = 0, b_blockno = 0, b_refcnt = 0, b_prev = 0, b_next = 0, b_data = replicate BSIZE 0\<rparr>"

definition raw_disk :: "(uint \<Rightarrow> uchar list) \<Rightarrow> bcache" where
  "raw_disk d = sleeps.extend lock_waiter \<lparr>buf = (\<lambda>_. zero_buf), disk = d, disk_writes = []\<rparr>"

lemma raw_disk_ready: "ready 1 (raw_disk d)" "lock_free lk (raw_disk d)" "disk (raw_disk d) = d" "buf (raw_disk d) = (\<lambda>_. zero_buf)"
  by (simp_all add: ready_def raw_disk_def table_ok_def quiet_def valid_priority_def paired_def lock_simps lock_waiter_def
    boot_procs_def idle_proc_def physmem.defs procs.defs sleeps.defs boot_mem_def)

lemma binit_io_inv:
  assumes "ready p s" and lk: "\<And>lk. lock_free lk s"
    and "\<And>i. b_dev (buf s i) = 0 \<and> b_valid (buf s i) = 0 \<and> b_refcnt (buf s i) = 0"
    and "\<And>n. length (disk s n) = BSIZE"
  shows "io_inv {} (binit s)" and "bheld (binit s) = Map.empty" and "bview (binit s) = disk s" and "disk (binit s) = disk s"
proof -
  note b = binit_ok [OF lk assms(3,4)]
  obtain k L B where fr: "binit s = s\<lparr>spin := k, slock := L, buf := B\<rparr>" using b(3) by blast
  show d: "disk (binit s) = disk s" unfolding fr by simp
  have "table_ok (binit s)"
    using assms(1) b(2) unfolding fr
    by (auto simp: ready_def table_ok_def quiet_def valid_priority_def paired_def) (simp add: lock_simps)
  then show "io_inv {} (binit s)"
    using b(1,2) assms(1) unfolding io_inv_def ready_def by (auto simp: fr intro!: exI [of _ p])
  show "bheld (binit s) = Map.empty"
    by (rule ext) (simp add: bheld_def cheld_def b(4) find_None_iff [THEN iffD2] del: upt_rec_numeral)
  show "bview (binit s) = disk s" unfolding bview_def d using cview_uncached b(4) by blast
qed


theorem cache_read_after_write_witness:
  "\<exists>s1 s2 s3. write_through 45 (replicate 1024 7) (binit (raw_disk (\<lambda>_. replicate 1024 0))) = Ok s1 \<and>
    disk s1 45 = replicate 1024 7 \<and>
    mfold (\<lambda>n s. res_bind (look_at n s) (\<lambda>(_, s). Ok s)) (map of_nat [100..<200]) s1 = Ok s2 \<and>
    look_at 45 s2 = Ok (replicate 1024 7, s3)"
proof -
  have z: "b_dev (buf (raw_disk d) i) = 0 \<and> b_valid (buf (raw_disk d) i) = 0 \<and> b_refcnt (buf (raw_disk d) i) = 0" for d i
    by (simp add: raw_disk_ready zero_buf_def)
  note i = binit_io_inv [OF raw_disk_ready(1,2) z, of "\<lambda>_. replicate 1024 0"]
  show ?thesis
    using cache_read_after_write [OF i(1,2), of "replicate 1024 7" 45 "map of_nat [100..<200]" 45]
    by (simp add: raw_disk_ready del: upt_rec_numeral)
qed

end
