(* ===== verification/Disk_Format.thy ===== *)
theory Disk_Format
  imports Bio
begin

text \<open>
  Fields of on-disk structures: a block is a list of bytes, and the code reads and writes
  16- and 32-bit little-endian fields at offsets in it.
\<close>

definition patch :: "uchar list \<Rightarrow> nat \<Rightarrow> uchar list \<Rightarrow> uchar list" where
  "patch d off bs = take off d @ bs @ drop (off + length bs) d"

definition bytes16 :: "16 word \<Rightarrow> uchar list" where
  "bytes16 w = map (\<lambda>i. ucast (drop_bit (8 * i) w)) [0..<2]"

definition get32 :: "uchar list \<Rightarrow> nat \<Rightarrow> 32 word" where
  "get32 d off = word_of_int (horner_sum uint (2 ^ 8) (take 4 (drop off d)))"

definition get16 :: "uchar list \<Rightarrow> nat \<Rightarrow> 16 word" where
  "get16 d off = word_of_int (horner_sum uint (2 ^ 8) (take 2 (drop off d)))"

definition put32 :: "uchar list \<Rightarrow> nat \<Rightarrow> 32 word \<Rightarrow> uchar list" where
  "put32 d off w = patch d off (bytes32 w)"

definition put16 :: "uchar list \<Rightarrow> nat \<Rightarrow> 16 word \<Rightarrow> uchar list" where
  "put16 d off w = patch d off (bytes16 w)"

lemma length_patch [simp]: "off + length bs \<le> length d \<Longrightarrow> length (patch d off bs) = length d"
  by (simp add: patch_def)

lemma length_bytes [simp]: "length (bytes16 v) = 2" "length (bytes32 w) = 4" "length (bytes64 x) = 8"
  by (simp_all add: bytes16_def bytes32_def bytes64_def)

lemma length_put [simp]:
  "off + 4 \<le> length d \<Longrightarrow> length (put32 d off w) = length d" "off + 2 \<le> length d \<Longrightarrow> length (put16 d off v) = length d"
  by (simp_all add: put32_def put16_def)

text \<open>What a window of a patched block shows.\<close>

lemma window_patch_same: "off + length bs \<le> length d \<Longrightarrow> take (length bs) (drop off (patch d off bs)) = bs"
  by (simp add: patch_def)

lemma window_patch_other:
  assumes "off + length bs \<le> length d" and "o' + k \<le> off \<or> off + length bs \<le> o'"
  shows "take k (drop o' (patch d off bs)) = take k (drop o' d)"
  using assms(2)
proof
  assume "o' + k \<le> off"
  then have "take (k + o') (patch d off bs) = take (k + o') d"
    using assms(1) by (simp add: patch_def min_absorb1)
  then show ?thesis by (simp add: take_drop)
next
  assume "off + length bs \<le> o'"
  then have "drop o' (patch d off bs) = drop o' d" using assms(1) by (simp add: patch_def)
  then show ?thesis by simp
qed

lemma horner_bytes32: "word_of_int (horner_sum uint (2 ^ 8) (bytes32 w)) = w"
proof (rule bit_word_eqI)
  fix n assume "n < LENGTH(32)"
  then have n: "n < 32" by simp
  have "bytes32 w ! (n div 8) = ucast (drop_bit (8 * (n div 8)) w)" using n nth_upt [of 0 "n div 8" 4] by (simp add: bytes32_def del: upt_rec_numeral)
  then show "bit (word_of_int (horner_sum uint (2 ^ 8) (bytes32 w)) :: 32 word) n \<longleftrightarrow> bit w n"
    using n bit_horner_sum_uint_exp_iff [of "bytes32 w" n] by (auto simp: bit_simps ac_simps)
qed

lemma horner_bytes16: "word_of_int (horner_sum uint (2 ^ 8) (bytes16 w)) = w"
proof (rule bit_word_eqI)
  fix n assume "n < LENGTH(16)"
  then have n: "n < 16" by simp
  have "bytes16 w ! (n div 8) = ucast (drop_bit (8 * (n div 8)) w)" using n nth_upt [of 0 "n div 8" 2] by (simp add: bytes16_def del: upt_rec_numeral)
  then show "bit (word_of_int (horner_sum uint (2 ^ 8) (bytes16 w)) :: 16 word) n \<longleftrightarrow> bit w n"
    using n bit_horner_sum_uint_exp_iff [of "bytes16 w" n] by (auto simp: bit_simps ac_simps)
qed

lemma get32_put32_same [simp]: "off + 4 \<le> length d \<Longrightarrow> get32 (put32 d off w) off = w"
  using window_patch_same [of off "bytes32 w" d] by (simp add: get32_def put32_def horner_bytes32 [simplified])

lemma get16_put16_same [simp]: "off + 2 \<le> length d \<Longrightarrow> get16 (put16 d off w) off = w"
  using window_patch_same [of off "bytes16 w" d] by (simp add: get16_def put16_def horner_bytes16 [simplified])

lemma get32_put_other:
  "off + 4 \<le> length d \<Longrightarrow> o' + 4 \<le> off \<or> off + 4 \<le> o' \<Longrightarrow> get32 (put32 d off w) o' = get32 d o'"
  "off + 2 \<le> length d \<Longrightarrow> o' + 4 \<le> off \<or> off + 2 \<le> o' \<Longrightarrow> get32 (put16 d off v) o' = get32 d o'"
  "off + 4 \<le> length d \<Longrightarrow> o' + 2 \<le> off \<or> off + 4 \<le> o' \<Longrightarrow> get16 (put32 d off w) o' = get16 d o'"
  "off + 2 \<le> length d \<Longrightarrow> o' + 2 \<le> off \<or> off + 2 \<le> o' \<Longrightarrow> get16 (put16 d off v) o' = get16 d o'"
  by (simp_all add: get32_def get16_def put32_def put16_def window_patch_other)

end
