(* ===== verification/Log.thy ===== *)
theory Log
  imports Disk_Format
begin

text \<open>
  \<^verbatim>\<open>kernel/log.c\<close>: the redo log that makes the writes of a file system call reach the disk all
  together or not at all.
\<close>

section \<open>Data\<close>

abbreviation (input) LOGSIZE :: nat where "LOGSIZE \<equiv> 30"
abbreviation (input) MAXOPBLOCKS :: int where "MAXOPBLOCKS \<equiv> 10"

text \<open>\<^verbatim>\<open>struct log\<close>, with the fields of its \<^verbatim>\<open>struct logheader lh\<close>.\<close>

record log =
  lg_start :: cint
  lg_size :: cint
  outstanding :: cint
  committing :: cint
  lg_dev :: cint
  lh_n :: cint
  lh_block :: "nat \<Rightarrow> cint"

record logged = bcache +
  log :: log

definition upd_log :: "(log \<Rightarrow> log) \<Rightarrow> 'a logged_scheme \<Rightarrow> 'a logged_scheme" where
  "upd_log f s = s\<lparr>log := f (log s)\<rparr>"

text \<open>An access to \<^verbatim>\<open>log.lh.block[i]\<close>.\<close>

definition lh_at :: "nat \<Rightarrow> 'b res \<Rightarrow> 'b res" where
  "lh_at i r = (if i < LOGSIZE then r else Fault)"

text \<open>The rounds of \<^verbatim>\<open>for (i = 0; i < log.lh.n; i++)\<close>.\<close>

definition lh_range :: "'a logged_scheme \<Rightarrow> nat list" where
  "lh_range s = [0..<nat (sint (lh_n (log s)))]"

section \<open>Operations\<close>

text \<open>Copy one committed block from the log to its home location.\<close>

definition install_block :: "bool \<Rightarrow> nat \<Rightarrow> 'a logged_scheme \<Rightarrow> 'a logged_scheme res" where
  "install_block recovering tail s =
     res_bind (bread (lg_dev (log s)) (lg_start (log s) + of_nat tail + 1) s) (\<lambda>(lbuf, s).
     lh_at tail (res_bind (bread (lg_dev (log s)) (lh_block (log s) tail) s) (\<lambda>(dbuf, s).
     res_bind (bwrite dbuf (upd_buf dbuf (\<lambda>r. r\<lparr>b_data := b_data (buf s lbuf)\<rparr>) s)) (\<lambda>s.
     res_bind (if \<not> recovering then bunpin dbuf s else Ok s) (\<lambda>s.
     res_bind (brelse lbuf s) (brelse dbuf))))))"

definition install_trans :: "bool \<Rightarrow> 'a logged_scheme \<Rightarrow> 'a logged_scheme res" where
  "install_trans recovering s = mfold (install_block recovering) (lh_range s) s"

definition read_head :: "'a logged_scheme \<Rightarrow> 'a logged_scheme res" where
  "read_head s =
     res_bind (bread (lg_dev (log s)) (lg_start (log s)) s) (\<lambda>(b, s).
     let d = b_data (buf s b); s = upd_log (\<lambda>l. l\<lparr>lh_n := get32 d 0\<rparr>) s in
     res_bind
       (mfold (\<lambda>i s. lh_at i (Ok (upd_log (\<lambda>l. l\<lparr>lh_block := (lh_block l)(i := get32 d (4 + 4 * i))\<rparr>) s))) (lh_range s) s)
       (brelse b))"

definition write_head :: "'a logged_scheme \<Rightarrow> 'a logged_scheme res" where
  "write_head s =
     res_bind (bread (lg_dev (log s)) (lg_start (log s)) s) (\<lambda>(b, s).
     res_bind
       (mfold (\<lambda>i d. lh_at i (Ok (put32 d (4 + 4 * i) (lh_block (log s) i)))) (lh_range s)
         (put32 (b_data (buf s b)) 0 (lh_n (log s)))) (\<lambda>d.
     res_bind (bwrite b (upd_buf b (\<lambda>r. r\<lparr>b_data := d\<rparr>) s)) (brelse b)))"

definition recover_from_log :: "'a logged_scheme \<Rightarrow> 'a logged_scheme res" where
  "recover_from_log s =
     res_bind (read_head s) (\<lambda>s.
     res_bind (install_trans True s) (\<lambda>s.
     write_head (upd_log (\<lambda>l. l\<lparr>lh_n := 0\<rparr>) s)))"

text \<open>\<^verbatim>\<open>sizeof(struct logheader)\<close> is 124, less than \<^verbatim>\<open>BSIZE\<close>.\<close>

definition initlog :: "uint \<Rightarrow> uint \<Rightarrow> uint \<Rightarrow> 'a logged_scheme \<Rightarrow> 'a logged_scheme res" where
  "initlog dev logstart nlog s =
     (if 4 + 4 * LOGSIZE \<ge> BSIZE then Panic ''initlog: too big logheader''
      else recover_from_log
        (upd_log (\<lambda>l. l\<lparr>lg_start := logstart, lg_size := nlog, lg_dev := dev\<rparr>) (initlock LogLock ''log'' s)))"

text \<open>One pass of the loop of \<^verbatim>\<open>begin_op\<close>, with the lock held; the arithmetic is on \<^verbatim>\<open>int\<close>.\<close>

definition begin_op_round :: "'a logged_scheme \<Rightarrow> (wait_result \<times> 'a logged_scheme) res" where
  "begin_op_round s =
     (if committing (log s) \<noteq> 0 then
        res_bind (sleep ChLog LogLock s) (\<lambda>(ie, s). Ok (Asleep ie, s))
      else if sint (lh_n (log s) + (outstanding (log s) + 1) * word_of_int MAXOPBLOCKS) > int LOGSIZE then
        res_bind (sleep ChLog LogLock s) (\<lambda>(ie, s). Ok (Asleep ie, s))
      else
        res_bind (release LogLock (upd_log (\<lambda>l. l\<lparr>outstanding := outstanding l + 1\<rparr>) s)) (\<lambda>s. Ok (Returned 0, s)))"

definition begin_op_start :: "'a logged_scheme \<Rightarrow> (wait_result \<times> 'a logged_scheme) res" where
  "begin_op_start s = res_bind (acquire LogLock s) begin_op_round"

definition begin_op_resume :: "nat \<Rightarrow> bool \<Rightarrow> 'a logged_scheme \<Rightarrow> (wait_result \<times> 'a logged_scheme) res" where
  "begin_op_resume p ie s = res_bind (sleep_return p LogLock ie s) begin_op_round"

text \<open>As its callers see it: it returns, or other processes run first.\<close>

definition begin_op :: "'a logged_scheme \<Rightarrow> 'a logged_scheme res" where
  "begin_op s = res_bind (begin_op_start s) (\<lambda>(r, s). case r of Returned _ \<Rightarrow> Ok s | Asleep _ \<Rightarrow> Blocked)"

text \<open>Copy one modified block from the cache to the log.\<close>

definition write_log_block :: "nat \<Rightarrow> 'a logged_scheme \<Rightarrow> 'a logged_scheme res" where
  "write_log_block tail s =
     res_bind (bread (lg_dev (log s)) (lg_start (log s) + of_nat tail + 1) s) (\<lambda>(to, s).
     lh_at tail (res_bind (bread (lg_dev (log s)) (lh_block (log s) tail) s) (\<lambda>(frm, s).
     res_bind (bwrite to (upd_buf to (\<lambda>r. r\<lparr>b_data := b_data (buf s frm)\<rparr>) s)) (\<lambda>s.
     res_bind (brelse frm s) (brelse to)))))"

definition write_log :: "'a logged_scheme \<Rightarrow> 'a logged_scheme res" where
  "write_log s = mfold write_log_block (lh_range s) s"

definition commit :: "'a logged_scheme \<Rightarrow> 'a logged_scheme res" where
  "commit s =
     (if 0 < sint (lh_n (log s)) then
        res_bind (write_log s) (\<lambda>s.
        res_bind (write_head s) (\<lambda>s.
        res_bind (install_trans False s) (\<lambda>s.
        write_head (upd_log (\<lambda>l. l\<lparr>lh_n := 0\<rparr>) s))))
      else Ok s)"

definition end_op :: "'a logged_scheme \<Rightarrow> 'a logged_scheme res" where
  "end_op s =
     res_bind (acquire LogLock s) (\<lambda>s.
     let s = upd_log (\<lambda>l. l\<lparr>outstanding := outstanding l - 1\<rparr>) s in
     if committing (log s) \<noteq> 0 then Panic ''log.committing''
     else if outstanding (log s) = 0 then
       res_bind (release LogLock (upd_log (\<lambda>l. l\<lparr>committing := 1\<rparr>) s)) (\<lambda>s.
       res_bind (commit s) (\<lambda>s.
       res_bind (acquire LogLock s) (\<lambda>s.
       res_bind (wakeup (Some ChLog) (upd_log (\<lambda>l. l\<lparr>committing := 0\<rparr>) s)) (release LogLock))))
     else res_bind (wakeup (Some ChLog) s) (release LogLock))"

definition log_write :: "nat \<Rightarrow> 'a logged_scheme \<Rightarrow> 'a logged_scheme res" where
  "log_write b s =
     res_bind (acquire LogLock s) (\<lambda>s.
     if sint (lh_n (log s)) \<ge> int LOGSIZE \<or> sint (lh_n (log s)) \<ge> sint (lg_size (log s) - 1)
     then Panic ''too big a transaction''
     else if sint (outstanding (log s)) < 1 then Panic ''log_write outside of trans''
     else
       let n = nat (sint (lh_n (log s)));
           i = (case find (\<lambda>i. lh_block (log s) i = b_blockno (buf s b)) (lh_range s) of None \<Rightarrow> n | Some i \<Rightarrow> i)
       in lh_at i (
         let s = upd_log (\<lambda>l. l\<lparr>lh_block := (lh_block l)(i := b_blockno (buf s b))\<rparr>) s in
         res_bind
           (if i = n then res_bind (bpin b s) (\<lambda>s. Ok (upd_log (\<lambda>l. l\<lparr>lh_n := lh_n l + 1\<rparr>) s)) else Ok s)
           (release LogLock)))"

end
