(* ===== verification/Log_Spec.thy ===== *)
theory Log_Spec
  imports Log
begin

text \<open>
  What the log guarantees: a commit writes a sequence of blocks, and if the machine stops
  after any number of these writes, recovery from the disk that is left gives the file
  system as it was before the transaction or as it is after it.
\<close>

section \<open>Sequences of block writes\<close>

type_synonym blocks = "uint \<Rightarrow> uchar list"

definition apply_writes :: "(uint \<times> uchar list) list \<Rightarrow> blocks \<Rightarrow> blocks" where
  "apply_writes ws D = fold (\<lambda>(n, d) E. E(n := d)) ws D"

lemma apply_writes_simps [simp]:
  "apply_writes [] D = D" "apply_writes ((n, d) # ws) D = apply_writes ws (D(n := d))"
  "apply_writes (vs @ ws) D = apply_writes ws (apply_writes vs D)"
  by (simp_all add: apply_writes_def)

lemma apply_writes_other: "n \<notin> fst ` set ws \<Longrightarrow> apply_writes ws D n = D n"
  by (induction ws arbitrary: D) auto

lemma apply_writes_distinct:
  "distinct (map fst ws) \<Longrightarrow> (n, d) \<in> set ws \<Longrightarrow> apply_writes ws D n = d"
proof (induction ws arbitrary: D)
  case (Cons w ws)
  then show ?case by (cases w) (force simp: apply_writes_other)
qed simp

text \<open>What a piece of the log code has done when it has written \<open>ws\<close>.\<close>

definition wrote :: "'a logged_scheme \<Rightarrow> (uint \<times> uchar list) list \<Rightarrow> 'a logged_scheme \<Rightarrow> bool" where
  "wrote s ws s' \<longleftrightarrow> bheld s' = Map.empty \<and> bview s' = apply_writes ws (bview s) \<and> disk s' = apply_writes ws (disk s) \<and>
     disk_writes s' = disk_writes s @ ws \<and> io_same s s'"

lemma wrote_trans: "wrote s vs t \<Longrightarrow> wrote t ws u \<Longrightarrow> wrote s (vs @ ws) u"
  using io_same_trans by (auto simp: wrote_def)

lemma io_same_log:
  assumes "io_same s s'"
  shows "log s' = log s"
proof -
  have "s'\<lparr>cpus := cpus s, proc := proc s, queue := queue s, slock := slock s, buf := buf s, disk := disk s,
    disk_writes := disk_writes s\<rparr> = s" using assms by (simp add: io_same_def)
  from arg_cong [OF this, of log] show ?thesis by simp
qed

lemma wrote_log: "wrote s ws s' \<Longrightarrow> log s' = log s"
  by (simp add: wrote_def io_same_log)

lemma io_inv_finite: "io_inv P s \<Longrightarrow> finite P"
proof -
  assume "io_inv P s"
  then obtain me where c: "cinv P me (slock s) (buf s) (disk s)" by (auto simp: io_inv_def)
  have "P \<subseteq> (\<lambda>i. b_blockno (buf s i)) ` {..<NBUF}" using cinvD(4) [OF c] by (force simp: caches_def)
  then show "finite P" by (rule finite_subset) simp
qed

section \<open>One block at a time\<close>

abbreviation log_blk :: "'a logged_scheme \<Rightarrow> nat \<Rightarrow> uint" where
  "log_blk s i \<equiv> lg_start (log s) + of_nat i + 1"

lemma write_log_block_run:
  assumes inv: "io_inv P s" and held: "bheld s = Map.empty" and dev: "lg_dev (log s) = ROOTDEV" and i: "i < LOGSIZE"
    and P: "lh_block (log s) i \<in> P" "log_blk s i \<notin> P" "card P < NBUF"
  shows "\<exists>s'. write_log_block i s = Ok s' \<and> io_inv P s' \<and> wrote s [(log_blk s i, bview s (lh_block (log s) i))] s'"
proof -
  let ?src = "lh_block (log s) i" and ?dst = "log_blk s i"
  have ne: "?src \<noteq> ?dst" using P by auto
  from bc.copy_block [OF inv held ne _ _ io_inv_finite [OF inv], of ?dst ?src] P ne obtain t s1 f s2 s3 where c:
    "bread ROOTDEV ?dst s = Ok (t, s1)" "bread ROOTDEV ?src s1 = Ok (f, s2)"
    "bwrite t (upd_buf t (\<lambda>r. r\<lparr>b_data := b_data (buf s2 f)\<rparr>) s2) = Ok s3" "io_same s s1" "io_same s s2" "io_same s s3"
    "io_inv P s3" "bheld s3 = [?dst \<mapsto> t, ?src \<mapsto> f]" "bview s3 = (bview s)(?dst := bview s ?src)"
    "disk s3 = (disk s)(?dst := bview s ?src)" "disk_writes s3 = disk_writes s @ [(?dst, bview s ?src)]" by auto
  from bc.put_two(2) [OF c(7,8)] ne P(1) c(9,10) obtain s4 s5 where p: "brelse f s3 = Ok s4" "brelse t s4 = Ok s5"
    "io_inv P s5" "bheld s5 = Map.empty" "bview s5 = bview s3" "disk s5 = disk s3" "disk_writes s5 = disk_writes s3" "io_same s3 s5"
    by auto
  have "log s1 = log s" by (rule io_same_log [OF c(4)])
  then have "write_log_block i s = Ok s5" using c(1,2,3) p(1,2) dev i by (simp add: write_log_block_def lh_at_def)
  then show ?thesis using c p io_same_trans [OF c(6) p(8)] by (simp add: wrote_def)
qed

lemma install_block_run:
  assumes inv: "io_inv P s" and held: "bheld s = Map.empty" and dev: "lg_dev (log s) = ROOTDEV" and i: "i < LOGSIZE"
    and P: "log_blk s i \<notin> P" "log_blk s i \<noteq> lh_block (log s) i" "Suc (card (P - {lh_block (log s) i})) < NBUF"
    and rec: "recovering \<longleftrightarrow> lh_block (log s) i \<notin> P"
  shows "\<exists>s'. install_block recovering i s = Ok s' \<and> io_inv (P - {lh_block (log s) i}) s' \<and>
    wrote s [(lh_block (log s) i, bview s (log_blk s i))] s'"
proof -
  let ?dst = "lh_block (log s) i" and ?src = "log_blk s i"
  have "(?dst \<in> P \<or> ?src \<in> P) \<and> card P < NBUF \<or> Suc (card P) < NBUF"
    using P(3) io_inv_finite [OF inv] by (cases "?dst \<in> P") (auto simp: card_Diff_singleton_if)
  from bc.copy_block [OF inv held P(2) this _ io_inv_finite [OF inv], of ?src ?dst] P(2) obtain l s1 d s2 s3 where c:
    "bread ROOTDEV ?src s = Ok (l, s1)" "bread ROOTDEV ?dst s1 = Ok (d, s2)"
    "bwrite d (upd_buf d (\<lambda>r. r\<lparr>b_data := b_data (buf s2 l)\<rparr>) s2) = Ok s3" "io_same s s1" "io_same s s2" "io_same s s3"
    "io_inv P s3" "bheld s3 = [?src \<mapsto> l, ?dst \<mapsto> d]" "bview s3 = (bview s)(?dst := bview s ?src)"
    "disk s3 = (disk s)(?dst := bview s ?src)" "disk_writes s3 = disk_writes s @ [(?dst, bview s ?src)]" by auto
  obtain s4 where u: "(if \<not> recovering then bunpin d s3 else Ok s3) = Ok s4" "io_inv (P - {?dst}) s4" "bheld s4 = bheld s3"
    "bview s4 = bview s3" "disk s4 = disk s3" "disk_writes s4 = disk_writes s3" "io_same s3 s4"
  proof (cases recovering)
    case True
    then show thesis using that [of s3] c(7) rec by (simp add: io_same_refl)
  next
    case False
    then show thesis using that bc.unpin_ok [OF c(7), of ?dst d] c(8) rec by auto
  qed
  have clean: "bview s ?src = disk s ?src" using bc.view_disk [OF inv P(1)] held by simp
  from bc.put_two(1) [OF u(2) u(3) [unfolded c(8)] P(2)] u(4,5) c(9,10) clean P(2) obtain s5 s6 where p:
    "brelse l s4 = Ok s5" "brelse d s5 = Ok s6" "io_inv (P - {?dst}) s6" "bheld s6 = Map.empty" "bview s6 = bview s4"
    "disk s6 = disk s4" "disk_writes s6 = disk_writes s4" "io_same s4 s6" by auto
  have "log s1 = log s" by (rule io_same_log [OF c(4)])
  then have "install_block recovering i s = Ok s6" using c(1,2,3) u(1) p(1,2) dev i by (simp add: install_block_def lh_at_def)
  then show ?thesis using c u p io_same_trans [OF io_same_trans [OF c(6) u(7)] p(8)] by (simp add: wrote_def)
qed

section \<open>The loops\<close>

abbreviation log_len :: "'a logged_scheme \<Rightarrow> nat" where
  "log_len s \<equiv> nat (sint (lh_n (log s)))"

text \<open>The blocks of the log lie just after its header.\<close>

definition log_area :: "uint \<Rightarrow> uint set" where
  "log_area st = {n. unat (n - st) \<le> LOGSIZE}"

lemma unat_log_blk: "i < LOGSIZE \<Longrightarrow> unat (st + of_nat i + 1 - st :: uint) = Suc i"
proof -
  assume i: "i < LOGSIZE"
  have "st + of_nat i + 1 - st = (of_nat (Suc i) :: uint)" by (simp add: algebra_simps)
  then show ?thesis using i by (simp add: unat_of_nat del: of_nat_Suc)
qed

lemma log_blk_in:
  assumes "i < LOGSIZE"
  shows "st + of_nat i + 1 \<in> log_area st" and "st + of_nat i + 1 \<noteq> st" and "st \<in> log_area st"
  using unat_log_blk [OF assms, of st] assms by (auto simp: log_area_def)

lemma log_blk_inj: "i < LOGSIZE \<Longrightarrow> j < LOGSIZE \<Longrightarrow> st + of_nat i + 1 = (st + of_nat j + 1 :: uint) \<Longrightarrow> i = j"
  using unat_log_blk [of i st] unat_log_blk [of j st] by auto

text \<open>The logged blocks are outside of the log.\<close>

definition homes_ok :: "'a logged_scheme \<Rightarrow> nat \<Rightarrow> bool" where
  "homes_ok s n \<longleftrightarrow> n \<le> LOGSIZE \<and> lg_dev (log s) = ROOTDEV \<and> (\<forall>i<n. lh_block (log s) i \<notin> log_area (lg_start (log s)))"

lemma homes_ok_neq: "homes_ok s n \<Longrightarrow> i < n \<Longrightarrow> j < n \<Longrightarrow> log_blk s i \<noteq> lh_block (log s) j"
  using log_blk_in(1) [of i "lg_start (log s)"] unfolding homes_ok_def by (metis order_less_le_trans)

lemma write_log_loop:
  assumes inv: "io_inv P s" "bheld s = Map.empty" "card P < NBUF" and ok: "homes_ok s n"
    and P: "\<And>i. i < n \<Longrightarrow> lh_block (log s) i \<in> P" "P \<inter> log_area (lg_start (log s)) = {}" and k: "k \<le> n"
  shows "\<exists>s'. mfold write_log_block [0..<k] s = Ok s' \<and> io_inv P s' \<and>
    wrote s (map (\<lambda>i. (log_blk s i, bview s (lh_block (log s) i))) [0..<k]) s'"
  using k
proof (induction k)
  case 0
  then show ?case using inv by (simp add: wrote_def io_same_refl)
next
  case (Suc k)
  then obtain t where t: "mfold write_log_block [0..<k] s = Ok t" "io_inv P t"
    "wrote s (map (\<lambda>i. (log_blk s i, bview s (lh_block (log s) i))) [0..<k]) t" by auto
  note lg = wrote_log [OF t(3)]
  have kn: "k < LOGSIZE" "k < n" using Suc.prems ok by (auto simp: homes_ok_def)
  have "log_blk s k \<notin> P" using P(2) log_blk_in(1) [OF kn(1)] by blast
  from write_log_block_run [OF t(2) _ _ kn(1), unfolded lg, OF _ _ P(1) [OF kn(2)] this inv(3)] t(3) ok obtain u where
    u: "write_log_block k t = Ok u" "io_inv P u" "wrote t [(log_blk s k, bview t (lh_block (log s) k))] u"
    by (auto simp: homes_ok_def wrote_def)
  have "log_blk s i \<noteq> lh_block (log s) k" if "i < k" for i using homes_ok_neq [OF ok, of i k] that kn(2) by simp
  then have "lh_block (log s) k \<notin> fst ` set (map (\<lambda>i. (log_blk s i, bview s (lh_block (log s) i))) [0..<k])"
    by (metis (no_types, lifting) atLeastLessThan_iff fst_conv imageE list.set_map set_upt)
  then have "bview t (lh_block (log s) k) = bview s (lh_block (log s) k)"
    using t(3) by (simp add: wrote_def apply_writes_other)
  then show ?case using t(1) u wrote_trans [OF t(3) u(3)] by (simp add: mfold_append)
qed

lemma install_loop:
  assumes inv: "io_inv P s" "bheld s = Map.empty" "Suc (card P) < NBUF \<or> \<not> recovering \<and> card P < NBUF" and ok: "homes_ok s n"
    and P: "P \<inter> log_area (lg_start (log s)) = {}"
      "\<And>i. i < n \<Longrightarrow> recovering \<longleftrightarrow> lh_block (log s) i \<notin> P - set (map (lh_block (log s)) [0..<i])" and k: "k \<le> n"
  shows "\<exists>s'. mfold (install_block recovering) [0..<k] s = Ok s' \<and> io_inv (P - set (map (lh_block (log s)) [0..<k])) s' \<and>
    wrote s (map (\<lambda>i. (lh_block (log s) i, bview s (log_blk s i))) [0..<k]) s'"
  using k
proof (induction k)
  case 0
  then show ?case using inv by (simp add: wrote_def io_same_refl)
next
  case (Suc k)
  let ?P = "P - set (map (lh_block (log s)) [0..<k])"
  from Suc obtain t where t: "mfold (install_block recovering) [0..<k] s = Ok t" "io_inv ?P t"
    "wrote s (map (\<lambda>i. (lh_block (log s) i, bview s (log_blk s i))) [0..<k]) t" by auto
  note lg = wrote_log [OF t(3)]
  have kn: "k < LOGSIZE" "k < n" using Suc.prems ok by (auto simp: homes_ok_def)
  have fin: "finite P" by (rule io_inv_finite [OF inv(1)])
  have nP: "log_blk s k \<notin> ?P" using P(1) log_blk_in(1) [OF kn(1)] by blast
  have card: "Suc (card (?P - {lh_block (log s) k})) < NBUF"
  proof (cases recovering)
    case True
    moreover have "card (?P - {lh_block (log s) k}) \<le> card P" by (rule card_mono [OF fin]) blast
    ultimately show ?thesis using inv(3) by linarith
  next
    case False
    then have "lh_block (log s) k \<in> ?P" using P(2) [OF kn(2)] by blast
    then have "Suc (card (?P - {lh_block (log s) k})) = card ?P" by (intro card_Suc_Diff1 finite_Diff fin)
    moreover have "card ?P \<le> card P" by (rule card_mono [OF fin]) blast
    ultimately show ?thesis using inv(3) False by linarith
  qed
  have dev: "bheld t = Map.empty" "lg_dev (log s) = ROOTDEV" using t(3) ok by (simp_all add: wrote_def homes_ok_def)
  from install_block_run [OF t(2) dev(1) _ kn(1), unfolded lg, OF dev(2) nP homes_ok_neq [OF ok kn(2) kn(2)] card P(2) [OF kn(2)]]
  obtain u where u: "install_block recovering k t = Ok u" "io_inv (?P - {lh_block (log s) k}) u"
    "wrote t [(lh_block (log s) k, bview t (log_blk s k))] u" by blast
  have "log_blk s k \<noteq> lh_block (log s) i" if "i < k" for i using homes_ok_neq [OF ok, of k i] that kn(2) by simp
  then have "log_blk s k \<notin> fst ` set (map (\<lambda>i. (lh_block (log s) i, bview s (log_blk s i))) [0..<k])"
    by (metis (no_types, lifting) atLeastLessThan_iff fst_conv imageE list.set_map set_upt)
  then have "bview t (log_blk s k) = bview s (log_blk s k)" using t(3) by (simp add: wrote_def apply_writes_other)
  moreover have "?P - {lh_block (log s) k} = P - set (map (lh_block (log s)) [0..<Suc k])" by auto
  ultimately show ?case using t(1) u wrote_trans [OF t(3) u(3)] by (simp add: mfold_append)
qed

section \<open>The header\<close>

lemma io_log_upd [simp]:
  "io_inv P (s\<lparr>log := l\<rparr>) = io_inv P s" "bheld (s\<lparr>log := l\<rparr>) = bheld s" "bview (s\<lparr>log := l\<rparr>) = bview s"
  by (simp_all add: io_inv_def ready_def table_ok_def quiet_def valid_priority_def paired_def lock_simps bheld_def bview_def)

lemma put_blocks:
  assumes "length d = BSIZE" and "k \<le> LOGSIZE"
  shows "\<exists>e. mfold (\<lambda>i d. lh_at i (Ok (put32 d (4 + 4 * i) (f i)))) [0..<k] d = Ok e \<and> length e = BSIZE \<and>
    get32 e 0 = get32 d 0 \<and> (\<forall>i<k. get32 e (4 + 4 * i) = f i)"
  using assms(2)
proof (induction k)
  case 0
  then show ?case using assms(1) by simp
next
  case (Suc k)
  then obtain e where e: "mfold (\<lambda>i d. lh_at i (Ok (put32 d (4 + 4 * i) (f i)))) [0..<k] d = Ok e" "length e = BSIZE"
    "get32 e 0 = get32 d 0" "\<forall>i<k. get32 e (4 + 4 * i) = f i" by auto
  let ?e = "put32 e (4 + 4 * k) (f k)"
  have len: "4 + 4 * k + 4 \<le> length e" using Suc.prems e(2) by simp
  have "get32 ?e (4 + 4 * i) = f i" if "i < Suc k" for i
    using that e(4) get32_put_other(1) [OF len, of "4 + 4 * i"] get32_put32_same [OF len] by (cases "i = k") auto
  moreover have "get32 ?e 0 = get32 d 0" using get32_put_other(1) [OF len, of 0] e(3) by simp
  ultimately show ?case using Suc.prems e(1,2) len by (simp add: mfold_append lh_at_def)
qed

lemma write_head_run:
  assumes inv: "io_inv P s" and held: "bheld s = Map.empty" and dev: "lg_dev (log s) = ROOTDEV" and n: "log_len s \<le> LOGSIZE"
    and P: "lg_start (log s) \<notin> P" "card P < NBUF"
  shows "\<exists>s' d. write_head s = Ok s' \<and> io_inv P s' \<and> wrote s [(lg_start (log s), d)] s' \<and> get32 d 0 = lh_n (log s) \<and>
    (\<forall>i<log_len s. get32 d (4 + 4 * i) = lh_block (log s) i)"
proof -
  let ?st = "lg_start (log s)"
  have len: "length (bview s ?st) = BSIZE" by (rule bc.view_size [OF inv])
  then obtain d where d: "mfold (\<lambda>i d. lh_at i (Ok (put32 d (4 + 4 * i) (lh_block (log s) i)))) [0..<log_len s]
      (put32 (bview s ?st) 0 (lh_n (log s))) = Ok d" "length d = BSIZE" "get32 d 0 = lh_n (log s)"
      "\<forall>i<log_len s. get32 d (4 + 4 * i) = lh_block (log s) i"
    using put_blocks [of "put32 (bview s ?st) 0 (lh_n (log s))", OF _ n] by auto
  from bc.get_ok [OF inv, of ?st] held P(2) obtain b s1 where g: "bread ROOTDEV ?st s = Ok (b, s1)" "io_inv P s1" "io_same s s1"
    "bheld s1 = [?st \<mapsto> b]" "bview s1 = bview s" by auto
  from bc.write_block [OF inv held P(2) d(2), of ?st] g obtain s2 s3 where w:
    "bwrite b (upd_buf b (\<lambda>r. r\<lparr>b_data := d\<rparr>) s1) = Ok s2" "brelse b s2 = Ok s3" "io_inv P s3" "bheld s3 = Map.empty"
    "bview s3 = (bview s)(?st := d)" "disk s3 = (disk s)(?st := d)" "disk_writes s3 = disk_writes s @ [(?st, d)]" "io_same s s3"
    by auto
  have "b_data (buf s1 b) = bview s ?st" using bc.held_data [OF g(2), of ?st b] g(4,5) by simp
  then have "write_head s = Ok s3" using g(1) w(1,2) d(1) dev io_same_log [OF g(3)] by (simp add: write_head_def lh_range_def)
  then show ?thesis using w d(3,4) by (intro exI [of _ s3] exI [of _ d]) (simp add: wrote_def)
qed

lemma read_blocks:
  assumes "k \<le> LOGSIZE"
  shows "mfold (\<lambda>i s. lh_at i (Ok (upd_log (\<lambda>l. l\<lparr>lh_block := (lh_block l)(i := f i)\<rparr>) s))) [0..<k] s =
    Ok (s\<lparr>log := (log s)\<lparr>lh_block := \<lambda>i. if i < k then f i else lh_block (log s) i\<rparr>\<rparr>)"
  using assms
proof (induction k)
  case (Suc k)
  have "(\<lambda>i. if i = k then f k else if i < k then f i else lh_block (log s) i) = (\<lambda>i. if i < Suc k then f i else lh_block (log s) i)"
    by (auto simp: less_Suc_eq)
  with Suc show ?case by (simp add: mfold_append lh_at_def upd_log_def cong: if_cong)
qed simp

lemma read_head_run:
  assumes inv: "io_inv P s" and held: "bheld s = Map.empty" and dev: "lg_dev (log s) = ROOTDEV"
    and P: "lg_start (log s) \<notin> P" "card P < NBUF" and n: "nat (sint (get32 (disk s (lg_start (log s))) 0)) \<le> LOGSIZE"
  shows "\<exists>s' l. read_head s = Ok s' \<and> io_inv P s' \<and> wrote (s\<lparr>log := l\<rparr>) [] s' \<and> lg_start l = lg_start (log s) \<and>
    lg_dev l = ROOTDEV \<and> lh_n l = get32 (disk s (lg_start (log s))) 0 \<and>
    (\<forall>i<nat (sint (lh_n l)). lh_block l i = get32 (disk s (lg_start (log s))) (4 + 4 * i))"
proof -
  let ?st = "lg_start (log s)"
  let ?d = "disk s ?st"
  let ?l = "(log s)\<lparr>lh_n := get32 ?d 0,
    lh_block := \<lambda>i. if i < nat (sint (get32 ?d 0)) then get32 ?d (4 + 4 * i) else lh_block (log s) i\<rparr>"
  have v: "bview s ?st = ?d" using bc.view_disk [OF inv P(1)] held by simp
  from bc.get_ok [OF inv, of ?st] held P(2) obtain b s1 where g: "bread ROOTDEV ?st s = Ok (b, s1)" "io_inv P s1" "io_same s s1"
    "bheld s1 = [?st \<mapsto> b]" "bview s1 = bview s" "disk s1 = disk s" "disk_writes s1 = disk_writes s" by auto
  have lg: "log s1 = log s" by (rule io_same_log [OF g(3)])
  have data: "b_data (buf s1 b) = ?d" using bc.held_data [OF g(2), of ?st b] g(4,5) v by simp
  let ?s1 = "s1\<lparr>log := ?l\<rparr>"
  have "io_inv P ?s1" "bheld ?s1 ?st = Some b" "bview ?s1 ?st = disk ?s1 ?st" using g v by simp_all
  from bc.put_ok [OF this(1,2)] this(3) obtain s2 where p: "brelse b ?s1 = Ok s2" "io_inv P s2"
    "bheld s2 = (bheld ?s1)(?st := None)" "bview s2 = bview ?s1" "disk s2 = disk ?s1" "disk_writes s2 = disk_writes ?s1"
    "io_same ?s1 s2" by auto
  have "io_same (s\<lparr>log := ?l\<rparr>) ?s1" using g(3) unfolding io_same_def by (cases s; cases s1) simp
  from io_same_trans [OF this p(7)] have "wrote (s\<lparr>log := ?l\<rparr>) [] s2" using p g by (simp add: wrote_def)
  moreover have "read_head s = Ok s2"
    using g(1) p(1) dev data lg n read_blocks [of "nat (sint (get32 ?d 0))" "\<lambda>i. get32 ?d (4 + 4 * i)" "upd_log (\<lambda>l. l\<lparr>lh_n := get32 ?d 0\<rparr>) s1"]
    by (simp add: read_head_def lh_range_def upd_log_def cong: if_cong)
  ultimately show ?thesis using p(2) dev by (intro exI [of _ s2] exI [of _ ?l]) simp
qed

section \<open>Commit and recovery\<close>

text \<open>A transaction ready to be committed: its blocks are pinned in the cache and outside of the log.\<close>

definition tx_ok :: "'a logged_scheme \<Rightarrow> bool" where
  "tx_ok s \<longleftrightarrow> io_inv (set (map (lh_block (log s)) [0..<log_len s])) s \<and> bheld s = Map.empty \<and> log_len s < LOGSIZE \<and>
     homes_ok s (log_len s) \<and> distinct (map (lh_block (log s)) [0..<log_len s])"

definition log_part :: "uint \<Rightarrow> (nat \<Rightarrow> uint) \<Rightarrow> nat \<Rightarrow> blocks \<Rightarrow> (uint \<times> uchar list) list" where
  "log_part st blk n V = map (\<lambda>i. (st + of_nat i + 1, V (blk i))) [0..<n]"

definition home_part :: "(nat \<Rightarrow> uint) \<Rightarrow> nat \<Rightarrow> blocks \<Rightarrow> (uint \<times> uchar list) list" where
  "home_part blk n V = map (\<lambda>i. (blk i, V (blk i))) [0..<n]"

lemma distinct_log_part: "n \<le> LOGSIZE \<Longrightarrow> distinct (map fst (log_part st blk n V))"
proof -
  assume n: "n \<le> LOGSIZE"
  have "inj_on (\<lambda>i. st + of_nat i + 1 :: uint) {0..<n}"
    by (rule inj_onI) (use n log_blk_inj [of _ _ st] in auto)
  then show ?thesis by (simp add: log_part_def distinct_map comp_def)
qed

lemma log_part_at: "n \<le> LOGSIZE \<Longrightarrow> i < n \<Longrightarrow> apply_writes (log_part st blk n V) D (st + of_nat i + 1) = V (blk i)"
  using distinct_log_part [of n st blk V] by (rule apply_writes_distinct) (auto simp: log_part_def)

lemma log_part_other:
  "n \<le> LOGSIZE \<Longrightarrow> b \<notin> log_area st \<or> b = st \<Longrightarrow> apply_writes (take k (log_part st blk n V)) D b = D b"
proof (rule apply_writes_other)
  assume n: "n \<le> LOGSIZE" and b: "b \<notin> log_area st \<or> b = st"
  have "b \<noteq> st + of_nat i + 1" if "i < n" for i
    using log_blk_in(1,2) [of i st] that n b by auto
  then have "b \<notin> (\<lambda>i. st + of_nat i + 1) ` {0..<n}" by (meson atLeastLessThan_iff imageE)
  then have "b \<notin> fst ` set (log_part st blk n V)" by (simp add: log_part_def image_image)
  then show "b \<notin> fst ` set (take k (log_part st blk n V))" using set_take_subset by fastforce
qed

lemma home_part_at:
  "distinct (map blk [0..<n]) \<Longrightarrow> b \<in> blk ` {..<n} \<Longrightarrow> apply_writes (home_part blk n V) D b = V b"
  by (rule apply_writes_distinct) (auto simp: home_part_def comp_def)

lemma home_part_other: "b \<notin> blk ` {..<n} \<Longrightarrow> apply_writes (take k (home_part blk n V)) D b = D b"
proof (rule apply_writes_other)
  assume "b \<notin> blk ` {..<n}"
  then have "b \<notin> fst ` set (home_part blk n V)" by (auto simp: home_part_def)
  then show "b \<notin> fst ` set (take k (home_part blk n V))" using set_take_subset by fastforce
qed

lemma commit_run:
  assumes tx: "tx_ok s" and n: "0 < log_len s"
  shows "\<exists>s' h1 h0 ws. commit s = Ok s' \<and> io_inv {} s' \<and> bheld s' = Map.empty \<and>
    ws = log_part (lg_start (log s)) (lh_block (log s)) (log_len s) (bview s) @ (lg_start (log s), h1) #
      home_part (lh_block (log s)) (log_len s) (bview s) @ [(lg_start (log s), h0)] \<and>
    disk s' = apply_writes ws (disk s) \<and> bview s' = apply_writes ws (bview s) \<and> disk_writes s' = disk_writes s @ ws \<and>
    get32 h1 0 = lh_n (log s) \<and> (\<forall>i<log_len s. get32 h1 (4 + 4 * i) = lh_block (log s) i) \<and> get32 h0 0 = 0"
proof -
  let ?n = "log_len s" and ?st = "lg_start (log s)" and ?blk = "lh_block (log s)"
  let ?P = "set (map ?blk [0..<?n])"
  have inv: "io_inv ?P s" "bheld s = Map.empty" and nl: "?n < LOGSIZE" and ok: "homes_ok s ?n" and dist: "distinct (map ?blk [0..<?n])"
    using tx by (simp_all add: tx_ok_def)
  have dev: "lg_dev (log s) = ROOTDEV" using ok by (simp add: homes_ok_def)
  have disj: "?P \<inter> log_area ?st = {}" using ok by (auto simp: homes_ok_def)
  have card: "card ?P < NBUF" using distinct_card [OF dist] nl by simp
  have st: "?st \<notin> ?P" using disj log_blk_in(3) [of 0 ?st] by auto
  obtain s1 where w: "mfold write_log_block [0..<?n] s = Ok s1" "io_inv ?P s1" "wrote s (log_part ?st ?blk ?n (bview s)) s1"
    using write_log_loop [OF inv card ok _ disj order_refl] unfolding log_part_def by auto
  note l1 = wrote_log [OF w(3)]
  have h1': "bheld s1 = Map.empty" "log_len s1 \<le> LOGSIZE" using w(3) l1 nl by (simp_all add: wrote_def)
  from write_head_run [OF w(2) h1'(1) _ h1'(2)] dev st card obtain s2 h1 where h: "write_head s1 = Ok s2" "io_inv ?P s2"
    "wrote s1 [(?st, h1)] s2" "get32 h1 0 = lh_n (log s)" "\<forall>i<?n. get32 h1 (4 + 4 * i) = ?blk i" unfolding l1 by blast
  note l2 = wrote_log [OF h(3), unfolded l1]
  have ok2: "homes_ok s2 ?n" "?P \<inter> log_area (lg_start (log s2)) = {}" "bheld s2 = Map.empty"
    using ok disj h(3) l2 by (simp_all add: homes_ok_def wrote_def)
  have pin: "False \<longleftrightarrow> lh_block (log s2) i \<notin> ?P - set (map (lh_block (log s2)) [0..<i])" if "i < ?n" for i
    using that dist unfolding l2 by (auto simp: distinct_conv_nth)
  from install_loop [OF h(2) ok2(3) _ ok2(1,2) pin order_refl] card obtain s3 where i: "mfold (install_block False) [0..<?n] s2 = Ok s3"
    "io_inv {} s3" "wrote s2 (map (\<lambda>i. (?blk i, bview s2 (?st + of_nat i + 1))) [0..<?n]) s3" unfolding l2 by auto
  have v2: "bview s2 (?st + of_nat i + 1) = bview s (?blk i)" if "i < ?n" for i
    using that nl w(3) h(3) log_part_at [of ?n i ?st ?blk "bview s"] log_blk_in(2) [of i ?st] by (simp add: wrote_def)
  have hp: "map (\<lambda>i. (?blk i, bview s2 (?st + of_nat i + 1))) [0..<?n] = home_part ?blk ?n (bview s)"
    unfolding home_part_def by (rule map_cong) (use v2 in simp_all)
  note l3 = wrote_log [OF i(3), unfolded l2]
  let ?s3 = "upd_log (\<lambda>l. l\<lparr>lh_n := 0\<rparr>) s3"
  have u: "io_inv {} ?s3" "bheld ?s3 = Map.empty" "lg_dev (log ?s3) = ROOTDEV" "log_len ?s3 \<le> LOGSIZE" "lg_start (log ?s3) = ?st"
    using i(2,3) dev l3 by (simp_all add: upd_log_def wrote_def)
  from write_head_run [OF u(1-4)] obtain s4 h0 where z: "write_head ?s3 = Ok s4" "io_inv {} s4" "wrote ?s3 [(?st, h0)] s4" "get32 h0 0 = 0"
    unfolding u(5) by (auto simp: upd_log_def)
  have "commit s = Ok s4" using n w(1) h(1) i(1) z(1)
    by (simp add: commit_def write_log_def install_trans_def lh_range_def l1 l2)
  moreover have "bheld s4 = Map.empty" using z(3) by (simp add: wrote_def)
  moreover have "disk s4 = apply_writes (log_part ?st ?blk ?n (bview s) @ (?st, h1) # home_part ?blk ?n (bview s) @ [(?st, h0)]) (disk s)"
    "bview s4 = apply_writes (log_part ?st ?blk ?n (bview s) @ (?st, h1) # home_part ?blk ?n (bview s) @ [(?st, h0)]) (bview s)"
    "disk_writes s4 = disk_writes s @ log_part ?st ?blk ?n (bview s) @ (?st, h1) # home_part ?blk ?n (bview s) @ [(?st, h0)]"
    using w(3) h(3) i(3) z(3) unfolding hp by (simp_all add: wrote_def upd_log_def)
  ultimately show ?thesis using z(2,4) h(4,5) by blast
qed

text \<open>The contents that recovery gives the disk \<open>D\<close>, the log header apart.\<close>

definition header_len :: "uint \<Rightarrow> blocks \<Rightarrow> nat" where
  "header_len st D = nat (sint (get32 (D st) 0))"

definition replay :: "uint \<Rightarrow> blocks \<Rightarrow> blocks" where
  "replay st D = apply_writes (map (\<lambda>i. (get32 (D st) (4 + 4 * i), D (st + of_nat i + 1))) [0..<header_len st D]) D"

definition header_ok :: "uint \<Rightarrow> blocks \<Rightarrow> bool" where
  "header_ok st D \<longleftrightarrow> header_len st D \<le> LOGSIZE \<and> (\<forall>i<header_len st D. get32 (D st) (4 + 4 * i) \<notin> log_area st)"

lemma recover_run:
  assumes inv: "io_inv {} s" and held: "bheld s = Map.empty" and dev: "lg_dev (log s) = ROOTDEV"
    and hdr: "header_ok (lg_start (log s)) (disk s)"
  shows "\<exists>s' h. recover_from_log s = Ok s' \<and> io_inv {} s' \<and> bheld s' = Map.empty \<and> get32 h 0 = 0 \<and>
    disk s' = (replay (lg_start (log s)) (disk s))(lg_start (log s) := h)"
proof -
  let ?st = "lg_start (log s)" and ?D = "disk s"
  let ?n = "header_len ?st ?D"
  have n: "?n \<le> LOGSIZE" using hdr by (simp add: header_ok_def)
  from read_head_run [OF inv held dev] n obtain s1 l where r: "read_head s = Ok s1" "io_inv {} s1" "wrote (s\<lparr>log := l\<rparr>) [] s1"
    "lg_start l = ?st" "lg_dev l = ROOTDEV" "lh_n l = get32 (?D ?st) 0" "\<forall>i<?n. lh_block l i = get32 (?D ?st) (4 + 4 * i)"
    unfolding header_len_def by auto
  have l1: "log s1 = l" using wrote_log [OF r(3)] by simp
  have h1: "bheld s1 = Map.empty" "bview s1 = bview s" "disk s1 = ?D" using r(3) by (simp_all add: wrote_def)
  have ok: "homes_ok s1 ?n" using hdr r(4,5,7) l1 by (auto simp: homes_ok_def header_ok_def)
  from install_loop [OF r(2) h1(1) _ ok _ _ order_refl, of True] obtain s2 where i: "mfold (install_block True) [0..<?n] s1 = Ok s2"
    "io_inv {} s2" "wrote s1 (map (\<lambda>i. (lh_block l i, bview s1 (?st + of_nat i + 1))) [0..<?n]) s2"
    unfolding l1 r(4) by auto
  have v: "bview s b = ?D b" for b using bc.view_disk [OF inv] held by simp
  have ws: "map (\<lambda>i. (lh_block l i, bview s1 (?st + of_nat i + 1))) [0..<?n] =
      map (\<lambda>i. (get32 (?D ?st) (4 + 4 * i), ?D (?st + of_nat i + 1))) [0..<?n]"
    using r(7) h1(2) v by simp
  let ?s2 = "upd_log (\<lambda>l. l\<lparr>lh_n := 0\<rparr>) s2"
  have l2: "log s2 = l" using wrote_log [OF i(3)] l1 by simp
  have u: "io_inv {} ?s2" "bheld ?s2 = Map.empty" "lg_dev (log ?s2) = ROOTDEV" "log_len ?s2 \<le> LOGSIZE" "lg_start (log ?s2) = ?st"
    using i(2,3) l2 r(4,5) by (simp_all add: upd_log_def wrote_def)
  from write_head_run [OF u(1-4)] obtain s3 h where z: "write_head ?s2 = Ok s3" "io_inv {} s3" "wrote ?s2 [(?st, h)] s3" "get32 h 0 = 0"
    unfolding u(5) by (auto simp: upd_log_def)
  have "recover_from_log s = Ok s3" using r(1,6) i(1) z(1) l1
    by (simp add: recover_from_log_def install_trans_def lh_range_def header_len_def)
  moreover have "disk s3 = (replay ?st ?D)(?st := h)"
    using i(3) z(3) h1(3) unfolding ws by (simp add: wrote_def replay_def upd_log_def)
  moreover have "bheld s3 = Map.empty" using z(3) by (simp add: wrote_def)
  ultimately show ?thesis using z(2,4) by blast
qed

lemma replay_empty: "header_len st D = 0 \<Longrightarrow> replay st D = D \<and> header_ok st D"
  by (simp add: replay_def header_ok_def)

lemma replay_committed:
  assumes n: "n \<le> LOGSIZE" and dist: "distinct (map blk [0..<n])" and out: "\<And>i. i < n \<Longrightarrow> blk i \<notin> log_area st"
    and h: "nat (sint (get32 (E st) 0)) = n" "\<And>i. i < n \<Longrightarrow> get32 (E st) (4 + 4 * i) = blk i"
    and E: "\<And>i. i < n \<Longrightarrow> E (st + of_nat i + 1) = V (blk i)"
  shows "header_ok st E" and "replay st E b = (if b \<in> blk ` {..<n} then V b else E b)"
proof -
  have len: "header_len st E = n" using h(1) by (simp add: header_len_def)
  show "header_ok st E" unfolding header_ok_def len using n h(2) out by simp
  have "replay st E = apply_writes (home_part blk n V) E"
    unfolding replay_def len home_part_def using h(2) E by (intro arg_cong2 [where f = apply_writes] map_cong) auto
  then show "replay st E b = (if b \<in> blk ` {..<n} then V b else E b)"
    using home_part_at [OF dist] home_part_other [of b blk n n V E] by (simp add: home_part_def)
qed

text \<open>What recovery makes of the disk after any prefix of the writes of a commit.\<close>

lemma crash_prefix:
  assumes n: "n \<le> LOGSIZE" and dist: "distinct (map blk [0..<n])" and out: "\<And>i. i < n \<Longrightarrow> blk i \<notin> log_area st"
    and old: "header_len st D = 0" and same: "\<And>b. b \<notin> blk ` {..<n} \<Longrightarrow> V b = D b"
    and h: "nat (sint (get32 h1 0)) = n" "\<And>i. i < n \<Longrightarrow> get32 h1 (4 + 4 * i) = blk i" "get32 h0 0 = 0"
    and ws: "ws = log_part st blk n V @ (st, h1) # home_part blk n V @ [(st, h0)]"
    and E: "E = apply_writes (take k ws) D"
  shows "header_ok st E \<and> (\<forall>b. b \<notin> log_area st \<longrightarrow> replay st E b = (if k \<le> n then D b else V b))"
proof -
  have len: "length (log_part st blk n V) = n" "length (home_part blk n V) = n" by (simp_all add: log_part_def home_part_def)
  have st: "st \<in> log_area st" by (simp add: log_area_def)
  then have st': "st \<notin> blk ` {..<n}" using out by blast
  let ?L = "apply_writes (log_part st blk n V) D"
  consider "k \<le> n" | "n < k" "k \<le> Suc (n + n)" | "Suc (n + n) < k" by linarith
  then show ?thesis
  proof cases
    case 1
    then have e: "E = apply_writes (take k (log_part st blk n V)) D" unfolding E ws using len by simp
    then have "header_len st E = 0" using old log_part_other [OF n, of st st] by (simp add: header_len_def)
    then show ?thesis using replay_empty [of st E] 1 log_part_other [OF n] e by auto
  next
    case 2
    then obtain j where j: "k = Suc (n + j)" "j \<le> n" by (metis Suc_le_mono add_le_cancel_left less_iff_Suc_add)
    then have e: "E = apply_writes (take j (home_part blk n V)) (?L(st := h1))" unfolding E ws using len by simp
    have est: "E st = h1" using home_part_other [OF st'] e by simp
    have elog: "E (st + of_nat i + 1) = V (blk i)" if "i < n" for i
    proof -
      have "st + of_nat i + 1 \<in> log_area st" "st + of_nat i + 1 \<noteq> st" using log_blk_in(1,2) [of i st] that n by auto
      then have "st + of_nat i + 1 \<notin> blk ` {..<n}" using out by auto
      then show ?thesis using home_part_other e log_part_at [OF n that, of st blk V] \<open>st + of_nat i + 1 \<noteq> st\<close> by simp
    qed
    note r = replay_committed [OF n dist out, of E V]
    have "header_ok st E" "\<And>b. replay st E b = (if b \<in> blk ` {..<n} then V b else E b)"
      using r h(1,2) elog unfolding est by auto
    moreover have "E b = V b" if "b \<notin> log_area st" "b \<notin> blk ` {..<n}" for b
      using home_part_other [OF that(2)] log_part_other [OF n, of b st n blk V D] that st e same [OF that(2)] len(1) by auto
    ultimately show ?thesis using 2(1) by simp
  next
    case 3
    then have e: "E = (apply_writes (home_part blk n V) (?L(st := h1)))(st := h0)" unfolding E ws using len by simp
    then have "header_len st E = 0" using h(3) by (simp add: header_len_def)
    moreover have "E b = V b" if "b \<notin> log_area st" for b
    proof (cases "b \<in> blk ` {..<n}")
      case True
      then show ?thesis using home_part_at [OF dist True] e that st by auto
    next
      case False
      have "b \<noteq> st" using that st by blast
      then show ?thesis using home_part_other [OF False, of n V "?L(st := h1)"] log_part_other [OF n, of b st n blk V D] that e same [OF False] len by simp
    qed
    ultimately show ?thesis using replay_empty [of st E] 3 by simp
  qed
qed

section \<open>Recording a block in the transaction\<close>

abbreviation log_blocks :: "'a logged_scheme \<Rightarrow> uint list" where
  "log_blocks s \<equiv> map (lh_block (log s)) [0..<log_len s]"

lemma logged_comm [simp]:
  "log (inside lk s) = log s" "log (relock s) = log s"
  "inside lk (s\<lparr>log := l\<rparr>) = (inside lk s)\<lparr>log := l\<rparr>" "relock (s\<lparr>log := l\<rparr>) = (relock s)\<lparr>log := l\<rparr>"
  by (simp_all add: inside_def relock_def)

lemma bpin_eq:
  assumes "hart_ok s" and "lock_free BcacheLock s"
  shows "bpin b s = Ok ((relock s)\<lparr>buf := (buf s)(b := (buf s b)\<lparr>b_refcnt := b_refcnt (buf s b) + 1\<rparr>)\<rparr>)"
  by (simp add: bpin_def) (subst critical_buf [OF assms], auto simp: upd_buf_def)

lemma release_log:
  assumes "hart_ok s" and "lock_free LogLock s"
  shows "release LogLock ((inside LogLock s)\<lparr>buf := B, log := l\<rparr>) = Ok ((relock s)\<lparr>buf := B, log := l\<rparr>)"
proof -
  have "release LogLock ((inside LogLock s)\<lparr>buf := B, log := l\<rparr>) =
      Ok (((inside LogLock s)\<lparr>buf := B, log := l\<rparr>)\<lparr>sie := sie s, cpus := cpus (relock s), spin := spin s\<rparr>)"
    by (rule release_inside [OF assms]) simp_all
  then show ?thesis by (simp add: inside_def relock_def)
qed

text \<open>Room for one more block, inside a transaction.\<close>

definition log_room :: "'a logged_scheme \<Rightarrow> bool" where
  "log_room s \<longleftrightarrow> lock_free LogLock s \<and> 0 \<le> sint (lh_n (log s)) \<and> sint (lh_n (log s)) < 29 \<and>
     sint (lh_n (log s)) < sint (lg_size (log s) - 1) \<and> 1 \<le> sint (outstanding (log s))"

lemma sint_Suc: "0 \<le> sint (x :: 32 word) \<Longrightarrow> sint x < 1000 \<Longrightarrow> sint (x + 1) = sint x + 1"
  by (simp add: sint_word_ariths signed_take_bit_int_eq_self)

lemma log_write_new:
  assumes inv: "io_inv P s" and held: "bheld s n = Some b" and room: "log_room s" and new: "n \<notin> set (log_blocks s)" "n \<notin> P"
  shows "\<exists>s'. log_write b s = Ok s' \<and> io_inv (insert n P) s' \<and> bheld s' = bheld s \<and> bview s' = bview s \<and> disk s' = disk s \<and>
    disk_writes s' = disk_writes s \<and> io_same (s\<lparr>log := log s'\<rparr>) s' \<and> log_blocks s' = log_blocks s @ [n] \<and>
    log s' = (log s)\<lparr>lh_n := lh_n (log s) + 1, lh_block := (lh_block (log s))(log_len s := n)\<rparr>"
proof -
  let ?l = "(log s)\<lparr>lh_block := (lh_block (log s))(log_len s := n)\<rparr>"
  let ?l' = "?l\<lparr>lh_n := lh_n (log s) + 1\<rparr>"
  let ?B = "(buf s)(b := (buf s b)\<lparr>b_refcnt := b_refcnt (buf s b) + 1\<rparr>)"
  obtain p where p: "ready p s" and c: "cinv P (pid (proc s p)) (slock s) (buf s) (disk s)"
    using inv by (auto simp: io_inv_def)
  have bn: "b_blockno (buf s b) = n" using bheld_owned(1) [OF p c held] by (simp add: caches_def)
  have h: "hart_ok s" "lock_free BcacheLock s" "lock_free LogLock s"
    using p room by (simp_all add: ready_def table_ok_hart log_room_def)
  from bc.pin_ok [OF inv held new(2)] bpin_eq [OF h(1,2), of b] obtain s1 where s1: "s1 = (relock s)\<lparr>buf := ?B\<rparr>"
    "io_inv (insert n P) s1" "bheld s1 = bheld s" "bview s1 = bview s" "disk s1 = disk s" "disk_writes s1 = disk_writes s" "io_same s s1"
    by auto
  have in_h: "hart_ok ((inside LogLock s)\<lparr>log := ?l\<rparr>)" "lock_free BcacheLock ((inside LogLock s)\<lparr>log := ?l\<rparr>)"
    using h by (simp_all add: lock_simps) (simp_all add: inside_def)
  have "bpin b ((inside LogLock s)\<lparr>log := ?l\<rparr>) = Ok ((inside LogLock s)\<lparr>buf := ?B, log := ?l\<rparr>)"
    using bpin_eq [OF in_h, of b] h(1) by simp
  moreover have "find (\<lambda>i. lh_block (log s) i = n) [0..<log_len s] = None" using new(1) by (auto simp: find_None_iff)
  moreover have n: "log_len s < LOGSIZE" "\<not> sint (lh_n (log s)) \<ge> int LOGSIZE" "\<not> sint (lh_n (log s)) \<ge> sint (lg_size (log s) - 1)"
    "\<not> sint (outstanding (log s)) < 1" using room by (auto simp: log_room_def)
  ultimately have "log_write b s = Ok (s1\<lparr>log := ?l'\<rparr>)"
    using h release_log [OF h(1,3), where B = ?B and l = ?l'] bn unfolding s1(1)
    by (simp add: log_write_def acquire_free lh_range_def upd_log_def lh_at_def Let_def)
  moreover have "io_same (s\<lparr>log := ?l'\<rparr>) (s1\<lparr>log := ?l'\<rparr>)" using s1(7) unfolding io_same_def by (cases s; cases s1) simp
  moreover have "log_blocks (s1\<lparr>log := ?l'\<rparr>) = log_blocks s @ [n]"
    using sint_Suc [of "lh_n (log s)"] room by (simp add: log_room_def nat_add_distrib)
  ultimately show ?thesis using s1(2-6) by (intro exI [of _ "s1\<lparr>log := ?l'\<rparr>"]) simp
qed

text \<open>
  The use that \<^verbatim>\<open>log.c\<close> recommends: read a block, change it, record it in the
  transaction, release it.
\<close>

definition update_block :: "uint \<Rightarrow> uchar list \<Rightarrow> 'a logged_scheme \<Rightarrow> 'a logged_scheme res" where
  "update_block n d s =
     res_bind (bread ROOTDEV n s) (\<lambda>(b, s). res_bind (log_write b (upd_buf b (\<lambda>r. r\<lparr>b_data := d\<rparr>) s)) (brelse b))"

lemma io_same_lock: "io_same s s' \<Longrightarrow> lock_free lk s' = lock_free lk s"
proof -
  assume "io_same s s'"
  then have "s'\<lparr>cpus := cpus s, proc := proc s, queue := queue s, slock := slock s, buf := buf s, disk := disk s,
    disk_writes := disk_writes s\<rparr> = s" by (simp add: io_same_def)
  from arg_cong [OF this, of spin] show ?thesis by (simp add: lock_simps)
qed

lemma update_block_new:
  assumes tx: "tx_ok s" and room: "log_room s" and n: "n \<notin> set (log_blocks s)" "n \<notin> log_area (lg_start (log s))"
    and d: "length d = BSIZE"
  shows "\<exists>s'. update_block n d s = Ok s' \<and> tx_ok s' \<and> log_blocks s' = log_blocks s @ [n] \<and> bview s' = (bview s)(n := d) \<and>
    disk s' = disk s \<and> lg_start (log s') = lg_start (log s)"
proof -
  let ?P = "set (log_blocks s)"
  have inv: "io_inv ?P s" "bheld s = Map.empty" and ok: "homes_ok s (log_len s)" and dist: "distinct (log_blocks s)"
    using tx by (simp_all add: tx_ok_def)
  have len: "log_len s < 29" using room by (auto simp: log_room_def)
  then have "card ?P < NBUF" using distinct_card [OF dist] by simp
  with bc.get_ok [OF inv(1), of n] inv(2) obtain b s1 where g: "bread ROOTDEV n s = Ok (b, s1)" "io_inv ?P s1" "bheld s1 = [n \<mapsto> b]"
    "bview s1 = bview s" "disk s1 = disk s" "io_same s s1" by auto
  let ?s1 = "upd_buf b (\<lambda>r. r\<lparr>b_data := d\<rparr>) s1"
  from bc.set_ok [OF g(2) _ d, of n b] g(3) have st: "io_inv ?P ?s1" "bheld ?s1 = [n \<mapsto> b]" "bview ?s1 = (bview s)(n := d)"
    "disk ?s1 = disk s" "io_same s1 ?s1" using g(4,5) by auto
  have l1: "log ?s1 = log s" using io_same_log [OF st(5)] io_same_log [OF g(6)] by simp
  have "log_room ?s1" using room io_same_lock [OF io_same_trans [OF g(6) st(5)]] unfolding log_room_def l1 by simp
  from log_write_new [OF st(1) _ this, of n b] st(2) n(1) l1 obtain s2 where w: "log_write b ?s1 = Ok s2" "io_inv (insert n ?P) s2"
    "bheld s2 = [n \<mapsto> b]" "bview s2 = (bview s)(n := d)" "disk s2 = disk s" "log_blocks s2 = log_blocks s @ [n]"
    "log s2 = (log s)\<lparr>lh_n := lh_n (log s) + 1, lh_block := (lh_block (log s))(log_len s := n)\<rparr>"
    unfolding st(3,4) by auto
  from bc.put_ok [OF w(2), of n b] w(3) obtain s3 where p: "brelse b s2 = Ok s3" "io_inv (insert n ?P) s3" "bheld s3 = Map.empty"
    "bview s3 = bview s2" "disk s3 = disk s2" "io_same s2 s3" by auto
  have l3: "log s3 = log s2" by (rule io_same_log [OF p(6)])
  have bl: "log_blocks s3 = log_blocks s @ [n]" unfolding l3 by (rule w(6))
  have ln: "log_len s3 = Suc (log_len s)" using arg_cong [OF bl, of length] by simp
  have "homes_ok s3 (log_len s3)" unfolding ln
    using ok n(2) len by (auto simp: homes_ok_def l3 w(7) less_Suc_eq)
  then have "tx_ok s3" unfolding tx_ok_def bl using p(2,3) dist n(1) ln len by simp
  then show ?thesis using g(1) w(1,4,5,7) p(1,4,5) bl l3 by (intro exI [of _ s3]) (simp add: update_block_def)
qed

section \<open>Crash safety\<close>

text \<open>
  Property C1. A transaction is atomic: a commit succeeds and, wherever the machine stops in the sequence \<open>ws\<close> of
  block writes it makes, recovery at the next boot succeeds and leaves every block outside
  of the log as it was before the transaction if the header had not been written yet, and
  with all updates of the transaction otherwise. A commit that is not interrupted leaves
  the updates on the disk and nothing pinned.
\<close>

theorem commit_crash_safe:
  assumes "tx_ok s" and "0 < log_len s" and "header_len (lg_start (log s)) (disk s) = 0"
  shows "\<exists>s' ws. commit s = Ok s' \<and> io_inv {} s' \<and> disk_writes s' = disk_writes s @ ws \<and>
    (\<forall>b. b \<notin> log_area (lg_start (log s)) \<longrightarrow> disk s' b = bview s b \<and> bview s' b = bview s b) \<and>
    (\<forall>k t. io_inv {} t \<and> bheld t = Map.empty \<and> lg_dev (log t) = ROOTDEV \<and> lg_start (log t) = lg_start (log s) \<and>
        disk t = apply_writes (take k ws) (disk s) \<longrightarrow>
      (\<exists>t'. recover_from_log t = Ok t' \<and> io_inv {} t' \<and>
        (\<forall>b. b \<notin> log_area (lg_start (log s)) \<longrightarrow> disk t' b = (if k \<le> log_len s then disk s b else bview s b))))"
proof -
  let ?n = "log_len s" and ?st = "lg_start (log s)" and ?blk = "lh_block (log s)"
  from commit_run [OF assms(1,2)] obtain s' h1 h0 ws where c: "commit s = Ok s'" "io_inv {} s'" "bheld s' = Map.empty"
    "ws = log_part ?st ?blk ?n (bview s) @ (?st, h1) # home_part ?blk ?n (bview s) @ [(?st, h0)]"
    "disk s' = apply_writes ws (disk s)" "disk_writes s' = disk_writes s @ ws"
    "get32 h1 0 = lh_n (log s)" "\<forall>i<?n. get32 h1 (4 + 4 * i) = ?blk i" "get32 h0 0 = 0" by blast
  have same: "bview s b = disk s b" if "b \<notin> ?blk ` {..<?n}" for b
    by (rule bc.view_disk [where P = "set (log_blocks s)"]) (use assms(1) that in \<open>auto simp: tx_ok_def\<close>)
  have tx: "?n \<le> LOGSIZE" "distinct (log_blocks s)" "\<And>i. i < ?n \<Longrightarrow> ?blk i \<notin> log_area ?st"
    using assms(1) by (auto simp: tx_ok_def homes_ok_def)
  note crash = crash_prefix [OF tx assms(3) same _ _ c(9,4) refl]
  have cr: "header_ok ?st (apply_writes (take k ws) (disk s)) \<and>
      (\<forall>b. b \<notin> log_area ?st \<longrightarrow> replay ?st (apply_writes (take k ws) (disk s)) b = (if k \<le> ?n then disk s b else bview s b))" for k
    by (rule crash) (use c(7,8) in auto)
  have "header_len ?st (disk s') = 0" unfolding c(5) c(4) using c(9) by (simp add: header_len_def)
  then have fin: "disk s' b = bview s b" if "b \<notin> log_area ?st" for b
    using cr [of "length ws"] that replay_empty [of ?st "disk s'"] arg_cong [OF c(4), of length] unfolding c(5)
    by (simp add: log_part_def home_part_def)
  have v: "bview s' b = disk s' b" for b using bc.view_disk [OF c(2)] c(3) by simp
  have rec: "\<exists>t'. recover_from_log t = Ok t' \<and> io_inv {} t' \<and>
      (\<forall>b. b \<notin> log_area ?st \<longrightarrow> disk t' b = (if k \<le> ?n then disk s b else bview s b))"
    if t: "io_inv {} t" "bheld t = Map.empty" "lg_dev (log t) = ROOTDEV" "lg_start (log t) = ?st"
      "disk t = apply_writes (take k ws) (disk s)" for k t
  proof -
    have "?st \<in> log_area ?st" by (simp add: log_area_def)
    then show ?thesis using recover_run [OF t(1-3)] cr [of k] unfolding t(4,5) by force
  qed
  show ?thesis
  proof (intro exI [of _ s'] exI [of _ ws] conjI allI impI)
    fix k t
    assume "io_inv {} t \<and> bheld t = Map.empty \<and> lg_dev (log t) = ROOTDEV \<and> lg_start (log t) = ?st \<and>
        disk t = apply_writes (take k ws) (disk s)"
    then show "\<exists>t'. recover_from_log t = Ok t' \<and> io_inv {} t' \<and>
        (\<forall>b. b \<notin> log_area ?st \<longrightarrow> disk t' b = (if k \<le> ?n then disk s b else bview s b))"
      using rec [of t k] by blast
  qed (use c(1,2,6) fin v in simp_all)
qed


text \<open>A machine with a formatted log at block 2, in the middle of a system call.\<close>

definition boot_logged :: logged where
  "boot_logged = binit (bcache.extend (raw_disk (\<lambda>_. replicate BSIZE 0))
     \<lparr>log = \<lparr>lg_start = 2, lg_size = 30, outstanding = 1, committing = 0, lg_dev = ROOTDEV, lh_n = 0, lh_block = \<lambda>_. 0\<rparr>\<rparr>)"

lemma boot_logged_ok:
  "tx_ok boot_logged" "log_room boot_logged" "lg_start (log boot_logged) = 2" "disk boot_logged = (\<lambda>_. replicate BSIZE 0)"
  "log_blocks boot_logged = []" "bview boot_logged = (\<lambda>_. replicate BSIZE 0)" "io_inv {} boot_logged" "bheld boot_logged = Map.empty"
  "lg_dev (log boot_logged) = ROOTDEV"
proof -
  let ?s = "bcache.extend (raw_disk (\<lambda>_. replicate BSIZE 0))
     \<lparr>log = \<lparr>lg_start = 2, lg_size = 30, outstanding = 1, committing = 0, lg_dev = ROOTDEV, lh_n = 0, lh_block = \<lambda>_. 0\<rparr>\<rparr>"
  have "ready 1 ?s" "\<And>lk. lock_free lk ?s" "\<And>i. b_dev (buf ?s i) = 0 \<and> b_valid (buf ?s i) = 0 \<and> b_refcnt (buf ?s i) = 0"
    "\<And>n. length (disk ?s n) = BSIZE" and d: "disk ?s = (\<lambda>_. replicate BSIZE 0)"
    by (simp_all add: ready_def raw_disk_def table_ok_def quiet_def valid_priority_def paired_def lock_simps lock_waiter_def
      boot_procs_def idle_proc_def physmem.defs procs.defs sleeps.defs bcache.defs boot_mem_def zero_buf_def)
  note b = binit_io_inv [OF this(1-4), folded boot_logged_def, unfolded d] binit_ok(2,3) [OF this(2-4), folded boot_logged_def]
  from b(6) obtain k L B where e: "boot_logged = ?s\<lparr>spin := k, slock := L, buf := B\<rparr>" by blast
  have l: "log boot_logged = log ?s" using arg_cong [OF e, of log] by simp
  show "lg_start (log boot_logged) = 2" "lg_dev (log boot_logged) = ROOTDEV" "log_blocks boot_logged = []"
    unfolding l by (simp_all add: bcache.defs)
  show "log_room boot_logged" using b(5) [of LogLock] unfolding log_room_def l by (simp add: bcache.defs)
  show "tx_ok boot_logged" using b(1,2) unfolding tx_ok_def homes_ok_def l by (simp add: bcache.defs)
  show "disk boot_logged = (\<lambda>_. replicate BSIZE 0)" "bview boot_logged = (\<lambda>_. replicate BSIZE 0)" "io_inv {} boot_logged"
    "bheld boot_logged = Map.empty" using b(1-4) by simp_all
qed

theorem commit_crash_safe_witness:
  "\<exists>s s' (t :: logged) t' ws. update_block 45 (replicate BSIZE 7) boot_logged = Ok s \<and> commit s = Ok s' \<and>
    disk_writes s' = disk_writes s @ ws \<and> disk t = apply_writes (take 0 ws) (disk s) \<and> recover_from_log t = Ok t' \<and>
    disk t' 45 = replicate BSIZE 0 \<and> disk s' 45 = replicate BSIZE 7"
proof -
  have "45 \<notin> log_area (lg_start (log boot_logged))" unfolding boot_logged_ok(3) by (simp add: log_area_def)
  then obtain s where s: "update_block 45 (replicate BSIZE 7) boot_logged = Ok s" "tx_ok s" "log_blocks s = [45]"
    "bview s = (bview boot_logged)(45 := replicate BSIZE 7)" "disk s = disk boot_logged" "lg_start (log s) = 2"
    using update_block_new [OF boot_logged_ok(1,2), of 45 "replicate BSIZE 7"] unfolding boot_logged_ok(3,5) by auto
  have len: "log_len s = 1" using arg_cong [OF s(3), of length] by simp
  have get0: "get32 (replicate BSIZE 0) 0 = 0" by (simp add: get32_def take_replicate numeral_eq_Suc)
  have hdr: "header_len (lg_start (log s)) (disk s) = 0" unfolding header_len_def s(5) boot_logged_ok(4) get0 by simp
  have area: "45 \<notin> log_area (lg_start (log s))" unfolding s(6) by (simp add: log_area_def)
  have "0 < log_len s" using len by simp
  from commit_crash_safe [OF s(2) this hdr] obtain s' ws where c: "commit s = Ok s'" "disk_writes s' = disk_writes s @ ws"
    and v: "\<forall>b. b \<notin> log_area (lg_start (log s)) \<longrightarrow> disk s' b = bview s b \<and> bview s' b = bview s b"
    and r: "\<forall>k (t :: logged). io_inv {} t \<and> bheld t = Map.empty \<and> lg_dev (log t) = ROOTDEV \<and> lg_start (log t) = lg_start (log s) \<and>
        disk t = apply_writes (take k ws) (disk s) \<longrightarrow>
      (\<exists>t'. recover_from_log t = Ok t' \<and> io_inv {} t' \<and>
        (\<forall>b. b \<notin> log_area (lg_start (log s)) \<longrightarrow> disk t' b = (if k \<le> log_len s then disk s b else bview s b)))"
    by blast
  have "disk boot_logged = apply_writes (take 0 ws) (disk s)" using s(5) by simp
  with r [rule_format, of boot_logged 0] boot_logged_ok(3,7,8,9) s(6) obtain t' where t: "recover_from_log boot_logged = Ok t'"
    "\<forall>b. b \<notin> log_area (lg_start (log s)) \<longrightarrow> disk t' b = (if 0 \<le> log_len s then disk s b else bview s b)" by auto
  have "disk t' 45 = disk s 45" "disk s' 45 = bview s 45" using t(2) v area by auto
  then have "disk boot_logged = apply_writes (take 0 ws) (disk s) \<and> disk t' 45 = replicate BSIZE 0 \<and> disk s' 45 = replicate BSIZE 7"
    using s(4,5) boot_logged_ok(4) by simp
  then show ?thesis using s(1) c t(1) by blast
qed

end
