(* ===== verification/Fs.thy ===== *)
theory Fs
  imports Log
begin

text \<open>
  \<^verbatim>\<open>kernel/fs.c\<close>: the layers of the file system above the log: block allocation, inodes and
  their contents, directories, path names. In-memory inodes are indices into
  \<^verbatim>\<open>itable.inode[]\<close>, a pointer that may be null is an \<open>option\<close>; local buffers of the
  kernel are byte lists, and a C string is the list of its characters with or without what
  follows its terminator.
\<close>

unbundle bit_operations_syntax

section \<open>Data (kernel/fs.h, kernel/file.h, kernel/stat.h)\<close>

abbreviation (input) NINODE :: nat where "NINODE \<equiv> 50"
abbreviation (input) NDIRECT :: nat where "NDIRECT \<equiv> 12"
abbreviation (input) NINDIRECT :: nat where "NINDIRECT \<equiv> 256"
abbreviation (input) MAXFILE :: nat where "MAXFILE \<equiv> NDIRECT + NINDIRECT"
abbreviation (input) IPB :: nat where "IPB \<equiv> 16"
abbreviation (input) BPB :: nat where "BPB \<equiv> 8192"
abbreviation (input) DIRSIZ :: nat where "DIRSIZ \<equiv> 14"
abbreviation (input) DIRENT :: nat where "DIRENT \<equiv> 16"
abbreviation (input) ROOTINO :: uint where "ROOTINO \<equiv> 1"
abbreviation (input) FSMAGIC :: uint where "FSMAGIC \<equiv> 0x10203040"
abbreviation (input) T_DIR :: "16 word" where "T_DIR \<equiv> 1"
abbreviation (input) T_FILE :: "16 word" where "T_FILE \<equiv> 2"
abbreviation (input) T_DEVICE :: "16 word" where "T_DEVICE \<equiv> 3"
abbreviation (input) SLASH :: uchar where "SLASH \<equiv> 0x2f"

record superblock =
  sb_magic :: uint
  sb_size :: uint
  sb_nblocks :: uint
  sb_ninodes :: uint
  sb_nlog :: uint
  sb_logstart :: uint
  sb_inodestart :: uint
  sb_bmapstart :: uint

text \<open>\<^verbatim>\<open>struct inode\<close>; its lock is \<open>InodeSl i\<close>.\<close>

record inode =
  i_dev :: uint
  i_inum :: uint
  i_ref :: cint
  i_valid :: cint
  i_type :: "16 word"
  i_major :: "16 word"
  i_minor :: "16 word"
  i_nlink :: "16 word"
  i_size :: uint
  i_addrs :: "nat \<Rightarrow> uint"

record fsys = logged +
  sb :: superblock
  inode :: "nat \<Rightarrow> inode"

definition upd_inode :: "nat \<Rightarrow> (inode \<Rightarrow> inode) \<Rightarrow> 'a fsys_scheme \<Rightarrow> 'a fsys_scheme" where
  "upd_inode i f s = s\<lparr>inode := (inode s)(i := f (inode s i))\<rparr>"

definition set_data :: "nat \<Rightarrow> uchar list \<Rightarrow> 'a fsys_scheme \<Rightarrow> 'a fsys_scheme" where
  "set_data b d = upd_buf b (\<lambda>r. r\<lparr>b_data := d\<rparr>)"

definition IBLOCK :: "uint \<Rightarrow> 'a fsys_scheme \<Rightarrow> uint" where
  "IBLOCK i s = i div of_nat IPB + sb_inodestart (sb s)"

definition BBLOCK :: "uint \<Rightarrow> 'a fsys_scheme \<Rightarrow> uint" where
  "BBLOCK b s = b div of_nat BPB + sb_bmapstart (sb s)"

section \<open>Super block and initialisation\<close>

definition readsb :: "uint \<Rightarrow> 'a fsys_scheme \<Rightarrow> 'a fsys_scheme res" where
  "readsb dev s =
     res_bind (bread dev 1 s) (\<lambda>(bp, s).
     let d = b_data (buf s bp) in
     brelse bp (s\<lparr>sb := \<lparr>sb_magic = get32 d 0, sb_size = get32 d 4, sb_nblocks = get32 d 8, sb_ninodes = get32 d 12,
       sb_nlog = get32 d 16, sb_logstart = get32 d 20, sb_inodestart = get32 d 24, sb_bmapstart = get32 d 28\<rparr>\<rparr>))"

definition fsinit :: "uint \<Rightarrow> 'a fsys_scheme \<Rightarrow> 'a fsys_scheme res" where
  "fsinit dev s =
     res_bind (readsb dev s) (\<lambda>s.
       if sb_magic (sb s) \<noteq> FSMAGIC then Panic ''invalid file system''
       else initlog dev (sb_logstart (sb s)) (sb_nlog (sb s)) s)"

section \<open>Blocks\<close>

definition bzero :: "uint \<Rightarrow> uint \<Rightarrow> 'a fsys_scheme \<Rightarrow> 'a fsys_scheme res" where
  "bzero dev bno s =
     res_bind (bread dev bno s) (\<lambda>(bp, s).
     res_bind (log_write bp (set_data bp (replicate BSIZE 0) s)) (brelse bp))"

text \<open>Bit \<open>bi\<close> of a bitmap block.\<close>

definition bit_set :: "uchar list \<Rightarrow> nat \<Rightarrow> bool" where
  "bit_set d bi \<longleftrightarrow> d ! (bi div 8) AND push_bit (bi mod 8) 1 \<noteq> 0"

definition mark_bit :: "uchar list \<Rightarrow> nat \<Rightarrow> uchar list" where
  "mark_bit d bi = d[bi div 8 := d ! (bi div 8) OR push_bit (bi mod 8) 1]"

definition clear_bit :: "uchar list \<Rightarrow> nat \<Rightarrow> uchar list" where
  "clear_bit d bi = d[bi div 8 := d ! (bi div 8) AND NOT (push_bit (bi mod 8) 1)]"

text \<open>The loops of \<^verbatim>\<open>balloc\<close>: over the bitmap blocks, and over the bits of a block.\<close>

definition balloc_blocks :: "'a fsys_scheme \<Rightarrow> nat list" where
  "balloc_blocks s = map (\<lambda>k. BPB * k) [0..<(unat (sb_size (sb s)) + (BPB - 1)) div BPB]"

definition balloc_block :: "uint \<Rightarrow> nat \<Rightarrow> 'a fsys_scheme \<Rightarrow> (uint option \<times> 'a fsys_scheme) res" where
  "balloc_block dev b s =
     res_bind (bread dev (BBLOCK (of_nat b) s) s) (\<lambda>(bp, s).
     case find (\<lambda>bi. \<not> bit_set (b_data (buf s bp)) bi) [0..<min BPB (unat (sb_size (sb s)) - b)] of
       Some bi \<Rightarrow>
         res_bind (log_write bp (set_data bp (mark_bit (b_data (buf s bp)) bi) s)) (\<lambda>s.
         res_bind (brelse bp s) (\<lambda>s.
         res_bind (bzero dev (of_nat (b + bi)) s) (\<lambda>s. Ok (Some (of_nat (b + bi)), s))))
     | None \<Rightarrow> res_bind (brelse bp s) (\<lambda>s. Ok (None, s)))"

definition balloc :: "uint \<Rightarrow> 'a fsys_scheme \<Rightarrow> (uint \<times> 'a fsys_scheme) res" where
  "balloc dev s =
     res_bind (mloop (balloc_block dev) (balloc_blocks s) s)
       (\<lambda>(r, s). case r of Some b \<Rightarrow> Ok (b, s) | None \<Rightarrow> Panic ''balloc: out of blocks'')"

definition bfree :: "uint \<Rightarrow> uint \<Rightarrow> 'a fsys_scheme \<Rightarrow> 'a fsys_scheme res" where
  "bfree dev b s =
     res_bind (bread dev (BBLOCK b s) s) (\<lambda>(bp, s).
     let bi = unat b mod BPB in
     if \<not> bit_set (b_data (buf s bp)) bi then Panic ''freeing free block''
     else res_bind (log_write bp (set_data bp (clear_bit (b_data (buf s bp)) bi) s)) (brelse bp))"

section \<open>Inodes\<close>

definition iinit :: "'a fsys_scheme \<Rightarrow> 'a fsys_scheme" where
  "iinit s = fold (\<lambda>i s. initsleeplock (InodeSl i) ''inode'' s) [0..<NINODE] (initlock ItableLock ''itable'' s)"

definition iget :: "uint \<Rightarrow> uint \<Rightarrow> 'a fsys_scheme \<Rightarrow> (nat \<times> 'a fsys_scheme) res" where
  "iget dev inum =
     critical ItableLock (\<lambda>s.
       case find (\<lambda>i. 0 < sint (i_ref (inode s i)) \<and> i_dev (inode s i) = dev \<and> i_inum (inode s i) = inum) [0..<NINODE] of
         Some i \<Rightarrow> Ok (i, upd_inode i (\<lambda>r. r\<lparr>i_ref := i_ref r + 1\<rparr>) s)
       | None \<Rightarrow>
           (case find (\<lambda>i. i_ref (inode s i) = 0) [0..<NINODE] of
              None \<Rightarrow> Panic ''iget: no inodes''
            | Some i \<Rightarrow> Ok (i, upd_inode i (\<lambda>r. r\<lparr>i_dev := dev, i_inum := inum, i_ref := 1, i_valid := 0\<rparr>) s)))"

text \<open>The offset of a \<^verbatim>\<open>struct dinode\<close> in its block, and its fields.\<close>

definition dinode_off :: "uint \<Rightarrow> nat" where
  "dinode_off inum = 64 * (unat inum mod IPB)"

definition put_dinode :: "inode \<Rightarrow> uchar list \<Rightarrow> nat \<Rightarrow> uchar list" where
  "put_dinode ip d o' =
     fold (\<lambda>i d. put32 d (o' + 12 + 4 * i) (i_addrs ip i)) [0..<NDIRECT + 1]
       (put32 (put16 (put16 (put16 (put16 d o' (i_type ip)) (o' + 2) (i_major ip)) (o' + 4) (i_minor ip)) (o' + 6) (i_nlink ip))
         (o' + 8) (i_size ip))"

definition get_dinode :: "uchar list \<Rightarrow> nat \<Rightarrow> inode \<Rightarrow> inode" where
  "get_dinode d o' ip =
     ip\<lparr>i_type := get16 d o', i_major := get16 d (o' + 2), i_minor := get16 d (o' + 4), i_nlink := get16 d (o' + 6),
        i_size := get32 d (o' + 8), i_addrs := \<lambda>i. if i < NDIRECT + 1 then get32 d (o' + 12 + 4 * i) else i_addrs ip i\<rparr>"

definition ialloc :: "uint \<Rightarrow> 16 word \<Rightarrow> 'a fsys_scheme \<Rightarrow> (nat \<times> 'a fsys_scheme) res" where
  "ialloc dev type s =
     res_bind
       (mloop (\<lambda>inum s.
          res_bind (bread dev (IBLOCK (of_nat inum) s) s) (\<lambda>(bp, s).
          let o' = dinode_off (of_nat inum) in
          if get16 (b_data (buf s bp)) o' = 0 then
            res_bind (log_write bp (set_data bp (put16 (patch (b_data (buf s bp)) o' (replicate 64 0)) o' type) s)) (\<lambda>s.
            res_bind (brelse bp s) (\<lambda>s.
            res_bind (iget dev (of_nat inum) s) (\<lambda>(ip, s). Ok (Some ip, s))))
          else res_bind (brelse bp s) (\<lambda>s. Ok (None, s))))
        [1..<unat (sb_ninodes (sb s))] s)
       (\<lambda>(r, s). case r of Some ip \<Rightarrow> Ok (ip, s) | None \<Rightarrow> Panic ''ialloc: no inodes'')"

definition iupdate :: "nat \<Rightarrow> 'a fsys_scheme \<Rightarrow> 'a fsys_scheme res" where
  "iupdate ip s =
     res_bind (bread (i_dev (inode s ip)) (IBLOCK (i_inum (inode s ip)) s) s) (\<lambda>(bp, s).
     res_bind
       (log_write bp (set_data bp (put_dinode (inode s ip) (b_data (buf s bp)) (dinode_off (i_inum (inode s ip)))) s))
       (brelse bp))"

definition idup :: "nat option \<Rightarrow> 'a fsys_scheme \<Rightarrow> (nat \<times> 'a fsys_scheme) res" where
  "idup ip s =
     (case ip of None \<Rightarrow> Fault
      | Some i \<Rightarrow> critical ItableLock (\<lambda>s. Ok (i, upd_inode i (\<lambda>r. r\<lparr>i_ref := i_ref r + 1\<rparr>) s)) s)"

definition ilock :: "nat option \<Rightarrow> 'a fsys_scheme \<Rightarrow> 'a fsys_scheme res" where
  "ilock ip s =
     (case ip of None \<Rightarrow> Panic ''ilock''
      | Some i \<Rightarrow>
          if sint (i_ref (inode s i)) < 1 then Panic ''ilock''
          else res_bind (acquiresleep (InodeSl i) s) (\<lambda>s.
            if i_valid (inode s i) = 0 then
              res_bind (bread (i_dev (inode s i)) (IBLOCK (i_inum (inode s i)) s) s) (\<lambda>(bp, s).
              let s = upd_inode i (get_dinode (b_data (buf s bp)) (dinode_off (i_inum (inode s i)))) s in
              res_bind (brelse bp s) (\<lambda>s.
              let s = upd_inode i (\<lambda>r. r\<lparr>i_valid := 1\<rparr>) s in
              if i_type (inode s i) = 0 then Panic ''ilock: no type'' else Ok s))
            else Ok s))"

definition iunlock :: "nat option \<Rightarrow> 'a fsys_scheme \<Rightarrow> 'a fsys_scheme res" where
  "iunlock ip s =
     (case ip of None \<Rightarrow> Panic ''iunlock''
      | Some i \<Rightarrow>
          res_bind (holdingsleep (InodeSl i) s) (\<lambda>(h, s).
            if \<not> h \<or> sint (i_ref (inode s i)) < 1 then Panic ''iunlock'' else releasesleep (InodeSl i) s))"

section \<open>Inode contents\<close>

text \<open>\<^verbatim>\<open>ip->addrs[i]\<close>: the block of index \<open>i\<close>, allocated when it is missing.\<close>

definition bmap_addr :: "nat \<Rightarrow> nat \<Rightarrow> 'a fsys_scheme \<Rightarrow> (uint \<times> 'a fsys_scheme) res" where
  "bmap_addr ip i s =
     (if i_addrs (inode s ip) i = 0 then
        res_bind (balloc (i_dev (inode s ip)) s) (\<lambda>(a, s).
          Ok (a, upd_inode ip (\<lambda>r. r\<lparr>i_addrs := (i_addrs r)(i := a)\<rparr>) s))
      else Ok (i_addrs (inode s ip) i, s))"

definition bmap :: "nat \<Rightarrow> nat \<Rightarrow> 'a fsys_scheme \<Rightarrow> (uint \<times> 'a fsys_scheme) res" where
  "bmap ip bn s =
     (if bn < NDIRECT then bmap_addr ip bn s
      else if bn - NDIRECT < NINDIRECT then
        res_bind (bmap_addr ip NDIRECT s) (\<lambda>(addr, s).
        res_bind (bread (i_dev (inode s ip)) addr s) (\<lambda>(bp, s).
        let o' = 4 * (bn - NDIRECT); a = get32 (b_data (buf s bp)) o' in
        res_bind
          (if a = 0 then
             res_bind (balloc (i_dev (inode s ip)) s) (\<lambda>(a, s).
             res_bind (log_write bp (set_data bp (put32 (b_data (buf s bp)) o' a) s)) (\<lambda>s. Ok (a, s)))
           else Ok (a, s)) (\<lambda>(a, s).
        res_bind (brelse bp s) (\<lambda>s. Ok (a, s)))))
      else Panic ''bmap: out of range'')"

definition itrunc :: "nat \<Rightarrow> 'a fsys_scheme \<Rightarrow> 'a fsys_scheme res" where
  "itrunc ip s =
     res_bind
       (mfold (\<lambda>i s.
          if i_addrs (inode s ip) i \<noteq> 0 then
            res_bind (bfree (i_dev (inode s ip)) (i_addrs (inode s ip) i) s) (\<lambda>s.
              Ok (upd_inode ip (\<lambda>r. r\<lparr>i_addrs := (i_addrs r)(i := 0)\<rparr>) s))
          else Ok s) [0..<NDIRECT] s) (\<lambda>s.
     res_bind
       (if i_addrs (inode s ip) NDIRECT \<noteq> 0 then
          res_bind (bread (i_dev (inode s ip)) (i_addrs (inode s ip) NDIRECT) s) (\<lambda>(bp, s).
          res_bind
            (mfold (\<lambda>j s.
               let a = get32 (b_data (buf s bp)) (4 * j) in
               if a \<noteq> 0 then bfree (i_dev (inode s ip)) a s else Ok s) [0..<NINDIRECT] s) (\<lambda>s.
          res_bind (brelse bp s) (\<lambda>s.
          res_bind (bfree (i_dev (inode s ip)) (i_addrs (inode s ip) NDIRECT) s) (\<lambda>s.
            Ok (upd_inode ip (\<lambda>r. r\<lparr>i_addrs := (i_addrs r)(NDIRECT := 0)\<rparr>) s)))))
        else Ok s) (\<lambda>s.
     iupdate ip (upd_inode ip (\<lambda>r. r\<lparr>i_size := 0\<rparr>) s)))"

definition iput :: "nat option \<Rightarrow> 'a fsys_scheme \<Rightarrow> 'a fsys_scheme res" where
  "iput ip s =
     (case ip of None \<Rightarrow> Fault
      | Some i \<Rightarrow>
          res_bind (acquire ItableLock s) (\<lambda>s.
          res_bind
            (if i_ref (inode s i) = 1 \<and> i_valid (inode s i) \<noteq> 0 \<and> i_nlink (inode s i) = 0 then
               res_bind (acquiresleep (InodeSl i) s) (\<lambda>s.
               res_bind (release ItableLock s) (\<lambda>s.
               res_bind (itrunc i s) (\<lambda>s.
               res_bind (iupdate i (upd_inode i (\<lambda>r. r\<lparr>i_type := 0\<rparr>) s)) (\<lambda>s.
               res_bind (releasesleep (InodeSl i) (upd_inode i (\<lambda>r. r\<lparr>i_valid := 0\<rparr>) s))
                 (acquire ItableLock)))))
             else Ok s) (\<lambda>s.
          release ItableLock (upd_inode i (\<lambda>r. r\<lparr>i_ref := i_ref r - 1\<rparr>) s))))"

definition iunlockput :: "nat option \<Rightarrow> 'a fsys_scheme \<Rightarrow> 'a fsys_scheme res" where
  "iunlockput ip s = res_bind (iunlock ip s) (iput ip)"

text \<open>The 24 bytes of \<^verbatim>\<open>struct stat\<close>; the four bytes of padding are those of the stack.\<close>

definition stati :: "uchar list \<Rightarrow> inode \<Rightarrow> uchar list" where
  "stati pad ip =
     bytes32 (i_dev ip) @ bytes32 (i_inum ip) @ bytes16 (i_type ip) @ bytes16 (i_nlink ip) @ take 4 pad @
     bytes64 (ucast (i_size ip))"

text \<open>
  The loop of \<^verbatim>\<open>readi\<close>: \<open>rest\<close> bytes still to read, \<open>tot\<close> already read. \<open>sink\<close> is what
  becomes of the bytes: a copy to user or kernel memory, or, when the destination is a local
  variable of the kernel, their collection in a list.
\<close>

function readi_loop ::
  "('b \<Rightarrow> nat \<Rightarrow> uchar list \<Rightarrow> 'a fsys_scheme \<Rightarrow> (int \<times> 'b \<times> 'a fsys_scheme) res) \<Rightarrow> nat \<Rightarrow> uint \<Rightarrow> nat \<Rightarrow> nat \<Rightarrow> 'b \<Rightarrow>
   'a fsys_scheme \<Rightarrow> (cint \<times> 'b \<times> 'a fsys_scheme) res" where
  "readi_loop sink ip off rest tot acc s =
     (if rest = 0 then Ok (of_nat tot, acc, s)
      else
        res_bind (bmap ip (unat off div BSIZE) s) (\<lambda>(addr, s).
        res_bind (bread (i_dev (inode s ip)) addr s) (\<lambda>(bp, s).
        let m = min rest (BSIZE - unat off mod BSIZE) in
        res_bind (sink acc tot (take m (drop (unat off mod BSIZE) (b_data (buf s bp)))) s) (\<lambda>(r, acc, s).
        res_bind (brelse bp s) (\<lambda>s.
          if r = - 1 then Ok (- 1, acc, s)
          else readi_loop sink ip (off + of_nat m) (rest - m) (tot + m) acc s)))))"
  by pat_completeness auto
termination
  by (relation "measure (\<lambda>(_, _, _, rest, _). rest)") (auto simp: min_def)

definition readi_with ::
  "('b \<Rightarrow> nat \<Rightarrow> uchar list \<Rightarrow> 'a fsys_scheme \<Rightarrow> (int \<times> 'b \<times> 'a fsys_scheme) res) \<Rightarrow> nat \<Rightarrow> uint \<Rightarrow> uint \<Rightarrow> 'b \<Rightarrow>
   'a fsys_scheme \<Rightarrow> (cint \<times> 'b \<times> 'a fsys_scheme) res" where
  "readi_with sink ip off n acc s =
     (if off > i_size (inode s ip) \<or> off + n < off then Ok (0, acc, s)
      else
        let n = (if off + n > i_size (inode s ip) then i_size (inode s ip) - off else n) in
        readi_loop sink ip off (unat n) 0 acc s)"

definition readi :: "nat \<Rightarrow> bool \<Rightarrow> uint64 \<Rightarrow> uint \<Rightarrow> uint \<Rightarrow> 'a fsys_scheme \<Rightarrow> (cint \<times> 'a fsys_scheme) res" where
  "readi ip user_dst dst off n s =
     res_bind
       (readi_with (\<lambda>_ tot bs s. res_bind (either_copyout user_dst (dst + of_nat tot) bs s) (\<lambda>(r, s). Ok (r, (), s)))
         ip off n () s)
       (\<lambda>(r, _, s). Ok (r, s))"

text \<open>Reading into a local variable.\<close>

definition readi_local :: "nat \<Rightarrow> uint \<Rightarrow> uint \<Rightarrow> 'a fsys_scheme \<Rightarrow> (cint \<times> uchar list \<times> 'a fsys_scheme) res" where
  "readi_local ip off n s = readi_with (\<lambda>acc _ bs s. Ok (0, acc @ bs, s)) ip off n [] s"

text \<open>
  The loop of \<^verbatim>\<open>writei\<close>; \<open>source\<close> delivers the bytes, and on an error those that
  \<^verbatim>\<open>either_copyin\<close> had stored in the buffer before it failed. The result is the number of
  bytes written and the offset reached.
\<close>

function writei_loop ::
  "(nat \<Rightarrow> nat \<Rightarrow> 'a fsys_scheme \<Rightarrow> (int \<times> uchar list \<times> 'a fsys_scheme) res) \<Rightarrow> nat \<Rightarrow> uint \<Rightarrow> nat \<Rightarrow> nat \<Rightarrow>
   'a fsys_scheme \<Rightarrow> (nat \<times> uint \<times> 'a fsys_scheme) res" where
  "writei_loop source ip off rest tot s =
     (if rest = 0 then Ok (tot, off, s)
      else
        res_bind (bmap ip (unat off div BSIZE) s) (\<lambda>(addr, s).
        res_bind (bread (i_dev (inode s ip)) addr s) (\<lambda>(bp, s).
        let m = min rest (BSIZE - unat off mod BSIZE) in
        res_bind (source tot m s) (\<lambda>(r, bs, s).
        let s = set_data bp (patch (b_data (buf s bp)) (unat off mod BSIZE) bs) s in
        if r = - 1 then res_bind (brelse bp s) (\<lambda>s. Ok (tot, off, s))
        else
          res_bind (log_write bp s) (\<lambda>s.
          res_bind (brelse bp s) (writei_loop source ip (off + of_nat m) (rest - m) (tot + m)))))))"
  by pat_completeness auto
termination
  by (relation "measure (\<lambda>(_, _, _, rest, _). rest)") (auto simp: min_def)

definition writei_with ::
  "(nat \<Rightarrow> nat \<Rightarrow> 'a fsys_scheme \<Rightarrow> (int \<times> uchar list \<times> 'a fsys_scheme) res) \<Rightarrow> nat \<Rightarrow> uint \<Rightarrow> uint \<Rightarrow>
   'a fsys_scheme \<Rightarrow> (cint \<times> 'a fsys_scheme) res" where
  "writei_with source ip off n s =
     (if off > i_size (inode s ip) \<or> off + n < off then Ok (- 1, s)
      else if off + n > of_nat (MAXFILE * BSIZE) then Ok (- 1, s)
      else
        res_bind (writei_loop source ip off (unat n) 0 s) (\<lambda>(tot, off, s).
        let s = (if off > i_size (inode s ip) then upd_inode ip (\<lambda>r. r\<lparr>i_size := off\<rparr>) s else s) in
        res_bind (iupdate ip s) (\<lambda>s. Ok (of_nat tot, s))))"

definition writei :: "nat \<Rightarrow> bool \<Rightarrow> uint64 \<Rightarrow> uint \<Rightarrow> uint \<Rightarrow> 'a fsys_scheme \<Rightarrow> (cint \<times> 'a fsys_scheme) res" where
  "writei ip user_src src = writei_with (\<lambda>tot m. either_copyin user_src (src + of_nat tot) m) ip"

definition writei_local :: "nat \<Rightarrow> uchar list \<Rightarrow> uint \<Rightarrow> uint \<Rightarrow> 'a fsys_scheme \<Rightarrow> (cint \<times> 'a fsys_scheme) res" where
  "writei_local ip d = writei_with (\<lambda>tot m s. Ok (0, take m (drop tot d), s)) ip"

section \<open>Directories\<close>

text \<open>\<^verbatim>\<open>strncmp\<close> and \<^verbatim>\<open>strncpy\<close> (\<^verbatim>\<open>kernel/string.c\<close>) on local buffers.\<close>

definition ch :: "uchar list \<Rightarrow> uchar" where
  "ch p = (case p of [] \<Rightarrow> 0 | c # _ \<Rightarrow> c)"

primrec strncmp_bytes :: "nat \<Rightarrow> uchar list \<Rightarrow> uchar list \<Rightarrow> int" where
  "strncmp_bytes 0 p q = 0"
| "strncmp_bytes (Suc n) p q =
     (if ch p \<noteq> 0 \<and> ch p = ch q then strncmp_bytes n (tl p) (tl q) else uint (ch p) - uint (ch q))"

primrec strncpy_bytes :: "nat \<Rightarrow> uchar list \<Rightarrow> uchar list" where
  "strncpy_bytes 0 t = []"
| "strncpy_bytes (Suc n) t = (if ch t \<noteq> 0 then ch t # strncpy_bytes n (tl t) else replicate (Suc n) 0)"

definition namecmp :: "uchar list \<Rightarrow> uchar list \<Rightarrow> int" where
  "namecmp p q = strncmp_bytes DIRSIZ p q"

text \<open>The offsets of the entries of a directory, \<^verbatim>\<open>for(off = 0; off < dp->size; off += sizeof(de))\<close>.\<close>

definition dir_offsets :: "uint \<Rightarrow> nat list" where
  "dir_offsets sz = map (\<lambda>k. DIRENT * k) [0..<(unat sz + (DIRENT - 1)) div DIRENT]"

text \<open>A directory entry is its inode number, two bytes, and its name.\<close>

definition dirlookup :: "nat \<Rightarrow> uchar list \<Rightarrow> 'a fsys_scheme \<Rightarrow> ((nat \<times> uint) option \<times> 'a fsys_scheme) res" where
  "dirlookup dp name s =
     (if i_type (inode s dp) \<noteq> T_DIR then Panic ''dirlookup not DIR''
      else
        mloop (\<lambda>off s.
          res_bind (readi_local dp (of_nat off) (of_nat DIRENT) s) (\<lambda>(r, de, s).
          if r \<noteq> of_nat DIRENT then Panic ''dirlookup read''
          else if get16 de 0 = 0 then Ok (None, s)
          else if namecmp name (drop 2 de) = 0 then
            res_bind (iget (i_dev (inode s dp)) (ucast (get16 de 0)) s) (\<lambda>(ip, s). Ok (Some (ip, of_nat off), s))
          else Ok (None, s))) (dir_offsets (i_size (inode s dp))) s)"

definition dirlink :: "nat \<Rightarrow> uchar list \<Rightarrow> uint \<Rightarrow> 'a fsys_scheme \<Rightarrow> (int \<times> 'a fsys_scheme) res" where
  "dirlink dp name inum s =
     res_bind (dirlookup dp name s) (\<lambda>(found, s).
     case found of
       Some (ip, _) \<Rightarrow> res_bind (iput (Some ip) s) (\<lambda>s. Ok (- 1, s))
     | None \<Rightarrow>
         res_bind
           (mloop (\<lambda>off s.
              res_bind (readi_local dp (of_nat off) (of_nat DIRENT) s) (\<lambda>(r, de, s).
              if r \<noteq> of_nat DIRENT then Panic ''dirlink read''
              else if get16 de 0 = 0 then Ok (Some off, s) else Ok (None, s)))
            (dir_offsets (i_size (inode s dp))) s) (\<lambda>(r, s).
         let off = (case r of Some off \<Rightarrow> off | None \<Rightarrow> length (dir_offsets (i_size (inode s dp))) * DIRENT);
             de = bytes16 (ucast inum) @ strncpy_bytes DIRSIZ name in
         res_bind (writei_local dp de (of_nat off) (of_nat DIRENT) s) (\<lambda>(w, s).
           if w \<noteq> of_nat DIRENT then Panic ''dirlink'' else Ok (0, s))))"

section \<open>Paths\<close>

text \<open>The next path element, copied into the buffer \<open>name\<close>, and the rest of the path; null at the end of the path.\<close>

definition skipelem :: "uchar list \<Rightarrow> uchar list \<Rightarrow> (uchar list \<times> uchar list) option" where
  "skipelem path name =
     (let path = dropWhile (\<lambda>c. c = SLASH) path in
      if ch path = 0 then None
      else
        let el = takeWhile (\<lambda>c. c \<noteq> SLASH \<and> c \<noteq> 0) path;
            name = (if length el \<ge> DIRSIZ then patch name 0 (take DIRSIZ el) else patch name 0 (el @ [0]))
        in Some (dropWhile (\<lambda>c. c = SLASH) (drop (length el) path), name))"

lemma skipelem_shorter:
  assumes "skipelem path name = Some (rest, name')"
  shows "length rest < length path"
proof -
  let ?p = "dropWhile (\<lambda>c. c = SLASH) path" and ?el = "\<lambda>p. takeWhile (\<lambda>c. c \<noteq> SLASH \<and> c \<noteq> 0) p"
  have ne: "ch ?p \<noteq> 0" and r: "rest = dropWhile (\<lambda>c. c = SLASH) (drop (length (?el ?p)) ?p)"
    using assms by (auto simp: skipelem_def Let_def split: if_splits)
  then obtain c q where p: "?p = c # q" by (cases ?p) (auto simp: ch_def)
  then have "c \<noteq> SLASH" "c \<noteq> 0" using hd_dropWhile [of "\<lambda>c. c = SLASH" path] ne by (auto simp: ch_def)
  then have "0 < length (?el ?p)" unfolding p by simp
  moreover have "length rest \<le> length (drop (length (?el ?p)) ?p)" unfolding r by (rule length_dropWhile_le)
  then have "length rest \<le> length ?p - length (?el ?p)" by (simp only: length_drop)
  moreover have "0 < length ?p" using p by simp
  ultimately have "length rest < length ?p" by arith
  then show ?thesis using length_dropWhile_le [of "\<lambda>c. c = SLASH" path] by linarith
qed

text \<open>The walk along the path, from inode \<open>ip\<close>; the result is an inode or null, and the buffer \<open>name\<close>.\<close>

function namex_loop ::
  "bool \<Rightarrow> nat \<Rightarrow> uchar list \<Rightarrow> uchar list \<Rightarrow> 'a fsys_scheme \<Rightarrow> (nat option \<times> uchar list \<times> 'a fsys_scheme) res" where
  "namex_loop want_parent ip path name s =
     (case skipelem path name of
        None \<Rightarrow>
          if want_parent then res_bind (iput (Some ip) s) (\<lambda>s. Ok (None, name, s)) else Ok (Some ip, name, s)
      | Some (path, name) \<Rightarrow>
          res_bind (ilock (Some ip) s) (\<lambda>s.
          if i_type (inode s ip) \<noteq> T_DIR then res_bind (iunlockput (Some ip) s) (\<lambda>s. Ok (None, name, s))
          else if want_parent \<and> ch path = 0 then res_bind (iunlock (Some ip) s) (\<lambda>s. Ok (Some ip, name, s))
          else
            res_bind (dirlookup ip name s) (\<lambda>(found, s).
            res_bind (iunlockput (Some ip) s) (\<lambda>s.
              case found of None \<Rightarrow> Ok (None, name, s) | Some (next, _) \<Rightarrow> namex_loop want_parent next path name s))))"
  by pat_completeness auto
termination
  by (relation "measure (\<lambda>(_, _, path, _). length path)") (auto dest: skipelem_shorter)

definition namex :: "uchar list \<Rightarrow> bool \<Rightarrow> uchar list \<Rightarrow> 'a fsys_scheme \<Rightarrow> (nat option \<times> uchar list \<times> 'a fsys_scheme) res" where
  "namex path want_parent name s =
     res_bind
       (if ch path = SLASH then iget ROOTDEV ROOTINO s
        else with_proc (\<lambda>p s. idup (cwd (proc s p)) s) s)
       (\<lambda>(ip, s). namex_loop want_parent ip path name s)"

text \<open>\<open>stack\<close> is what the uninitialised local buffer \<^verbatim>\<open>name\<close> holds.\<close>

definition namei :: "uchar list \<Rightarrow> uchar list \<Rightarrow> 'a fsys_scheme \<Rightarrow> (nat option \<times> 'a fsys_scheme) res" where
  "namei stack path s = res_bind (namex path False stack s) (\<lambda>(ip, _, s). Ok (ip, s))"

definition nameiparent :: "uchar list \<Rightarrow> uchar list \<Rightarrow> 'a fsys_scheme \<Rightarrow> (nat option \<times> uchar list \<times> 'a fsys_scheme) res" where
  "nameiparent path name s = namex path True name s"

end
