(* ===== verification/Ring_Buffer.thy ===== *)
theory Ring_Buffer
  imports Interfaces
begin

text \<open>
  The circular buffers of the kernel (pipes, the console's input line, the UART's transmit
  queue): an array of \<open>N\<close> slots, and two counters that only ever grow, modulo the width of
  their type, and index the array modulo \<open>N\<close>. As long as \<open>N\<close> divides the range of the
  counters, the wrap-around of a counter is harmless.
\<close>

definition ring_items :: "nat \<Rightarrow> (nat \<Rightarrow> 'x) \<Rightarrow> 'l :: len word \<Rightarrow> 'l word \<Rightarrow> 'x list" where
  "ring_items N d r w = map (\<lambda>k. d (unat (r + of_nat k) mod N)) [0..<unat (w - r)]"

lemma ring_index:
  fixes r :: "'l :: len word"
  assumes "N dvd 2 ^ LENGTH('l)"
  shows "unat (r + of_nat k) mod N = (unat r + k) mod N"
  using assms by (simp add: unat_word_ariths unat_of_nat mod_mod_cancel mod_add_right_eq)

lemma ring_length [simp]: "length (ring_items N d r w) = unat (w - r)"
  by (simp add: ring_items_def)

lemma ring_empty [simp]: "ring_items N d r r = []"
  by (simp add: ring_items_def)

lemma ring_put:
  fixes r w :: "'l :: len word"
  assumes N: "N dvd 2 ^ LENGTH('l)" "N < 2 ^ LENGTH('l)" and room: "unat (w - r) < N"
  shows "ring_items N (d(unat w mod N := x)) r (w + 1) = ring_items N d r w @ [x]"
    and "unat (w + 1 - r) = Suc (unat (w - r))"
proof -
  let ?n = "unat (w - r)"
  have w: "r + of_nat ?n = w" by simp
  have "unat (w - r + 1) = Suc ?n" using room N(2) by (simp add: unat_word_ariths)
  then show len: "unat (w + 1 - r) = Suc ?n" by (simp add: algebra_simps)
  have last: "(unat r + ?n) mod N = unat w mod N" using ring_index [OF N(1), of r ?n] w by simp
  have "unat (r + of_nat k) mod N \<noteq> unat w mod N" if k: "k < ?n" for k
  proof
    assume "unat (r + of_nat k) mod N = unat w mod N"
    then have "(unat r + k) mod N = (unat r + ?n) mod N" using ring_index [OF N(1), of r k] last by simp
    then have "N dvd ?n - k" using k mod_eq_dvd_iff_nat [of "unat r + k" "unat r + ?n" N] by simp
    then show False using nat_dvd_not_less [of "?n - k" N] k room by simp
  qed
  then show "ring_items N (d(unat w mod N := x)) r (w + 1) = ring_items N d r w @ [x]"
    unfolding ring_items_def len using w by simp
qed

lemma ring_get:
  fixes r w :: "'l :: len word"
  assumes "r \<noteq> w"
  shows "ring_items N d r w = d (unat r mod N) # ring_items N d (r + 1) w"
    and "unat (w - (r + 1)) = unat (w - r) - 1"
proof -
  have "w - r \<noteq> 0" using assms by auto
  then have pos: "0 < unat (w - r)" by (simp add: unat_gt_0)
  then have "unat (w - r - 1) = unat (w - r) - 1" using unat_sub [of 1 "w - r"] by (simp add: word_le_nat_alt Suc_le_eq)
  then show len: "unat (w - (r + 1)) = unat (w - r) - 1" by (simp add: algebra_simps)
  have "[0..<unat (w - r)] = 0 # map Suc [0..<unat (w - r) - 1]"
    using pos by (simp add: upt_conv_Cons map_Suc_upt)
  then show "ring_items N d r w = d (unat r mod N) # ring_items N d (r + 1) w"
    unfolding ring_items_def len by (simp add: comp_def algebra_simps)
qed

end
