(* ===== verification/Pipe.thy ===== *)
theory Pipe
  imports Fs Ring_Buffer
begin

text \<open>
  \<^verbatim>\<open>kernel/pipe.c\<close>: a pipe is a circular buffer in a page of its own; \<^verbatim>\<open>struct pipe\<close> at the
  address \<open>a\<close> of that page is \<open>pipe s a\<close>. Reading from an empty pipe and writing to a full
  one sleep: the loops return \<open>Asleep\<close>, and start over when \<^verbatim>\<open>sleep\<close> returns.
  (\<^verbatim>\<open>pipealloc\<close> is with the files it allocates, in theory \<open>File\<close>.)
\<close>

abbreviation (input) PIPESIZE :: nat where "PIPESIZE \<equiv> 512"

record pipe =
  pi_data :: "nat \<Rightarrow> uchar"
  nread :: uint
  nwrite :: uint
  readopen :: cint
  writeopen :: cint

record pipes = fsys +
  pipe :: "uint64 \<Rightarrow> pipe"

definition upd_pipe :: "uint64 \<Rightarrow> (pipe \<Rightarrow> pipe) \<Rightarrow> 'a pipes_scheme \<Rightarrow> 'a pipes_scheme" where
  "upd_pipe pi f s = s\<lparr>pipe := (pipe s)(pi := f (pipe s pi))\<rparr>"

text \<open>\<^verbatim>\<open>pi->data[pi->nwrite++ % PIPESIZE] = ch\<close> and \<^verbatim>\<open>ch = pi->data[pi->nread++ % PIPESIZE]\<close>.\<close>

definition pipe_push :: "uchar \<Rightarrow> pipe \<Rightarrow> pipe" where
  "pipe_push c p = p\<lparr>pi_data := (pi_data p)(unat (nwrite p) mod PIPESIZE := c), nwrite := nwrite p + 1\<rparr>"

definition pipe_front :: "pipe \<Rightarrow> uchar" where
  "pipe_front p = pi_data p (unat (nread p) mod PIPESIZE)"

definition pipe_drop :: "pipe \<Rightarrow> pipe" where
  "pipe_drop p = p\<lparr>nread := nread p + 1\<rparr>"

definition pipeclose :: "uint64 \<Rightarrow> bool \<Rightarrow> 'a pipes_scheme \<Rightarrow> 'a pipes_scheme res" where
  "pipeclose pi writable s =
     res_bind (acquire (PipeLock pi) s) (\<lambda>s.
     res_bind
       (if writable then wakeup (Some (ChPipeRead pi)) (upd_pipe pi (\<lambda>p. p\<lparr>writeopen := 0\<rparr>) s)
        else wakeup (Some (ChPipeWrite pi)) (upd_pipe pi (\<lambda>p. p\<lparr>readopen := 0\<rparr>) s)) (\<lambda>s.
     if readopen (pipe s pi) = 0 \<and> writeopen (pipe s pi) = 0 then res_bind (release (PipeLock pi) s) (kfree pi)
     else release (PipeLock pi) s))"

text \<open>
  The loop of \<^verbatim>\<open>pipewrite\<close> with the lock held, by process \<open>pr\<close>: \<open>i\<close> of the \<open>n\<close> bytes are
  written. The result says how many are when it sleeps.
\<close>

function pipewrite_loop ::
  "nat \<Rightarrow> uint64 \<Rightarrow> uint64 \<Rightarrow> nat \<Rightarrow> nat \<Rightarrow> 'a pipes_scheme \<Rightarrow> (wait_result \<times> nat \<times> 'a pipes_scheme) res" where
  "pipewrite_loop pr pi addr n i s =
     (let finish = (\<lambda>s.
        res_bind (wakeup (Some (ChPipeRead pi)) s) (\<lambda>s.
        res_bind (release (PipeLock pi) s) (\<lambda>s. Ok (Returned (int i), i, s))))
      in
      if \<not> i < n then finish s
      else if readopen (pipe s pi) = 0 \<or> killed (proc s pr) \<noteq> 0 then
        res_bind (release (PipeLock pi) s) (\<lambda>s. Ok (Returned (- 1), i, s))
      else if nwrite (pipe s pi) = nread (pipe s pi) + of_nat PIPESIZE then
        res_bind (wakeup (Some (ChPipeRead pi)) s) (\<lambda>s.
        res_bind (sleep (ChPipeWrite pi) (PipeLock pi) s) (\<lambda>(ie, s). Ok (Asleep ie, i, s)))
      else
        res_bind (copyin (pagetable (proc s pr)) (addr + of_nat i) 1 s) (\<lambda>(r, bs).
          if r = - 1 then finish s
          else pipewrite_loop pr pi addr n (Suc i) (upd_pipe pi (pipe_push (ch bs)) s)))"
  by pat_completeness auto
termination
  by (relation "measure (\<lambda>(_, _, _, n, i, _). n - i)") auto

definition pipewrite :: "uint64 \<Rightarrow> uint64 \<Rightarrow> cint \<Rightarrow> 'a pipes_scheme \<Rightarrow> (wait_result \<times> nat \<times> 'a pipes_scheme) res" where
  "pipewrite pi addr n = with_proc (\<lambda>pr s.
     res_bind (acquire (PipeLock pi) s) (pipewrite_loop pr pi addr (nat (sint n)) 0))"

definition pipewrite_resume ::
  "nat \<Rightarrow> bool \<Rightarrow> uint64 \<Rightarrow> uint64 \<Rightarrow> cint \<Rightarrow> nat \<Rightarrow> 'a pipes_scheme \<Rightarrow> (wait_result \<times> nat \<times> 'a pipes_scheme) res" where
  "pipewrite_resume pr ie pi addr n i s =
     res_bind (sleep_return pr (PipeLock pi) ie s) (pipewrite_loop pr pi addr (nat (sint n)) i)"

text \<open>The copying loop of \<^verbatim>\<open>piperead\<close>.\<close>

function piperead_copy ::
  "nat \<Rightarrow> uint64 \<Rightarrow> uint64 \<Rightarrow> nat \<Rightarrow> nat \<Rightarrow> 'a pipes_scheme \<Rightarrow> (nat \<times> 'a pipes_scheme) res" where
  "piperead_copy pr pi addr n i s =
     (if \<not> i < n then Ok (i, s)
      else if nread (pipe s pi) = nwrite (pipe s pi) then Ok (i, s)
      else
        let c = pipe_front (pipe s pi); s = upd_pipe pi pipe_drop s in
        res_bind (copyout (pagetable (proc s pr)) (addr + of_nat i) [c] s) (\<lambda>(r, s).
          if r = - 1 then Ok (i, s) else piperead_copy pr pi addr n (Suc i) s))"
  by pat_completeness auto
termination
  by (relation "measure (\<lambda>(_, _, _, n, i, _). n - i)") auto

text \<open>One pass of the waiting loop of \<^verbatim>\<open>piperead\<close> and what follows it, with the lock held.\<close>

definition piperead_round ::
  "nat \<Rightarrow> uint64 \<Rightarrow> uint64 \<Rightarrow> nat \<Rightarrow> 'a pipes_scheme \<Rightarrow> (wait_result \<times> 'a pipes_scheme) res" where
  "piperead_round pr pi addr n s =
     (if nread (pipe s pi) = nwrite (pipe s pi) \<and> writeopen (pipe s pi) \<noteq> 0 then
        if killed (proc s pr) \<noteq> 0 then res_bind (release (PipeLock pi) s) (\<lambda>s. Ok (Returned (- 1), s))
        else res_bind (sleep (ChPipeRead pi) (PipeLock pi) s) (\<lambda>(ie, s). Ok (Asleep ie, s))
      else
        res_bind (piperead_copy pr pi addr n 0 s) (\<lambda>(i, s).
        res_bind (wakeup (Some (ChPipeWrite pi)) s) (\<lambda>s.
        res_bind (release (PipeLock pi) s) (\<lambda>s. Ok (Returned (int i), s)))))"

definition piperead :: "uint64 \<Rightarrow> uint64 \<Rightarrow> cint \<Rightarrow> 'a pipes_scheme \<Rightarrow> (wait_result \<times> 'a pipes_scheme) res" where
  "piperead pi addr n = with_proc (\<lambda>pr s.
     res_bind (acquire (PipeLock pi) s) (piperead_round pr pi addr (nat (sint n))))"

definition piperead_resume ::
  "nat \<Rightarrow> bool \<Rightarrow> uint64 \<Rightarrow> uint64 \<Rightarrow> cint \<Rightarrow> 'a pipes_scheme \<Rightarrow> (wait_result \<times> 'a pipes_scheme) res" where
  "piperead_resume pr ie pi addr n s =
     res_bind (sleep_return pr (PipeLock pi) ie s) (piperead_round pr pi addr (nat (sint n)))"

end
