(* ===== verification/Uart.thy ===== *)
theory Uart
  imports Pipe
begin

text \<open>
  \<^verbatim>\<open>kernel/uart.c\<close> (but \<^verbatim>\<open>uartintr\<close>, which calls the console), \<^verbatim>\<open>consputc\<close> of
  \<^verbatim>\<open>kernel/console.c\<close>, \<^verbatim>\<open>kernel/printf.c\<close> and \<^verbatim>\<open>procdump\<close> of \<^verbatim>\<open>kernel/proc.c\<close>.

  The 16550 device is outside the program. What the program sees of it is in the state:
  \<open>uart_rx\<close> are the bytes in its receive FIFO, \<open>uart_idle\<close> the answers that the next reads of
  the bit \<^verbatim>\<open>LSR_TX_IDLE\<close> will give, and \<open>uart_wr\<close> the register writes so far. A program that
  polls after the last of the answers is \<open>Blocked\<close>: it has not come further yet.
\<close>

abbreviation (input) UART_TX_BUF_SIZE :: nat where "UART_TX_BUF_SIZE \<equiv> 32"
abbreviation (input) RHR :: nat where "RHR \<equiv> 0"
abbreviation (input) THR :: nat where "THR \<equiv> 0"
abbreviation (input) IER :: nat where "IER \<equiv> 1"
abbreviation (input) FCR :: nat where "FCR \<equiv> 2"
abbreviation (input) LCR :: nat where "LCR \<equiv> 3"
abbreviation (input) BACKSPACE :: cint where "BACKSPACE \<equiv> 0x100"

record uarts = pipes +
  uart_rx :: "uchar list"
  uart_idle :: "bool list"
  uart_wr :: "(nat \<times> uchar) list"
  uart_tx_buf :: "nat \<Rightarrow> uchar"
  uart_tx_w :: uint64
  uart_tx_r :: uint64
  panicked :: cint
  pr_locking :: cint

definition WriteReg :: "nat \<Rightarrow> uchar \<Rightarrow> 'a uarts_scheme \<Rightarrow> 'a uarts_scheme" where
  "WriteReg reg v s = s\<lparr>uart_wr := uart_wr s @ [(reg, v)]\<rparr>"

definition uartinit :: "'a uarts_scheme \<Rightarrow> 'a uarts_scheme" where
  "uartinit s =
     initlock UartTxLock ''uart''
       (fold (\<lambda>(reg, v). WriteReg reg v)
         [(IER, 0), (LCR, push_bit 7 1), (0, 3), (1, 0), (LCR, 3), (FCR, push_bit 0 1 OR push_bit 1 3),
          (IER, push_bit 1 1 OR push_bit 0 1)] s)"

text \<open>The first argument are the answers not yet used.\<close>

fun uartstart_loop :: "bool list \<Rightarrow> 'a uarts_scheme \<Rightarrow> 'a uarts_scheme res" where
  "uartstart_loop [] s =
     (if uart_tx_w s = uart_tx_r s then Ok (s\<lparr>uart_idle := []\<rparr>) else Blocked)"
| "uartstart_loop (idle # ans) s =
     (if uart_tx_w s = uart_tx_r s then Ok (s\<lparr>uart_idle := idle # ans\<rparr>)
      else if \<not> idle then Ok (s\<lparr>uart_idle := ans\<rparr>)
      else
        let c = uart_tx_buf s (unat (uart_tx_r s) mod UART_TX_BUF_SIZE); s = s\<lparr>uart_tx_r := uart_tx_r s + 1\<rparr> in
        res_bind (wakeup (Some ChUart) s) (\<lambda>s. uartstart_loop ans (WriteReg THR c s)))"

definition uartstart :: "'a uarts_scheme \<Rightarrow> 'a uarts_scheme res" where
  "uartstart s = uartstart_loop (uart_idle s) s"

text \<open>One pass of the loop of \<^verbatim>\<open>uartputc\<close>, with the lock held.\<close>

definition uartputc_round :: "uchar \<Rightarrow> 'a uarts_scheme \<Rightarrow> (wait_result \<times> 'a uarts_scheme) res" where
  "uartputc_round c s =
     (if uart_tx_w s = uart_tx_r s + of_nat UART_TX_BUF_SIZE then
        res_bind (sleep ChUart UartTxLock s) (\<lambda>(ie, s). Ok (Asleep ie, s))
      else
        res_bind (uartstart (s\<lparr>uart_tx_buf := (uart_tx_buf s)(unat (uart_tx_w s) mod UART_TX_BUF_SIZE := c),
                               uart_tx_w := uart_tx_w s + 1\<rparr>)) (\<lambda>s.
        res_bind (release UartTxLock s) (\<lambda>s. Ok (Returned 0, s))))"

definition uartputc :: "uchar \<Rightarrow> 'a uarts_scheme \<Rightarrow> (wait_result \<times> 'a uarts_scheme) res" where
  "uartputc c s =
     res_bind (acquire UartTxLock s) (\<lambda>s. if panicked s \<noteq> 0 then Blocked else uartputc_round c s)"

definition uartputc_resume :: "nat \<Rightarrow> bool \<Rightarrow> uchar \<Rightarrow> 'a uarts_scheme \<Rightarrow> (wait_result \<times> 'a uarts_scheme) res" where
  "uartputc_resume p ie c s = res_bind (sleep_return p UartTxLock ie s) (uartputc_round c)"

text \<open>The waiting loop of \<^verbatim>\<open>uartputc_sync\<close>: it uses the answers up to the first positive one.\<close>

definition uartputc_sync :: "uchar \<Rightarrow> 'a uarts_scheme \<Rightarrow> 'a uarts_scheme res" where
  "uartputc_sync c s =
     (let s = push_off s in
      if panicked s \<noteq> 0 then Blocked
      else case dropWhile Not (uart_idle s) of
        [] \<Rightarrow> Blocked
      | _ # ans \<Rightarrow> pop_off (WriteReg THR c (s\<lparr>uart_idle := ans\<rparr>)))"

definition uartgetc :: "'a uarts_scheme \<Rightarrow> cint \<times> 'a uarts_scheme" where
  "uartgetc s = (case uart_rx s of [] \<Rightarrow> (- 1, s) | c # cs \<Rightarrow> (ucast c, s\<lparr>uart_rx := cs\<rparr>))"

definition consputc :: "cint \<Rightarrow> 'a uarts_scheme \<Rightarrow> 'a uarts_scheme res" where
  "consputc c s =
     (if c = BACKSPACE then
        res_bind (uartputc_sync 8 s) (\<lambda>s. res_bind (uartputc_sync 32 s) (uartputc_sync 8))
      else uartputc_sync (ucast c) s)"

section \<open>kernel/printf.c\<close>

text \<open>Characters of literals, and \<^verbatim>\<open>digits[]\<close>.\<close>

abbreviation chars :: "string \<Rightarrow> uchar list" where "chars \<equiv> map of_char"

definition digits :: "uchar list" where "digits = chars ''0123456789abcdef''"

text \<open>
  The digits of \<open>x\<close>, lowest first, as the first loop of \<^verbatim>\<open>printint\<close> stores them. With a
  base below 2 the loop runs over the end of \<^verbatim>\<open>buf\<close>; above 16 it reads past the end of
  \<^verbatim>\<open>digits\<close>.
\<close>

function print_digits :: "uint \<Rightarrow> uint \<Rightarrow> uchar list res" where
  "print_digits x base =
     (if base < 2 \<or> base > 16 then Fault
      else
        let d = digits ! unat (x mod base) in
        if x div base = 0 then Ok [d]
        else res_bind (print_digits (x div base) base) (\<lambda>ds. Ok (d # ds)))"
  by pat_completeness auto
termination
proof (relation "measure (\<lambda>(x, base). unat x)")
  fix x base :: uint and d :: uchar
  assume "\<not> (base < 2 \<or> base > 16)" "x div base \<noteq> 0"
  then have "2 \<le> unat base" "0 < unat x"
    by (auto simp: word_less_nat_alt not_less unat_gt_0)
  then show "((x div base, base), (x, base)) \<in> measure (\<lambda>(x, base). unat x)"
    by (simp add: unat_div)
qed simp

definition printint :: "cint \<Rightarrow> cint \<Rightarrow> bool \<Rightarrow> 'a uarts_scheme \<Rightarrow> 'a uarts_scheme res" where
  "printint xx base sign s =
     (let neg = (sign \<and> xx <s 0) in
      res_bind (print_digits (if neg then - xx else xx) base) (\<lambda>ds.
        let buf = ds @ (if neg then chars ''-'' else []) in
        if length buf > 16 then Fault else mfold (\<lambda>c. consputc (ucast c)) (rev buf) s))"

definition ptr_digits :: "uint64 \<Rightarrow> uchar list" where
  "ptr_digits x = map (\<lambda>i. digits ! unat (drop_bit 60 (push_bit (4 * i) x))) [0..<16]"

definition printptr :: "uint64 \<Rightarrow> 'a uarts_scheme \<Rightarrow> 'a uarts_scheme res" where
  "printptr x s = mfold (\<lambda>c. consputc (ucast c)) (chars ''0x'' @ ptr_digits x) s"

text \<open>The arguments after the format; one that the format reads as another type is undefined.\<close>

datatype parg = PInt cint | PPtr uint64 | PStr "uchar list option"

fun printf_loop :: "uchar list \<Rightarrow> parg list \<Rightarrow> 'a uarts_scheme \<Rightarrow> 'a uarts_scheme res" where
  "printf_loop [] ap s = Ok s"
| "printf_loop (c # fmt) ap s =
     (if c = 0 then Ok s
      else if c \<noteq> of_char (CHR ''%'') then res_bind (consputc (ucast c) s) (printf_loop fmt ap)
      else case fmt of [] \<Rightarrow> Ok s
      | c # fmt \<Rightarrow>
        if c = 0 then Ok s
        else if c = of_char (CHR ''d'') then
          (case ap of PInt x # ap \<Rightarrow> res_bind (printint x 10 True s) (printf_loop fmt ap) | _ \<Rightarrow> Fault)
        else if c = of_char (CHR ''x'') then
          (case ap of PInt x # ap \<Rightarrow> res_bind (printint x 16 True s) (printf_loop fmt ap) | _ \<Rightarrow> Fault)
        else if c = of_char (CHR ''p'') then
          (case ap of PPtr x # ap \<Rightarrow> res_bind (printptr x s) (printf_loop fmt ap) | _ \<Rightarrow> Fault)
        else if c = of_char (CHR ''s'') then
          (case ap of
             PStr str # ap \<Rightarrow>
               res_bind
                 (mfold (\<lambda>c. consputc (ucast c))
                   (takeWhile (\<lambda>c. c \<noteq> 0) (case str of None \<Rightarrow> chars ''(null)'' | Some str \<Rightarrow> str)) s)
                 (printf_loop fmt ap)
           | _ \<Rightarrow> Fault)
        else if c = of_char (CHR ''%'') then
          res_bind (consputc (ucast c) s) (printf_loop fmt ap)
        else
          res_bind (consputc (ucast (of_char (CHR ''%'') :: uchar)) s) (\<lambda>s.
          res_bind (consputc (ucast c) s) (printf_loop fmt ap)))"

definition printf :: "uchar list option \<Rightarrow> parg list \<Rightarrow> 'a uarts_scheme \<Rightarrow> 'a uarts_scheme res" where
  "printf fmt ap s =
     (let locking = pr_locking s \<noteq> 0 in
      res_bind (if locking then acquire PrLock s else Ok s) (\<lambda>s.
      case fmt of None \<Rightarrow> Panic ''null fmt''
      | Some fmt \<Rightarrow>
        res_bind (printf_loop fmt ap s) (\<lambda>s. if locking then release PrLock s else Ok s)))"

text \<open>What \<^verbatim>\<open>panic\<close> does before it loops forever.\<close>

definition panic :: "uchar list \<Rightarrow> 'a uarts_scheme \<Rightarrow> 'a uarts_scheme res" where
  "panic msg s =
     res_bind (printf (Some (chars ''panic: '')) [] (s\<lparr>pr_locking := 0\<rparr>)) (\<lambda>s.
     res_bind (printf (Some msg) [] s) (\<lambda>s.
     res_bind (printf (Some [10]) [] s) (\<lambda>s. Ok (s\<lparr>panicked := 1\<rparr>))))"

definition printfinit :: "'a uarts_scheme \<Rightarrow> 'a uarts_scheme" where
  "printfinit s = (initlock PrLock ''pr'' s)\<lparr>pr_locking := 1\<rparr>"

text \<open>\<^verbatim>\<open>procdump\<close>; the table \<^verbatim>\<open>states\<close> has no entry for \<^verbatim>\<open>USED\<close>.\<close>

definition state_name :: "procstate \<Rightarrow> uchar list" where
  "state_name st =
     (case st of UNUSED \<Rightarrow> chars ''unused'' | USED \<Rightarrow> chars ''???'' | SLEEPING \<Rightarrow> chars ''sleep ''
      | RUNNABLE \<Rightarrow> chars ''runble'' | RUNNING \<Rightarrow> chars ''run   '' | ZOMBIE \<Rightarrow> chars ''zombie'')"

definition procdump :: "'a uarts_scheme \<Rightarrow> 'a uarts_scheme res" where
  "procdump s =
     res_bind (printf (Some [10]) [] s)
       (mfold (\<lambda>i s.
          if state (proc s i) = UNUSED then Ok s
          else
            res_bind (printf (Some (chars ''%d %s %s''))
                [PInt (pid (proc s i)), PStr (Some (state_name (state (proc s i)))), PStr (Some (p_name (proc s i)))] s)
              (printf (Some [10]) [])) [0..<NPROC])"

end
