(* ===== verification/Console.thy ===== *)
theory Console
  imports Uart
begin

text \<open>
  \<^verbatim>\<open>kernel/console.c\<close>: line-buffered input with editing, output through the UART, and
  \<^verbatim>\<open>uartintr\<close> of \<^verbatim>\<open>kernel/uart.c\<close>. \<open>devsw\<close> maps a major device number to its functions;
  the console is the only device that installs any.
\<close>

abbreviation (input) INPUT_BUF :: nat where "INPUT_BUF \<equiv> 128"
abbreviation (input) CONSOLE :: nat where "CONSOLE \<equiv> 1"
abbreviation (input) NDEV :: nat where "NDEV \<equiv> 10"
abbreviation (input) ctrl_D :: uchar where "ctrl_D \<equiv> 4"
abbreviation (input) newline :: uchar where "newline \<equiv> 10"

datatype devfun = Consoleread | Consolewrite

record devsw =
  dev_read :: "devfun option"
  dev_write :: "devfun option"

record consoles = uarts +
  cons_buf :: "nat \<Rightarrow> uchar"
  cons_r :: uint
  cons_w :: uint
  cons_e :: uint
  devsw :: "nat \<Rightarrow> devsw"

section \<open>Output\<close>

text \<open>
  The loop of \<^verbatim>\<open>consolewrite\<close>; the result says at which byte it sleeps in \<^verbatim>\<open>uartputc\<close>.
\<close>

function consolewrite_loop ::
  "bool \<Rightarrow> uint64 \<Rightarrow> nat \<Rightarrow> nat \<Rightarrow> 'a consoles_scheme \<Rightarrow> (wait_result \<times> nat \<times> uchar \<times> 'a consoles_scheme) res" where
  "consolewrite_loop user_src src n i s =
     (if \<not> i < n then Ok (Returned (int i), i, 0, s)
      else
        res_bind (either_copyin user_src (src + of_nat i) 1 s) (\<lambda>(r, bs, s).
          if r = - 1 then Ok (Returned (int i), i, 0, s)
          else
            res_bind (uartputc (ch bs) s) (\<lambda>(w, s).
              case w of
                Asleep ie \<Rightarrow> Ok (Asleep ie, i, ch bs, s)
              | Returned _ \<Rightarrow> consolewrite_loop user_src src n (Suc i) s)))"
  by pat_completeness auto
termination
  by (relation "measure (\<lambda>(_, _, n, i, _). n - i)") auto

definition consolewrite ::
  "bool \<Rightarrow> uint64 \<Rightarrow> cint \<Rightarrow> 'a consoles_scheme \<Rightarrow> (wait_result \<times> nat \<times> uchar \<times> 'a consoles_scheme) res" where
  "consolewrite user_src src n = consolewrite_loop user_src src (nat (sint n)) 0"

definition consolewrite_resume ::
  "nat \<Rightarrow> bool \<Rightarrow> bool \<Rightarrow> uint64 \<Rightarrow> cint \<Rightarrow> nat \<Rightarrow> uchar \<Rightarrow> 'a consoles_scheme \<Rightarrow>
   (wait_result \<times> nat \<times> uchar \<times> 'a consoles_scheme) res" where
  "consolewrite_resume p ie user_src src n i c s =
     res_bind (uartputc_resume p ie c s) (\<lambda>(w, s).
       case w of
         Asleep ie \<Rightarrow> Ok (Asleep ie, i, c, s)
       | Returned _ \<Rightarrow> consolewrite_loop user_src src (nat (sint n)) (Suc i) s)"

section \<open>Input\<close>

text \<open>
  The loops of \<^verbatim>\<open>consoleread\<close> with the lock held: \<open>n\<close> bytes of the \<open>target\<close> are still
  wanted, the next goes to \<open>dst\<close>. When it sleeps the result has the \<open>n\<close> and \<open>dst\<close> to go on with.
\<close>

primrec consoleread_loop ::
  "nat \<Rightarrow> bool \<Rightarrow> uint64 \<Rightarrow> nat \<Rightarrow> 'a consoles_scheme \<Rightarrow> (wait_result \<times> nat \<times> uint64 \<times> 'a consoles_scheme) res" where
  "consoleread_loop 0 user_dst dst target s =
     res_bind (release ConsLock s) (\<lambda>s. Ok (Returned (int target), 0, dst, s))"
| "consoleread_loop (Suc n) user_dst dst target s =
     (let finish = (\<lambda>n dst s. res_bind (release ConsLock s) (\<lambda>s. Ok (Returned (int target - int n), n, dst, s))) in
      if cons_r s = cons_w s then
        with_proc (\<lambda>p s.
          if killed (proc s p) \<noteq> 0 then res_bind (release ConsLock s) (\<lambda>s. Ok (Returned (- 1), Suc n, dst, s))
          else res_bind (sleep ChCons ConsLock s) (\<lambda>(ie, s). Ok (Asleep ie, Suc n, dst, s))) s
      else
        let c = cons_buf s (unat (cons_r s) mod INPUT_BUF); s = s\<lparr>cons_r := cons_r s + 1\<rparr> in
        if c = ctrl_D then
          finish (Suc n) dst (if Suc n < target then s\<lparr>cons_r := cons_r s - 1\<rparr> else s)
        else
          res_bind (either_copyout user_dst dst [c] s) (\<lambda>(r, s).
            if r = - 1 then finish (Suc n) dst s
            else if c = newline then finish n (dst + 1) s
            else consoleread_loop n user_dst (dst + 1) target s))"

text \<open>With a negative \<open>n\<close> the loop is not entered and \<^verbatim>\<open>target - n\<close> is 0.\<close>

definition consoleread ::
  "bool \<Rightarrow> uint64 \<Rightarrow> cint \<Rightarrow> 'a consoles_scheme \<Rightarrow> (wait_result \<times> nat \<times> uint64 \<times> 'a consoles_scheme) res" where
  "consoleread user_dst dst n s =
     res_bind (acquire ConsLock s) (consoleread_loop (nat (sint n)) user_dst dst (nat (sint n)))"

definition consoleread_resume ::
  "nat \<Rightarrow> bool \<Rightarrow> bool \<Rightarrow> uint64 \<Rightarrow> nat \<Rightarrow> nat \<Rightarrow> 'a consoles_scheme \<Rightarrow>
   (wait_result \<times> nat \<times> uint64 \<times> 'a consoles_scheme) res" where
  "consoleread_resume p ie user_dst dst n target s =
     res_bind (sleep_return p ConsLock ie s) (consoleread_loop n user_dst dst target)"

text \<open>
  The loop of control-U. It runs at most as often as there are unread bytes in the line
  (\<open>cons_e - cons_w\<close>).
\<close>

primrec kill_line :: "nat \<Rightarrow> 'a consoles_scheme \<Rightarrow> 'a consoles_scheme res" where
  "kill_line 0 s = Ok s"
| "kill_line (Suc k) s =
     (if cons_e s \<noteq> cons_w s \<and> cons_buf s (unat (cons_e s - 1) mod INPUT_BUF) \<noteq> newline then
        res_bind (consputc BACKSPACE (s\<lparr>cons_e := cons_e s - 1\<rparr>)) (kill_line k)
      else Ok s)"

definition cons_store :: "uchar \<Rightarrow> 'a consoles_scheme \<Rightarrow> 'a consoles_scheme" where
  "cons_store c s = s\<lparr>cons_buf := (cons_buf s)(unat (cons_e s) mod INPUT_BUF := c), cons_e := cons_e s + 1\<rparr>"

definition consoleintr :: "cint \<Rightarrow> 'a consoles_scheme \<Rightarrow> 'a consoles_scheme res" where
  "consoleintr c s =
     res_bind (acquire ConsLock s) (\<lambda>s.
     res_bind
       (if c = 0x10 then procdump s
        else if c = 0x15 then kill_line (unat (cons_e s - cons_w s)) s
        else if c = 8 \<or> c = 0x7f then
          (if cons_e s \<noteq> cons_w s then consputc BACKSPACE (s\<lparr>cons_e := cons_e s - 1\<rparr>) else Ok s)
        else if c \<noteq> 0 \<and> cons_e s - cons_r s < of_nat INPUT_BUF then
          let c = (if c = 13 then 10 else c) in
          res_bind (consputc c s) (\<lambda>s.
            let s = cons_store (ucast c) s in
            if c = 10 \<or> c = 4 \<or> cons_e s = cons_r s + of_nat INPUT_BUF then
              wakeup (Some ChCons) (s\<lparr>cons_w := cons_e s\<rparr>)
            else Ok s)
        else Ok s)
       (release ConsLock))"

text \<open>
  \<^verbatim>\<open>uartintr\<close> hands the bytes of the receive FIFO to the console, in order, until none is
  left, and sends buffered output.
\<close>

definition uartintr :: "'a consoles_scheme \<Rightarrow> 'a consoles_scheme res" where
  "uartintr s =
     res_bind (mfold (\<lambda>_ s. case uartgetc s of (c, s) \<Rightarrow> consoleintr c s) (uart_rx s) s) (\<lambda>s.
     res_bind (acquire UartTxLock s) (\<lambda>s.
     res_bind (uartstart s) (release UartTxLock)))"

definition consoleinit :: "'a consoles_scheme \<Rightarrow> 'a consoles_scheme" where
  "consoleinit s =
     (let s = uartinit (initlock ConsLock ''cons'' s) in
      s\<lparr>devsw := (devsw s)(CONSOLE := \<lparr>dev_read = Some Consoleread, dev_write = Some Consolewrite\<rparr>)\<rparr>)"

end
