(* ===== verification/File.thy ===== *)
theory File
  imports Console
begin

text \<open>
  \<^verbatim>\<open>kernel/file.c\<close>: the table of open files (\<open>ftable s i\<close> is \<^verbatim>\<open>ftable.file[i]\<close>) and reading
  and writing through it, and \<^verbatim>\<open>pipealloc\<close> of \<^verbatim>\<open>kernel/pipe.c\<close>. A null \<^verbatim>\<open>struct file *\<close> is
  \<open>None\<close>. A read or write that goes to sleep is \<open>Blocked\<close> here; how it goes on is with the
  pipes and the console.
\<close>

abbreviation (input) NFILE :: nat where "NFILE \<equiv> 100"
abbreviation (input) MAX_WRITE :: nat where "MAX_WRITE \<equiv> (10 - 1 - 1 - 2) div 2 * BSIZE"

datatype filetype = FD_NONE | FD_PIPE | FD_INODE | FD_DEVICE

record kfile =
  f_type :: filetype
  f_ref :: cint
  f_readable :: uchar
  f_writable :: uchar
  f_pipe :: uint64
  f_ip :: "nat option"
  f_off :: uint
  f_major :: "16 word"

record files = consoles +
  ftable :: "nat \<Rightarrow> kfile"

definition upd_file :: "nat \<Rightarrow> (kfile \<Rightarrow> kfile) \<Rightarrow> 'a files_scheme \<Rightarrow> 'a files_scheme" where
  "upd_file i f s = s\<lparr>ftable := (ftable s)(i := f (ftable s i))\<rparr>"

definition fileinit :: "'a files_scheme \<Rightarrow> 'a files_scheme" where
  "fileinit = initlock FtableLock ''ftable''"

definition filealloc :: "'a files_scheme \<Rightarrow> (nat option \<times> 'a files_scheme) res" where
  "filealloc =
     critical FtableLock (\<lambda>s.
       case find (\<lambda>i. f_ref (ftable s i) = 0) [0..<NFILE] of
         None \<Rightarrow> Ok (None, s)
       | Some i \<Rightarrow> Ok (Some i, upd_file i (\<lambda>f. f\<lparr>f_ref := 1\<rparr>) s))"

definition filedup :: "nat \<Rightarrow> 'a files_scheme \<Rightarrow> 'a files_scheme res" where
  "filedup i s =
     res_bind (critical FtableLock (\<lambda>s.
         if f_ref (ftable s i) <s 1 then Panic ''filedup''
         else Ok ((), upd_file i (\<lambda>f. f\<lparr>f_ref := f_ref f + 1\<rparr>) s)) s)
       (\<lambda>(_, s). Ok s)"

text \<open>The part of \<^verbatim>\<open>fileclose\<close> under the lock: the copy \<^verbatim>\<open>ff\<close> if the file is to be closed.\<close>

definition file_unref :: "nat \<Rightarrow> 'a files_scheme \<Rightarrow> (kfile option \<times> 'a files_scheme) res" where
  "file_unref i =
     critical FtableLock (\<lambda>s.
       if f_ref (ftable s i) <s 1 then Panic ''fileclose''
       else
         let s = upd_file i (\<lambda>f. f\<lparr>f_ref := f_ref f - 1\<rparr>) s in
         if 0 <s f_ref (ftable s i) then Ok (None, s)
         else Ok (Some (ftable s i), upd_file i (\<lambda>f. f\<lparr>f_ref := 0, f_type := FD_NONE\<rparr>) s))"

definition fileclose :: "nat \<Rightarrow> 'a files_scheme \<Rightarrow> 'a files_scheme res" where
  "fileclose i s =
     res_bind (file_unref i s) (\<lambda>(ff, s).
       case ff of None \<Rightarrow> Ok s
       | Some ff \<Rightarrow>
           (case f_type ff of
              FD_PIPE \<Rightarrow> pipeclose (f_pipe ff) (f_writable ff \<noteq> 0) s
            | FD_NONE \<Rightarrow> Ok s
            | _ \<Rightarrow> res_bind (begin_op s) (\<lambda>s. res_bind (iput (f_ip ff) s) end_op)))"

text \<open>\<open>pad\<close> is what is on the stack where \<^verbatim>\<open>struct stat\<close> has no field.\<close>

definition filestat :: "uchar list \<Rightarrow> nat \<Rightarrow> uint64 \<Rightarrow> 'a files_scheme \<Rightarrow> (int \<times> 'a files_scheme) res" where
  "filestat pad i addr = with_proc (\<lambda>p s.
     if f_type (ftable s i) = FD_INODE \<or> f_type (ftable s i) = FD_DEVICE then
       res_bind (ilock (f_ip (ftable s i)) s) (\<lambda>s.
       case f_ip (ftable s i) of None \<Rightarrow> Fault
       | Some ip \<Rightarrow>
           let st = stati pad (inode s ip) in
           res_bind (iunlock (f_ip (ftable s i)) s) (\<lambda>s.
           res_bind (copyout (pagetable (proc s p)) addr st s) (\<lambda>(r, s).
           Ok (if r < 0 then - 1 else 0, s))))
     else Ok (- 1, s))"

text \<open>A call that returns without sleeping.\<close>

definition at_once :: "(wait_result \<times> 's) res \<Rightarrow> (int \<times> 's) res" where
  "at_once r = res_bind r (\<lambda>(w, s). case w of Returned v \<Rightarrow> Ok (v, s) | Asleep _ \<Rightarrow> Blocked)"

definition dev_call :: "devfun option \<Rightarrow> uint64 \<Rightarrow> cint \<Rightarrow> 'a files_scheme \<Rightarrow> (int \<times> 'a files_scheme) res" where
  "dev_call f addr n s =
     (case f of None \<Rightarrow> Ok (- 1, s)
      | Some Consoleread \<Rightarrow> at_once (res_bind (consoleread True addr n s) (\<lambda>(w, _, _, s). Ok (w, s)))
      | Some Consolewrite \<Rightarrow> at_once (res_bind (consolewrite True addr n s) (\<lambda>(w, _, _, s). Ok (w, s))))"

definition no_device :: "16 word \<Rightarrow> bool" where
  "no_device m \<longleftrightarrow> sint m < 0 \<or> sint m \<ge> int NDEV"

definition fileread :: "nat \<Rightarrow> uint64 \<Rightarrow> cint \<Rightarrow> 'a files_scheme \<Rightarrow> (int \<times> 'a files_scheme) res" where
  "fileread i addr n s =
     (if f_readable (ftable s i) = 0 then Ok (- 1, s)
      else case f_type (ftable s i) of
        FD_PIPE \<Rightarrow> at_once (piperead (f_pipe (ftable s i)) addr n s)
      | FD_DEVICE \<Rightarrow>
          if no_device (f_major (ftable s i)) then Ok (- 1, s)
          else dev_call (dev_read (devsw s (unat (f_major (ftable s i))))) addr n s
      | FD_INODE \<Rightarrow>
          res_bind (ilock (f_ip (ftable s i)) s) (\<lambda>s.
          case f_ip (ftable s i) of None \<Rightarrow> Fault
          | Some ip \<Rightarrow>
              res_bind (readi ip True addr (f_off (ftable s i)) n s) (\<lambda>(r, s).
              let s = (if 0 <s r then upd_file i (\<lambda>f. f\<lparr>f_off := f_off f + r\<rparr>) s else s) in
              res_bind (iunlock (f_ip (ftable s i)) s) (\<lambda>s. Ok (sint r, s))))
      | FD_NONE \<Rightarrow> Panic ''fileread'')"

text \<open>
  The loop of \<^verbatim>\<open>filewrite\<close> on an inode: one transaction of at most \<^verbatim>\<open>max\<close> bytes at a time. The
  result is the number of bytes written when it ends.
\<close>

function filewrite_loop :: "nat \<Rightarrow> uint64 \<Rightarrow> nat \<Rightarrow> nat \<Rightarrow> 'a files_scheme \<Rightarrow> (nat \<times> 'a files_scheme) res" where
  "filewrite_loop f addr n i s =
     (if \<not> i < n then Ok (i, s)
      else
        let n1 = min (n - i) MAX_WRITE in
        res_bind (begin_op s) (\<lambda>s.
        res_bind (ilock (f_ip (ftable s f)) s) (\<lambda>s.
        case f_ip (ftable s f) of None \<Rightarrow> Fault
        | Some ip \<Rightarrow>
            res_bind (writei ip True (addr + of_nat i) (f_off (ftable s f)) (of_nat n1) s) (\<lambda>(r, s).
            let s = (if 0 <s r then upd_file f (\<lambda>fl. fl\<lparr>f_off := f_off fl + r\<rparr>) s else s) in
            res_bind (iunlock (f_ip (ftable s f)) s) (\<lambda>s.
            res_bind (end_op s) (\<lambda>s.
              if sint r \<noteq> int n1 then Ok (i, s) else filewrite_loop f addr n (i + n1) s))))))"
  by pat_completeness auto
termination
  by (relation "measure (\<lambda>(_, _, n, i, _). n - i)") (auto simp: min_def)

definition filewrite :: "nat \<Rightarrow> uint64 \<Rightarrow> cint \<Rightarrow> 'a files_scheme \<Rightarrow> (int \<times> 'a files_scheme) res" where
  "filewrite i addr n s =
     (if f_writable (ftable s i) = 0 then Ok (- 1, s)
      else case f_type (ftable s i) of
        FD_PIPE \<Rightarrow> at_once (res_bind (pipewrite (f_pipe (ftable s i)) addr n s) (\<lambda>(w, _, s). Ok (w, s)))
      | FD_DEVICE \<Rightarrow>
          if no_device (f_major (ftable s i)) then Ok (- 1, s)
          else dev_call (dev_write (devsw s (unat (f_major (ftable s i))))) addr n s
      | FD_INODE \<Rightarrow>
          res_bind (filewrite_loop i addr (nat (sint n)) 0 s) (\<lambda>(k, s).
            Ok (if int k = sint n then sint n else - 1, s))
      | FD_NONE \<Rightarrow> Panic ''filewrite'')"

section \<open>pipealloc\<close>

text \<open>
  The result are the files for reading and writing, if they could be had. On an error the
  files already allocated are closed again.
\<close>

definition pipealloc :: "'a files_scheme \<Rightarrow> (int \<times> nat option \<times> nat option \<times> 'a files_scheme) res" where
  "pipealloc s =
     (let bad = (\<lambda>f0 f1 s.
        res_bind (case f0 of None \<Rightarrow> Ok s | Some f \<Rightarrow> fileclose f s) (\<lambda>s.
        res_bind (case f1 of None \<Rightarrow> Ok s | Some f \<Rightarrow> fileclose f s) (\<lambda>s. Ok (- 1, f0, f1, s))))
      in
      res_bind (filealloc s) (\<lambda>(f0, s).
      case f0 of None \<Rightarrow> bad None None s
      | Some r \<Rightarrow>
        res_bind (filealloc s) (\<lambda>(f1, s).
        case f1 of None \<Rightarrow> bad f0 None s
        | Some w \<Rightarrow>
          res_bind (kalloc s) (\<lambda>(pi, s).
          if pi = 0 then bad f0 f1 s
          else
            let s = initlock (PipeLock pi) ''pipe''
                  (upd_pipe pi (\<lambda>p. p\<lparr>readopen := 1, writeopen := 1, nwrite := 0, nread := 0\<rparr>) s);
                s = upd_file r (\<lambda>f. f\<lparr>f_type := FD_PIPE, f_readable := 1, f_writable := 0, f_pipe := pi\<rparr>) s;
                s = upd_file w (\<lambda>f. f\<lparr>f_type := FD_PIPE, f_readable := 0, f_writable := 1, f_pipe := pi\<rparr>) s
            in Ok (0, f0, f1, s)))))"

end
