(* ===== verification/Sysarg.thy ===== *)
theory Sysarg
  imports Proc_Ops
begin

text \<open>
  The saved user registers and the arguments of system calls (\<^verbatim>\<open>struct trapframe\<close> of
  \<^verbatim>\<open>kernel/proc.h\<close> and the first half of \<^verbatim>\<open>kernel/syscall.c\<close>). The trapframe is a page of
  physical memory, its fields are 64-bit words at fixed offsets.
\<close>

datatype tf_field = TF_kernel_satp | TF_kernel_sp | TF_kernel_trap | TF_epc | TF_kernel_hartid | TF_sp | TF_a nat

fun tf_off :: "tf_field \<Rightarrow> uint64" where
  "tf_off TF_kernel_satp = 0"
| "tf_off TF_kernel_sp = 8"
| "tf_off TF_kernel_trap = 16"
| "tf_off TF_epc = 24"
| "tf_off TF_kernel_hartid = 32"
| "tf_off TF_sp = 48"
| "tf_off (TF_a i) = 112 + 8 * of_nat i"

definition tf_get :: "nat \<Rightarrow> tf_field \<Rightarrow> 'a procs_scheme \<Rightarrow> uint64" where
  "tf_get p f s = load64 (mem s) (trapframe (proc s p) + tf_off f)"

definition tf_set :: "nat \<Rightarrow> tf_field \<Rightarrow> uint64 \<Rightarrow> 'a procs_scheme \<Rightarrow> 'a procs_scheme" where
  "tf_set p f v s = s\<lparr>mem := store64 (mem s) (trapframe (proc s p) + tf_off f) v\<rparr>"

text \<open>A 64-bit little-endian field of a local buffer.\<close>

definition get64 :: "uchar list \<Rightarrow> nat \<Rightarrow> uint64" where
  "get64 d off = word_of_int (horner_sum uint (2 ^ 8) (take 8 (drop off d)))"

definition fetchaddr :: "uint64 \<Rightarrow> 'a procs_scheme \<Rightarrow> (int \<times> uint64 \<times> 'a procs_scheme) res" where
  "fetchaddr addr = with_proc (\<lambda>p s.
     if addr \<ge> p_sz (proc s p) \<or> addr + 8 > p_sz (proc s p) then Ok (- 1, 0, s)
     else
       res_bind (copyin (pagetable (proc s p)) addr 8 s) (\<lambda>(r, bs).
         if r \<noteq> 0 then Ok (- 1, 0, s) else Ok (0, get64 bs 0, s)))"

text \<open>The string, in a local buffer of \<open>mx\<close> bytes, and its length.\<close>

definition fetchstr :: "uint64 \<Rightarrow> nat \<Rightarrow> 'a procs_scheme \<Rightarrow> (int \<times> uchar list \<times> 'a procs_scheme) res" where
  "fetchstr addr mx = with_proc (\<lambda>p s.
     res_bind (copyinstr (pagetable (proc s p)) addr mx s) (\<lambda>(err, bs).
       Ok (if err < 0 then err else int (length (takeWhile (\<lambda>c. c \<noteq> 0) bs)), bs, s)))"

definition argraw :: "nat \<Rightarrow> 'a procs_scheme \<Rightarrow> (uint64 \<times> 'a procs_scheme) res" where
  "argraw n = with_proc (\<lambda>p s. if n \<le> 5 then Ok (tf_get p (TF_a n) s, s) else Panic ''argraw'')"

text \<open>\<^verbatim>\<open>argint\<close> and \<^verbatim>\<open>argaddr\<close> always return 0; their callers' tests for -1 never hold.\<close>

definition argint :: "nat \<Rightarrow> 'a procs_scheme \<Rightarrow> (cint \<times> 'a procs_scheme) res" where
  "argint n s = res_bind (argraw n s) (\<lambda>(v, s). Ok (ucast v, s))"

definition argaddr :: "nat \<Rightarrow> 'a procs_scheme \<Rightarrow> (uint64 \<times> 'a procs_scheme) res" where
  "argaddr n = argraw n"

definition argstr :: "nat \<Rightarrow> nat \<Rightarrow> 'a procs_scheme \<Rightarrow> (int \<times> uchar list \<times> 'a procs_scheme) res" where
  "argstr n mx s = res_bind (argaddr n s) (\<lambda>(addr, s). fetchstr addr mx s)"

end
