(* ===== verification/Exec.thy ===== *)
theory Exec
  imports Fs Sysarg
begin

text \<open>
  \<^verbatim>\<open>kernel/exec.c\<close>: replace the memory of the current process by a program. \<open>stack\<close> is what
  the uninitialised local buffer of \<^verbatim>\<open>namei\<close> holds; \<open>path\<close> is the local copy of the path and
  \<open>argv\<close> the addresses of the argument strings, which are in kernel pages of their own.
\<close>

abbreviation (input) ELF_MAGIC :: uint where "ELF_MAGIC \<equiv> 0x464C457F"
abbreviation (input) ELF_PROG_LOAD :: uint where "ELF_PROG_LOAD \<equiv> 1"
abbreviation (input) MAXARG :: nat where "MAXARG \<equiv> 32"

text \<open>
  \<^verbatim>\<open>loadseg\<close>: the offsets of the pages of a segment. With a segment of more than
  \<^verbatim>\<open>0xfffff000\<close> bytes the \<^verbatim>\<open>uint\<close> counter wraps and the loop does not end.
\<close>

definition loadseg ::
  "uint64 \<Rightarrow> uint64 \<Rightarrow> nat \<Rightarrow> uint \<Rightarrow> uint \<Rightarrow> 'a fsys_scheme \<Rightarrow> (int \<times> 'a fsys_scheme) res" where
  "loadseg pt va ip offset sz s =
     res_bind
       (mloop (\<lambda>k s.
          let i = (of_nat (4096 * k) :: uint) in
          res_bind (walkaddr pt (va + ucast i) s) (\<lambda>pa.
          if pa = 0 then Panic ''loadseg: address should exist''
          else
            let n = (if sz - i < 4096 then sz - i else 4096) in
            res_bind (readi ip False pa (offset + i) n s) (\<lambda>(r, s).
              if r \<noteq> n then Ok (Some (- 1), s) else Ok (None, s))))
        [0..<(unat sz + 4095) div 4096] s)
       (\<lambda>(r, s). case r of Some e \<Rightarrow> Ok (e, s) | None \<Rightarrow> if sz > 0xfffff000 then Blocked else Ok (0, s))"

text \<open>
  The loop over the \<open>k\<close> remaining program headers, the next at \<open>off\<close> in the file. The result
  says whether all went well, and the size reached.
\<close>

primrec load_segments ::
  "nat \<Rightarrow> uint64 \<Rightarrow> nat \<Rightarrow> uint \<Rightarrow> uint64 \<Rightarrow> 'a fsys_scheme \<Rightarrow> (bool \<times> uint64 \<times> 'a fsys_scheme) res" where
  "load_segments 0 pt ip off sz s = Ok (True, sz, s)"
| "load_segments (Suc k) pt ip off sz s =
     res_bind (readi_local ip off 56 s) (\<lambda>(r, ph, s).
     if r \<noteq> 56 then Ok (False, sz, s)
     else if get32 ph 0 \<noteq> ELF_PROG_LOAD then load_segments k pt ip (off + 56) sz s
     else
       let p_off = get64 ph 8; vaddr = get64 ph 16; filesz = get64 ph 32; memsz = get64 ph 40 in
       if memsz < filesz then Ok (False, sz, s)
       else if vaddr + memsz < vaddr then Ok (False, sz, s)
       else
         res_bind (uvmalloc pt sz (vaddr + memsz) s) (\<lambda>(sz1, s).
         if sz1 = 0 then Ok (False, sz, s)
         else if vaddr mod PGSIZE \<noteq> 0 then Ok (False, sz1, s)
         else
           res_bind (loadseg pt vaddr ip (ucast p_off) (ucast filesz) s) (\<lambda>(r, s).
             if r < 0 then Ok (False, sz1, s) else load_segments k pt ip (off + 56) sz1 s)))"

text \<open>
  Push the argument strings. \<open>ustack\<close> are the addresses pushed so far; the result is the new
  stack pointer and all of them, unless the stack page is too small.
\<close>

primrec push_args ::
  "uint64 list \<Rightarrow> uint64 \<Rightarrow> uint64 \<Rightarrow> uint64 \<Rightarrow> uint64 list \<Rightarrow> 'a fsys_scheme \<Rightarrow>
   ((uint64 \<times> uint64 list) option \<times> 'a fsys_scheme) res" where
  "push_args [] pt stackbase sp ustack s = Ok (Some (sp, ustack), s)"
| "push_args (a # argv) pt stackbase sp ustack s =
     (if length ustack \<ge> MAXARG then Ok (None, s)
      else case strlen (mem s) a of None \<Rightarrow> Blocked
      | Some len \<Rightarrow>
          let sp = sp - word_of_int (len + 1); sp = sp - sp mod 16 in
          if sp < stackbase then Ok (None, s)
          else
            res_bind (copyout pt sp (read_bytes (mem s) a (nat (len + 1))) s) (\<lambda>(r, s).
              if r < 0 then Ok (None, s) else push_args argv pt stackbase sp (ustack @ [sp]) s))"

text \<open>The last element of the path, and \<^verbatim>\<open>safestrcpy(p->name, last, sizeof(p->name))\<close>.\<close>

definition last_elem :: "uchar list \<Rightarrow> uchar list" where
  "last_elem path = rev (takeWhile (\<lambda>c. c \<noteq> SLASH) (rev (takeWhile (\<lambda>c. c \<noteq> 0) path)))"

definition set_name :: "uchar list \<Rightarrow> uchar list \<Rightarrow> uchar list" where
  "set_name name str = patch name 0 (take 15 str @ [0])"

text \<open>The second part of \<^verbatim>\<open>exec\<close>: the stack and the arguments; \<open>False\<close> is the jump to \<^verbatim>\<open>bad\<close>.\<close>

definition exec_stack ::
  "uint64 \<Rightarrow> uint64 \<Rightarrow> uint64 list \<Rightarrow> 'a fsys_scheme \<Rightarrow> (bool \<times> uint64 \<times> uint64 \<times> nat \<times> 'a fsys_scheme) res" where
  "exec_stack pt sz argv s =
     (let sz = PGROUNDUP sz in
      res_bind (uvmalloc pt sz (sz + 2 * PGSIZE) s) (\<lambda>(sz1, s).
      if sz1 = 0 then Ok (False, sz, 0, 0, s)
      else
        res_bind (uvmclear pt (sz1 - 2 * PGSIZE) s) (\<lambda>s.
        let stackbase = sz1 - PGSIZE in
        res_bind (push_args argv pt stackbase sz1 [] s) (\<lambda>(r, s).
        case r of None \<Rightarrow> Ok (False, sz1, 0, 0, s)
        | Some (sp, ustack) \<Rightarrow>
            if length ustack \<ge> MAXARG then Fault
            else
            let argc = length ustack; sp = sp - of_nat (argc + 1) * 8; sp = sp - sp mod 16 in
            if sp < stackbase then Ok (False, sz1, 0, 0, s)
            else
              res_bind (copyout pt sp (concat (map bytes64 (ustack @ [0]))) s) (\<lambda>(r, s).
                Ok (\<not> r < 0, sz1, sp, argc, s))))))"

definition exec :: "uchar list \<Rightarrow> uchar list \<Rightarrow> uint64 list \<Rightarrow> 'a fsys_scheme \<Rightarrow> (int \<times> 'a fsys_scheme) res" where
  "exec stack path argv = with_proc (\<lambda>p s.
     res_bind (begin_op s) (\<lambda>s.
     res_bind (namei stack path s) (\<lambda>(ip, s).
     case ip of None \<Rightarrow> res_bind (end_op s) (\<lambda>s. Ok (- 1, s))
     | Some ip \<Rightarrow>
       let bad = (\<lambda>pt sz s.
             res_bind (if pt \<noteq> 0 then proc_freepagetable pt sz s else Ok s) (\<lambda>s.
             res_bind (iunlockput (Some ip) s) (\<lambda>s.
             res_bind (end_op s) (\<lambda>s. Ok (- 1, s))))) in
       res_bind (ilock (Some ip) s) (\<lambda>s.
       res_bind (readi_local ip 0 64 s) (\<lambda>(r, elf, s).
       if r \<noteq> 64 \<or> get32 elf 0 \<noteq> ELF_MAGIC then bad 0 0 s
       else
         res_bind (proc_pagetable p s) (\<lambda>(pt, s).
         if pt = 0 then bad 0 0 s
         else
           res_bind (load_segments (unat (get16 elf 56)) pt ip (ucast (get64 elf 32)) 0 s) (\<lambda>(ok, sz, s).
           if \<not> ok then bad pt sz s
           else
             res_bind (iunlockput (Some ip) s) (\<lambda>s.
             res_bind (end_op s) (\<lambda>s.
             let oldsz = p_sz (proc s p) in
             res_bind (exec_stack pt sz argv s) (\<lambda>(ok, sz, sp, argc, s).
             if \<not> ok then res_bind (proc_freepagetable pt sz s) (\<lambda>s. Ok (- 1, s))
             else
               let s = tf_set p (TF_a 1) sp s;
                   s = upd_proc p (\<lambda>r. r\<lparr>p_name := set_name (p_name r) (last_elem path)\<rparr>) s;
                   oldpt = pagetable (proc s p);
                   s = upd_proc p (\<lambda>r. r\<lparr>pagetable := pt, p_sz := sz\<rparr>) s;
                   s = tf_set p TF_sp sp (tf_set p TF_epc (get64 elf 24) s) in
               res_bind (proc_freepagetable oldpt oldsz s) (\<lambda>s. Ok (int argc, s))))))))))))"

end
