(* ===== verification/Sysfile.thy ===== *)
theory Sysfile
  imports File Exec
begin

text \<open>
  \<^verbatim>\<open>kernel/sysfile.c\<close>: the system calls on files. The result is the register \<^verbatim>\<open>a0\<close> of the
  caller, a \<^verbatim>\<open>uint64\<close>; \<^verbatim>\<open>-1\<close> is the error. \<open>stack\<close> is what uninitialised local buffers
  hold. (\<^verbatim>\<open>sys_mmap\<close> and \<^verbatim>\<open>munmap\<close> of this file are in theory \<open>Mmap\<close>.)
\<close>

abbreviation (input) NOFILE :: nat where "NOFILE \<equiv> 16"
abbreviation (input) MAXPATH :: nat where "MAXPATH \<equiv> 128"
abbreviation (input) O_WRONLY :: cint where "O_WRONLY \<equiv> 1"
abbreviation (input) O_RDWR :: cint where "O_RDWR \<equiv> 2"
abbreviation (input) O_CREATE :: cint where "O_CREATE \<equiv> 0x200"
abbreviation (input) O_TRUNC :: cint where "O_TRUNC \<equiv> 0x400"

text \<open>The descriptor and its file.\<close>

definition argfd :: "nat \<Rightarrow> 'a files_scheme \<Rightarrow> ((nat \<times> nat) option \<times> 'a files_scheme) res" where
  "argfd n s =
     res_bind (argint n s) (\<lambda>(fd, s).
     if sint fd < 0 \<or> sint fd \<ge> int NOFILE then Ok (None, s)
     else with_proc (\<lambda>p s. Ok (map_option (Pair (unat fd)) (ofile (proc s p) (unat fd)), s)) s)"

definition set_ofile :: "nat \<Rightarrow> nat \<Rightarrow> nat option \<Rightarrow> 'a files_scheme \<Rightarrow> 'a files_scheme" where
  "set_ofile p fd f = upd_proc p (\<lambda>r. r\<lparr>ofile := (ofile r)(fd := f)\<rparr>)"

definition fdalloc :: "nat \<Rightarrow> 'a files_scheme \<Rightarrow> (nat option \<times> 'a files_scheme) res" where
  "fdalloc f = with_proc (\<lambda>p s.
     case find (\<lambda>fd. ofile (proc s p) fd = None) [0..<NOFILE] of
       None \<Rightarrow> Ok (None, s)
     | Some fd \<Rightarrow> Ok (Some fd, set_ofile p fd (Some f) s))"

definition sys_dup :: "'a files_scheme \<Rightarrow> (uint64 \<times> 'a files_scheme) res" where
  "sys_dup s =
     res_bind (argfd 0 s) (\<lambda>(r, s).
     case r of None \<Rightarrow> Ok (- 1, s)
     | Some (_, f) \<Rightarrow>
         res_bind (fdalloc f s) (\<lambda>(fd, s).
         case fd of None \<Rightarrow> Ok (- 1, s)
         | Some fd \<Rightarrow> res_bind (filedup f s) (\<lambda>s. Ok (of_nat fd, s))))"

definition sys_read :: "'a files_scheme \<Rightarrow> (uint64 \<times> 'a files_scheme) res" where
  "sys_read s =
     res_bind (argfd 0 s) (\<lambda>(r, s).
     case r of None \<Rightarrow> Ok (- 1, s)
     | Some (_, f) \<Rightarrow>
         res_bind (argint 2 s) (\<lambda>(n, s).
         res_bind (argaddr 1 s) (\<lambda>(p, s).
         res_bind (fileread f p n s) (\<lambda>(v, s). Ok (of_int v, s)))))"

definition sys_write :: "'a files_scheme \<Rightarrow> (uint64 \<times> 'a files_scheme) res" where
  "sys_write s =
     res_bind (argfd 0 s) (\<lambda>(r, s).
     case r of None \<Rightarrow> Ok (- 1, s)
     | Some (_, f) \<Rightarrow>
         res_bind (argint 2 s) (\<lambda>(n, s).
         res_bind (argaddr 1 s) (\<lambda>(p, s).
         res_bind (filewrite f p n s) (\<lambda>(v, s). Ok (of_int v, s)))))"

definition sys_close :: "'a files_scheme \<Rightarrow> (uint64 \<times> 'a files_scheme) res" where
  "sys_close s =
     res_bind (argfd 0 s) (\<lambda>(r, s).
     case r of None \<Rightarrow> Ok (- 1, s)
     | Some (fd, f) \<Rightarrow>
         with_proc (\<lambda>p s. res_bind (fileclose f (set_ofile p fd None s)) (\<lambda>s. Ok (0, s))) s)"

definition sys_fstat :: "uchar list \<Rightarrow> 'a files_scheme \<Rightarrow> (uint64 \<times> 'a files_scheme) res" where
  "sys_fstat pad s =
     res_bind (argfd 0 s) (\<lambda>(r, s).
     case r of None \<Rightarrow> Ok (- 1, s)
     | Some (_, f) \<Rightarrow>
         res_bind (argaddr 1 s) (\<lambda>(st, s).
         res_bind (filestat pad f st s) (\<lambda>(v, s). Ok (of_int v, s))))"

section \<open>Names\<close>

definition sys_link :: "uchar list \<Rightarrow> 'a files_scheme \<Rightarrow> (uint64 \<times> 'a files_scheme) res" where
  "sys_link stack s =
     res_bind (argstr 0 MAXPATH s) (\<lambda>(n, old, s).
     if n < 0 then Ok (- 1, s)
     else
     res_bind (argstr 1 MAXPATH s) (\<lambda>(n, new, s).
     if n < 0 then Ok (- 1, s)
     else
     res_bind (begin_op s) (\<lambda>s.
     res_bind (namei stack old s) (\<lambda>(r, s).
     case r of None \<Rightarrow> res_bind (end_op s) (\<lambda>s. Ok (- 1, s))
     | Some ip \<Rightarrow>
     let bad = (\<lambda>s.
           res_bind (ilock (Some ip) s) (\<lambda>s.
           res_bind (iupdate ip (upd_inode ip (\<lambda>r. r\<lparr>i_nlink := i_nlink r - 1\<rparr>) s)) (\<lambda>s.
           res_bind (iunlockput (Some ip) s) (\<lambda>s.
           res_bind (end_op s) (\<lambda>s. Ok (- 1, s)))))) in
     res_bind (ilock (Some ip) s) (\<lambda>s.
     if i_type (inode s ip) = T_DIR then
       res_bind (iunlockput (Some ip) s) (\<lambda>s. res_bind (end_op s) (\<lambda>s. Ok (- 1, s)))
     else
     res_bind (iupdate ip (upd_inode ip (\<lambda>r. r\<lparr>i_nlink := i_nlink r + 1\<rparr>) s)) (\<lambda>s.
     res_bind (iunlock (Some ip) s) (\<lambda>s.
     res_bind (nameiparent new stack s) (\<lambda>(r, name, s).
     case r of None \<Rightarrow> bad s
     | Some dp \<Rightarrow>
     res_bind (ilock (Some dp) s) (\<lambda>s.
     res_bind (if i_dev (inode s dp) \<noteq> i_dev (inode s ip) then Ok (- 1, s)
               else dirlink dp name (i_inum (inode s ip)) s) (\<lambda>(r, s).
     if r < 0 then res_bind (iunlockput (Some dp) s) bad
     else
     res_bind (iunlockput (Some dp) s) (\<lambda>s.
     res_bind (iput (Some ip) s) (\<lambda>s.
     res_bind (end_op s) (\<lambda>s. Ok (0, s))))))))))))))"

text \<open>The entries after \<^verbatim>\<open>.\<close> and \<^verbatim>\<open>..\<close> are all unused.\<close>

definition isdirempty :: "nat \<Rightarrow> 'a files_scheme \<Rightarrow> (bool \<times> 'a files_scheme) res" where
  "isdirempty dp s =
     res_bind
       (mloop (\<lambda>off s.
          res_bind (readi_local dp (of_nat off) (of_nat DIRENT) s) (\<lambda>(r, de, s).
          if r \<noteq> of_nat DIRENT then Panic ''isdirempty: readi''
          else if get16 de 0 \<noteq> 0 then Ok (Some False, s) else Ok (None, s)))
        (drop 2 (dir_offsets (i_size (inode s dp)))) s)
       (\<lambda>(r, s). Ok (r = None, s))"

definition sys_unlink :: "uchar list \<Rightarrow> 'a files_scheme \<Rightarrow> (uint64 \<times> 'a files_scheme) res" where
  "sys_unlink stack s =
     res_bind (argstr 0 MAXPATH s) (\<lambda>(n, path, s).
     if n < 0 then Ok (- 1, s)
     else
     res_bind (begin_op s) (\<lambda>s.
     res_bind (nameiparent path stack s) (\<lambda>(r, name, s).
     case r of None \<Rightarrow> res_bind (end_op s) (\<lambda>s. Ok (- 1, s))
     | Some dp \<Rightarrow>
     let bad = (\<lambda>s. res_bind (iunlockput (Some dp) s) (\<lambda>s. res_bind (end_op s) (\<lambda>s. Ok (- 1, s)))) in
     res_bind (ilock (Some dp) s) (\<lambda>s.
     if namecmp name (chars ''.'' @ [0]) = 0 \<or> namecmp name (chars ''..'' @ [0]) = 0 then bad s
     else
     res_bind (dirlookup dp name s) (\<lambda>(r, s).
     case r of None \<Rightarrow> bad s
     | Some (ip, off) \<Rightarrow>
     res_bind (ilock (Some ip) s) (\<lambda>s.
     if sint (i_nlink (inode s ip)) < 1 then Panic ''unlink: nlink < 1''
     else
     res_bind (if i_type (inode s ip) = T_DIR then isdirempty ip s else Ok (True, s)) (\<lambda>(empty, s).
     if \<not> empty then res_bind (iunlockput (Some ip) s) bad
     else
     res_bind (writei_local dp (replicate DIRENT 0) off (of_nat DIRENT) s) (\<lambda>(r, s).
     if r \<noteq> of_nat DIRENT then Panic ''unlink: writei''
     else
     res_bind (if i_type (inode s ip) = T_DIR
               then iupdate dp (upd_inode dp (\<lambda>r. r\<lparr>i_nlink := i_nlink r - 1\<rparr>) s) else Ok s) (\<lambda>s.
     res_bind (iunlockput (Some dp) s) (\<lambda>s.
     res_bind (iupdate ip (upd_inode ip (\<lambda>r. r\<lparr>i_nlink := i_nlink r - 1\<rparr>) s)) (\<lambda>s.
     res_bind (iunlockput (Some ip) s) (\<lambda>s.
     res_bind (end_op s) (\<lambda>s. Ok (0, s))))))))))))))"

definition create ::
  "uchar list \<Rightarrow> uchar list \<Rightarrow> 16 word \<Rightarrow> 16 word \<Rightarrow> 16 word \<Rightarrow> 'a files_scheme \<Rightarrow> (nat option \<times> 'a files_scheme) res" where
  "create stack path type major minor s =
     res_bind (nameiparent path stack s) (\<lambda>(r, name, s).
     case r of None \<Rightarrow> Ok (None, s)
     | Some dp \<Rightarrow>
     res_bind (ilock (Some dp) s) (\<lambda>s.
     res_bind (dirlookup dp name s) (\<lambda>(r, s).
     case r of
       Some (ip, _) \<Rightarrow>
         res_bind (iunlockput (Some dp) s) (\<lambda>s.
         res_bind (ilock (Some ip) s) (\<lambda>s.
         if type = T_FILE \<and> (i_type (inode s ip) = T_FILE \<or> i_type (inode s ip) = T_DEVICE) then Ok (Some ip, s)
         else res_bind (iunlockput (Some ip) s) (\<lambda>s. Ok (None, s))))
     | None \<Rightarrow>
         res_bind (ialloc (i_dev (inode s dp)) type s) (\<lambda>(ip, s).
         res_bind (ilock (Some ip) s) (\<lambda>s.
         res_bind (iupdate ip (upd_inode ip (\<lambda>r. r\<lparr>i_major := major, i_minor := minor, i_nlink := 1\<rparr>) s)) (\<lambda>s.
         res_bind
           (if type = T_DIR then
              res_bind (iupdate dp (upd_inode dp (\<lambda>r. r\<lparr>i_nlink := i_nlink r + 1\<rparr>) s)) (\<lambda>s.
              res_bind (dirlink ip (chars ''.'' @ [0]) (i_inum (inode s ip)) s) (\<lambda>(r, s).
              if r < 0 then Panic ''create dots''
              else
                res_bind (dirlink ip (chars ''..'' @ [0]) (i_inum (inode s dp)) s) (\<lambda>(r, s).
                  if r < 0 then Panic ''create dots'' else Ok s)))
            else Ok s) (\<lambda>s.
         res_bind (dirlink dp name (i_inum (inode s ip)) s) (\<lambda>(r, s).
         if r < 0 then Panic ''create: dirlink''
         else res_bind (iunlockput (Some dp) s) (\<lambda>s. Ok (Some ip, s))))))))))"

section \<open>Opening files\<close>

definition sys_open :: "uchar list \<Rightarrow> 'a files_scheme \<Rightarrow> (uint64 \<times> 'a files_scheme) res" where
  "sys_open stack s =
     res_bind (argstr 0 MAXPATH s) (\<lambda>(n, path, s).
     if n < 0 then Ok (- 1, s)
     else
     res_bind (argint 1 s) (\<lambda>(omode, s).
     res_bind (begin_op s) (\<lambda>s.
     let fail = (\<lambda>s. res_bind (end_op s) (\<lambda>s. Ok (- 1, s)));
         bad = (\<lambda>ip s. res_bind (iunlockput (Some ip) s) fail) in
     res_bind (if omode AND O_CREATE \<noteq> 0 then create stack path T_FILE 0 0 s else namei stack path s) (\<lambda>(r, s).
     case r of None \<Rightarrow> fail s
     | Some ip \<Rightarrow>
     res_bind (if omode AND O_CREATE \<noteq> 0 then Ok s else ilock (Some ip) s) (\<lambda>s.
     if omode AND O_CREATE = 0 \<and> i_type (inode s ip) = T_DIR \<and> omode \<noteq> 0 then bad ip s
     else if i_type (inode s ip) = T_DEVICE \<and> no_device (i_major (inode s ip)) then bad ip s
     else
     res_bind (filealloc s) (\<lambda>(r, s).
     case r of None \<Rightarrow> bad ip s
     | Some f \<Rightarrow>
     res_bind (fdalloc f s) (\<lambda>(r, s).
     case r of None \<Rightarrow> res_bind (fileclose f s) (bad ip)
     | Some fd \<Rightarrow>
     let s = upd_file f (\<lambda>fl.
           (if i_type (inode s ip) = T_DEVICE then fl\<lparr>f_type := FD_DEVICE, f_major := i_major (inode s ip)\<rparr>
            else fl\<lparr>f_type := FD_INODE, f_off := 0\<rparr>)
           \<lparr>f_ip := Some ip, f_readable := (if omode AND O_WRONLY \<noteq> 0 then 0 else 1),
             f_writable := (if omode AND O_WRONLY \<noteq> 0 \<or> omode AND O_RDWR \<noteq> 0 then 1 else 0)\<rparr>) s in
     res_bind (if omode AND O_TRUNC \<noteq> 0 \<and> i_type (inode s ip) = T_FILE then itrunc ip s else Ok s) (\<lambda>s.
     res_bind (iunlock (Some ip) s) (\<lambda>s.
     res_bind (end_op s) (\<lambda>s. Ok (of_nat fd, s)))))))))))"

text \<open>A directory, or a device node, from the path in argument 0.\<close>

definition sys_mkdir :: "uchar list \<Rightarrow> 'a files_scheme \<Rightarrow> (uint64 \<times> 'a files_scheme) res" where
  "sys_mkdir stack s =
     res_bind (begin_op s) (\<lambda>s.
     res_bind (argstr 0 MAXPATH s) (\<lambda>(n, path, s).
     res_bind (if n < 0 then Ok (None, s) else create stack path T_DIR 0 0 s) (\<lambda>(r, s).
     case r of None \<Rightarrow> res_bind (end_op s) (\<lambda>s. Ok (- 1, s))
     | Some ip \<Rightarrow> res_bind (iunlockput (Some ip) s) (\<lambda>s. res_bind (end_op s) (\<lambda>s. Ok (0, s))))))"

definition sys_mknod :: "uchar list \<Rightarrow> 'a files_scheme \<Rightarrow> (uint64 \<times> 'a files_scheme) res" where
  "sys_mknod stack s =
     res_bind (begin_op s) (\<lambda>s.
     res_bind (argstr 0 MAXPATH s) (\<lambda>(n, path, s).
     res_bind
       (if n < 0 then Ok (None, s)
        else
          res_bind (argint 1 s) (\<lambda>(major, s).
          res_bind (argint 2 s) (\<lambda>(minor, s). create stack path T_DEVICE (ucast major) (ucast minor) s))) (\<lambda>(r, s).
     case r of None \<Rightarrow> res_bind (end_op s) (\<lambda>s. Ok (- 1, s))
     | Some ip \<Rightarrow> res_bind (iunlockput (Some ip) s) (\<lambda>s. res_bind (end_op s) (\<lambda>s. Ok (0, s))))))"

definition sys_chdir :: "uchar list \<Rightarrow> 'a files_scheme \<Rightarrow> (uint64 \<times> 'a files_scheme) res" where
  "sys_chdir stack = with_proc (\<lambda>p s.
     res_bind (begin_op s) (\<lambda>s.
     res_bind (argstr 0 MAXPATH s) (\<lambda>(n, path, s).
     res_bind (if n < 0 then Ok (None, s) else namei stack path s) (\<lambda>(r, s).
     case r of None \<Rightarrow> res_bind (end_op s) (\<lambda>s. Ok (- 1, s))
     | Some ip \<Rightarrow>
         res_bind (ilock (Some ip) s) (\<lambda>s.
         if i_type (inode s ip) \<noteq> T_DIR then
           res_bind (iunlockput (Some ip) s) (\<lambda>s. res_bind (end_op s) (\<lambda>s. Ok (- 1, s)))
         else
           res_bind (iunlock (Some ip) s) (\<lambda>s.
           res_bind (iput (cwd (proc s p)) s) (\<lambda>s.
           res_bind (end_op s) (\<lambda>s. Ok (0, upd_proc p (\<lambda>r. r\<lparr>cwd := Some ip\<rparr>) s)))))))))"

text \<open>
  The loop of \<^verbatim>\<open>sys_exec\<close>, with \<open>k\<close> places left in \<^verbatim>\<open>argv\<close>: the result says whether the
  null pointer at the end was reached, and the pages allocated for the strings.
\<close>

primrec fetch_args ::
  "nat \<Rightarrow> uint64 \<Rightarrow> uint64 list \<Rightarrow> 'a files_scheme \<Rightarrow> (bool \<times> uint64 list \<times> 'a files_scheme) res" where
  "fetch_args 0 uargv argv s = Ok (False, argv, s)"
| "fetch_args (Suc k) uargv argv s =
     res_bind (fetchaddr (uargv + 8 * of_nat (length argv)) s) (\<lambda>(r, uarg, s).
     if r < 0 then Ok (False, argv, s)
     else if uarg = 0 then Ok (True, argv, s)
     else
       res_bind (kalloc s) (\<lambda>(page, s).
       if page = 0 then Ok (False, argv, s)
       else
         res_bind (fetchstr uarg 4096 s) (\<lambda>(r, bs, s).
         let s = s\<lparr>mem := write_bytes (mem s) page bs\<rparr> in
         if r < 0 then Ok (False, argv @ [page], s) else fetch_args k uargv (argv @ [page]) s)))"

definition sys_exec :: "uchar list \<Rightarrow> 'a files_scheme \<Rightarrow> (uint64 \<times> 'a files_scheme) res" where
  "sys_exec stack s =
     res_bind (argstr 0 MAXPATH s) (\<lambda>(n, path, s).
     if n < 0 then Ok (- 1, s)
     else
       res_bind (argaddr 1 s) (\<lambda>(uargv, s).
       res_bind (fetch_args MAXARG uargv [] s) (\<lambda>(ok, argv, s).
       res_bind (if ok then exec stack path argv s else Ok (- 1, s)) (\<lambda>(ret, s).
       res_bind (mfold kfree argv s) (\<lambda>s. Ok (of_int ret, s))))))"

definition sys_pipe :: "'a files_scheme \<Rightarrow> (uint64 \<times> 'a files_scheme) res" where
  "sys_pipe = with_proc (\<lambda>p s.
     res_bind (argaddr 0 s) (\<lambda>(fdarray, s).
     res_bind (pipealloc s) (\<lambda>(r, rfile, wfile, s).
     case (rfile, wfile) of
       (Some rfile, Some wfile) \<Rightarrow>
         if r < 0 then Ok (- 1, s)
         else
           let bad = (\<lambda>s. res_bind (fileclose rfile s) (\<lambda>s. res_bind (fileclose wfile s) (\<lambda>s. Ok (- 1, s)))) in
           res_bind (fdalloc rfile s) (\<lambda>(fd0, s).
           case fd0 of None \<Rightarrow> bad s
           | Some fd0 \<Rightarrow>
             res_bind (fdalloc wfile s) (\<lambda>(fd1, s).
             case fd1 of None \<Rightarrow> bad (set_ofile p fd0 None s)
             | Some fd1 \<Rightarrow>
               let undo = (\<lambda>s. bad (set_ofile p fd1 None (set_ofile p fd0 None s))) in
               res_bind (copyout (pagetable (proc s p)) fdarray (bytes32 (of_nat fd0)) s) (\<lambda>(r, s).
               if r < 0 then undo s
               else
                 res_bind (copyout (pagetable (proc s p)) (fdarray + 4) (bytes32 (of_nat fd1)) s) (\<lambda>(r, s).
                 if r < 0 then undo s else Ok (0, s)))))
     | _ \<Rightarrow> Ok (- 1, s))))"

end
