(* ===== verification/Proc_Life.thy ===== *)
theory Proc_Life
  imports Sysfile
begin

text \<open>
  The life of a process (\<^verbatim>\<open>kernel/proc.c\<close>): \<^verbatim>\<open>userinit\<close>, \<^verbatim>\<open>fork\<close> and \<^verbatim>\<open>exit\<close>, which
  need the file system and the open files; and memory-mapped regions (\<^verbatim>\<open>sys_mmap\<close> and
  \<^verbatim>\<open>munmap\<close> of \<^verbatim>\<open>kernel/sysfile.c\<close>).
\<close>

section \<open>The first process\<close>

definition initcode :: "uchar list" where
  "initcode =
    [0x17, 0x05, 0x00, 0x00, 0x13, 0x05, 0x45, 0x02,
     0x97, 0x05, 0x00, 0x00, 0x93, 0x85, 0x35, 0x02,
     0x93, 0x08, 0x70, 0x00, 0x73, 0x00, 0x00, 0x00,
     0x93, 0x08, 0x20, 0x00, 0x73, 0x00, 0x00, 0x00,
     0xef, 0xf0, 0x9f, 0xff, 0x2f, 0x69, 0x6e, 0x69,
     0x74, 0x00, 0x00, 0x24, 0x00, 0x00, 0x00, 0x00,
     0x00, 0x00, 0x00, 0x00]"

definition userinit :: "uchar list \<Rightarrow> 'a files_scheme \<Rightarrow> 'a files_scheme res" where
  "userinit stack s =
     res_bind (allocproc s) (\<lambda>(r, s).
     case r of None \<Rightarrow> Fault
     | Some p \<Rightarrow>
         let s = upd_proc p (\<lambda>r. r\<lparr>cur_max := MAXVA - 2 * PGSIZE\<rparr>) (s\<lparr>initproc := Some p\<rparr>) in
         res_bind (uvminit (pagetable (proc s p)) initcode s) (\<lambda>s.
         let s = upd_proc p (\<lambda>r. r\<lparr>p_sz := PGSIZE\<rparr>) s;
             s = tf_set p TF_sp PGSIZE (tf_set p TF_epc 0 s);
             s = upd_proc p (\<lambda>r. r\<lparr>p_name := set_name (p_name r) (chars ''initcode'')\<rparr>) s in
         res_bind (namei stack [SLASH, 0] s) (\<lambda>(c, s).
         let s = upd_proc p (\<lambda>r. r\<lparr>cwd := c, state := RUNNABLE\<rparr>) s in
         res_bind (enqueue_at_tail p (priority (proc s p)) s) (release (ProcLock p)))))"

section \<open>fork\<close>

text \<open>
  Copy the pages of region \<open>i\<close> that exist; \<open>copy\<close> is \<^verbatim>\<open>uvmcopy\<close> or \<^verbatim>\<open>uvmcopyshared\<close>. \<open>Some ()\<close>
  is a failure.
\<close>

definition copy_region ::
  "(uint64 \<Rightarrow> uint64 \<Rightarrow> uint64 \<Rightarrow> uint64 \<Rightarrow> 'a files_scheme \<Rightarrow> (int \<times> 'a files_scheme) res) \<Rightarrow> nat \<Rightarrow> nat \<Rightarrow> nat \<Rightarrow>
   'a files_scheme \<Rightarrow> (unit option \<times> 'a files_scheme) res" where
  "copy_region copy p np i s =
     mloop (\<lambda>a s.
       res_bind (walkaddr (pagetable (proc s p)) a s) (\<lambda>pa.
         if pa = 0 then Ok (None, s)
         else
           res_bind (copy (pagetable (proc s p)) (pagetable (proc s np)) a (a + PGSIZE) s) (\<lambda>(r, s).
             Ok (if r < 0 then Some () else None, s)))) (mmr_pages (p_mmr (proc s p) i)) s"

text \<open>Put the child's node right after the parent's in the family of region \<open>i\<close>.\<close>

definition join_family :: "nat \<Rightarrow> nat \<Rightarrow> nat \<Rightarrow> 'a files_scheme \<Rightarrow> 'a files_scheme" where
  "join_family p np i s =
     (let s = upd_node (np, i) (\<lambda>n. n\<lparr>node_next := node_next (mmr_family (p_mmr (proc s p) i))\<rparr>) s;
          s = upd_node (p, i) (\<lambda>n. n\<lparr>node_next := (np, i)\<rparr>) s;
          s = upd_node (np, i) (\<lambda>n. n\<lparr>node_prev := (p, i)\<rparr>) s
      in
      if node_prev (mmr_family (p_mmr (proc s p) i)) = (p, i)
      then upd_node (p, i) (\<lambda>n. n\<lparr>node_prev := (np, i)\<rparr>) s else s)"

definition fork_region :: "nat \<Rightarrow> nat \<Rightarrow> nat \<Rightarrow> 'a files_scheme \<Rightarrow> (unit option \<times> 'a files_scheme) res" where
  "fork_region p np i s =
     (let m = p_mmr (proc s p) i in
      if mmr_valid m \<noteq> 1 then Ok (None, s)
      else if mmr_flags m AND MAP_PRIVATE \<noteq> 0 then
        res_bind (copy_region uvmcopy p np i s) (\<lambda>(r, s).
          case r of Some _ \<Rightarrow> Ok (r, s)
          | None \<Rightarrow>
              Ok (None, upd_node (np, i)
                (\<lambda>n. n\<lparr>node_proc := Some np, listid := - 1, node_next := (np, i), node_prev := (np, i)\<rparr>) s))
      else
        res_bind (copy_region uvmcopyshared p np i s) (\<lambda>(r, s).
          case r of Some _ \<Rightarrow> Ok (r, s)
          | None \<Rightarrow>
              let lid = listid (mmr_family (p_mmr (proc s p) i));
                  s = upd_node (np, i) (\<lambda>n. n\<lparr>node_proc := Some np, listid := lid\<rparr>) s in
              list_lock lid (\<lambda>lk.
                res_bind (acquire lk s) (\<lambda>s.
                res_bind (release lk (join_family p np i s)) (\<lambda>s. Ok (None, s))))))"

definition fork :: "'a files_scheme \<Rightarrow> (int \<times> 'a files_scheme) res" where
  "fork = with_proc (\<lambda>p s.
     res_bind (allocproc s) (\<lambda>(r, s).
     case r of None \<Rightarrow> Ok (- 1, s)
     | Some np \<Rightarrow>
       let fail = (\<lambda>s. res_bind (freeproc np s) (\<lambda>s. res_bind (release (ProcLock np) s) (\<lambda>s. Ok (- 1, s)))) in
       res_bind (uvmcopy (pagetable (proc s p)) (pagetable (proc s np)) 0 (p_sz (proc s p)) s) (\<lambda>(r, s).
       if r < 0 then fail s
       else
         let s = upd_proc np (\<lambda>r. r\<lparr>p_sz := p_sz (proc s p), cur_max := cur_max (proc s p)\<rparr>) s;
             s = s\<lparr>mem := write_bytes (mem s) (trapframe (proc s np)) (read_bytes (mem s) (trapframe (proc s p)) 288)\<rparr>;
             s = tf_set np (TF_a 0) 0 s in
         res_bind
           (mfold (\<lambda>fd s.
              case ofile (proc s p) fd of None \<Rightarrow> Ok s
              | Some f \<Rightarrow> res_bind (filedup f s) (\<lambda>s. Ok (set_ofile np fd (Some f) s))) [0..<NOFILE] s) (\<lambda>s.
         res_bind (idup (cwd (proc s p)) s) (\<lambda>(c, s).
         let s = upd_proc np (\<lambda>r. r\<lparr>cwd := Some c,
                   p_name := set_name (p_name r) (takeWhile (\<lambda>c. c \<noteq> 0) (p_name (proc s p))),
                   p_mmr := \<lambda>i. if i < MAX_MMR then p_mmr (proc s p) i else p_mmr r i\<rparr>) s;
             child = pid (proc s np) in
         res_bind (mloop (fork_region p np) [0..<MAX_MMR] s) (\<lambda>(r, s).
         case r of Some _ \<Rightarrow> fail s
         | None \<Rightarrow>
           res_bind (release (ProcLock np) s) (\<lambda>s.
           res_bind (critical WaitLock (\<lambda>s. Ok ((), upd_proc np (\<lambda>r. r\<lparr>parent := Some p\<rparr>) s)) s) (\<lambda>(_, s).
           res_bind (acquire (ProcLock np) s) (\<lambda>s.
           let s = upd_proc np (\<lambda>r. r\<lparr>state := RUNNABLE\<rparr>) s in
           res_bind (enqueue_at_tail np (priority (proc s np)) s) (\<lambda>s.
           res_bind (release (ProcLock np) s) (\<lambda>s. Ok (sint child, s))))))))))))"

section \<open>exit\<close>

text \<open>
  \<^verbatim>\<open>exit\<close> up to the switch to the scheduler, from which the process does not come back.
\<close>

definition exit :: "cint \<Rightarrow> 'a files_scheme \<Rightarrow> (bool \<times> 'a files_scheme) res" where
  "exit status = with_proc (\<lambda>p s.
     if initproc s = Some p then Panic ''init exiting''
     else
       res_bind
         (mfold (\<lambda>fd s.
            case ofile (proc s p) fd of None \<Rightarrow> Ok s
            | Some f \<Rightarrow> res_bind (fileclose f s) (\<lambda>s. Ok (set_ofile p fd None s))) [0..<NOFILE] s) (\<lambda>s.
       res_bind (begin_op s) (\<lambda>s.
       res_bind (iput (cwd (proc s p)) s) (\<lambda>s.
       res_bind (end_op s) (\<lambda>s.
       res_bind (acquire WaitLock (upd_proc p (\<lambda>r. r\<lparr>cwd := None\<rparr>) s)) (\<lambda>s.
       res_bind (reparent p s) (\<lambda>s.
       res_bind (wakeup (map_option ChProc (parent (proc s p))) s) (\<lambda>s.
       res_bind (acquire (ProcLock p) s) (\<lambda>s.
       res_bind (release WaitLock (upd_proc p (\<lambda>r. r\<lparr>xstate := status, state := ZOMBIE\<rparr>) s)) sched)))))))))"

section \<open>Memory-mapped regions\<close>

definition sys_mmap :: "'a files_scheme \<Rightarrow> (uint64 \<times> 'a files_scheme) res" where
  "sys_mmap = with_proc (\<lambda>p s.
     res_bind (argaddr 1 s) (\<lambda>(len, s).
     res_bind (argint 2 s) (\<lambda>(prot, s).
     res_bind (argint 3 s) (\<lambda>(flags, s).
     case find (\<lambda>i. mmr_valid (p_mmr (proc s p) i) = 0) [0..<MAX_MMR] of
       None \<Rightarrow> Ok (- 1, s)
     | Some i \<Rightarrow>
         let start_addr = PGROUNDDOWN (cur_max (proc s p) - len);
             mlen = (ucast (cur_max (proc s p) - start_addr) :: cint);
             s = upd_mmr p i (\<lambda>m. m\<lparr>mmr_valid := 1, mmr_addr := start_addr, mmr_length := mlen,
                   mmr_prot := prot, mmr_flags := flags\<rparr>) s;
             s = upd_node (p, i) (\<lambda>n. n\<lparr>node_proc := Some p, node_next := (p, i), node_prev := (p, i)\<rparr>) s in
         res_bind (mapvpages (pagetable (proc s p)) start_addr (scast mlen) s) (\<lambda>(r, s).
         if r < 0 then Ok (- 1, upd_mmr p i (\<lambda>m. m\<lparr>mmr_valid := 0\<rparr>) s)
         else
           res_bind
             (if flags AND MAP_SHARED \<noteq> 0 then
                res_bind (alloc_mmr_listid s) (\<lambda>(lid, s). Ok (upd_node (p, i) (\<lambda>n. n\<lparr>listid := lid\<rparr>) s))
              else Ok s) (\<lambda>s.
           Ok (start_addr, upd_proc p (\<lambda>r. r\<lparr>cur_max := start_addr\<rparr>) s)))))))"

text \<open>As \<open>leave_family\<close>, but the list must be in use.\<close>

definition munmap_family :: "nat \<Rightarrow> nat \<Rightarrow> 'a files_scheme \<Rightarrow> (bool \<times> 'a files_scheme) res" where
  "munmap_family p i s =
     (if mmr_flags (p_mmr (proc s p) i) AND MAP_PRIVATE \<noteq> 0 then Ok (True, s)
      else
        res_bind (get_mmr_list (listid (mmr_family (p_mmr (proc s p) i))) s) (\<lambda>(l, s).
        case l of None \<Rightarrow> Fault
        | Some _ \<Rightarrow> leave_family p i s))"

definition munmap :: "uint64 \<Rightarrow> uint64 \<Rightarrow> 'a files_scheme \<Rightarrow> (int \<times> 'a files_scheme) res" where
  "munmap addr len = with_proc (\<lambda>p s.
     case find (\<lambda>i. mmr_valid (p_mmr (proc s p) i) = 1 \<and> addr = mmr_addr (p_mmr (proc s p) i) \<and>
                   PGROUNDUP len = scast (mmr_length (p_mmr (proc s p) i))) [0..<MAX_MMR] of
       None \<Rightarrow> Ok (- 1, s)
     | Some i \<Rightarrow>
         res_bind (munmap_family p i (upd_mmr p i (\<lambda>m. m\<lparr>mmr_valid := 0\<rparr>) s)) (\<lambda>(dofree, s).
         res_bind (unmap_region p i dofree s) (\<lambda>s. Ok (0, s))))"

definition sys_munmap :: "'a files_scheme \<Rightarrow> (uint64 \<times> 'a files_scheme) res" where
  "sys_munmap s =
     res_bind (argaddr 0 s) (\<lambda>(addr, s).
     res_bind (argaddr 1 s) (\<lambda>(len, s).
     res_bind (munmap addr len s) (\<lambda>(r, s). Ok (of_int r, s))))"

end
