(* ===== verification/Syscall.thy ===== *)
theory Syscall
  imports Proc_Life
begin

text \<open>
  \<^verbatim>\<open>kernel/sysproc.c\<close> and the dispatch of \<^verbatim>\<open>kernel/syscall.c\<close>. A system call returns a value
  for register \<^verbatim>\<open>a0\<close> or, for \<^verbatim>\<open>exit\<close>, switches to the scheduler for good. \<open>stack\<close> is what
  uninitialised local variables hold.
\<close>

section \<open>System calls on processes\<close>

datatype sysret = Ret uint64 | Exited bool

definition ret_of :: "(uint64 \<times> 's) res \<Rightarrow> (sysret \<times> 's) res" where
  "ret_of r = res_bind r (\<lambda>(v, s). Ok (Ret v, s))"

definition int_of :: "(int \<times> 's) res \<Rightarrow> (uint64 \<times> 's) res" where
  "int_of r = res_bind r (\<lambda>(v, s). Ok (of_int v, s))"

definition sys_exit :: "'a files_scheme \<Rightarrow> (sysret \<times> 'a files_scheme) res" where
  "sys_exit s = res_bind (argint 0 s) (\<lambda>(n, s). res_bind (exit n s) (\<lambda>(ie, s). Ok (Exited ie, s)))"

definition sys_getpid :: "'a files_scheme \<Rightarrow> (uint64 \<times> 'a files_scheme) res" where
  "sys_getpid = with_proc (\<lambda>p s. Ok (scast (pid (proc s p)), s))"

definition sys_fork :: "'a files_scheme \<Rightarrow> (uint64 \<times> 'a files_scheme) res" where
  "sys_fork s = int_of (fork s)"

definition sys_wait :: "'a files_scheme \<Rightarrow> (uint64 \<times> 'a files_scheme) res" where
  "sys_wait s = res_bind (argaddr 0 s) (\<lambda>(p, s). int_of (at_once (wait p s)))"

definition sys_sbrk :: "'a files_scheme \<Rightarrow> (uint64 \<times> 'a files_scheme) res" where
  "sys_sbrk s =
     res_bind (argint 0 s) (\<lambda>(n, s).
     with_proc (\<lambda>p s.
       let addr = (ucast (p_sz (proc s p)) :: cint) in
       res_bind (growproc n s) (\<lambda>(r, s). Ok (if r < 0 then - 1 else scast addr, s))) s)"

text \<open>One pass of the loop of \<^verbatim>\<open>sys_sleep\<close>, with \<^verbatim>\<open>tickslock\<close> held; the comparison is unsigned.\<close>

definition sys_sleep_round :: "uint \<Rightarrow> cint \<Rightarrow> 'a files_scheme \<Rightarrow> (wait_result \<times> 'a files_scheme) res" where
  "sys_sleep_round ticks0 n s =
     (if ticks s - ticks0 < n then
        with_proc (\<lambda>p s.
          if killed (proc s p) \<noteq> 0 then res_bind (release TicksLock s) (\<lambda>s. Ok (Returned (- 1), s))
          else res_bind (sleep ChTicks TicksLock s) (\<lambda>(ie, s). Ok (Asleep ie, s))) s
      else res_bind (release TicksLock s) (\<lambda>s. Ok (Returned 0, s)))"

definition sys_sleep :: "'a files_scheme \<Rightarrow> (wait_result \<times> uint \<times> 'a files_scheme) res" where
  "sys_sleep s =
     res_bind (argint 0 s) (\<lambda>(n, s).
     res_bind (acquire TicksLock s) (\<lambda>s.
     let ticks0 = ticks s in
     res_bind (sys_sleep_round ticks0 n s) (\<lambda>(w, s). Ok (w, ticks0, s))))"

definition sys_sleep_resume ::
  "nat \<Rightarrow> bool \<Rightarrow> uint \<Rightarrow> cint \<Rightarrow> 'a files_scheme \<Rightarrow> (wait_result \<times> 'a files_scheme) res" where
  "sys_sleep_resume p ie ticks0 n s = res_bind (sleep_return p TicksLock ie s) (sys_sleep_round ticks0 n)"

definition sys_kill :: "'a files_scheme \<Rightarrow> (uint64 \<times> 'a files_scheme) res" where
  "sys_kill s = res_bind (argint 0 s) (\<lambda>(n, s). int_of (kill n s))"

definition sys_uptime :: "'a files_scheme \<Rightarrow> (uint64 \<times> 'a files_scheme) res" where
  "sys_uptime = critical TicksLock (\<lambda>s. Ok (ucast (ticks s), s))"

definition sys_getprocs :: "uchar list \<Rightarrow> 'a files_scheme \<Rightarrow> (uint64 \<times> 'a files_scheme) res" where
  "sys_getprocs stack s = res_bind (argaddr 0 s) (\<lambda>(addr, s). int_of (procinfo stack addr s))"

definition sys_wait2 :: "'a files_scheme \<Rightarrow> (uint64 \<times> 'a files_scheme) res" where
  "sys_wait2 s =
     res_bind (argaddr 0 s) (\<lambda>(p1, s). res_bind (argaddr 1 s) (\<lambda>(p2, s). int_of (at_once (wait2 p1 p2 s))))"

definition sys_freepmem :: "'a files_scheme \<Rightarrow> (uint64 \<times> 'a files_scheme) res" where
  "sys_freepmem = kfreepagecount"

text \<open>The four semaphore calls only return 1.\<close>

definition sys_sem_init :: "'a files_scheme \<Rightarrow> (uint64 \<times> 'a files_scheme) res" where
  "sys_sem_init s = Ok (1, s)"

definition sys_sem_destroy :: "'a files_scheme \<Rightarrow> (uint64 \<times> 'a files_scheme) res" where
  "sys_sem_destroy s = Ok (1, s)"

definition sys_sem_wait :: "'a files_scheme \<Rightarrow> (uint64 \<times> 'a files_scheme) res" where
  "sys_sem_wait s = Ok (1, s)"

definition sys_sem_post :: "'a files_scheme \<Rightarrow> (uint64 \<times> 'a files_scheme) res" where
  "sys_sem_post s = Ok (1, s)"

section \<open>Dispatch\<close>

abbreviation (input) NSYSCALLS :: nat where "NSYSCALLS \<equiv> 31"

definition syscalls :: "uchar list \<Rightarrow> nat \<Rightarrow> 'a files_scheme \<Rightarrow> (sysret \<times> 'a files_scheme) res" where
  "syscalls stack num s =
     (if num = 1 then ret_of (sys_fork s)
      else if num = 2 then sys_exit s
      else if num = 3 then ret_of (sys_wait s)
      else if num = 4 then ret_of (sys_pipe s)
      else if num = 5 then ret_of (sys_read s)
      else if num = 6 then ret_of (sys_kill s)
      else if num = 7 then ret_of (sys_exec stack s)
      else if num = 8 then ret_of (sys_fstat stack s)
      else if num = 9 then ret_of (sys_chdir stack s)
      else if num = 10 then ret_of (sys_dup s)
      else if num = 11 then ret_of (sys_getpid s)
      else if num = 12 then ret_of (sys_sbrk s)
      else if num = 13 then ret_of (int_of (at_once (res_bind (sys_sleep s) (\<lambda>(w, _, s). Ok (w, s)))))
      else if num = 14 then ret_of (sys_uptime s)
      else if num = 15 then ret_of (sys_open stack s)
      else if num = 16 then ret_of (sys_write s)
      else if num = 17 then ret_of (sys_mknod stack s)
      else if num = 18 then ret_of (sys_unlink stack s)
      else if num = 19 then ret_of (sys_link stack s)
      else if num = 20 then ret_of (sys_mkdir stack s)
      else if num = 21 then ret_of (sys_close s)
      else if num = 22 then ret_of (sys_getprocs stack s)
      else if num = 23 then ret_of (sys_wait2 s)
      else if num = 24 then ret_of (sys_freepmem s)
      else if num = 25 then ret_of (sys_mmap s)
      else if num = 26 then ret_of (sys_munmap s)
      else if num = 27 then ret_of (sys_sem_init s)
      else if num = 28 then ret_of (sys_sem_destroy s)
      else if num = 29 then ret_of (sys_sem_wait s)
      else ret_of (sys_sem_post s))"

text \<open>
  \<^verbatim>\<open>syscall\<close>: every entry of the table from 1 to 30 is set. The result is the switch of
  \<^verbatim>\<open>exit\<close>, if it was that.
\<close>

definition syscall :: "uchar list \<Rightarrow> 'a files_scheme \<Rightarrow> (bool option \<times> 'a files_scheme) res" where
  "syscall stack = with_proc (\<lambda>p s.
     let num = (ucast (tf_get p (TF_a 7) s) :: cint) in
     if 0 < sint num \<and> sint num < int NSYSCALLS then
       res_bind (syscalls stack (unat num) s) (\<lambda>(r, s).
         case r of Ret v \<Rightarrow> Ok (None, tf_set p (TF_a 0) v s) | Exited ie \<Rightarrow> Ok (Some ie, s))
     else
       res_bind (printf (Some (chars ''%d %s: unknown sys call %d'' @ [10]))
           [PInt (pid (proc s p)), PStr (Some (p_name (proc s p))), PInt num] s)
         (\<lambda>s. Ok (None, tf_set p (TF_a 0) (- 1) s)))"

end
