(* ===== verification/Virtio.thy ===== *)
theory Virtio
  imports File
begin

text \<open>
  \<^verbatim>\<open>kernel/virtio_disk.c\<close>: the driver of the disk. The descriptors and the two rings are in
  memory that the driver shares with the device; their addresses in descriptors are values of
  type \<open>vaddr\<close>. The device itself is not part of the program: it writes \<open>vd_used_idx\<close> and the
  used ring, the status bytes and the data of buffers, and answers the reads of its registers
  with \<open>mmio_rd\<close>.
\<close>

abbreviation (input) NUM :: nat where "NUM \<equiv> 8"
abbreviation (input) VRING_DESC_F_NEXT :: ushort where "VRING_DESC_F_NEXT \<equiv> 1"
abbreviation (input) VRING_DESC_F_WRITE :: ushort where "VRING_DESC_F_WRITE \<equiv> 2"
abbreviation (input) VIRTIO_BLK_T_IN :: uint where "VIRTIO_BLK_T_IN \<equiv> 0"
abbreviation (input) VIRTIO_BLK_T_OUT :: uint where "VIRTIO_BLK_T_OUT \<equiv> 1"

datatype vaddr = VNull | VReq nat | VData nat | VStatus nat

record virtq_desc =
  vq_addr :: vaddr
  vq_len :: uint
  vq_flags :: ushort
  vq_next :: ushort

record virtio_blk_req =
  rq_type :: uint
  rq_reserved :: uint
  rq_sector :: uint64

record vdisk = files +
  vd_desc :: "nat \<Rightarrow> virtq_desc"
  vd_avail_idx :: ushort
  vd_avail :: "nat \<Rightarrow> ushort"
  vd_used_idx :: ushort
  vd_used :: "nat \<Rightarrow> uint"
  vd_free :: "nat \<Rightarrow> bool"
  vd_seen :: ushort
  vd_info_b :: "nat \<Rightarrow> nat option"
  vd_info_status :: "nat \<Rightarrow> uchar"
  vd_ops :: "nat \<Rightarrow> virtio_blk_req"
  vd_pages :: uint64
  mmio_rd :: "nat \<Rightarrow> uint"
  mmio_wr :: "(nat \<times> uint) list"

definition wr_reg :: "nat \<Rightarrow> uint \<Rightarrow> 'a vdisk_scheme \<Rightarrow> 'a vdisk_scheme" where
  "wr_reg r v s = s\<lparr>mmio_wr := mmio_wr s @ [(r, v)]\<rparr>"

definition upd_desc :: "nat \<Rightarrow> (virtq_desc \<Rightarrow> virtq_desc) \<Rightarrow> 'a vdisk_scheme \<Rightarrow> 'a vdisk_scheme" where
  "upd_desc i f s = s\<lparr>vd_desc := (vd_desc s)(i := f (vd_desc s i))\<rparr>"

section \<open>Initialisation\<close>

definition no_desc :: virtq_desc where
  "no_desc = \<lparr>vq_addr = VNull, vq_len = 0, vq_flags = 0, vq_next = 0\<rparr>"

definition negotiate :: "uint \<Rightarrow> uint" where
  "negotiate features = fold (\<lambda>b f. f AND NOT (push_bit b 1)) [5, 7, 11, 12, 27, 29, 28] features"

definition virtio_disk_init :: "'a vdisk_scheme \<Rightarrow> 'a vdisk_scheme res" where
  "virtio_disk_init s =
     (let s = initlock VdiskLock ''virtio_disk'' s in
      if mmio_rd s 0 \<noteq> 0x74726976 \<or> mmio_rd s 4 \<noteq> 1 \<or> mmio_rd s 8 \<noteq> 2 \<or> mmio_rd s 0xc \<noteq> 0x554d4551
      then Panic ''could not find virtio disk''
      else
        let s = wr_reg 0x70 1 s;
            s = wr_reg 0x70 3 s;
            s = wr_reg 0x20 (negotiate (mmio_rd s 0x10)) s;
            s = wr_reg 0x70 11 s;
            s = wr_reg 0x70 15 s;
            s = wr_reg 0x28 4096 s;
            s = wr_reg 0x30 0 s;
            mx = mmio_rd s 0x34
        in
        if mx = 0 then Panic ''virtio disk has no queue 0''
        else if mx < of_nat NUM then Panic ''virtio disk max queue too short''
        else
          let s = wr_reg 0x38 (of_nat NUM) s;
              s = s\<lparr>vd_desc := \<lambda>_. no_desc, vd_avail_idx := 0, vd_avail := \<lambda>_. 0, vd_used_idx := 0, vd_used := \<lambda>_. 0\<rparr>;
              s = wr_reg 0x40 (ucast (drop_bit 12 (vd_pages s))) s
          in Ok (s\<lparr>vd_free := \<lambda>i. if i < NUM then True else vd_free s i\<rparr>))"

section \<open>Descriptors\<close>

definition alloc_desc :: "'a vdisk_scheme \<Rightarrow> nat option \<times> 'a vdisk_scheme" where
  "alloc_desc s =
     (case find (\<lambda>i. vd_free s i) [0..<NUM] of
        None \<Rightarrow> (None, s)
      | Some i \<Rightarrow> (Some i, s\<lparr>vd_free := (vd_free s)(i := False)\<rparr>))"

definition free_desc :: "nat \<Rightarrow> 'a vdisk_scheme \<Rightarrow> 'a vdisk_scheme res" where
  "free_desc i s =
     (if i \<ge> NUM then Panic ''free_desc 1''
      else if vd_free s i then Panic ''free_desc 2''
      else
        wakeup (Some ChDesc)
          ((upd_desc i (\<lambda>d. d\<lparr>vq_addr := VNull, vq_len := 0, vq_flags := 0, vq_next := 0\<rparr>) s)
             \<lparr>vd_free := (vd_free s)(i := True)\<rparr>))"

text \<open>
  The loop of \<^verbatim>\<open>free_chain\<close> frees a descriptor in each round and panics at one that is free:
  it does not come to a ninth round.
\<close>

fun free_chain_loop :: "nat \<Rightarrow> nat \<Rightarrow> 'a vdisk_scheme \<Rightarrow> 'a vdisk_scheme res" where
  "free_chain_loop fuel i s =
     (let flag = vq_flags (vd_desc s i); nxt = vq_next (vd_desc s i) in
      res_bind (free_desc i s) (\<lambda>s.
        if flag AND VRING_DESC_F_NEXT \<noteq> 0 then
          (case fuel of 0 \<Rightarrow> Blocked | Suc fuel \<Rightarrow> free_chain_loop fuel (unat nxt) s)
        else Ok s))"

definition free_chain :: "nat \<Rightarrow> 'a vdisk_scheme \<Rightarrow> 'a vdisk_scheme res" where
  "free_chain = free_chain_loop NUM"

text \<open>All three, or none.\<close>

definition alloc3_desc :: "'a vdisk_scheme \<Rightarrow> ((nat \<times> nat \<times> nat) option \<times> 'a vdisk_scheme) res" where
  "alloc3_desc s =
     (let undo = (\<lambda>is s. res_bind (mfold free_desc is s) (\<lambda>s. Ok (None, s))) in
      case alloc_desc s of
        (None, s) \<Rightarrow> undo [] s
      | (Some i, s) \<Rightarrow>
          (case alloc_desc s of
             (None, s) \<Rightarrow> undo [i] s
           | (Some j, s) \<Rightarrow>
               (case alloc_desc s of
                  (None, s) \<Rightarrow> undo [i, j] s
                | (Some k, s) \<Rightarrow> Ok (Some (i, j, k), s))))"

section \<open>Transfers\<close>

text \<open>Format the three descriptors \<open>i\<close>, \<open>j\<close> and \<open>k\<close> and tell the device.\<close>

definition submit :: "nat \<Rightarrow> nat \<Rightarrow> nat \<Rightarrow> nat \<Rightarrow> bool \<Rightarrow> 'a vdisk_scheme \<Rightarrow> 'a vdisk_scheme" where
  "submit i j k b wr s =
     (let sector = ucast (b_blockno (buf s b) * 2);
          s = s\<lparr>vd_ops := (vd_ops s)(i := \<lparr>rq_type = (if wr then VIRTIO_BLK_T_OUT else VIRTIO_BLK_T_IN),
                rq_reserved = 0, rq_sector = sector\<rparr>)\<rparr>;
          s = upd_desc i (\<lambda>_. \<lparr>vq_addr = VReq i, vq_len = 16, vq_flags = VRING_DESC_F_NEXT, vq_next = of_nat j\<rparr>) s;
          s = upd_desc j (\<lambda>_. \<lparr>vq_addr = VData b, vq_len = of_nat BSIZE,
                vq_flags = (if wr then 0 else VRING_DESC_F_WRITE) OR VRING_DESC_F_NEXT, vq_next = of_nat k\<rparr>) s;
          s = s\<lparr>vd_info_status := (vd_info_status s)(i := 0xff)\<rparr>;
          s = upd_desc k (\<lambda>_. \<lparr>vq_addr = VStatus i, vq_len = 1, vq_flags = VRING_DESC_F_WRITE, vq_next = 0\<rparr>) s;
          s = upd_buf b (\<lambda>r. r\<lparr>b_disk := 1\<rparr>) s;
          s = s\<lparr>vd_info_b := (vd_info_b s)(i := Some b),
                vd_avail := (vd_avail s)(unat (vd_avail_idx s) mod NUM := of_nat i),
                vd_avail_idx := vd_avail_idx s + 1\<rparr>
      in wr_reg 0x50 0 s)"

text \<open>
  \<^verbatim>\<open>virtio_disk_rw\<close> sleeps for want of descriptors (\<open>No_desc\<close>), or until the transfer that
  starts with descriptor \<open>i\<close> is done (\<open>Transfer\<close>).
\<close>

datatype rw_result = No_desc bool | Transfer nat bool | Rw_done

definition rw_wait :: "nat \<Rightarrow> nat \<Rightarrow> 'a vdisk_scheme \<Rightarrow> (rw_result \<times> 'a vdisk_scheme) res" where
  "rw_wait b i s =
     (if b_disk (buf s b) = 1 then res_bind (sleep (ChBuf b) VdiskLock s) (\<lambda>(ie, s). Ok (Transfer i ie, s))
      else
        res_bind (free_chain i (s\<lparr>vd_info_b := (vd_info_b s)(i := None)\<rparr>)) (\<lambda>s.
        res_bind (release VdiskLock s) (\<lambda>s. Ok (Rw_done, s))))"

definition rw_round :: "nat \<Rightarrow> bool \<Rightarrow> 'a vdisk_scheme \<Rightarrow> (rw_result \<times> 'a vdisk_scheme) res" where
  "rw_round b wr s =
     res_bind (alloc3_desc s) (\<lambda>(idx, s).
     case idx of
       None \<Rightarrow> res_bind (sleep ChDesc VdiskLock s) (\<lambda>(ie, s). Ok (No_desc ie, s))
     | Some (i, j, k) \<Rightarrow> rw_wait b i (submit i j k b wr s))"

definition virtio_disk_rw :: "nat \<Rightarrow> bool \<Rightarrow> 'a vdisk_scheme \<Rightarrow> (rw_result \<times> 'a vdisk_scheme) res" where
  "virtio_disk_rw b wr s = res_bind (acquire VdiskLock s) (rw_round b wr)"

definition virtio_disk_rw_resume ::
  "nat \<Rightarrow> rw_result \<Rightarrow> nat \<Rightarrow> bool \<Rightarrow> 'a vdisk_scheme \<Rightarrow> (rw_result \<times> 'a vdisk_scheme) res" where
  "virtio_disk_rw_resume p w b wr s =
     (case w of
        No_desc ie \<Rightarrow> res_bind (sleep_return p VdiskLock ie s) (rw_round b wr)
      | Transfer i ie \<Rightarrow> res_bind (sleep_return p VdiskLock ie s) (rw_wait b i)
      | Rw_done \<Rightarrow> Ok (Rw_done, s))"

text \<open>
  The loop of \<^verbatim>\<open>virtio_disk_intr\<close>, over the \<open>n\<close> entries of the used ring not seen yet. The code
  compares with \<^verbatim>\<open>used->idx\<close> in every turn; here the device adds no entry while the handler runs,
  and what it adds later is for the next interrupt.
\<close>

primrec intr_loop :: "nat \<Rightarrow> 'a vdisk_scheme \<Rightarrow> 'a vdisk_scheme res" where
  "intr_loop 0 s = Ok s"
| "intr_loop (Suc n) s =
     (let id = unat (vd_used s (unat (vd_seen s) mod NUM)) in
      if id \<ge> NUM then Fault
      else if vd_info_status s id \<noteq> 0 then Panic ''virtio_disk_intr status''
      else case vd_info_b s id of None \<Rightarrow> Fault
      | Some b \<Rightarrow>
          res_bind (wakeup (Some (ChBuf b)) (upd_buf b (\<lambda>r. r\<lparr>b_disk := 0\<rparr>) s)) (\<lambda>s.
            intr_loop n (s\<lparr>vd_seen := vd_seen s + 1\<rparr>)))"

definition virtio_disk_intr :: "'a vdisk_scheme \<Rightarrow> 'a vdisk_scheme res" where
  "virtio_disk_intr s =
     res_bind (acquire VdiskLock s) (\<lambda>s.
     let s = wr_reg 0x64 (mmio_rd s 0x60 AND 3) s in
     res_bind (intr_loop (unat (vd_used_idx s - vd_seen s)) s) (release VdiskLock))"

end
