(* ===== verification/Trap.thy ===== *)
theory Trap
  imports Syscall Virtio
begin

text \<open>
  \<^verbatim>\<open>kernel/trap.c\<close> and \<^verbatim>\<open>kernel/plic.c\<close>: traps from user and kernel mode, page faults in
  memory-mapped regions, time slices, interrupts; \<^verbatim>\<open>forkret\<close> of \<^verbatim>\<open>kernel/proc.c\<close>. The control
  and status registers of each hart are fields of the state that the processor sets when it
  takes a trap. \<open>plic_irqs\<close> are the interrupts that the controller will name when asked.
\<close>

abbreviation (input) UART0_IRQ :: uint where "UART0_IRQ \<equiv> 10"
abbreviation (input) VIRTIO0_IRQ :: uint where "VIRTIO0_IRQ \<equiv> 1"
abbreviation (input) PLIC :: uint64 where "PLIC \<equiv> 0x0c000000"

record csrs =
  scause :: uint64
  sepc :: uint64
  stval :: uint64
  stvec :: uint64
  satp :: uint64
  sip :: uint64
  spp :: bool
  spie :: bool

record traps = vdisk +
  csr :: "nat \<Rightarrow> csrs"
  sched_policy_trap :: int
  tempsticks :: uint
  forkret_first :: cint
  plic_irqs :: "uint list"
  plic_wr :: "(uint64 \<times> uint) list"
  kernelvec_va :: uint64
  uservec_va :: uint64
  userret_va :: uint64
  usertrap_va :: uint64

definition csr_of :: "'a traps_scheme \<Rightarrow> csrs" where
  "csr_of s = csr s (tp s)"

definition upd_csr :: "(csrs \<Rightarrow> csrs) \<Rightarrow> 'a traps_scheme \<Rightarrow> 'a traps_scheme" where
  "upd_csr f s = s\<lparr>csr := (csr s)(tp s := f (csr s (tp s)))\<rparr>"

section \<open>The interrupt controller\<close>

definition plic_store :: "uint64 \<Rightarrow> uint \<Rightarrow> 'a traps_scheme \<Rightarrow> 'a traps_scheme" where
  "plic_store a v s = s\<lparr>plic_wr := plic_wr s @ [(a, v)]\<rparr>"

definition PLIC_SENABLE :: "nat \<Rightarrow> uint64" where
  "PLIC_SENABLE hart = PLIC + 0x2080 + of_nat hart * 0x100"

definition PLIC_SPRIORITY :: "nat \<Rightarrow> uint64" where
  "PLIC_SPRIORITY hart = PLIC + 0x201000 + of_nat hart * 0x2000"

definition PLIC_SCLAIM :: "nat \<Rightarrow> uint64" where
  "PLIC_SCLAIM hart = PLIC + 0x201004 + of_nat hart * 0x2000"

definition plicinit :: "'a traps_scheme \<Rightarrow> 'a traps_scheme" where
  "plicinit s = plic_store (PLIC + ucast VIRTIO0_IRQ * 4) 1 (plic_store (PLIC + ucast UART0_IRQ * 4) 1 s)"

definition plicinithart :: "'a traps_scheme \<Rightarrow> 'a traps_scheme" where
  "plicinithart s =
     plic_store (PLIC_SPRIORITY (cpuid s)) 0
       (plic_store (PLIC_SENABLE (cpuid s)) (push_bit 10 1 OR push_bit 1 1) s)"

definition plic_claim :: "'a traps_scheme \<Rightarrow> uint \<times> 'a traps_scheme" where
  "plic_claim s = (case plic_irqs s of [] \<Rightarrow> (0, s) | irq # irqs \<Rightarrow> (irq, s\<lparr>plic_irqs := irqs\<rparr>))"

definition plic_complete :: "uint \<Rightarrow> 'a traps_scheme \<Rightarrow> 'a traps_scheme" where
  "plic_complete irq s = plic_store (PLIC_SCLAIM (cpuid s)) irq s"

section \<open>Interrupts\<close>

definition trapinit :: "'a traps_scheme \<Rightarrow> 'a traps_scheme" where
  "trapinit = initlock TicksLock ''time''"

definition trapinithart :: "'a traps_scheme \<Rightarrow> 'a traps_scheme" where
  "trapinithart s = upd_csr (\<lambda>c. c\<lparr>stvec := kernelvec_va s\<rparr>) s"

definition clockintr :: "'a traps_scheme \<Rightarrow> 'a traps_scheme res" where
  "clockintr s =
     res_bind (acquire TicksLock s) (\<lambda>s.
     res_bind (wakeup (Some ChTicks) (s\<lparr>ticks := ticks s + 1\<rparr>)) (release TicksLock))"

definition devintr :: "'a traps_scheme \<Rightarrow> (int \<times> 'a traps_scheme) res" where
  "devintr s =
     (let cause = scause (csr_of s) in
      if cause AND 0x8000000000000000 \<noteq> 0 \<and> cause AND 0xff = 9 then
        case plic_claim s of (irq, s) \<Rightarrow>
          res_bind
            (if irq = UART0_IRQ then uartintr s
             else if irq = VIRTIO0_IRQ then virtio_disk_intr s
             else if irq \<noteq> 0 then printf (Some (chars ''unexpected interrupt irq=%d'' @ [10])) [PInt irq] s
             else Ok s) (\<lambda>s.
          Ok (1, if irq \<noteq> 0 then plic_complete irq s else s))
      else if cause = 0x8000000000000001 then
        res_bind (if cpuid s = 0 then clockintr s else Ok s) (\<lambda>s.
          Ok (2, upd_csr (\<lambda>c. c\<lparr>sip := sip c AND NOT 2\<rparr>) s))
      else Ok (0, s))"

section \<open>Time slices\<close>

text \<open>
  The accounting at a timer interrupt in user mode. \<^verbatim>\<open>tsticks\<close> is unsigned, so that
  \<^verbatim>\<open>--(p->tsticks) <= 0\<close> holds when it has become 0.
\<close>

definition lower_priority :: "proc \<Rightarrow> proc" where
  "lower_priority r =
     (if priority r > LOW then
        let r = r\<lparr>priority := priority r - 1\<rparr>;
            r = (if priority r = MEDIUM then r\<lparr>p_timeslice := TSTICKSMEDIUM, tsticks := TSTICKSMEDIUM\<rparr> else r)
        in if priority r = LOW then r\<lparr>p_timeslice := TSTICKSLOW, tsticks := TSTICKSLOW\<rparr> else r
      else r)"

definition tick_user :: "int \<Rightarrow> proc \<Rightarrow> proc" where
  "tick_user policy r =
     (let r = (if policy = MLFQ then
           let r = r\<lparr>tsticks := tsticks r - 1\<rparr> in
           if tsticks r = 0 then
             lower_priority
               (if priority r = LOW then r\<lparr>cputime := cputime r + ucast TSTICKSLOW, tsticks := TSTICKSLOW\<rparr>
                else if priority r = MEDIUM then r\<lparr>cputime := cputime r + ucast TSTICKSMEDIUM, tsticks := TSTICKSMEDIUM\<rparr>
                else if priority r = HIGH then r\<lparr>cputime := cputime r + ucast TSTICKSHIGH, tsticks := TSTICKSHIGH\<rparr>
                else r)
           else r
         else r)
      in if policy = RR then r\<lparr>cputime := cputime r + 1\<rparr> else r)"

text \<open>In kernel mode: as above, but a process of priority \<^verbatim>\<open>HIGH\<close> gets \<^verbatim>\<open>tsticks = HIGH\<close>, that is 0.\<close>

definition tick_kernel :: "int \<Rightarrow> proc \<Rightarrow> proc" where
  "tick_kernel policy r =
     (let r = (if policy = MLFQ then
           let r = r\<lparr>tsticks := tsticks r - 1\<rparr> in
           if tsticks r = 0 then
             lower_priority
               (if priority r = LOW then r\<lparr>cputime := cputime r + ucast TSTICKSLOW, tsticks := TSTICKSLOW\<rparr>
                else if priority r = MEDIUM then r\<lparr>cputime := cputime r + ucast TSTICKSMEDIUM, tsticks := TSTICKSMEDIUM\<rparr>
                else if priority r = HIGH then r\<lparr>cputime := cputime r + ucast TSTICKSHIGH, tsticks := of_int HIGH\<rparr>
                else r)
           else r
         else r)
      in if policy = RR then r\<lparr>cputime := cputime r + 1\<rparr> else r)"

text \<open>
  \<^verbatim>\<open>tempsticks\<close> is only ever assigned. When a slice has ended it becomes the new \<^verbatim>\<open>tsticks\<close>; in
  user mode only if one of the tests on the priority held.
\<close>

definition note_slice :: "bool \<Rightarrow> nat \<Rightarrow> proc \<Rightarrow> 'a traps_scheme \<Rightarrow> 'a traps_scheme" where
  "note_slice user p r s =
     (if sched_policy_trap s = MLFQ \<and> tsticks r = 1 \<and> (user \<longrightarrow> HIGH \<le> priority r \<and> priority r \<le> LOW + 1)
      then s\<lparr>tempsticks := tsticks (proc s p)\<rparr> else s)"

section \<open>Page faults\<close>

text \<open>The loop over the regions: \<open>fault\<close> is the address, \<open>perm\<close> the permission it needs.\<close>

definition map_fault :: "nat \<Rightarrow> uint64 \<Rightarrow> nat \<Rightarrow> 'a traps_scheme \<Rightarrow> 'a traps_scheme res" where
  "map_fault p fault i s =
     res_bind (kalloc s) (\<lambda>(pa, s).
     res_bind (mappages (pagetable (proc s p)) (PGROUNDDOWN fault) PGSIZE pa
         (scast (mmr_prot (p_mmr (proc s p) i)) OR PTE_U) s) (\<lambda>(_, s). Ok s))"

definition in_region :: "uint64 \<Rightarrow> mmr \<Rightarrow> bool" where
  "in_region a m \<longleftrightarrow> a \<ge> mmr_addr m \<and> a < mmr_addr m + scast (mmr_length m) \<and> mmr_valid m \<noteq> 0"

definition page_fault :: "nat \<Rightarrow> uint64 \<Rightarrow> uint64 \<Rightarrow> 'a traps_scheme \<Rightarrow> 'a traps_scheme res" where
  "page_fault p cause fault =
     mfold (\<lambda>i s.
       if in_region fault (p_mmr (proc s p) i) then
         res_bind
           (if cause = 13 \<and> scast (mmr_prot (p_mmr (proc s p) i)) AND PTE_R \<noteq> 0 then map_fault p fault i s else Ok s)
           (\<lambda>s.
              if cause = 15 \<and> scast (mmr_prot (p_mmr (proc s p) i)) AND PTE_W \<noteq> 0 then map_fault p fault i s
              else Ok s)
       else Ok s) [0..<MAX_MMR]"

section \<open>Traps from user mode\<close>

text \<open>
  How a trap ends: it returns to user mode through the trampoline code at \<open>fn\<close> with the page
  table \<open>satp\<close>, the process exits, or it gives up the processor and returns to user mode later.
\<close>

datatype trap_end = To_user uint64 uint64 | Gone bool | Gives_up bool

definition usertrapret :: "'a traps_scheme \<Rightarrow> (trap_end \<times> 'a traps_scheme) res" where
  "usertrapret = with_proc (\<lambda>p s.
     let s = intr_off s;
         s = upd_csr (\<lambda>c. c\<lparr>stvec := TRAMPOLINE + (uservec_va s - trampoline_va s)\<rparr>) s;
         s = tf_set p TF_kernel_satp (satp (csr_of s)) s;
         s = tf_set p TF_kernel_sp (kstack (proc s p) + PGSIZE) s;
         s = tf_set p TF_kernel_trap (usertrap_va s) s;
         s = tf_set p TF_kernel_hartid (of_nat (tp s)) s;
         s = upd_csr (\<lambda>c. c\<lparr>spp := False, spie := True\<rparr>) s;
         s = upd_csr (\<lambda>c. c\<lparr>sepc := tf_get p TF_epc s\<rparr>) s
     in Ok (To_user (TRAMPOLINE + (userret_va s - trampoline_va s))
              (push_bit 60 8 OR drop_bit 12 (pagetable (proc s p))), s))"

text \<open>What follows once the trap has been dealt with: exit, yield or return.\<close>

definition usertrap_finish :: "nat \<Rightarrow> int \<Rightarrow> 'a traps_scheme \<Rightarrow> (trap_end \<times> 'a traps_scheme) res" where
  "usertrap_finish p which_dev s =
     (if killed (proc s p) \<noteq> 0 then res_bind (exit (- 1) s) (\<lambda>(ie, s). Ok (Gone ie, s))
      else if which_dev = 2 then
        let r = proc s p; s = note_slice True p r (upd_proc p (tick_user (sched_policy_trap s)) s) in
        res_bind (yield s) (\<lambda>(ie, s). Ok (Gives_up ie, s))
      else usertrapret s)"

definition usertrap :: "uchar list \<Rightarrow> 'a traps_scheme \<Rightarrow> (trap_end \<times> 'a traps_scheme) res" where
  "usertrap stack s =
     (if spp (csr_of s) then Panic ''usertrap: not from user mode''
      else with_proc (\<lambda>p s.
        let s = tf_set p TF_epc (sepc (csr_of s)) s; cause = scause (csr_of s) in
        if cause = 8 then
          (if killed (proc s p) \<noteq> 0 then res_bind (exit (- 1) s) (\<lambda>(ie, s). Ok (Gone ie, s))
           else
             res_bind (syscall stack (intr_on (tf_set p TF_epc (tf_get p TF_epc s + 4) s))) (\<lambda>(r, s).
               case r of Some ie \<Rightarrow> Ok (Gone ie, s) | None \<Rightarrow> usertrap_finish p 0 s))
        else
          res_bind (devintr s) (\<lambda>(which_dev, s).
          if which_dev \<noteq> 0 then usertrap_finish p which_dev s
          else if cause = 13 \<or> cause = 15 then
            res_bind (page_fault p cause (stval (csr_of s)) s) (usertrap_finish p 0)
          else
            res_bind (printf (Some (chars ''usertrap(): unexpected scause %p pid=%d'' @ [10]))
                [PPtr cause, PInt (pid (proc s p))] s) (\<lambda>s.
            res_bind (printf (Some (chars ''            sepc=%p stval=%p'' @ [10]))
                [PPtr (sepc (csr_of s)), PPtr (stval (csr_of s))] s) (\<lambda>s.
            usertrap_finish p 0 (upd_proc p (\<lambda>r. r\<lparr>killed := 1\<rparr>) s)))))
        (trapinithart s))"

text \<open>After \<open>Gives_up\<close>, when the process runs again.\<close>

definition usertrap_resume :: "nat \<Rightarrow> bool \<Rightarrow> 'a traps_scheme \<Rightarrow> (trap_end \<times> 'a traps_scheme) res" where
  "usertrap_resume p ie s = res_bind (yield_return p ie s) usertrapret"

definition forkret :: "'a traps_scheme \<Rightarrow> (trap_end \<times> 'a traps_scheme) res" where
  "forkret = with_proc (\<lambda>p s.
     res_bind (release (ProcLock p) s) (\<lambda>s.
     res_bind (if forkret_first s \<noteq> 0 then fsinit ROOTDEV (s\<lparr>forkret_first := 0\<rparr>) else Ok s) usertrapret))"

section \<open>Traps from kernel mode\<close>

text \<open>
  The interrupted \<^verbatim>\<open>sepc\<close> and \<^verbatim>\<open>sstatus\<close> are restored at the end. The result is \<open>Some\<close> when the
  trap first gives up the processor.
\<close>

definition kerneltrap :: "'a traps_scheme \<Rightarrow> (bool option \<times> 'a traps_scheme) res" where
  "kerneltrap s =
     (let pc = sepc (csr_of s); sp' = spp (csr_of s); si' = spie (csr_of s); cause = scause (csr_of s) in
      if \<not> spp (csr_of s) then Panic ''kerneltrap: not from supervisor mode''
      else if intr_get s then Panic ''kerneltrap: interrupts enabled''
      else
        res_bind (devintr s) (\<lambda>(which_dev, s).
        if which_dev = 0 then
          res_bind (printf (Some (chars ''scause %p'' @ [10])) [PPtr cause] s) (\<lambda>s.
          res_bind (printf (Some (chars ''sepc=%p stval=%p'' @ [10])) [PPtr (sepc (csr_of s)), PPtr (stval (csr_of s))] s) (\<lambda>s.
          Panic ''kerneltrap''))
        else
          let finish = (\<lambda>s. Ok (None, upd_csr (\<lambda>c. c\<lparr>sepc := pc, spp := sp', spie := si'\<rparr>) s)) in
          if which_dev \<noteq> 2 then finish s
          else
            res_bind (myproc s) (\<lambda>(me, s).
            case me of None \<Rightarrow> finish s
            | Some p \<Rightarrow>
                if state (proc s p) = RUNNING then
                  let r = proc s p; s = note_slice False p r (upd_proc p (tick_kernel (sched_policy_trap s)) s) in
                  res_bind (yield s) (\<lambda>(ie, s). Ok (Some ie, s))
                else finish s)))"

definition kerneltrap_resume :: "nat \<Rightarrow> bool \<Rightarrow> csrs \<Rightarrow> 'a traps_scheme \<Rightarrow> 'a traps_scheme res" where
  "kerneltrap_resume p ie saved s =
     res_bind (yield_return p ie s) (\<lambda>s.
       Ok (upd_csr (\<lambda>c. c\<lparr>sepc := sepc saved, spp := spp saved, spie := spie saved\<rparr>) s))"

end
