(* ===== verification/Boot.thy ===== *)
theory Boot
  imports Trap
begin

text \<open>
  \<^verbatim>\<open>kernel/main.c\<close>: what the first hart does before it enters the scheduler, and the others
  when it has finished; \<^verbatim>\<open>kvminit\<close> and \<^verbatim>\<open>kvminithart\<close> of \<^verbatim>\<open>kernel/vm.c\<close>.
\<close>

record kernel = traps +
  kernel_pagetable :: uint64
  etext_va :: uint64
  started :: cint

definition kvminit :: "'a kernel_scheme \<Rightarrow> 'a kernel_scheme res" where
  "kvminit s =
     res_bind (kvmmake (etext_va s) (trampoline_va s) s) (\<lambda>(pt, s). Ok (s\<lparr>kernel_pagetable := pt\<rparr>))"

definition kvminithart :: "'a kernel_scheme \<Rightarrow> 'a kernel_scheme" where
  "kvminithart s = upd_csr (\<lambda>c. c\<lparr>satp := push_bit 60 8 OR drop_bit 12 (kernel_pagetable s)\<rparr>) s"

definition main_first :: "uchar list \<Rightarrow> 'a kernel_scheme \<Rightarrow> 'a kernel_scheme res" where
  "main_first stack s =
     (let s = printfinit (consoleinit s) in
      res_bind (printf (Some [10]) [] s) (\<lambda>s.
      res_bind (printf (Some (chars ''xv6 kernel is booting'' @ [10])) [] s) (\<lambda>s.
      res_bind (printf (Some [10]) [] s) (\<lambda>s.
      res_bind (kinit s) (\<lambda>s.
      res_bind (kvminit s) (\<lambda>s.
      let s = trapinithart (trapinit (procinit (kvminithart s)));
          s = fileinit (iinit (binit (plicinithart (plicinit s)))) in
      res_bind (virtio_disk_init s) (\<lambda>s.
      res_bind (userinit stack (mmrlistinit s)) (\<lambda>s.
      Ok (s\<lparr>started := 1\<rparr>)))))))))"

definition main_other :: "'a kernel_scheme \<Rightarrow> 'a kernel_scheme res" where
  "main_other s =
     (if started s = 0 then Blocked
      else
        res_bind (printf (Some (chars ''hart %d starting'' @ [10])) [PInt (of_nat (cpuid s))] s) (\<lambda>s.
        Ok (plicinithart (trapinithart (kvminithart s)))))"

end
