(* ===== verification/Printf_Spec.thy ===== *)
theory Printf_Spec
  imports Uart
begin

text \<open>
  Kernel output: characters reach the UART in order, and \<^verbatim>\<open>printint\<close> of \<^verbatim>\<open>kernel/printf.c\<close>
  prints numerals that read back as the number, within its buffer.
\<close>

section \<open>Output of characters\<close>

text \<open>The UART will accept \<open>n\<close> more characters, sooner or later.\<close>

definition accepts :: "nat \<Rightarrow> 'a uarts_scheme \<Rightarrow> bool" where
  "accepts n s \<longleftrightarrow> hart_ok s \<and> panicked s = 0 \<and> n \<le> length (filter id (uart_idle s))"

abbreviation printed :: "'a uarts_scheme \<Rightarrow> uchar list \<Rightarrow> 'a uarts_scheme \<Rightarrow> bool" where
  "printed s cs s' \<equiv> uart_wr s' = uart_wr s @ map (Pair THR) cs"

lemma filter_dropWhile_Not:
  assumes "Suc n \<le> length (filter id xs)"
  shows "\<exists>ys. dropWhile Not xs = True # ys \<and> n \<le> length (filter id ys)"
  using assms by (induction xs) (auto split: if_splits)

lemma pop_push_off:
  assumes "hart_ok s"
  shows "pop_off (WriteReg THR c ((push_off s)\<lparr>uart_idle := ans\<rparr>)) =
    Ok ((relock s)\<lparr>uart_idle := ans, uart_wr := uart_wr s @ [(THR, c)]\<rparr>)"
  using assms
  by (auto simp: hart_defs WriteReg_def Let_def hart_ok_def relock_def relock_cpus_def fun_eq_iff)

lemma putc_sync_run:
  assumes "accepts (Suc n) s"
  shows "\<exists>s'. uartputc_sync c s = Ok s' \<and> printed s [c] s' \<and> accepts n s'"
proof -
  have h: "hart_ok s" and p: "panicked s = 0" and l: "Suc n \<le> length (filter id (uart_idle s))"
    using assms by (simp_all add: accepts_def)
  obtain ys where ys: "dropWhile Not (uart_idle s) = True # ys" "n \<le> length (filter id ys)"
    using filter_dropWhile_Not [OF l] by blast
  have "panicked (push_off s) = 0" "uart_idle (push_off s) = uart_idle s"
    using p by (simp_all add: hart_defs Let_def)
  then have "uartputc_sync c s = Ok ((relock s)\<lparr>uart_idle := ys, uart_wr := uart_wr s @ [(THR, c)]\<rparr>)"
    using ys(1) pop_push_off [OF h, of c ys] by (simp add: uartputc_sync_def Let_def)
  then show ?thesis using h p ys(2) by (simp add: accepts_def hart_ok_def relock_def)
qed

lemma consputc_char: "consputc (ucast (c :: uchar)) = uartputc_sync c"
proof -
  have "(ucast c :: cint) \<noteq> 0x100"
  proof
    assume "(ucast c :: cint) = 0x100"
    then have "unat (ucast c :: cint) = 256" by simp
    moreover have "unat (ucast c :: cint) < 256"
      using unsigned_less [of c, where ?'a = nat] by (simp add: unsigned_ucast_eq take_bit_nat_eq_self)
    ultimately show False by simp
  qed
  moreover have "ucast (ucast c :: cint) = c" by (rule bit_word_eqI) (simp add: bit_simps)
  ultimately show ?thesis by (simp add: fun_eq_iff consputc_def)
qed

lemma put_chars_run:
  assumes "accepts (length cs + n) s"
  shows "\<exists>s'. mfold (\<lambda>c. consputc (ucast c)) cs s = Ok s' \<and> printed s cs s' \<and> accepts n s'"
  using assms
proof (induction cs arbitrary: s)
  case Nil
  then show ?case by simp
next
  case (Cons c cs)
  then have "accepts (Suc (length cs + n)) s" by simp
  then obtain t where t: "uartputc_sync c s = Ok t" "printed s [c] t" "accepts (length cs + n) t"
    using putc_sync_run by blast
  then show ?case using Cons.IH [OF t(3)] by (auto simp: consputc_char)
qed

section \<open>Numerals\<close>

text \<open>Reading a numeral: the value of a digit, of a list of digits (highest first), and of a signed numeral.\<close>

definition hex_val :: "uchar \<Rightarrow> nat" where
  "hex_val c = (if unat c < 58 then unat c - 48 else unat c - 87)"

definition read_nat :: "nat \<Rightarrow> uchar list \<Rightarrow> nat" where
  "read_nat base cs = foldl (\<lambda>n c. n * base + hex_val c) 0 cs"

definition read_int :: "nat \<Rightarrow> uchar list \<Rightarrow> int" where
  "read_int base cs = (case cs of [] \<Rightarrow> 0 | c # ds \<Rightarrow> if c = 45 then - int (read_nat base ds) else int (read_nat base cs))"

lemma digits_eval:
  "digits = [48, 49, 50, 51, 52, 53, 54, 55, 56, 57, 97, 98, 99, 100, 101, 102]"
  by (simp add: digits_def of_char_def)

lemma digit_ok:
  assumes "k < 16"
  shows "hex_val (digits ! k) = k \<and> digits ! k \<noteq> 45"
proof -
  have "\<forall>k \<in> set [0..<16]. hex_val (digits ! k) = k \<and> digits ! k \<noteq> 45"
    by (simp add: upt_rec digits_eval hex_val_def)
  then show ?thesis using assms by simp
qed

lemma print_digits_ok:
  assumes "2 \<le> base" "base \<le> 16"
  shows "\<exists>ds. print_digits x base = Ok ds \<and> ds \<noteq> [] \<and> read_nat (unat base) (rev ds) = unat x \<and>
    (\<forall>d \<in> set ds. d \<noteq> 45) \<and> (length ds = 1 \<or> unat base ^ (length ds - 1) \<le> unat x)"
  using assms
proof (induction x base rule: print_digits.induct)
  case (1 x base)
  let ?d = "digits ! unat (x mod base)"
  have g: "\<not> (base < 2 \<or> base > 16)" using 1(2,3) by (simp add: not_less)
  have b: "2 \<le> unat base" "unat base \<le> 16" using 1(2,3) by (simp_all add: word_le_nat_alt)
  have "unat x mod unat base < unat base" using b(1) by (intro mod_less_divisor) simp
  then have m: "unat (x mod base) < 16" "unat (x mod base) = unat x mod unat base"
    using b(2) by (simp_all add: unat_mod)
  note d = digit_ok [OF m(1)]
  show ?case
  proof (cases "x div base = 0")
    case True
    then have "unat x div unat base = 0" by (simp flip: unat_div)
    then have "unat x mod unat base = unat x" using b by (auto simp: div_eq_0_iff)
    then show ?thesis using g True d m by (simp add: Let_def read_nat_def)
  next
    case False
    obtain ds where ds: "print_digits (x div base) base = Ok ds" "ds \<noteq> []"
      "read_nat (unat base) (rev ds) = unat (x div base)" "\<forall>d \<in> set ds. d \<noteq> 45"
      "length ds = 1 \<or> unat base ^ (length ds - 1) \<le> unat (x div base)"
      using "1.IH" [OF g refl False] 1(2,3) by blast
    have v: "read_nat (unat base) (rev (?d # ds)) = unat x"
      using ds(3) d m(2) by (simp add: read_nat_def unat_div)
    have "unat base ^ length ds \<le> unat x"
    proof -
      have pos: "0 < unat (x div base)" using False by (simp add: unat_gt_0)
      have "unat base ^ (length ds - 1) \<le> unat (x div base)" using ds(5) pos by auto
      then have "unat base ^ (length ds - 1) * unat base \<le> unat (x div base) * unat base" by simp
      also have "\<dots> \<le> unat x" by (simp add: unat_div div_times_less_eq_dividend)
      finally show ?thesis using ds(2) by (cases ds) (simp_all add: mult.commute)
    qed
    then show ?thesis using g False ds v d by (simp add: Let_def)
  qed
qed

text \<open>The digits and a sign fit into \<^verbatim>\<open>char buf[16]\<close>.\<close>

lemma digits_fit:
  assumes "5 \<le> base" "length ds = 1 \<or> base ^ (length ds - 1) \<le> unat (x :: uint)"
  shows "length ds \<le> 14"
proof (rule ccontr)
  assume "\<not> ?thesis"
  then have "14 \<le> length ds - 1" and l: "length ds \<noteq> 1" by auto
  then have "(5 :: nat) ^ 14 \<le> 5 ^ (length ds - 1)" by (intro power_increasing) simp_all
  also have "\<dots> \<le> base ^ (length ds - 1)" using assms(1) by (rule power_mono) simp
  also have "\<dots> \<le> unat x" using assms(2) l by simp
  also have "\<dots> < 2 ^ 32" using unsigned_less [of x, where ?'a = nat] by simp
  finally show False by simp
qed

lemma uint_of_sint: "uint (xx :: cint) = sint xx mod 2 ^ 32"
  by (simp add: uint_sint take_bit_eq_mod)

lemma sint_minus:
  assumes "(xx :: cint) <s 0"
  shows "int (unat (- xx)) = - sint xx"
proof -
  have neg: "sint xx < 0" using assms by (simp add: word_sless_alt)
  have "uint (- xx) = (- sint xx) mod 2 ^ 32" using uint_of_sint [of xx] by (simp add: uint_word_ariths mod_minus_eq)
  also have "\<dots> = - sint xx" using neg sint_greater_eq [of xx] by (intro mod_pos_pos_trivial) simp_all
  finally show ?thesis by (simp flip: uint_nat)
qed

text \<open>
  Property C40. \<^verbatim>\<open>printint\<close>, called with base 10 or 16 (or any from 5 to 16), ends and prints
  a signed numeral that reads back as the number, the most negative one included; it never
  writes past its buffer of 16 characters. The UART only has to become ready often enough.
\<close>

theorem printint_roundtrip:
  assumes "5 \<le> base" "base \<le> 16" "accepts 16 s"
  shows "\<exists>str s'. printint xx base True s = Ok s' \<and> printed s str s' \<and>
    read_int (unat base) str = sint xx \<and> length str \<le> 16"
proof -
  let ?neg = "xx <s 0"
  let ?x = "if ?neg then - xx else xx"
  have b: "2 \<le> base" "5 \<le> unat base" using assms(1) by (simp_all add: word_le_nat_alt)
  obtain ds where ds: "print_digits ?x base = Ok ds" "ds \<noteq> []" "read_nat (unat base) (rev ds) = unat ?x"
    "\<forall>d \<in> set ds. d \<noteq> 45" "length ds = 1 \<or> unat base ^ (length ds - 1) \<le> unat ?x"
    using print_digits_ok [OF b(1) assms(2)] by blast
  define str where "str = (if ?neg then [45] else []) @ rev ds"
  have fit: "length ds \<le> 14" by (rule digits_fit [OF b(2) ds(5)])
  then have "accepts (length str + 0) s" using assms(3) by (simp add: str_def accepts_def)
  then obtain s' where s': "mfold (\<lambda>c. consputc (ucast c)) str s = Ok s'" "printed s str s'"
    using put_chars_run by blast
  have "printint xx base True s = Ok s'"
    using ds(1) fit s'(1)
    by (cases ?neg) (simp_all add: printint_def Let_def str_def of_char_def del: print_digits.simps)
  moreover have "read_int (unat base) str = sint xx"
  proof (cases ?neg)
    case True
    then show ?thesis using ds(3) sint_minus [OF True] by (simp add: str_def read_int_def)
  next
    case False
    then have "0 \<le> sint xx" by (simp add: word_sless_alt not_less)
    then have "int (unat xx) = sint xx"
      using sint_less [of xx] uint_of_sint [of xx] by (simp flip: uint_nat)
    moreover obtain c cs where c: "rev ds = c # cs" using ds(2) by (cases "rev ds") auto
    moreover have "c \<in> set (rev ds)" unfolding c by simp
    then have "c \<noteq> 45" using ds(4) by auto
    ultimately show ?thesis using False ds(3) by (simp add: str_def read_int_def)
  qed
  moreover have "length str \<le> 16" using fit by (simp add: str_def)
  ultimately show ?thesis using s'(2) by blast
qed

text \<open>A hart with nothing locked and a UART that is ready.\<close>

definition ready_uart :: uarts where
  "ready_uart = undefined\<lparr>tp := 0, sie := \<lambda>_. True, cpus := \<lambda>_. \<lparr>cpu_proc = None, noff = 0, intena = True\<rparr>,
     panicked := 0, uart_idle := False # replicate 16 True, uart_wr := []\<rparr>"

theorem printint_roundtrip_witness:
  "\<exists>str s'. printint 0x80000000 10 True ready_uart = Ok s' \<and> printed ready_uart str s' \<and>
    read_int (unat (10 :: cint)) str = - 2147483648 \<and> length str \<le> 16"
  using printint_roundtrip [of 10 ready_uart "0x80000000"]
  by (simp add: accepts_def ready_uart_def hart_ok_def)

end
