(* ===== verification/Trap_Spec.thy ===== *)
theory Trap_Spec
  imports Trap
begin

text \<open>
  Time slices (\<^verbatim>\<open>kernel/trap.c\<close>): what timer interrupts in user and in kernel mode do to the
  accounts of a process under the policy \<^verbatim>\<open>MLFQ\<close>.
\<close>

section \<open>Ticks in user mode\<close>

text \<open>The length of the slice of a priority, as \<^verbatim>\<open>timeslice()\<close> of \<^verbatim>\<open>kernel/proc.c\<close> gives it.\<close>

definition slice :: "int \<Rightarrow> nat" where
  "slice pri = nat (timeslice pri)"

lemma slice_simps [simp]: "slice HIGH = 1" "slice MEDIUM = 50" "slice LOW = 200"
  by (simp_all add: slice_def timeslice_def)

lemma slice_cases:
  assumes "pri \<in> {HIGH, MEDIUM, LOW}"
  obtains "pri = 0" "slice pri = 1" | "pri = 1" "slice pri = 50" | "pri = 2" "slice pri = 200"
proof -
  from assms consider "pri = 0" | "pri = 1" | "pri = 2" by auto
  then show ?thesis by cases (use that in simp_all)
qed

lemma tick_user_within: "tsticks r \<noteq> 1 \<Longrightarrow> tick_user MLFQ r = r\<lparr>tsticks := tsticks r - 1\<rparr>"
  by (simp add: tick_user_def Let_def)

lemma tick_user_end:
  assumes "tsticks r = 1" "priority r \<in> {HIGH, MEDIUM, LOW}"
  shows "tick_user MLFQ r =
    r\<lparr>cputime := cputime r + of_nat (slice (priority r)), tsticks := of_nat (slice (priority r))\<rparr>"
  using assms by (auto simp: tick_user_def Let_def lower_priority_def)

lemma ticks_within:
  assumes "tsticks r = of_nat n" "k < n" "n < 2 ^ 32"
  shows "(tick_user MLFQ ^^ k) r = r\<lparr>tsticks := of_nat (n - k)\<rparr>"
  using assms(2)
proof (induction k)
  case 0
  then show ?case using assms(1) by simp
next
  case (Suc k)
  have "unat (of_nat (n - k) :: uint) = n - k" using assms(3) by (simp add: unat_of_nat)
  then have "(of_nat (n - k) :: uint) \<noteq> 1" using Suc.prems by auto
  moreover have "(of_nat (n - k) :: uint) - 1 = of_nat (n - Suc k)"
    using Suc.prems by (simp add: of_nat_diff)
  ultimately show ?case using Suc by (simp add: tick_user_within)
qed

lemma ticks_slice:
  assumes "priority r \<in> {HIGH, MEDIUM, LOW}" "tsticks r = of_nat (slice (priority r))"
  shows "(tick_user MLFQ ^^ slice (priority r)) r = r\<lparr>cputime := cputime r + of_nat (slice (priority r))\<rparr>"
proof -
  let ?n = "slice (priority r)"
  have n: "0 < ?n" "?n < 2 ^ 32" using assms(1) by (auto elim: slice_cases)
  then have "(tick_user MLFQ ^^ (?n - 1)) r = r\<lparr>tsticks := 1\<rparr>"
    using ticks_within [OF assms(2), of "?n - 1"] by simp
  then have "(tick_user MLFQ ^^ Suc (?n - 1)) r = tick_user MLFQ (r\<lparr>tsticks := 1\<rparr>)" by simp
  also have "\<dots> = r\<lparr>cputime := cputime r + of_nat ?n\<rparr>"
    using tick_user_end [of "r\<lparr>tsticks := 1\<rparr>"] assms by simp
  finally show ?thesis using n(1) by simp
qed

text \<open>
  Under \<^verbatim>\<open>MLFQ\<close> a process that is at the start of a slice and uses \<open>m\<close> whole
  slices in user mode is charged exactly the ticks of these slices, is at the start of a slice
  again, and has the priority it had. The comment in \<^verbatim>\<open>usertrap\<close> says that the priority is
  lowered, but the test \<^verbatim>\<open>p->priority > LOW\<close> holds for none of the three priorities that exist.
\<close>

lemma user_ticks_accounting:
  assumes "priority r \<in> {HIGH, MEDIUM, LOW}" "tsticks r = of_nat (slice (priority r))"
  shows "(tick_user MLFQ ^^ (m * slice (priority r))) r = r\<lparr>cputime := cputime r + of_nat (m * slice (priority r))\<rparr>"
proof (induction m)
  case 0
  then show ?case by simp
next
  case (Suc m)
  let ?n = "slice (priority r)" and ?r = "r\<lparr>cputime := cputime r + of_nat (m * slice (priority r))\<rparr>"
  have "(tick_user MLFQ ^^ (Suc m * ?n)) r = (tick_user MLFQ ^^ ?n) ?r"
    using Suc by (simp add: funpow_add)
  also have "\<dots> = ?r\<lparr>cputime := cputime ?r + of_nat ?n\<rparr>"
    using ticks_slice [of ?r] assms by simp
  finally show ?case by (simp add: algebra_simps)
qed

lemma user_ticks_accounting_example:
  "(tick_user MLFQ ^^ (3 * slice MEDIUM)) ((undefined :: proc)\<lparr>priority := MEDIUM, tsticks := 50, cputime := 7\<rparr>) =
    (undefined :: proc)\<lparr>priority := MEDIUM, tsticks := 50, cputime := 157\<rparr>"
  using user_ticks_accounting [of "(undefined :: proc)\<lparr>priority := MEDIUM, tsticks := 50, cputime := 7\<rparr>" 3]
  by simp

section \<open>Ticks in kernel mode\<close>

lemma tick_kernel_within: "tsticks r \<noteq> 1 \<Longrightarrow> tick_kernel MLFQ r = r\<lparr>tsticks := tsticks r - 1\<rparr>"
  by (simp add: tick_kernel_def Let_def)

lemma kernel_ticks_wrap:
  assumes "tsticks r = 0" "k < 2 ^ 32"
  shows "(tick_kernel MLFQ ^^ k) r = r\<lparr>tsticks := - of_nat k\<rparr>"
  using assms(2)
proof (induction k)
  case 0
  then show ?case using assms(1) by simp
next
  case (Suc k)
  have "(- of_nat k :: uint) \<noteq> 1"
  proof
    assume "(- of_nat k :: uint) = 1"
    then have "(of_nat (Suc k) :: uint) = 0" by (metis add.commute add.right_inverse of_nat_Suc)
    then have "unat (of_nat (Suc k) :: uint) = 0" by simp
    then show False using Suc.prems by (simp add: unat_of_nat del: of_nat_Suc)
  qed
  then show ?case using Suc by (simp add: tick_kernel_within)
qed

text \<open>
  Property C33. When the slice of a process of priority \<^verbatim>\<open>HIGH\<close> ends in kernel mode,
  \<^verbatim>\<open>kerneltrap\<close> sets \<^verbatim>\<open>tsticks\<close> to \<^verbatim>\<open>HIGH\<close>, which is 0, instead of \<^verbatim>\<open>TSTICKSHIGH\<close>. The counter is
  unsigned and wraps at the next tick: in the 4294967295 ticks that follow no slice ends, and
  the process is charged nothing.
\<close>

theorem kernel_tick_high_wraps:
  assumes "priority r = HIGH" "tsticks r = 1" "k < 2 ^ 32"
  shows "cputime ((tick_kernel MLFQ ^^ Suc k) r) = cputime r + 1 \<and> tsticks ((tick_kernel MLFQ ^^ Suc k) r) = - of_nat k"
proof -
  have 1: "tick_kernel MLFQ r = r\<lparr>cputime := cputime r + 1, tsticks := 0\<rparr>"
    using assms by (simp add: tick_kernel_def Let_def lower_priority_def)
  have "(tick_kernel MLFQ ^^ Suc k) r = (tick_kernel MLFQ ^^ k) (tick_kernel MLFQ r)"
    by (simp add: funpow_swap1)
  also have "\<dots> = r\<lparr>cputime := cputime r + 1, tsticks := - of_nat k\<rparr>"
    unfolding 1 by (subst kernel_ticks_wrap) (use assms(3) in simp_all)
  finally show ?thesis by simp
qed

theorem kernel_tick_high_wraps_witness:
  "cputime ((tick_kernel MLFQ ^^ Suc 1000000) ((undefined :: proc)\<lparr>priority := HIGH, tsticks := 1, cputime := 0\<rparr>)) = 1"
  using kernel_tick_high_wraps [of "(undefined :: proc)\<lparr>priority := HIGH, tsticks := 1, cputime := 0\<rparr>" 1000000]
  by (simp del: funpow.simps)

end
