(* ===== verification/Journal.thy ===== *)
theory Journal
  imports Log_Spec Fs
begin

text \<open>
  How the file system (\<^verbatim>\<open>kernel/fs.c\<close>) uses the redo log: inside a transaction it reads
  blocks and replaces their contents, in any order and as often as it likes. The lemmas give
  the effect on \<open>bview\<close>, the contents of the blocks as the transaction sees them.
\<close>

section \<open>Logging a block again\<close>

lemma log_write_absorb:
  assumes inv: "io_inv P s" and held: "bheld s n = Some b" and room: "log_room s" and old: "n \<in> set (log_blocks s)"
  shows "log_write b s = Ok (relock s)"
proof -
  obtain p where p: "ready p s" and c: "cinv P (pid (proc s p)) (slock s) (buf s) (disk s)"
    using inv by (auto simp: io_inv_def)
  have bn: "b_blockno (buf s b) = n" using bheld_owned(1) [OF p c held] by (simp add: caches_def)
  have h: "hart_ok s" "lock_free LogLock s" using p room by (simp_all add: ready_def table_ok_hart log_room_def)
  have "find (\<lambda>i. lh_block (log s) i = n) [0..<log_len s] \<noteq> None" using old by (auto simp: find_None_iff)
  then obtain i where i: "find (\<lambda>i. lh_block (log s) i = n) [0..<log_len s] = Some i" by auto
  then have i2: "lh_block (log s) i = n" "i < log_len s" by (auto dest: find_SomeD)
  have r: "log_len s < LOGSIZE" "\<not> sint (lh_n (log s)) \<ge> int LOGSIZE" "\<not> sint (lh_n (log s)) \<ge> sint (lg_size (log s) - 1)"
    "\<not> sint (outstanding (log s)) < 1" using room by (auto simp: log_room_def)
  have same: "(log s)\<lparr>lh_block := (lh_block (log s))(i := n)\<rparr> = log s" using i2(1) by auto
  have "release LogLock ((inside LogLock s)\<lparr>log := log s\<rparr>) = Ok (relock s)"
    using release_log [OF h, where B = "buf s" and l = "log s"] by (simp add: inside_def relock_def)
  then show ?thesis
    using h r i i2 bn same by (simp add: log_write_def acquire_free lh_range_def upd_log_def lh_at_def Let_def)
qed

lemma io_relock:
  "io_inv P (relock s) = io_inv P s" "bheld (relock s) = bheld s" "bview (relock s) = bview s" "io_same s (relock s)"
proof -
  show "io_inv P (relock s) = io_inv P s" by (simp add: io_inv_def)
  show "bheld (relock s) = bheld s" "bview (relock s) = bview s" by (simp_all add: bheld_def bview_def relock_def)
  show "io_same s (relock s)" by (simp add: io_same_def) (simp add: relock_def)
qed

section \<open>Transactions\<close>

text \<open>
  \<open>in_tx k s\<close>: inside a transaction, no block is held, and \<open>k\<close> more blocks can be logged.
  \<open>tx_same\<close>: nothing changed but the cache, the disk and the list of logged blocks.
\<close>

definition in_tx :: "nat \<Rightarrow> 'a logged_scheme \<Rightarrow> bool" where
  "in_tx k s \<longleftrightarrow> tx_ok s \<and> lock_free LogLock s \<and> 0 \<le> sint (lh_n (log s)) \<and> sint (lh_n (log s)) + int k \<le> 29 \<and>
     sint (lh_n (log s)) + int k \<le> sint (lg_size (log s) - 1) \<and> 1 \<le> sint (outstanding (log s))"

definition tx_same :: "'a logged_scheme \<Rightarrow> 'a logged_scheme \<Rightarrow> bool" where
  "tx_same s s' \<longleftrightarrow> io_same (s\<lparr>log := log s'\<rparr>) s' \<and>
     (log s')\<lparr>lh_n := lh_n (log s), lh_block := lh_block (log s)\<rparr> = log s"

lemma in_tx_room: "in_tx (Suc k) s \<Longrightarrow> log_room s"
  by (auto simp: in_tx_def log_room_def)

lemma in_tx_mono: "in_tx k s \<Longrightarrow> j \<le> k \<Longrightarrow> in_tx j s"
  by (auto simp: in_tx_def)

lemma io_same_log_upd: "io_same (s\<lparr>log := l\<rparr>) (s'\<lparr>log := l\<rparr>) = io_same (s\<lparr>log := k\<rparr>) (s'\<lparr>log := k\<rparr>)"
  unfolding io_same_def by (cases s; cases s') simp

lemma tx_same_refl: "tx_same s s"
  by (simp add: tx_same_def io_same_refl)

lemma tx_same_io: "io_same s s' \<Longrightarrow> tx_same s s'"
  using io_same_log [of s s'] by (simp add: tx_same_def)

lemma tx_same_trans:
  assumes "tx_same s t" and "tx_same t u"
  shows "tx_same s u"
proof -
  have "io_same (s\<lparr>log := log u\<rparr>) (t\<lparr>log := log u\<rparr>)"
    using assms(1) io_same_log_upd [where s = s and l = "log t" and s' = t and k = "log u"] by (simp add: tx_same_def)
  then have "io_same (s\<lparr>log := log u\<rparr>) u"
    using assms(2) io_same_trans by (auto simp: tx_same_def)
  moreover have "(log u)\<lparr>lh_n := lh_n (log s), lh_block := lh_block (log s)\<rparr> = log s"
  proof -
    have "(log u)\<lparr>lh_n := lh_n (log s), lh_block := lh_block (log s)\<rparr> =
        (log u)\<lparr>lh_n := lh_n (log t), lh_block := lh_block (log t)\<rparr>\<lparr>lh_n := lh_n (log s), lh_block := lh_block (log s)\<rparr>" by simp
    also have "\<dots> = log s" using assms by (simp only: tx_same_def)
    finally show ?thesis .
  qed
  ultimately show ?thesis by (simp add: tx_same_def)
qed

text \<open>What \<open>tx_same\<close> says of the log, the locks, and the file system's own state.\<close>

lemma tx_same_log:
  assumes "tx_same s s'"
  shows "lg_start (log s') = lg_start (log s)" "lg_size (log s') = lg_size (log s)" "lg_dev (log s') = lg_dev (log s)"
    "outstanding (log s') = outstanding (log s)" "lock_free lk s' = lock_free lk s"
proof -
  have l: "(log s')\<lparr>lh_n := lh_n (log s), lh_block := lh_block (log s)\<rparr> = log s" using assms by (simp add: tx_same_def)
  show "lg_start (log s') = lg_start (log s)" using arg_cong [OF l, of lg_start] by simp
  show "lg_size (log s') = lg_size (log s)" using arg_cong [OF l, of lg_size] by simp
  show "lg_dev (log s') = lg_dev (log s)" using arg_cong [OF l, of lg_dev] by simp
  show "outstanding (log s') = outstanding (log s)" using arg_cong [OF l, of outstanding] by simp
  show "lock_free lk s' = lock_free lk s"
    using io_same_lock [of "s\<lparr>log := log s'\<rparr>" s' lk] assms by (simp add: tx_same_def lock_simps)
qed

lemma tx_same_fs:
  fixes s :: "'a fsys_scheme"
  assumes "tx_same s s'"
  shows "sb s' = sb s" "inode s' = inode s" "slock s' (InodeSl i) = slock s (InodeSl i)"
proof -
  have u: "s'\<lparr>cpus := cpus s, proc := proc s, queue := queue s, slock := slock s, buf := buf s, disk := disk s,
      disk_writes := disk_writes s\<rparr> = s\<lparr>log := log s'\<rparr>"
    using assms by (auto simp: tx_same_def io_same_def)
  show "sb s' = sb s" using arg_cong [OF u, of sb] by simp
  show "inode s' = inode s" using arg_cong [OF u, of inode] by simp
  show "slock s' (InodeSl i) = slock s (InodeSl i)" using assms by (simp add: tx_same_def io_same_def)
qed

section \<open>Reading and replacing one block\<close>

lemma in_tx_after:
  assumes tx: "in_tx k s" and same: "tx_same s s'" and blocks: "log_blocks s' = log_blocks s"
    and inv: "io_inv (set (log_blocks s)) s'" "bheld s' = Map.empty" and len: "lh_n (log s') = lh_n (log s)"
  shows "in_tx k s'"
proof -
  note st = tx_same_log [OF same]
  have "lh_block (log s') i = lh_block (log s) i" if "i < log_len s" for i
  proof -
    have "map (lh_block (log s')) [0..<log_len s] = map (lh_block (log s)) [0..<log_len s]" using blocks len by simp
    then have "map (lh_block (log s')) [0..<log_len s] ! i = map (lh_block (log s)) [0..<log_len s] ! i" by (rule arg_cong)
    then show ?thesis using that by simp
  qed
  then have "homes_ok s' (log_len s')" using tx unfolding in_tx_def tx_ok_def homes_ok_def st len by auto
  then show ?thesis using tx inv unfolding in_tx_def tx_ok_def blocks unfolding st len by simp
qed

lemma tx_get:
  assumes tx: "in_tx k s"
  obtains b s1 where "bread ROOTDEV n s = Ok (b, s1)" "b_data (buf s1 b) = bview s n" "io_inv (set (log_blocks s)) s1"
    "bheld s1 = [n \<mapsto> b]" "bview s1 = bview s" "disk s1 = disk s" "io_same s s1"
proof -
  let ?P = "set (log_blocks s)"
  have inv: "io_inv ?P s" "bheld s = Map.empty" and dist: "distinct (log_blocks s)"
    using tx by (simp_all add: in_tx_def tx_ok_def)
  have "card ?P < NBUF" using distinct_card [OF dist] tx by (auto simp: in_tx_def)
  with bc.get_ok [OF inv(1), of n] inv(2) obtain b s1 where g: "bread ROOTDEV n s = Ok (b, s1)" "io_inv ?P s1"
    "bheld s1 = [n \<mapsto> b]" "bview s1 = bview s" "disk s1 = disk s" "io_same s s1" by auto
  have "b_data (buf s1 b) = bview s n" using bc.held_data [OF g(2), of n b] g(3,4) by simp
  then show ?thesis using that g by blast
qed

text \<open>Reading.\<close>

lemma tx_read:
  assumes tx: "in_tx k s"
  shows "\<exists>b s1 s2. bread ROOTDEV n s = Ok (b, s1) \<and> b_data (buf s1 b) = bview s n \<and> tx_same s s1 \<and>
    brelse b s1 = Ok s2 \<and> in_tx k s2 \<and> bview s2 = bview s \<and> tx_same s s2"
proof -
  let ?P = "set (log_blocks s)"
  obtain b s1 where g: "bread ROOTDEV n s = Ok (b, s1)" "b_data (buf s1 b) = bview s n" "io_inv ?P s1"
    "bheld s1 = [n \<mapsto> b]" "bview s1 = bview s" "disk s1 = disk s" "io_same s s1" by (rule tx_get [OF tx])
  have "n \<in> ?P \<or> bview s1 n = disk s1 n"
    using bc.view_disk [of ?P s n] tx g(5,6) by (auto simp: in_tx_def tx_ok_def)
  from bc.put_ok [OF g(3) _ this, of b] g(4) obtain s2 where p: "brelse b s1 = Ok s2" "io_inv ?P s2" "bheld s2 = Map.empty"
    "bview s2 = bview s1" "io_same s1 s2" by auto
  have ss: "io_same s s2" using io_same_trans [OF g(7) p(5)] .
  have l: "log s2 = log s" by (rule io_same_log [OF ss])
  have "in_tx k s2" by (rule in_tx_after [OF tx tx_same_io [OF ss]]) (use l p(2,3) in simp_all)
  then show ?thesis using g(1,2,5) p(1,4) tx_same_io [OF g(7)] tx_same_io [OF ss] by auto
qed

text \<open>Replacing its contents: the block is logged, once.\<close>

lemma tx_log:
  assumes tx: "in_tx (Suc k) s" and inv: "io_inv (set (log_blocks s)) s1" "bheld s1 = [n \<mapsto> b]" and l: "log s1 = log s"
    and area: "n \<notin> log_area (lg_start (log s))" and same: "tx_same s s1"
  shows "\<exists>s2. log_write b s1 = Ok s2 \<and> io_inv (insert n (set (log_blocks s))) s2 \<and> bheld s2 = [n \<mapsto> b] \<and> bview s2 = bview s1 \<and>
    tx_same s s2 \<and> (\<forall>s3. io_same s2 s3 \<longrightarrow> io_inv (insert n (set (log_blocks s))) s3 \<longrightarrow> bheld s3 = Map.empty \<longrightarrow> in_tx k s3)"
proof -
  note ls = tx_same_log(5) [OF same, of LogLock]
  have room: "log_room s1" using in_tx_room [OF tx] unfolding log_room_def l ls .
  show ?thesis
  proof (cases "n \<in> set (log_blocks s)")
    case True
    have w: "log_write b s1 = Ok (relock s1)" using log_write_absorb [OF inv(1) _ room] inv(2) True l by auto
    have t: "tx_same s (relock s1)" by (rule tx_same_trans [OF same tx_same_io [OF io_relock(4)]])
    have "in_tx k s3" if "io_same (relock s1) s3" "io_inv (insert n (set (log_blocks s))) s3" "bheld s3 = Map.empty" for s3
    proof -
      have l3: "log s3 = log s" using io_same_log [OF that(1)] l by simp
      have "in_tx (Suc k) s3"
        by (rule in_tx_after [OF tx tx_same_trans [OF t tx_same_io [OF that(1)]]]) (use that True l3 in \<open>simp_all add: insert_absorb\<close>)
      then show ?thesis by (rule in_tx_mono) simp
    qed
    then show ?thesis using w t inv True by (intro exI [of _ "relock s1"]) (simp add: io_relock insert_absorb)
  next
    case False
    from log_write_new [OF inv(1) _ room, of n b] inv(2) False l obtain s2 where w: "log_write b s1 = Ok s2"
      "io_inv (insert n (set (log_blocks s))) s2" "bheld s2 = [n \<mapsto> b]" "bview s2 = bview s1" "io_same (s1\<lparr>log := log s2\<rparr>) s2"
      "log_blocks s2 = log_blocks s @ [n]" "log s2 = (log s)\<lparr>lh_n := lh_n (log s) + 1, lh_block := (lh_block (log s))(log_len s := n)\<rparr>"
      by auto
    have t1: "tx_same s1 s2" using w(5,7) l by (simp add: tx_same_def)
    have "in_tx k s3" if "io_same s2 s3" "io_inv (insert n (set (log_blocks s))) s3" "bheld s3 = Map.empty" for s3
    proof -
      have l3: "log s3 = log s2" by (rule io_same_log [OF that(1)])
      have bl: "log_blocks s3 = log_blocks s @ [n]" unfolding l3 by (rule w(6))
      have ln: "log_len s3 = Suc (log_len s)" using arg_cong [OF bl, of length] by simp
      have n1: "sint (lh_n (log s3)) = sint (lh_n (log s)) + 1"
        using sint_Suc [of "lh_n (log s)"] tx unfolding l3 w(7) in_tx_def by simp
      have "homes_ok s3 (log_len s3)" unfolding ln
        using tx area by (auto simp: in_tx_def tx_ok_def homes_ok_def l3 w(7) less_Suc_eq)
      moreover have "log_len s < 29" using tx by (auto simp: in_tx_def)
      ultimately have "tx_ok s3" unfolding tx_ok_def bl using that tx False ln by (simp add: in_tx_def tx_ok_def)
      moreover have "lock_free LogLock s3"
        using io_same_lock [OF that(1), of LogLock] io_same_lock [OF w(5), of LogLock] ls tx by (simp add: lock_simps in_tx_def)
      ultimately show ?thesis using tx n1 unfolding in_tx_def l3 w(7) by simp
    qed
    then show ?thesis using w(1-4) tx_same_trans [OF same t1] by blast
  qed
qed

lemma tx_write:
  fixes s :: "'a fsys_scheme"
  assumes tx: "in_tx (Suc k) s" and area: "n \<notin> log_area (lg_start (log s))" and d: "\<And>c. length c = BSIZE \<Longrightarrow> length (f c) = BSIZE"
  shows "\<exists>b s1 s2 s3. bread ROOTDEV n s = Ok (b, s1) \<and> b_data (buf s1 b) = bview s n \<and> tx_same s s1 \<and>
    log_write b (set_data b (f (bview s n)) s1) = Ok s2 \<and> brelse b s2 = Ok s3 \<and> in_tx k s3 \<and>
    bview s3 = (bview s)(n := f (bview s n)) \<and> tx_same s s3"
proof -
  let ?P = "set (log_blocks s)" and ?d = "f (bview s n)"
  obtain b s1 where g: "bread ROOTDEV n s = Ok (b, s1)" "b_data (buf s1 b) = bview s n" "io_inv ?P s1"
    "bheld s1 = [n \<mapsto> b]" "bview s1 = bview s" "disk s1 = disk s" "io_same s s1" by (rule tx_get [OF tx])
  have "length (bview s n) = BSIZE" using bc.view_size [of ?P s n] tx by (simp add: in_tx_def tx_ok_def)
  note dl = d [OF this]
  have st: "io_inv ?P (set_data b ?d s1)" "bheld (set_data b ?d s1) = [n \<mapsto> b]" "bview (set_data b ?d s1) = (bview s)(n := ?d)"
    "io_same s1 (set_data b ?d s1)"
    using bc.set_ok [OF g(3) _ dl, of n b] g(4,5) by (auto simp: set_data_def)
  have ss: "io_same s (set_data b ?d s1)" by (rule io_same_trans [OF g(7) st(4)])
  obtain s2 where w: "log_write b (set_data b ?d s1) = Ok s2" "io_inv (insert n ?P) s2" "bheld s2 = [n \<mapsto> b]"
    "bview s2 = (bview s)(n := ?d)" "tx_same s s2"
    "\<And>s3. io_same s2 s3 \<Longrightarrow> io_inv (insert n ?P) s3 \<Longrightarrow> bheld s3 = Map.empty \<Longrightarrow> in_tx k s3"
    using tx_log [OF tx st(1,2) io_same_log [OF ss] area tx_same_io [OF ss]] unfolding st(3) by blast
  from bc.put_ok [OF w(2), of n b] w(3) obtain s3 where p: "brelse b s2 = Ok s3" "io_inv (insert n ?P) s3" "bheld s3 = Map.empty"
    "bview s3 = bview s2" "io_same s2 s3" by auto
  have "in_tx k s3" by (rule w(6) [OF p(5,2,3)])
  then show ?thesis using g(1,2) w(1,4) p(1,4) tx_same_io [OF g(7)] tx_same_trans [OF w(5) tx_same_io [OF p(5)]] by auto
qed

end
