(* ===== verification/Fs_Spec.thy ===== *)
theory Fs_Spec
  imports Journal
begin

text \<open>
  The file system on disk (\<^verbatim>\<open>kernel/fs.c\<close>): the free map and block allocation, and the on-disk
  inodes, as seen inside a transaction.
\<close>

section \<open>The bits of a bitmap block\<close>

lemma bit_set_iff: "bit_set d bi \<longleftrightarrow> bit (d ! (bi div 8)) (bi mod 8)"
  by (simp add: bit_set_def push_bit_of_1 and_exp_eq_0_iff_not_bit)

lemma div_mod_8_eq: "bi div 8 = bj div 8 \<Longrightarrow> bi mod 8 = bj mod 8 \<Longrightarrow> bi = (bj :: nat)"
  by (metis div_mult_mod_eq)

lemma bit_set_mark:
  assumes "length d = BSIZE" "bi < BPB"
  shows "bit_set (mark_bit d bi) bj \<longleftrightarrow> bi = bj \<or> bit_set d bj"
proof (cases "bi div 8 = bj div 8")
  case True
  then have "bi mod 8 = bj mod 8 \<longleftrightarrow> bi = bj" using div_mod_8_eq by blast
  then show ?thesis using True assms
    by (auto simp: bit_set_iff mark_bit_def bit_or_iff bit_exp_iff)
next
  case False
  then show ?thesis using assms by (auto simp: bit_set_iff mark_bit_def)
qed

lemma bit_set_clear:
  assumes "length d = BSIZE" "bi < BPB"
  shows "bit_set (clear_bit d bi) bj \<longleftrightarrow> bi \<noteq> bj \<and> bit_set d bj"
proof (cases "bi div 8 = bj div 8")
  case True
  then have "bi mod 8 = bj mod 8 \<longleftrightarrow> bi = bj" using div_mod_8_eq by blast
  then show ?thesis using True assms
    by (auto simp: bit_set_iff clear_bit_def bit_and_iff bit_not_iff bit_exp_iff)
next
  case False
  then show ?thesis using assms by (auto simp: bit_set_iff clear_bit_def)
qed

lemma length_bits [simp]: "length (mark_bit d bi) = length d" "length (clear_bit d bi) = length d"
  by (simp_all add: mark_bit_def clear_bit_def)

section \<open>The free map\<close>

text \<open>The bit of block \<open>n\<close>, and the blocks that are free.\<close>

definition used :: "'a fsys_scheme \<Rightarrow> nat \<Rightarrow> bool" where
  "used s n \<longleftrightarrow> bit_set (bview s (BBLOCK (of_nat n) s)) (n mod BPB)"

definition fs_size :: "'a fsys_scheme \<Rightarrow> nat" where
  "fs_size s = unat (sb_size (sb s))"

definition free_blocks :: "'a fsys_scheme \<Rightarrow> nat set" where
  "free_blocks s = {n. n < fs_size s \<and> \<not> used s n}"

text \<open>The blocks of the free map and of the log are in use; the map does not overlap the log.\<close>

definition layout_ok :: "'a fsys_scheme \<Rightarrow> bool" where
  "layout_ok s \<longleftrightarrow>
     (\<forall>n < fs_size s. BBLOCK (of_nat n) s \<notin> log_area (lg_start (log s))) \<and>
     (\<forall>n \<in> free_blocks s. of_nat n \<notin> log_area (lg_start (log s)) \<and> (\<forall>m < fs_size s. of_nat n \<noteq> BBLOCK (of_nat m) s))"

lemma fs_size_less: "fs_size s < 2 ^ 32"
  using unsigned_less [of "sb_size (sb s)", where ?'a = nat] by (simp add: fs_size_def)

lemma BBLOCK_of_nat:
  assumes "n < 2 ^ 32"
  shows "BBLOCK (of_nat n) s = of_nat (n div BPB) + sb_bmapstart (sb s)"
proof -
  have "unat (of_nat n div 8192 :: uint) = n div 8192" using assms by (simp add: unat_div unat_of_nat)
  moreover have "unat (of_nat (n div 8192) :: uint) = n div 8192" using assms by (simp add: unat_of_nat)
  ultimately have "(of_nat n div 8192 :: uint) = of_nat (n div 8192)" by (metis word_unat_eq_iff)
  then show ?thesis by (simp add: BBLOCK_def)
qed

text \<open>Two blocks have their bits in the same block of the map exactly if they are in the same group of \<open>BPB\<close>.\<close>

lemma BBLOCK_eq_iff:
  assumes "n < 2 ^ 32" "m < 2 ^ 32"
  shows "BBLOCK (of_nat n) s = BBLOCK (of_nat m) s \<longleftrightarrow> n div BPB = m div BPB"
proof -
  have "unat (of_nat (n div BPB) :: uint) = n div BPB" "unat (of_nat (m div BPB) :: uint) = m div BPB"
    using assms by (simp_all add: unat_of_nat)
  then have "(of_nat (n div BPB) :: uint) = of_nat (m div BPB) \<longleftrightarrow> n div BPB = m div BPB" by metis
  then show ?thesis using assms by (simp add: BBLOCK_of_nat)
qed

lemma fs_cong:
  assumes "tx_same s s'" "bview s' = bview s"
  shows "free_blocks s' = free_blocks s" "layout_ok s' = layout_ok s" "fs_size s' = fs_size s" "BBLOCK n s' = BBLOCK n s"
proof -
  note ts = tx_same_fs [OF assms(1)] tx_same_log [OF assms(1)]
  show b: "BBLOCK n s' = BBLOCK n s" for n by (simp add: BBLOCK_def ts)
  show z: "fs_size s' = fs_size s" by (simp add: fs_size_def ts)
  show f: "free_blocks s' = free_blocks s" by (simp add: free_blocks_def used_def assms(2) b z)
  show "layout_ok s' = layout_ok s" by (simp add: layout_ok_def b z f ts)
qed

text \<open>Changing the bit of one block changes the free map there and nowhere else.\<close>

lemma used_upd:
  assumes tx: "tx_same s s'" and n: "n < 2 ^ 32" and m: "m < 2 ^ 32"
    and view: "bview s' (BBLOCK (of_nat m) s) =
      (if BBLOCK (of_nat m) s = BBLOCK (of_nat n) s then d else bview s (BBLOCK (of_nat m) s))"
    and d: "\<And>bj. bit_set d bj \<longleftrightarrow> (if bj = n mod BPB then v else bit_set (bview s (BBLOCK (of_nat n) s)) bj)"
  shows "used s' m \<longleftrightarrow> (if m = n then v else used s m)"
proof -
  have b: "BBLOCK x s' = BBLOCK x s" for x using tx_same_fs [OF tx] by (simp add: BBLOCK_def)
  show ?thesis
  proof (cases "m div BPB = n div BPB")
    case True
    then have "m mod BPB = n mod BPB \<longleftrightarrow> m = n" by (metis div_mult_mod_eq)
    moreover have "BBLOCK (of_nat m) s = BBLOCK (of_nat n) s" using BBLOCK_eq_iff [OF m n] True by blast
    ultimately show ?thesis using view by (simp add: used_def b d)
  next
    case False
    then have "BBLOCK (of_nat m) s \<noteq> BBLOCK (of_nat n) s" "m \<noteq> n" using BBLOCK_eq_iff [OF m n] by auto
    then show ?thesis using view by (simp add: used_def b)
  qed
qed

section \<open>Allocation\<close>

lemma bzero_run:
  assumes "in_tx (Suc k) s" "n \<notin> log_area (lg_start (log s))"
  shows "\<exists>s'. bzero ROOTDEV n s = Ok s' \<and> in_tx k s' \<and> tx_same s s' \<and> bview s' = (bview s)(n := replicate BSIZE 0)"
  using tx_write [OF assms, of "\<lambda>_. replicate BSIZE 0"] by (fastforce simp: bzero_def)

text \<open>The first free block of group \<open>k\<close>.\<close>

definition group_find :: "'a fsys_scheme \<Rightarrow> nat \<Rightarrow> nat option" where
  "group_find s k = find (\<lambda>bi. \<not> used s (BPB * k + bi)) [0..<min BPB (fs_size s - BPB * k)]"

lemma used_group:
  assumes "BPB * k + bi < 2 ^ 32" "bi < BPB"
  shows "used s (BPB * k + bi) \<longleftrightarrow> bit_set (bview s (BBLOCK (of_nat (BPB * k)) s)) bi"
proof -
  have "BBLOCK (of_nat (BPB * k + bi)) s = BBLOCK (of_nat (BPB * k)) s"
    by (subst BBLOCK_eq_iff) (use assms in auto)
  then show ?thesis using assms(2) by (simp add: used_def)
qed

lemma group_find_eq:
  "find (\<lambda>bi. \<not> bit_set (bview s (BBLOCK (of_nat (BPB * k)) s)) bi) [0..<min BPB (fs_size s - BPB * k)] = group_find s k"
  unfolding group_find_def
proof (rule find_cong [OF refl])
  fix bi assume "bi \<in> set [0..<min BPB (fs_size s - BPB * k)]"
  then show "(\<not> bit_set (bview s (BBLOCK (of_nat (BPB * k)) s)) bi) = (\<not> used s (BPB * k + bi))"
    using fs_size_less [of s] by (subst used_group) auto
qed

lemma group_find_Some:
  assumes "group_find s k = Some bi"
  shows "BPB * k + bi \<in> free_blocks s" "bi < BPB" "\<forall>n \<in> free_blocks s. BPB * k \<le> n \<longrightarrow> BPB * k + bi \<le> n"
proof -
  have bi: "bi < BPB" "bi < fs_size s - BPB * k" "\<not> used s (BPB * k + bi)"
    using assms by (auto simp: group_find_def dest: find_SomeD)
  then show "BPB * k + bi \<in> free_blocks s" "bi < BPB" by (auto simp: free_blocks_def)
  have before: "used s (BPB * k + bj)" if "bj < bi" for bj
    using assms that bi by (auto simp: group_find_def find_Some_iff)
  show "\<forall>n \<in> free_blocks s. BPB * k \<le> n \<longrightarrow> BPB * k + bi \<le> n"
  proof (intro ballI impI, rule ccontr)
    fix n assume n: "n \<in> free_blocks s" "BPB * k \<le> n" "\<not> BPB * k + bi \<le> n"
    then have "used s (BPB * k + (n - BPB * k))" by (intro before) arith
    then show False using n by (simp add: free_blocks_def)
  qed
qed

lemma group_find_None:
  assumes "group_find s k = None" "n \<in> free_blocks s" "BPB * k \<le> n"
  shows "BPB * Suc k \<le> n"
proof (rule ccontr)
  assume "\<not> ?thesis"
  then have "n - BPB * k < BPB" "n - BPB * k < fs_size s - BPB * k" using assms(2,3) by (auto simp: free_blocks_def)
  then have "used s (BPB * k + (n - BPB * k))" using assms(1) by (auto simp: group_find_def find_None_iff)
  then show False using assms(2,3) by (simp add: free_blocks_def)
qed

text \<open>What an allocation of block \<open>n\<close> does.\<close>

definition allocated :: "'a fsys_scheme \<Rightarrow> nat \<Rightarrow> 'a fsys_scheme \<Rightarrow> bool" where
  "allocated s n s' \<longleftrightarrow> in_tx 0 s' \<and> tx_same s s' \<and>
     bview s' = (bview s)(BBLOCK (of_nat n) s := mark_bit (bview s (BBLOCK (of_nat n) s)) (n mod BPB), of_nat n := replicate BSIZE 0)"

lemma balloc_block_some:
  assumes tx: "in_tx 2 s" and lay: "layout_ok s" and f: "group_find s k = Some bi"
  shows "\<exists>s'. balloc_block ROOTDEV (BPB * k) s = Ok (Some (of_nat (BPB * k + bi)), s') \<and> allocated s (BPB * k + bi) s'"
proof -
  let ?n = "BPB * k + bi" and ?bb = "BBLOCK (of_nat (BPB * k)) s"
  note fs = group_find_Some [OF f]
  have n: "?n < fs_size s" using fs(1) by (simp add: free_blocks_def)
  then have bb: "BBLOCK (of_nat ?n) s = ?bb" by (subst BBLOCK_eq_iff) (use fs(2) fs_size_less [of s] in auto)
  have area: "?bb \<notin> log_area (lg_start (log s))" "of_nat ?n \<notin> log_area (lg_start (log s))"
    using lay n fs(1) bb by (auto simp: layout_ok_def)
  have "in_tx (Suc 1) s" using tx by (simp add: numeral_2_eq_2)
  from tx_write [OF this area(1), of "\<lambda>c. mark_bit c bi"]
  obtain b s1 s2 s3 where w: "bread ROOTDEV ?bb s = Ok (b, s1)" "b_data (buf s1 b) = bview s ?bb" "tx_same s s1"
    "log_write b (set_data b (mark_bit (bview s ?bb) bi) s1) = Ok s2" "brelse b s2 = Ok s3" "in_tx 1 s3"
    "bview s3 = (bview s)(?bb := mark_bit (bview s ?bb) bi)" "tx_same s s3" by auto
  have "in_tx (Suc 0) s3" "of_nat ?n \<notin> log_area (lg_start (log s3))"
    using w(6) area(2) tx_same_log [OF w(8)] by simp_all
  from bzero_run [OF this] obtain s4 where z: "bzero ROOTDEV (of_nat ?n) s3 = Ok s4" "in_tx 0 s4" "tx_same s3 s4"
    "bview s4 = (bview s3)(of_nat ?n := replicate BSIZE 0)" by blast
  have "unat (sb_size (sb s1)) = fs_size s" using tx_same_fs [OF w(3)] by (simp add: fs_size_def)
  then have "balloc_block ROOTDEV (BPB * k) s = Ok (Some (of_nat ?n), s4)"
    using w(1,2,4,5) z(1) group_find_eq [of s k] f by (simp add: balloc_block_def del: of_nat_add of_nat_mult)
  moreover have "allocated s ?n s4"
    using z(2,4) w(7) tx_same_trans [OF w(8) z(3)] bb fs(2) by (simp add: allocated_def del: of_nat_add of_nat_mult)
  ultimately show ?thesis by blast
qed

lemma balloc_block_none:
  assumes tx: "in_tx j s" and f: "group_find s k = None"
  shows "\<exists>s'. balloc_block ROOTDEV (BPB * k) s = Ok (None, s') \<and> in_tx j s' \<and> tx_same s s' \<and> bview s' = bview s"
proof -
  let ?bb = "BBLOCK (of_nat (BPB * k)) s"
  obtain b s1 s2 where r: "bread ROOTDEV ?bb s = Ok (b, s1)" "b_data (buf s1 b) = bview s ?bb" "tx_same s s1"
    "brelse b s1 = Ok s2" "in_tx j s2" "bview s2 = bview s" "tx_same s s2" using tx_read [OF tx] by blast
  have "unat (sb_size (sb s1)) = fs_size s" using tx_same_fs [OF r(3)] by (simp add: fs_size_def)
  then show ?thesis using r group_find_eq [of s k] f by (simp add: balloc_block_def del: of_nat_mult)
qed

lemma balloc_loop:
  assumes "in_tx 2 s" "layout_ok s" "\<forall>n \<in> free_blocks s. BPB * k \<le> n" "fs_size s \<le> BPB * (k + j)"
  shows "\<exists>s'. mloop (balloc_block ROOTDEV) (map (\<lambda>k. BPB * k) [k..<k + j]) s =
      Ok (if free_blocks s = {} then None else Some (of_nat (Min (free_blocks s))), s') \<and>
    (if free_blocks s = {} then bview s' = bview s else allocated s (Min (free_blocks s)) s')"
  using assms
proof (induction j arbitrary: k s)
  case 0
  then have "free_blocks s = {}" by (auto simp: free_blocks_def)
  then show ?case by simp
next
  case (Suc j)
  have list: "[k..<k + Suc j] = k # [Suc k..<Suc k + j]" by (simp add: upt_rec)
  have fin: "finite (free_blocks s)" by (simp add: free_blocks_def)
  show ?case
  proof (cases "group_find s k")
    case (Some bi)
    note fs = group_find_Some [OF Some]
    have "Min (free_blocks s) = BPB * k + bi" by (rule Min_eqI [OF fin]) (use fs Suc.prems(3) in auto)
    moreover have "free_blocks s \<noteq> {}" using fs(1) by blast
    ultimately show ?thesis
      using balloc_block_some [OF Suc.prems(1,2) Some] unfolding list by (auto simp del: of_nat_add of_nat_mult)
  next
    case None
    obtain s1 where s1: "balloc_block ROOTDEV (BPB * k) s = Ok (None, s1)" "in_tx 2 s1" "tx_same s s1" "bview s1 = bview s"
      using balloc_block_none [OF Suc.prems(1) None] by blast
    note c = fs_cong [OF s1(3,4)]
    have ge: "\<forall>n \<in> free_blocks s. BPB * Suc k \<le> n" using group_find_None [OF None] Suc.prems(3) by blast
    have "\<exists>s'. mloop (balloc_block ROOTDEV) (map (\<lambda>k. BPB * k) [Suc k..<Suc k + j]) s1 =
        Ok (if free_blocks s = {} then None else Some (of_nat (Min (free_blocks s))), s') \<and>
      (if free_blocks s = {} then bview s' = bview s1 else allocated s1 (Min (free_blocks s)) s')"
      unfolding c(1) [symmetric] by (rule Suc.IH) (use s1(2) Suc.prems(2,4) ge in \<open>simp_all add: c\<close>)
    moreover have "allocated s (Min (free_blocks s)) s'" if "allocated s1 (Min (free_blocks s)) s'" for s'
      using that tx_same_trans [OF s1(3)] c(4) s1(4) by (simp add: allocated_def)
    ultimately show ?thesis using s1(1,4) unfolding list by (fastforce split: if_splits)
  qed
qed

lemma tx_view_size: "in_tx k s \<Longrightarrow> length (bview s n) = BSIZE"
  by (auto simp: in_tx_def tx_ok_def intro: bc.view_size)

lemma allocated_free:
  assumes al: "allocated s n s'" and old: "in_tx k s" and lay: "layout_ok s" and n: "n \<in> free_blocks s"
  shows "free_blocks s' = free_blocks s - {n}"
proof -
  let ?bb = "BBLOCK (of_nat n) s"
  have tx: "tx_same s s'" and v: "bview s' = (bview s)(?bb := mark_bit (bview s ?bb) (n mod BPB), of_nat n := replicate BSIZE 0)"
    using al by (simp_all add: allocated_def)
  have "used s' m \<longleftrightarrow> (if m = n then True else used s m)" if m: "m < fs_size s" for m
  proof (rule used_upd [OF tx])
    show "n < 2 ^ 32" "m < 2 ^ 32" using m n fs_size_less [of s] by (auto simp: free_blocks_def)
    have "of_nat n \<noteq> BBLOCK (of_nat m) s" using lay n m unfolding layout_ok_def by blast
    then show "bview s' (BBLOCK (of_nat m) s) =
        (if BBLOCK (of_nat m) s = ?bb then mark_bit (bview s ?bb) (n mod BPB) else bview s (BBLOCK (of_nat m) s))" by (simp add: v)
  qed (use bit_set_mark [OF tx_view_size [OF old]] in auto)
  moreover have "fs_size s' = fs_size s" using tx_same_fs [OF tx] by (simp add: fs_size_def)
  ultimately show ?thesis by (auto simp: free_blocks_def split: if_splits)
qed

text \<open>
  Property C25. \<^verbatim>\<open>balloc\<close> returns the lowest block that the free map has as free: its bit is set
  and no other, and its contents are zeros; all blocks but it and the free map are as they
  were. When no block is free it panics.
\<close>

theorem balloc_correct:
  assumes "in_tx 2 s" "layout_ok s"
  shows "if free_blocks s = {} then balloc ROOTDEV s = Panic ''balloc: out of blocks''
    else \<exists>s' n. balloc ROOTDEV s = Ok (of_nat n, s') \<and> n = Min (free_blocks s) \<and> in_tx 0 s' \<and>
      free_blocks s' = free_blocks s - {n} \<and> bview s' (of_nat n) = replicate BSIZE 0 \<and>
      (\<forall>b. b \<noteq> of_nat n \<and> (\<forall>m < fs_size s. b \<noteq> BBLOCK (of_nat m) s) \<longrightarrow> bview s' b = bview s b)"
proof -
  let ?F = "free_blocks s" and ?K = "(fs_size s + (BPB - 1)) div BPB"
  have K: "fs_size s \<le> BPB * (0 + ?K)" by simp
  obtain s' where run: "mloop (balloc_block ROOTDEV) (map (\<lambda>k. BPB * k) [0..<0 + ?K]) s =
      Ok (if ?F = {} then None else Some (of_nat (Min ?F)), s')" and post: "?F \<noteq> {} \<longrightarrow> allocated s (Min ?F) s'"
    using balloc_loop [OF assms _ K] by auto
  then have eq: "balloc ROOTDEV s = (if ?F = {} then Panic ''balloc: out of blocks'' else Ok (of_nat (Min ?F), s'))"
    by (simp add: balloc_def balloc_blocks_def fs_size_def)
  show ?thesis
  proof (cases "?F = {}")
    case False
    have "finite ?F" by (simp add: free_blocks_def)
    then have n: "Min ?F \<in> ?F" using False by (rule Min_in)
    have al: "allocated s (Min ?F) s'" using post False by blast
    show ?thesis using False eq allocated_free [OF al assms n] al n
      by (auto simp: allocated_def free_blocks_def)
  qed (use eq in simp)
qed

text \<open>
  Property C26. \<^verbatim>\<open>bfree\<close> makes a block that is in use free, changing no other bit and no
  block but the free map; it panics if the block is free already, so that no block is freed
  twice.
\<close>

theorem bfree_correct:
  assumes tx: "in_tx 1 s" and n: "n < fs_size s" and area: "BBLOCK (of_nat n) s \<notin> log_area (lg_start (log s))"
  shows "if n \<in> free_blocks s then bfree ROOTDEV (of_nat n) s = Panic ''freeing free block''
    else \<exists>s'. bfree ROOTDEV (of_nat n) s = Ok s' \<and> in_tx 0 s' \<and> free_blocks s' = insert n (free_blocks s) \<and>
      (\<forall>b. b \<noteq> BBLOCK (of_nat n) s \<longrightarrow> bview s' b = bview s b)"
proof -
  let ?bb = "BBLOCK (of_nat n) s"
  have n32: "n < 2 ^ 32" using n fs_size_less [of s] by simp
  then have un: "unat (of_nat n :: uint) = n" by (simp add: unat_of_nat)
  have "in_tx (Suc 0) s" using tx by simp
  from tx_write [OF this area, of "\<lambda>c. clear_bit c (n mod BPB)"]
  obtain b s1 s2 s3 where w: "bread ROOTDEV ?bb s = Ok (b, s1)" "b_data (buf s1 b) = bview s ?bb" "tx_same s s1"
    "log_write b (set_data b (clear_bit (bview s ?bb) (n mod BPB)) s1) = Ok s2" "brelse b s2 = Ok s3" "in_tx 0 s3"
    "bview s3 = (bview s)(?bb := clear_bit (bview s ?bb) (n mod BPB))" "tx_same s s3" by auto
  have eq: "bfree ROOTDEV (of_nat n) s = (if \<not> used s n then Panic ''freeing free block'' else Ok s3)"
    using w(1,2,4,5) by (simp add: bfree_def Let_def un used_def)
  have "used s3 m \<longleftrightarrow> (if m = n then False else used s m)" if m: "m < fs_size s" for m
  proof (rule used_upd [OF w(8) n32])
    show "m < 2 ^ 32" using m fs_size_less [of s] by simp
    show "bview s3 (BBLOCK (of_nat m) s) =
        (if BBLOCK (of_nat m) s = ?bb then clear_bit (bview s ?bb) (n mod BPB) else bview s (BBLOCK (of_nat m) s))" by (simp add: w(7))
  qed (use bit_set_clear [OF tx_view_size [OF tx]] in auto)
  moreover have "fs_size s3 = fs_size s" using tx_same_fs [OF w(8)] by (simp add: fs_size_def)
  ultimately have "free_blocks s3 = insert n (free_blocks s)" using n by (auto simp: free_blocks_def split: if_splits)
  then show ?thesis using eq w(6,7) n by (auto simp: free_blocks_def)
qed

section \<open>A formatted disk\<close>

text \<open>In the middle of a system call, with a log of 30 blocks at block 2, on the disk \<open>d\<close>.\<close>

definition boot_fs :: "(uint \<Rightarrow> uchar list) \<Rightarrow> superblock \<Rightarrow> (nat \<Rightarrow> inode) \<Rightarrow> fsys" where
  "boot_fs d sblock ino = binit (bcache.extend (raw_disk d)
     \<lparr>log = \<lparr>lg_start = 2, lg_size = 30, outstanding = 1, committing = 0, lg_dev = ROOTDEV, lh_n = 0, lh_block = \<lambda>_. 0\<rparr>,
      sb = sblock, inode = ino\<rparr>)"

lemma boot_fs_ok:
  assumes "\<And>n. length (d n) = BSIZE"
  shows "in_tx 20 (boot_fs d sblock ino)" "bview (boot_fs d sblock ino) = d" "sb (boot_fs d sblock ino) = sblock"
    "lg_start (log (boot_fs d sblock ino)) = 2" "inode (boot_fs d sblock ino) = ino"
proof -
  let ?s = "bcache.extend (raw_disk d)
     \<lparr>log = \<lparr>lg_start = 2, lg_size = 30, outstanding = 1, committing = 0, lg_dev = ROOTDEV, lh_n = 0, lh_block = \<lambda>_. 0\<rparr>,
      sb = sblock, inode = ino\<rparr>"
  have "ready 1 ?s" "\<And>lk. lock_free lk ?s" "\<And>i. b_dev (buf ?s i) = 0 \<and> b_valid (buf ?s i) = 0 \<and> b_refcnt (buf ?s i) = 0"
    "\<And>n. length (disk ?s n) = BSIZE" and d: "disk ?s = d"
    by (simp_all add: ready_def raw_disk_def table_ok_def quiet_def valid_priority_def paired_def lock_simps lock_waiter_def
      boot_procs_def idle_proc_def physmem.defs procs.defs sleeps.defs bcache.defs boot_mem_def zero_buf_def assms)
  note b = binit_io_inv [OF this(1-4), folded boot_fs_def, unfolded d] binit_ok(2,3) [OF this(2-4), folded boot_fs_def]
  from b(6) obtain k L B where e: "boot_fs d sblock ino = ?s\<lparr>spin := k, slock := L, buf := B\<rparr>" by blast
  have l: "log (boot_fs d sblock ino) = log ?s" using arg_cong [OF e, of log] by simp
  show "lg_start (log (boot_fs d sblock ino)) = 2" unfolding l by (simp add: bcache.defs)
  show "sb (boot_fs d sblock ino) = sblock" "inode (boot_fs d sblock ino) = ino" unfolding e by (simp_all add: bcache.defs)
  show "bview (boot_fs d sblock ino) = d" using b(3) by simp
  show "in_tx 20 (boot_fs d sblock ino)"
    using b(1,2) b(5) [of LogLock] unfolding in_tx_def tx_ok_def homes_ok_def l by (simp add: bcache.defs)
qed

text \<open>A disk of 100 blocks whose free map, block 45, has the first 48 blocks in use.\<close>

definition small_disk :: "uint \<Rightarrow> uchar list" where
  "small_disk n = (if n = 45 then replicate 6 0xff @ replicate 1018 0 else replicate BSIZE 0)"

definition small_fs :: fsys where
  "small_fs = boot_fs small_disk \<lparr>sb_magic = FSMAGIC, sb_size = 100, sb_nblocks = 52, sb_ninodes = 16, sb_nlog = 30,
     sb_logstart = 2, sb_inodestart = 33, sb_bmapstart = 45\<rparr>
     (\<lambda>i. \<lparr>i_dev = ROOTDEV, i_inum = of_nat i + 1, i_ref = 1, i_valid = 1, i_type = T_FILE, i_major = 0, i_minor = 0,
       i_nlink = 1, i_size = 2000, i_addrs = (\<lambda>k. if k < 2 then 60 + of_nat k else 0)\<rparr>)"

lemma small_map: "n < BPB \<Longrightarrow> bit_set (small_disk 45) n \<longleftrightarrow> n < 48"
proof -
  assume n: "n < BPB"
  have "(0xff :: uchar) = - 1" by simp
  then have "bit (0xff :: uchar) (n mod 8)" by (simp only: bit_minus_1_iff) simp
  moreover have "n div 8 < 6 \<longleftrightarrow> n < 48" by auto
  ultimately show ?thesis using n by (auto simp: bit_set_iff small_disk_def nth_append)
qed

lemma small_fs_ok:
  "in_tx 20 small_fs" "fs_size small_fs = 100" "free_blocks small_fs = {48..<100}" "layout_ok small_fs"
  "n < 100 \<Longrightarrow> BBLOCK (of_nat n) small_fs = 45" "sb_inodestart (sb small_fs) = 33" "lg_start (log small_fs) = 2"
  "inode small_fs i = \<lparr>i_dev = ROOTDEV, i_inum = of_nat i + 1, i_ref = 1, i_valid = 1, i_type = T_FILE, i_major = 0, i_minor = 0,
     i_nlink = 1, i_size = 2000, i_addrs = (\<lambda>k. if k < 2 then 60 + of_nat k else 0)\<rparr>"
proof -
  have "length (small_disk n) = BSIZE" for n by (simp add: small_disk_def)
  note ok = boot_fs_ok [of small_disk, OF this, where sblock = "\<lparr>sb_magic = FSMAGIC, sb_size = 100, sb_nblocks = 52,
    sb_ninodes = 16, sb_nlog = 30, sb_logstart = 2, sb_inodestart = 33, sb_bmapstart = 45\<rparr>" and
    ino = "\<lambda>i. \<lparr>i_dev = ROOTDEV, i_inum = of_nat i + 1, i_ref = 1, i_valid = 1, i_type = T_FILE, i_major = 0, i_minor = 0,
     i_nlink = 1, i_size = 2000, i_addrs = (\<lambda>k. if k < 2 then 60 + of_nat k else 0)\<rparr>", folded small_fs_def]
  show "in_tx 20 small_fs" by (rule ok(1))
  show "sb_inodestart (sb small_fs) = 33" "lg_start (log small_fs) = 2" by (simp_all add: ok(3,4))
  show "inode small_fs i = \<lparr>i_dev = ROOTDEV, i_inum = of_nat i + 1, i_ref = 1, i_valid = 1, i_type = T_FILE, i_major = 0, i_minor = 0,
     i_nlink = 1, i_size = 2000, i_addrs = (\<lambda>k. if k < 2 then 60 + of_nat k else 0)\<rparr>" by (simp add: ok(5))
  show sz: "fs_size small_fs = 100" by (simp add: fs_size_def ok(3))
  show bb: "BBLOCK (of_nat n) small_fs = 45" if "n < 100" for n
    using that by (subst BBLOCK_of_nat) (simp_all add: ok(3))
  show free: "free_blocks small_fs = {48..<100}"
    by (auto simp: free_blocks_def used_def sz bb ok(2) small_map)
  have "of_nat n \<noteq> (45 :: uint)" if "n \<in> {48..<100}" for n
  proof
    assume "of_nat n = (45 :: uint)"
    then have "unat (of_nat n :: uint) = 45" by simp
    then show False using that by (simp add: unat_of_nat)
  qed
  moreover have "of_nat n \<notin> log_area 2" if "n \<in> {48..<100}" for n
  proof
    assume "of_nat n \<in> log_area 2"
    then have "unat (of_nat n - 2 :: uint) \<le> 30" by (simp add: log_area_def)
    moreover have "(of_nat n - 2 :: uint) = of_nat (n - 2)" using that by (simp add: of_nat_diff)
    moreover have "n - 2 < 2 ^ LENGTH(32)" using that by auto
    then have "unat (of_nat (n - 2) :: uint) = n - 2" by (simp only: unat_of_nat mod_less)
    ultimately show False using that by auto
  qed
  ultimately show "layout_ok small_fs"
    unfolding layout_ok_def free sz ok(4) by (auto simp: bb log_area_def)
qed

theorem balloc_correct_witness:
  "\<exists>s'. balloc ROOTDEV small_fs = Ok (48, s') \<and> free_blocks s' = {49..<100} \<and> bview s' 48 = replicate BSIZE 0"
proof -
  have "{48..<100} - {48} = {49..<100 :: nat}" "Min {48..<100 :: nat} = 48" by (auto intro!: Min_eqI)
  then show ?thesis
    using balloc_correct [OF in_tx_mono [OF small_fs_ok(1)] small_fs_ok(4)] by (auto simp: small_fs_ok(3))
qed

theorem bfree_correct_witness:
  "(\<exists>s'. bfree ROOTDEV (of_nat 47) small_fs = Ok s' \<and> free_blocks s' = {47..<100}) \<and>
   bfree ROOTDEV (of_nat 60) small_fs = Panic ''freeing free block''"
proof -
  have a: "(45 :: uint) \<notin> log_area (lg_start (log small_fs))"
    using small_fs_ok(2,4) small_fs_ok(5) [of 0] unfolding layout_ok_def by fastforce
  have "insert 47 {48..<100} = {47..<100 :: nat}" by auto
  moreover note bfree_correct [OF in_tx_mono [OF small_fs_ok(1)], of 47] bfree_correct [OF in_tx_mono [OF small_fs_ok(1)], of 60]
  ultimately show ?thesis using a small_fs_ok(5) [of 47] small_fs_ok(5) [of 60] by (auto simp: small_fs_ok(2,3))
qed

section \<open>Inodes on disk\<close>

lemma put_addrs:
  fixes a :: "nat \<Rightarrow> uint"
  assumes "length d = BSIZE" "p + 4 * k \<le> BSIZE" "n \<le> k"
  defines "r \<equiv> fold (\<lambda>i d. put32 d (p + 4 * i) (a i)) [0..<n] d"
  shows "length r = BSIZE \<and> (\<forall>i<n. get32 r (p + 4 * i) = a i) \<and>
    (\<forall>q. q + 4 \<le> p \<or> p + 4 * n \<le> q \<longrightarrow> get32 r q = get32 d q) \<and>
    (\<forall>q. q + 2 \<le> p \<or> p + 4 * n \<le> q \<longrightarrow> get16 r q = get16 d q)"
  unfolding r_def using assms(3)
proof (induction n)
  case 0
  then show ?case using assms(1) by simp
next
  case (Suc n)
  let ?r = "fold (\<lambda>i d. put32 d (p + 4 * i) (a i)) [0..<n] d"
  have IH: "length ?r = BSIZE" "\<And>i. i < n \<Longrightarrow> get32 ?r (p + 4 * i) = a i"
    "\<And>q. q + 4 \<le> p \<or> p + 4 * n \<le> q \<Longrightarrow> get32 ?r q = get32 d q"
    "\<And>q. q + 2 \<le> p \<or> p + 4 * n \<le> q \<Longrightarrow> get16 ?r q = get16 d q"
    using Suc.IH Suc.prems by auto
  have fit: "p + 4 * n + 4 \<le> length ?r" using IH(1) assms(2) Suc.prems by simp
  have "get32 (put32 ?r (p + 4 * n) (a n)) (p + 4 * i) = a i" if "i < Suc n" for i
    using that fit IH(2) [of i] by (cases "i = n") (simp_all add: get32_put_other)
  then show ?case using IH fit by (auto simp: get32_put_other)
qed

text \<open>The field values of an on-disk inode, as \<^verbatim>\<open>ilock\<close> copies them.\<close>

definition same_dinode :: "inode \<Rightarrow> inode \<Rightarrow> bool" where
  "same_dinode x y \<longleftrightarrow> i_type x = i_type y \<and> i_major x = i_major y \<and> i_minor x = i_minor y \<and> i_nlink x = i_nlink y \<and>
     i_size x = i_size y \<and> (\<forall>i < NDIRECT + 1. i_addrs x i = i_addrs y i)"

lemma put_dinode_get:
  assumes "length d = BSIZE" "p + 64 \<le> BSIZE"
  shows "length (put_dinode ip d p) = BSIZE" "same_dinode (get_dinode (put_dinode ip d p) p x) ip"
    "q + 64 \<le> p \<or> p + 64 \<le> q \<Longrightarrow> get_dinode (put_dinode ip d p) q x = get_dinode d q x"
proof -
  let ?e = "put32 (put16 (put16 (put16 (put16 d p (i_type ip)) (p + 2) (i_major ip)) (p + 4) (i_minor ip)) (p + 6) (i_nlink ip))
    (p + 8) (i_size ip)"
  have e: "length ?e = BSIZE" using assms by simp
  have r: "put_dinode ip d p = fold (\<lambda>i d. put32 d (p + 12 + 4 * i) (i_addrs ip i)) [0..<13] ?e"
    by (simp add: put_dinode_def del: upt_rec_numeral)
  have "p + 12 + 4 * 13 \<le> BSIZE" using assms(2) by simp
  note pa = put_addrs [OF e this le_refl, of "i_addrs ip", folded r]
  show "length (put_dinode ip d p) = BSIZE" using pa by blast
  show "same_dinode (get_dinode (put_dinode ip d p) p x) ip"
    using pa assms by (simp add: same_dinode_def get_dinode_def get32_put_other)
  show "get_dinode (put_dinode ip d p) q x = get_dinode d q x" if "q + 64 \<le> p \<or> p + 64 \<le> q"
    using pa assms that by (auto simp: get_dinode_def get32_put_other fun_eq_iff)
qed

text \<open>Distinct inodes are in distinct places.\<close>

lemma dinode_off_fit: "dinode_off i + 64 \<le> BSIZE"
proof -
  have "unat i mod 16 \<le> 15" by (simp add: less_Suc_eq_le [symmetric])
  then show ?thesis by (simp add: dinode_off_def)
qed

lemma IBLOCK_off_inj:
  assumes "IBLOCK i s = IBLOCK j s" "i \<noteq> j"
  shows "dinode_off i + 64 \<le> dinode_off j \<or> dinode_off j + 64 \<le> dinode_off i"
proof -
  have "i div 16 = j div 16" using assms(1) by (simp add: IBLOCK_def)
  from arg_cong [OF this, of unat] have "unat i div 16 = unat j div 16" by (simp add: unat_div)
  then have "unat i mod 16 \<noteq> unat j mod 16" using assms(2) by (metis div_mult_mod_eq word_unat_eq_iff)
  then show ?thesis by (auto simp: dinode_off_def)
qed

text \<open>The contents of inode \<open>i\<close> on disk.\<close>

definition dinode_at :: "'a fsys_scheme \<Rightarrow> uint \<Rightarrow> inode \<Rightarrow> inode" where
  "dinode_at s i = get_dinode (bview s (IBLOCK i s)) (dinode_off i)"

text \<open>
  Property C27. \<^verbatim>\<open>iupdate\<close> writes an inode so that reading it back gives all its fields and the
  13 block addresses; the inodes that share its block, and all others, are untouched.
\<close>

theorem iupdate_roundtrip:
  assumes tx: "in_tx 1 s" and dev: "i_dev (inode s ip) = ROOTDEV"
    and area: "IBLOCK (i_inum (inode s ip)) s \<notin> log_area (lg_start (log s))"
  shows "\<exists>s'. iupdate ip s = Ok s' \<and> in_tx 0 s' \<and> inode s' = inode s \<and>
    same_dinode (dinode_at s' (i_inum (inode s ip)) x) (inode s ip) \<and>
    (\<forall>j. j \<noteq> i_inum (inode s ip) \<longrightarrow> dinode_at s' j x = dinode_at s j x) \<and>
    (\<forall>n. n \<noteq> IBLOCK (i_inum (inode s ip)) s \<longrightarrow> bview s' n = bview s n)"
proof -
  let ?i = "i_inum (inode s ip)" and ?n = "IBLOCK (i_inum (inode s ip)) s"
  let ?f = "\<lambda>c. put_dinode (inode s ip) c (dinode_off ?i)"
  have "in_tx (Suc 0) s" using tx by simp
  from tx_write [OF this area, of ?f] put_dinode_get(1) [OF _ dinode_off_fit]
  obtain b s1 s2 s3 where w: "bread ROOTDEV ?n s = Ok (b, s1)" "b_data (buf s1 b) = bview s ?n" "tx_same s s1"
    "log_write b (set_data b (?f (bview s ?n)) s1) = Ok s2" "brelse b s2 = Ok s3" "in_tx 0 s3"
    "bview s3 = (bview s)(?n := ?f (bview s ?n))" "tx_same s s3" by blast
  have "iupdate ip s = Ok s3" using w(1,2,4,5) dev tx_same_fs(2) [OF w(3)] by (simp add: iupdate_def)
  moreover have ib: "IBLOCK j s3 = IBLOCK j s" for j using tx_same_fs(1) [OF w(8)] by (simp add: IBLOCK_def)
  moreover have "same_dinode (dinode_at s3 ?i x) (inode s ip)"
    using put_dinode_get(2) [OF tx_view_size [OF tx] dinode_off_fit] by (simp add: dinode_at_def ib w(7))
  moreover have "dinode_at s3 j x = dinode_at s j x" if "j \<noteq> ?i" for j
    using put_dinode_get(3) [OF tx_view_size [OF tx] dinode_off_fit] IBLOCK_off_inj [of j s ?i] that
    by (auto simp: dinode_at_def ib w(7))
  ultimately show ?thesis using w(6,7) tx_same_fs(2) [OF w(8)] by auto
qed

theorem iupdate_roundtrip_witness:
  "\<exists>s'. iupdate 4 small_fs = Ok s' \<and> i_size (dinode_at s' 5 (inode small_fs 0)) = 2000 \<and> i_addrs (dinode_at s' 5 (inode small_fs 0)) 1 = 61 \<and>
    dinode_at s' 6 (inode small_fs 0) = dinode_at small_fs 6 (inode small_fs 0)"
  using iupdate_roundtrip [OF in_tx_mono [OF small_fs_ok(1)], of 4 "inode small_fs 0"]
  by (auto simp: small_fs_ok(6-8) IBLOCK_def log_area_def same_dinode_def)

end
