(* ===== verification/Table_Spec.thy ===== *)
theory Table_Spec
  imports File Interfaces
begin

text \<open>
  The table of inodes in memory (\<^verbatim>\<open>itable\<close> of \<^verbatim>\<open>kernel/fs.c\<close>) and the table of open files
  (\<^verbatim>\<open>ftable\<close> of \<^verbatim>\<open>kernel/file.c\<close>): references are counted, and entries are shared by reference.
\<close>

declare upt_rec_numeral [simp del]

section \<open>The inode table\<close>

text \<open>The entry is in use for this inode; no inode has two entries in use, and counts do not overflow.\<close>

definition entry_for :: "inode \<Rightarrow> uint \<Rightarrow> uint \<Rightarrow> bool" where
  "entry_for r dev inum \<longleftrightarrow> 0 < sint (i_ref r) \<and> i_dev r = dev \<and> i_inum r = inum"

definition itable_ok :: "'a fsys_scheme \<Rightarrow> bool" where
  "itable_ok s \<longleftrightarrow> (\<forall>i < NINODE. 0 \<le> sint (i_ref (inode s i))) \<and>
     (\<forall>i < NINODE. \<forall>j < NINODE. \<forall>dev inum. entry_for (inode s i) dev inum \<and> entry_for (inode s j) dev inum \<longrightarrow> i = j)"

lemma critical_inode:
  assumes "hart_ok s" "lock_free lk s" "f (inside lk s) = Ok (r, (inside lk s)\<lparr>inode := I\<rparr>)"
  shows "critical lk f s = Ok (r, (relock s)\<lparr>inode := I\<rparr>)"
proof -
  have "critical lk f s = Ok (r, ((inside lk s)\<lparr>inode := I\<rparr>)\<lparr>sie := sie s, cpus := cpus (relock s), spin := spin s\<rparr>)"
    by (rule critical_run) (use assms in simp_all)
  then show ?thesis by (simp add: inside_def relock_def)
qed

lemma inode_inside [simp]: "inode (inside lk s) = inode s" "inode (relock s) = inode s"
  by (simp_all add: inside_def relock_def)

text \<open>The entry that \<^verbatim>\<open>iget\<close> settles on: the one in use for the inode, or the first free one.\<close>

definition iget_slot :: "uint \<Rightarrow> uint \<Rightarrow> (nat \<Rightarrow> inode) \<Rightarrow> (nat \<times> inode) option" where
  "iget_slot dev inum I =
     (case find (\<lambda>i. entry_for (I i) dev inum) [0..<NINODE] of
        Some i \<Rightarrow> Some (i, (I i)\<lparr>i_ref := i_ref (I i) + 1\<rparr>)
      | None \<Rightarrow> map_option (\<lambda>i. (i, (I i)\<lparr>i_dev := dev, i_inum := inum, i_ref := 1, i_valid := 0\<rparr>))
                  (find (\<lambda>i. i_ref (I i) = 0) [0..<NINODE]))"

lemma iget_eq:
  assumes "hart_ok s" "lock_free ItableLock s"
  shows "iget dev inum s = (case iget_slot dev inum (inode s) of None \<Rightarrow> Panic ''iget: no inodes''
    | Some (i, r) \<Rightarrow> Ok (i, (relock s)\<lparr>inode := (inode s)(i := r)\<rparr>))"
proof -
  let ?f = "\<lambda>s. case find (\<lambda>i. 0 < sint (i_ref (inode s i)) \<and> i_dev (inode s i) = dev \<and> i_inum (inode s i) = inum) [0..<NINODE] of
         Some i \<Rightarrow> Ok (i, upd_inode i (\<lambda>r. r\<lparr>i_ref := i_ref r + 1\<rparr>) s)
       | None \<Rightarrow>
           (case find (\<lambda>i. i_ref (inode s i) = 0) [0..<NINODE] of
              None \<Rightarrow> Panic ''iget: no inodes''
            | Some i \<Rightarrow> Ok (i, upd_inode i (\<lambda>r. r\<lparr>i_dev := dev, i_inum := inum, i_ref := 1, i_valid := 0\<rparr>) s))"
  have f: "?f (inside ItableLock s) = (case iget_slot dev inum (inode s) of None \<Rightarrow> Panic ''iget: no inodes''
      | Some (i, r) \<Rightarrow> Ok (i, (inside ItableLock s)\<lparr>inode := (inode s)(i := r)\<rparr>))"
    by (simp add: iget_slot_def entry_for_def upd_inode_def split: option.split)
  show ?thesis
  proof (cases "iget_slot dev inum (inode s)")
    case None
    then show ?thesis using assms f by (simp add: iget_def critical_def acquire_free)
  next
    case (Some ir)
    then have "?f (inside ItableLock s) = Ok (fst ir, (inside ItableLock s)\<lparr>inode := (inode s)(fst ir := snd ir)\<rparr>)"
      using f by (simp add: case_prod_beta)
    from critical_inode [OF assms, of ?f, OF this] show ?thesis using Some by (simp add: iget_def case_prod_beta)
  qed
qed

text \<open>
  Property C28. \<^verbatim>\<open>iget\<close> keeps at most one entry in use for each inode, so that all users of an
  inode share one lock and one copy. It returns the entry of an inode that is in memory, with one more
  reference, and otherwise a free entry that has not been read from disk; it changes no other
  entry, and panics only when all entries are in use for other inodes.
\<close>

theorem iget_unique:
  assumes s: "hart_ok s" "lock_free ItableLock s" and ok: "itable_ok s" and max: "\<forall>i < NINODE. sint (i_ref (inode s i)) < 2 ^ 31 - 1"
  shows "(\<exists>i s'. iget dev inum s = Ok (i, s') \<and> itable_ok s' \<and> i < NINODE \<and> entry_for (inode s' i) dev inum \<and>
      (\<forall>j. j \<noteq> i \<longrightarrow> inode s' j = inode s j) \<and>
      (if \<exists>j < NINODE. entry_for (inode s j) dev inum
       then entry_for (inode s i) dev inum \<and> inode s' i = (inode s i)\<lparr>i_ref := i_ref (inode s i) + 1\<rparr>
       else i_ref (inode s i) = 0 \<and> i_valid (inode s' i) = 0)) \<or>
    iget dev inum s = Panic ''iget: no inodes'' \<and> (\<forall>i < NINODE. i_ref (inode s i) \<noteq> 0 \<and> \<not> entry_for (inode s i) dev inum)"
proof (cases "iget_slot dev inum (inode s)")
  case None
  then show ?thesis using iget_eq [OF s] by (auto simp: iget_slot_def find_None_iff split: option.splits)
next
  case (Some ir)
  obtain i r where ir: "ir = (i, r)" by (cases ir)
  let ?s = "(relock s)\<lparr>inode := (inode s)(i := r)\<rparr>"
  have run: "iget dev inum s = Ok (i, ?s)" using iget_eq [OF s] Some ir by simp
  have e: "entry_for r dev inum" "i < NINODE" and cases: "if \<exists>j < NINODE. entry_for (inode s j) dev inum
       then entry_for (inode s i) dev inum \<and> r = (inode s i)\<lparr>i_ref := i_ref (inode s i) + 1\<rparr>
       else i_ref (inode s i) = 0 \<and> i_valid r = 0"
  proof -
    have plus: "0 < sint (i_ref (inode s k) + 1)" if "k < NINODE" for k
      using that ok max by (auto simp: itable_ok_def sint_word_ariths signed_take_bit_int_eq_self)
    show "entry_for r dev inum" "i < NINODE" "if \<exists>j < NINODE. entry_for (inode s j) dev inum
       then entry_for (inode s i) dev inum \<and> r = (inode s i)\<lparr>i_ref := i_ref (inode s i) + 1\<rparr>
       else i_ref (inode s i) = 0 \<and> i_valid r = 0"
      using Some ir plus by (auto simp: iget_slot_def entry_for_def find_None_iff split: option.splits dest!: find_SomeD)
  qed
  have same: "k = i" if k: "k < NINODE" "k \<noteq> i \<Longrightarrow> entry_for (inode s k) d n" "entry_for r d n" for k d n
  proof (rule ccontr)
    assume "k \<noteq> i"
    then have ks: "entry_for (inode s k) dev inum" using k e(1) by (simp add: entry_for_def)
    then have "entry_for (inode s i) dev inum" using cases k(1) by (auto split: if_splits)
    then show False using ok ks k(1) e(2) \<open>k \<noteq> i\<close> unfolding itable_ok_def by blast
  qed
  have u: "j = k" if "j < NINODE" "k < NINODE" "entry_for (((inode s)(i := r)) j) d n" "entry_for (((inode s)(i := r)) k) d n" for j k d n
    using that same [of k d n] same [of j d n] ok unfolding itable_ok_def by (auto split: if_splits; blast)
  have v: "0 \<le> sint (i_ref (((inode s)(i := r)) j))" if "j < NINODE" for j
    using that ok e(1) by (simp add: itable_ok_def entry_for_def)
  have "inode ?s = (inode s)(i := r)" by simp
  then have "itable_ok ?s" unfolding itable_ok_def using u v by metis
  then show ?thesis using run e cases by (intro disjI1 exI [of _ i] exI [of _ ?s]) auto
qed

text \<open>A table in which entry 7 is in use for inode 3, by two users.\<close>

definition some_inodes :: fsys where
  "some_inodes = undefined\<lparr>tp := 0, sie := \<lambda>_. True, cpus := \<lambda>_. \<lparr>cpu_proc = None, noff = 0, intena = True\<rparr>,
     spin := \<lambda>_. \<lparr>locked = 0, lk_name = [], lk_cpu = None\<rparr>,
     inode := \<lambda>i. \<lparr>i_dev = 1, i_inum = 3, i_ref = (if i = 7 then 2 else 0), i_valid = 1, i_type = T_FILE, i_major = 0, i_minor = 0,
       i_nlink = 1, i_size = 0, i_addrs = (\<lambda>_. 0)\<rparr>\<rparr>"

theorem iget_unique_witness:
  "\<exists>s'. iget 1 3 some_inodes = Ok (7, s') \<and> i_ref (inode s' 7) = 3 \<and> itable_ok s'"
proof -
  have "hart_ok some_inodes" "lock_free ItableLock some_inodes" by (simp_all add: some_inodes_def lock_simps)
  moreover have e: "entry_for (inode some_inodes i) 1 3 \<longleftrightarrow> i = 7" for i by (simp add: some_inodes_def entry_for_def)
  moreover have "itable_ok some_inodes" by (simp add: itable_ok_def entry_for_def some_inodes_def)
  moreover have "\<forall>i < NINODE. sint (i_ref (inode some_inodes i)) < 2 ^ 31 - 1" by (simp add: some_inodes_def)
  ultimately have "\<exists>i s'. iget 1 3 some_inodes = Ok (i, s') \<and> itable_ok s' \<and> i = 7 \<and>
      inode s' i = (inode some_inodes i)\<lparr>i_ref := i_ref (inode some_inodes i) + 1\<rparr>"
    using iget_unique [of some_inodes 1 3] by (auto split: if_splits dest: spec [of _ 7])
  then show ?thesis by (auto simp: some_inodes_def)
qed

section \<open>The table of open files\<close>

definition ftable_ok :: "'a files_scheme \<Rightarrow> bool" where
  "ftable_ok s \<longleftrightarrow> hart_ok s \<and> lock_free FtableLock s \<and> (\<forall>i < NFILE. f_ref (ftable s i) = 0 \<longrightarrow> f_type (ftable s i) = FD_NONE)"

definition unused_files :: "'a files_scheme \<Rightarrow> nat set" where
  "unused_files s = {i. i < NFILE \<and> f_ref (ftable s i) = 0}"

text \<open>Just allocated, not yet connected to anything.\<close>

definition fresh_file :: "'a files_scheme \<Rightarrow> nat \<Rightarrow> bool" where
  "fresh_file s i \<longleftrightarrow> i < NFILE \<and> f_ref (ftable s i) = 1 \<and> f_type (ftable s i) = FD_NONE"

lemma critical_file:
  assumes "hart_ok s" "lock_free lk s" "f (inside lk s) = Ok (r, (inside lk s)\<lparr>ftable := F\<rparr>)"
  shows "critical lk f s = Ok (r, (relock s)\<lparr>ftable := F\<rparr>)"
proof -
  have "critical lk f s = Ok (r, ((inside lk s)\<lparr>ftable := F\<rparr>)\<lparr>sie := sie s, cpus := cpus (relock s), spin := spin s\<rparr>)"
    by (rule critical_run) (use assms in simp_all)
  then show ?thesis by (simp add: inside_def relock_def)
qed

lemma ftable_sel [simp]:
  "ftable (inside lk s) = ftable s" "ftable (relock s) = ftable s" "(inside lk s)\<lparr>ftable := ftable s\<rparr> = inside lk s"
  "ftable_ok ((relock s)\<lparr>ftable := F\<rparr>) = ftable_ok (s\<lparr>ftable := F\<rparr>)"
  by (simp_all add: inside_def relock_def ftable_ok_def lock_simps relock_cpus_def)

lemma filealloc_eq:
  assumes "ftable_ok s"
  shows "filealloc s = Ok (case find (\<lambda>i. f_ref (ftable s i) = 0) [0..<NFILE] of
      None \<Rightarrow> (None, (relock s)\<lparr>ftable := ftable s\<rparr>)
    | Some i \<Rightarrow> (Some i, (relock s)\<lparr>ftable := (ftable s)(i := (ftable s i)\<lparr>f_ref := 1\<rparr>)\<rparr>))"
proof -
  have s: "hart_ok s" "lock_free FtableLock s" using assms by (simp_all add: ftable_ok_def)
  show ?thesis
  proof (cases "find (\<lambda>i. f_ref (ftable s i) = 0) [0..<NFILE]")
    case None
    have "filealloc s = Ok (None, (relock s)\<lparr>ftable := ftable s\<rparr>)"
      unfolding filealloc_def by (rule critical_file [OF s]) (use None in simp)
    then show ?thesis using None by simp
  next
    case (Some i)
    have "filealloc s = Ok (Some i, (relock s)\<lparr>ftable := (ftable s)(i := (ftable s i)\<lparr>f_ref := 1\<rparr>)\<rparr>)"
      unfolding filealloc_def by (rule critical_file [OF s]) (use Some in \<open>simp add: upd_file_def\<close>)
    then show ?thesis using Some by simp
  qed
qed

lemma filedup_eq:
  assumes "ftable_ok s" "0 < sint (f_ref (ftable s i))"
  shows "filedup i s = Ok ((relock s)\<lparr>ftable := (ftable s)(i := (ftable s i)\<lparr>f_ref := f_ref (ftable s i) + 1\<rparr>)\<rparr>)"
proof -
  have s: "hart_ok s" "lock_free FtableLock s" using assms by (simp_all add: ftable_ok_def)
  have "\<not> f_ref (ftable s i) <s 1" using assms(2) by (simp add: word_sless_alt)
  then show ?thesis unfolding filedup_def by (subst critical_file [OF s]) (simp_all add: upd_file_def)
qed

lemma fileclose_shared:
  assumes "ftable_ok s" "1 < sint (f_ref (ftable s i))"
  shows "fileclose i s = Ok ((relock s)\<lparr>ftable := (ftable s)(i := (ftable s i)\<lparr>f_ref := f_ref (ftable s i) - 1\<rparr>)\<rparr>)"
proof -
  have s: "hart_ok s" "lock_free FtableLock s" using assms by (simp_all add: ftable_ok_def)
  have "\<not> f_ref (ftable s i) <s 1" "0 <s f_ref (ftable s i) - 1"
    using assms(2) sint_less [of "f_ref (ftable s i)"]
    by (simp_all add: word_sless_alt sint_word_ariths signed_take_bit_int_eq_self)
  then have "file_unref i s = Ok (None, (relock s)\<lparr>ftable := (ftable s)(i := (ftable s i)\<lparr>f_ref := f_ref (ftable s i) - 1\<rparr>)\<rparr>)"
    unfolding file_unref_def by (intro critical_file [OF s]) (simp add: upd_file_def Let_def)
  then show ?thesis by (simp add: fileclose_def)
qed

lemma fileclose_fresh:
  assumes "ftable_ok s" "fresh_file s i"
  shows "fileclose i s = Ok ((relock s)\<lparr>ftable := (ftable s)(i := (ftable s i)\<lparr>f_ref := 0, f_type := FD_NONE\<rparr>)\<rparr>)"
proof -
  have s: "hart_ok s" "lock_free FtableLock s" using assms by (simp_all add: ftable_ok_def)
  have "file_unref i s = Ok (Some ((ftable s i)\<lparr>f_ref := 0\<rparr>),
      (relock s)\<lparr>ftable := (ftable s)(i := (ftable s i)\<lparr>f_ref := 0, f_type := FD_NONE\<rparr>)\<rparr>)"
    unfolding file_unref_def by (intro critical_file [OF s])
      (use assms(2) in \<open>simp add: upd_file_def Let_def fresh_file_def\<close>)
  then show ?thesis using assms(2) by (simp add: fileclose_def fresh_file_def)
qed

interpretation ft: slot_pool ftable_ok unused_files fresh_file filealloc fileclose
proof
  fix s :: "'a files_scheme" and i :: nat
  assume ok: "ftable_ok s"
  show "finite (unused_files s)" by (simp add: unused_files_def)
  show "\<exists>r s'. filealloc s = Ok (Some r, s') \<and> r \<in> unused_files s \<and> unused_files s' = unused_files s - {r} \<and>
      ftable_ok s' \<and> fresh_file s' r" if "unused_files s \<noteq> {}"
  proof -
    have "find (\<lambda>i. f_ref (ftable s i) = 0) [0..<NFILE] \<noteq> None" using that by (auto simp: find_None_iff unused_files_def)
    then obtain k where k: "find (\<lambda>i. f_ref (ftable s i) = 0) [0..<NFILE] = Some k" by auto
    then have "k < NFILE" "f_ref (ftable s k) = 0" by (auto dest: find_SomeD)
    then show ?thesis using filealloc_eq [OF ok] k ok
      by (auto simp: unused_files_def fresh_file_def ftable_ok_def lock_simps)
  qed
  show "\<exists>s'. filealloc s = Ok (None, s') \<and> unused_files s' = {} \<and> ftable_ok s'" if "unused_files s = {}"
  proof -
    have "find (\<lambda>i. f_ref (ftable s i) = 0) [0..<NFILE] = None" using that by (auto simp: find_None_iff unused_files_def)
    then show ?thesis using filealloc_eq [OF ok] ok that by (auto simp: unused_files_def ftable_ok_def lock_simps)
  qed
  show "\<exists>s'. fileclose i s = Ok s' \<and> unused_files s' = insert i (unused_files s) \<and> ftable_ok s'" if "fresh_file s i"
    using fileclose_fresh [OF ok that] ok that
    by (auto simp: unused_files_def fresh_file_def ftable_ok_def lock_simps)
  show "i \<notin> unused_files s" if "fresh_file s i" using that by (simp add: unused_files_def fresh_file_def)
qed

section \<open>References to open files\<close>

lemma ftable_ok_ref: "ftable_ok s \<Longrightarrow> c \<noteq> 0 \<Longrightarrow> ftable_ok ((relock s)\<lparr>ftable := (ftable s)(i := (ftable s i)\<lparr>f_ref := c\<rparr>)\<rparr>)"
  by (auto simp: ftable_ok_def lock_simps)

lemma filedups_run:
  assumes "ftable_ok s" "0 < sint (f_ref (ftable s i))" "sint (f_ref (ftable s i)) + int n < 2 ^ 31"
  shows "\<exists>s'. mfold (\<lambda>_. filedup i) [0..<n] s = Ok s' \<and> ftable_ok s' \<and>
    ftable s' = (ftable s)(i := (ftable s i)\<lparr>f_ref := f_ref (ftable s i) + of_nat n\<rparr>) \<and>
    sint (f_ref (ftable s i) + of_nat n) = sint (f_ref (ftable s i)) + int n"
  using assms(3)
proof (induction n)
  case 0
  then show ?case using assms(1) by simp
next
  case (Suc n)
  then have "sint (f_ref (ftable s i)) + int n < 2 ^ 31" by simp
  from Suc.IH [OF this] obtain s1 where s1: "mfold (\<lambda>_. filedup i) [0..<n] s = Ok s1" "ftable_ok s1"
    "ftable s1 = (ftable s)(i := (ftable s i)\<lparr>f_ref := f_ref (ftable s i) + of_nat n\<rparr>)"
    "sint (f_ref (ftable s i) + of_nat n) = sint (f_ref (ftable s i)) + int n" by blast
  let ?c = "f_ref (ftable s i) + of_nat n"
  have c: "sint (?c + 1) = sint (f_ref (ftable s i)) + int (Suc n)"
    using s1(4) assms(2) Suc.prems by (simp add: sint_word_ariths signed_take_bit_int_eq_self)
  then have nz: "?c + 1 \<noteq> 0" using assms(2) by auto
  have f: "filedup i s1 = Ok ((relock s1)\<lparr>ftable := (ftable s1)(i := (ftable s1 i)\<lparr>f_ref := ?c + 1\<rparr>)\<rparr>)"
    using filedup_eq [OF s1(2), of i] s1(3,4) assms(2) by simp
  have g: "ftable_ok ((relock s1)\<lparr>ftable := (ftable s1)(i := (ftable s1 i)\<lparr>f_ref := ?c + 1\<rparr>)\<rparr>)"
    by (rule ftable_ok_ref [OF s1(2) nz])
  have e: "?c + 1 = f_ref (ftable s i) + of_nat (Suc n)" by simp
  show ?case
    by (rule exI, intro conjI, use s1(1) f [unfolded e] in \<open>simp add: mfold_append del: of_nat_Suc\<close>)
      (use g [unfolded e] c [unfolded e] s1(3) in \<open>simp_all del: of_nat_Suc\<close>)
qed

lemma filecloses_run:
  assumes "ftable_ok s" "int n < sint (f_ref (ftable s i))"
  shows "\<exists>s'. mfold (\<lambda>_. fileclose i) [0..<n] s = Ok s' \<and> ftable_ok s' \<and>
    ftable s' = (ftable s)(i := (ftable s i)\<lparr>f_ref := f_ref (ftable s i) - of_nat n\<rparr>) \<and>
    sint (f_ref (ftable s i) - of_nat n) = sint (f_ref (ftable s i)) - int n"
  using assms(2)
proof (induction n)
  case 0
  then show ?case using assms(1) by simp
next
  case (Suc n)
  then have "int n < sint (f_ref (ftable s i))" by simp
  from Suc.IH [OF this] obtain s1 where s1: "mfold (\<lambda>_. fileclose i) [0..<n] s = Ok s1" "ftable_ok s1"
    "ftable s1 = (ftable s)(i := (ftable s i)\<lparr>f_ref := f_ref (ftable s i) - of_nat n\<rparr>)"
    "sint (f_ref (ftable s i) - of_nat n) = sint (f_ref (ftable s i)) - int n" by blast
  let ?c = "f_ref (ftable s i) - of_nat n"
  have c: "sint (?c - 1) = sint (f_ref (ftable s i)) - int (Suc n)"
    using s1(4) Suc.prems sint_less [of "f_ref (ftable s i)"] by (simp add: sint_word_ariths signed_take_bit_int_eq_self)
  then have nz: "?c - 1 \<noteq> 0" using Suc.prems by auto
  have f: "fileclose i s1 = Ok ((relock s1)\<lparr>ftable := (ftable s1)(i := (ftable s1 i)\<lparr>f_ref := ?c - 1\<rparr>)\<rparr>)"
    using fileclose_shared [OF s1(2), of i] s1(3,4) Suc.prems by simp
  have g: "ftable_ok ((relock s1)\<lparr>ftable := (ftable s1)(i := (ftable s1 i)\<lparr>f_ref := ?c - 1\<rparr>)\<rparr>)"
    by (rule ftable_ok_ref [OF s1(2) nz])
  have e: "?c - 1 = f_ref (ftable s i) - of_nat (Suc n)" by simp
  show ?case
    by (rule exI, intro conjI, use s1(1) f [unfolded e] in \<open>simp add: mfold_append del: of_nat_Suc\<close>)
      (use g [unfolded e] c [unfolded e] s1(3) in \<open>simp_all del: of_nat_Suc\<close>)
qed

text \<open>
  Property C29. References to open files are counted exactly: after \<open>n\<close> times \<^verbatim>\<open>filedup\<close> the
  file survives \<open>n\<close> times \<^verbatim>\<open>fileclose\<close>, and then the table is as it was before.
\<close>

theorem file_references:
  assumes "ftable_ok s" "0 < sint (f_ref (ftable s i))" "sint (f_ref (ftable s i)) + int n < 2 ^ 31"
  shows "\<exists>s1 s2. mfold (\<lambda>_. filedup i) [0..<n] s = Ok s1 \<and> sint (f_ref (ftable s1 i)) = sint (f_ref (ftable s i)) + int n \<and>
    mfold (\<lambda>_. fileclose i) [0..<n] s1 = Ok s2 \<and> ftable s2 = ftable s"
proof -
  obtain s1 where s1: "mfold (\<lambda>_. filedup i) [0..<n] s = Ok s1" "ftable_ok s1"
    "ftable s1 = (ftable s)(i := (ftable s i)\<lparr>f_ref := f_ref (ftable s i) + of_nat n\<rparr>)"
    "sint (f_ref (ftable s i) + of_nat n) = sint (f_ref (ftable s i)) + int n"
    using filedups_run [OF assms] by blast
  have "int n < sint (f_ref (ftable s1 i))" using s1(3,4) assms(2) by simp
  from filecloses_run [OF s1(2) this] s1(3) obtain s2 where "mfold (\<lambda>_. fileclose i) [0..<n] s1 = Ok s2" "ftable s2 = ftable s"
    by auto
  then show ?thesis using s1 by auto
qed

text \<open>A table in which file 3 is open on an inode and the others are unused.\<close>

definition some_files :: files where
  "some_files = undefined\<lparr>tp := 0, sie := \<lambda>_. True, cpus := \<lambda>_. \<lparr>cpu_proc = None, noff = 0, intena = True\<rparr>,
     spin := \<lambda>_. \<lparr>locked = 0, lk_name = [], lk_cpu = None\<rparr>,
     ftable := \<lambda>i. \<lparr>f_type = (if i = 3 then FD_INODE else FD_NONE), f_ref = (if i = 3 then 1 else 0), f_readable = 1, f_writable = 0,
       f_pipe = 0, f_ip = Some 0, f_off = 0, f_major = 0\<rparr>\<rparr>"

lemma some_files_ok: "ftable_ok some_files" "f_ref (ftable some_files i) = (if i = 3 then 1 else 0)"
  by (simp_all add: some_files_def ftable_ok_def lock_simps)

theorem file_references_witness:
  "\<exists>s1 s2. mfold (\<lambda>_. filedup 3) [0..<16] some_files = Ok s1 \<and> sint (f_ref (ftable s1 3)) = 17 \<and>
    mfold (\<lambda>_. fileclose 3) [0..<16] s1 = Ok s2 \<and> ftable s2 = ftable some_files"
  using file_references [OF some_files_ok(1), of 3 16] by (simp add: some_files_ok)

end
