(* ===== verification/Sleep_Steps.thy ===== *)
theory Sleep_Steps
  imports Sleeplock
begin

text \<open>
  The code of \<^verbatim>\<open>acquiresleep\<close>, \<^verbatim>\<open>releasesleep\<close>, \<^verbatim>\<open>sleep\<close> and \<^verbatim>\<open>wakeup\<close> as sequences of
  statements, run by the harts in any order: a statement is a call of \<^verbatim>\<open>acquire\<close> or
  \<^verbatim>\<open>release\<close> on one spin lock, a test, an assignment, or the switch to or from the scheduler.
  The order of the statements of \<^verbatim>\<open>sleep\<close> is what keeps a wakeup from being lost: it takes
  \<^verbatim>\<open>p->lock\<close> before it gives up the lock that protects the condition.
\<close>

section \<open>Statements\<close>

text \<open>
  \<open>Parked ie\<close> stands for the return address inside \<^verbatim>\<open>sched\<close> of a process that has switched
  to the scheduler, with the \<^verbatim>\<open>intena\<close> that \<^verbatim>\<open>sched\<close> keeps on the process's stack.
\<close>

datatype stmt =
    Lock lockid | Unlock lockid
  | While_locked sleepid | Set_locked sleepid | Set_pid sleepid | Clear_locked sleepid | Clear_pid sleepid
  | Set_chan chan | Set_sleeping | Sched | Parked bool | Clear_chan
  | Wake nat chan | Enqueue nat

definition sleep_code :: "nat \<Rightarrow> chan \<Rightarrow> lockid \<Rightarrow> stmt list" where
  "sleep_code p ch lk =
     [Lock (ProcLock p), Unlock lk, Set_chan ch, Set_sleeping, Sched, Clear_chan, Unlock (ProcLock p), Lock lk]"

definition wake_code :: "nat \<Rightarrow> chan \<Rightarrow> nat \<Rightarrow> stmt list" where
  "wake_code p ch i =
     (if i \<noteq> p then [Lock (ProcLock i), Wake i ch, Unlock (ProcLock i)] else [])"

definition wakeup_code :: "nat \<Rightarrow> chan \<Rightarrow> stmt list" where
  "wakeup_code p ch = concat (map (wake_code p ch) [0..<NPROC])"

definition acquiresleep_code :: "sleepid \<Rightarrow> stmt list" where
  "acquiresleep_code l = [Lock (sl_lk l), While_locked l, Set_locked l, Set_pid l, Unlock (sl_lk l)]"

definition releasesleep_code :: "sleepid \<Rightarrow> nat \<Rightarrow> stmt list" where
  "releasesleep_code l p =
     [Lock (sl_lk l), Clear_locked l, Clear_pid l] @ wakeup_code p (sl_chan l) @ [Unlock (sl_lk l)]"

text \<open>
  The first statement of a process's code, run on the hart \<open>tp\<close>; the result has the code that
  remains. The test of the loop of \<^verbatim>\<open>acquiresleep\<close> puts the body before the loop, the test in
  \<^verbatim>\<open>wakeup\<close> the call that follows the assignment.
\<close>

fun exec_stmt :: "nat \<Rightarrow> stmt list \<Rightarrow> 'a sleeps_scheme \<Rightarrow> (stmt list \<times> 'a sleeps_scheme) res" where
  "exec_stmt p (Lock lk # xs) s = res_bind (acquire lk s) (\<lambda>s. Ok (xs, s))"
| "exec_stmt p (Unlock lk # xs) s = res_bind (release lk s) (\<lambda>s. Ok (xs, s))"
| "exec_stmt p (While_locked l # xs) s =
     Ok (if sl_locked (slock s l) \<noteq> 0 then sleep_code p (sl_chan l) (sl_lk l) @ While_locked l # xs else xs, s)"
| "exec_stmt p (Set_locked l # xs) s = Ok (xs, upd_slock l (\<lambda>k. k\<lparr>sl_locked := 1\<rparr>) s)"
| "exec_stmt p (Set_pid l # xs) s = Ok (xs, upd_slock l (\<lambda>k. k\<lparr>sl_pid := pid (proc s p)\<rparr>) s)"
| "exec_stmt p (Clear_locked l # xs) s = Ok (xs, upd_slock l (\<lambda>k. k\<lparr>sl_locked := 0\<rparr>) s)"
| "exec_stmt p (Clear_pid l # xs) s = Ok (xs, upd_slock l (\<lambda>k. k\<lparr>sl_pid := 0\<rparr>) s)"
| "exec_stmt p (Set_chan ch # xs) s = Ok (xs, upd_proc p (\<lambda>r. r\<lparr>chan := Some ch\<rparr>) s)"
| "exec_stmt p (Set_sleeping # xs) s = Ok (xs, upd_proc p (\<lambda>r. r\<lparr>state := SLEEPING\<rparr>) s)"
| "exec_stmt p (Sched # xs) s = res_bind (sched s) (\<lambda>(ie, s). Ok (Parked ie # xs, s))"
| "exec_stmt p (Clear_chan # xs) s = Ok (xs, upd_proc p (\<lambda>r. r\<lparr>chan := None\<rparr>) s)"
| "exec_stmt p (Wake i ch # xs) s =
     (if state (proc s i) = SLEEPING \<and> chan (proc s i) = Some ch
      then Ok (Enqueue i # xs, upd_proc i (\<lambda>r. r\<lparr>state := RUNNABLE\<rparr>) s) else Ok (xs, s))"
| "exec_stmt p (Enqueue i # xs) s = res_bind (enqueue_at_head i (priority (proc s i)) s) (\<lambda>s. Ok (xs, s))"
| "exec_stmt p (Parked ie # xs) s = Fault"
| "exec_stmt p [] s = Fault"

fun exec_stmts :: "nat \<Rightarrow> nat \<Rightarrow> stmt list \<Rightarrow> 'a sleeps_scheme \<Rightarrow> (stmt list \<times> 'a sleeps_scheme) res" where
  "exec_stmts p 0 xs s = Ok (xs, s)"
| "exec_stmts p (Suc n) xs s = res_bind (exec_stmt p xs s) (\<lambda>(xs, s). exec_stmts p n xs s)"

section \<open>The statements and the functions\<close>

text \<open>
  Run without interruption, the statements are the functions of \<^verbatim>\<open>kernel/proc.c\<close>: \<^verbatim>\<open>sleep\<close> up
  to the switch, \<^verbatim>\<open>sleep\<close> from the switch on, and one turn of the loop of \<^verbatim>\<open>wakeup\<close>.
\<close>

lemma sleep_code_sleep:
  "sleep ch lk s = with_proc (\<lambda>p s. res_bind (exec_stmts p 4 (sleep_code p ch lk) s) (\<lambda>(_, s). sched s)) s"
proof -
  have "exec_stmts p 4 (sleep_code p ch lk) t = res_bind (acquire (ProcLock p) t) (\<lambda>t. res_bind (release lk t) (\<lambda>t.
      Ok (drop 4 (sleep_code p ch lk), upd_proc p (\<lambda>r. r\<lparr>chan := Some ch, state := SLEEPING\<rparr>) t)))" for p and t :: "'a sleeps_scheme"
    by (cases "acquire (ProcLock p) t"; simp add: sleep_code_def numeral_eq_Suc)
      (rename_tac u, case_tac "release lk u"; simp add: upd_proc_def)
  then show ?thesis unfolding sleep_def with_proc_def
    by (simp add: res_bind_assoc cong: option.case_cong)
qed

lemma sleep_code_return:
  "sleep_return p lk ie s = res_bind (exec_stmts p 3 (drop 5 (sleep_code p ch lk)) (sched_return ie s)) (\<lambda>(_, s). Ok s)"
  unfolding sleep_return_def sleep_code_def
  by (cases "release (ProcLock p) (upd_proc p (\<lambda>r. r\<lparr>chan := None\<rparr>) (sched_return ie s))"; simp add: numeral_eq_Suc)
    (rename_tac t, case_tac "acquire lk t"; simp)

lemma wake_code_wake_proc:
  assumes "i \<noteq> p"
  shows "wake_proc (Some ch) i s =
    res_bind (exec_stmts p 2 (wake_code p ch i) s) (\<lambda>(xs, s).
    res_bind (exec_stmts p (length xs) xs s) (\<lambda>(_, s). Ok ((), s)))"
proof (cases "acquire (ProcLock i) s")
  case (Ok t)
  have rel: "res_bind (release (ProcLock i) u) (\<lambda>s. Ok ((), s)) =
      res_bind (res_bind (release (ProcLock i) u) (\<lambda>s. Ok ([] :: stmt list, s))) (\<lambda>(_, s). Ok ((), s))" for u :: "'a sleeps_scheme"
    by (cases "release (ProcLock i) u") auto
  let ?t = "upd_proc i (\<lambda>r. r\<lparr>state := RUNNABLE\<rparr>) t"
  have "priority (proc ?t i) = priority (proc t i)" by (simp add: upd_proc_def)
  then show ?thesis using Ok assms rel
    by (cases "enqueue_at_head i (priority (proc t i)) ?t")
      (auto simp: wake_proc_def critical_def wake_code_def numeral_eq_Suc res_bind_assoc)
qed (use assms in \<open>simp_all add: wake_proc_def critical_def wake_code_def numeral_eq_Suc\<close>)

section \<open>Interleavings\<close>

text \<open>
  A hart holds a lock; the next statement of a code that names a lock gives it back; a
  process is asleep on an address.
\<close>

definition held :: "lockid \<Rightarrow> nat \<Rightarrow> 'a harts_scheme \<Rightarrow> bool" where
  "held lk h s \<longleftrightarrow> locked (spin s lk) \<noteq> 0 \<and> lk_cpu (spin s lk) = Some h"

fun holds :: "lockid \<Rightarrow> stmt list \<Rightarrow> bool" where
  "holds lk [] \<longleftrightarrow> False"
| "holds lk (a # xs) \<longleftrightarrow> a = Unlock lk \<or> a \<noteq> Lock lk \<and> holds lk xs"

definition asleep :: "chan \<Rightarrow> nat \<Rightarrow> 'a procs_scheme \<Rightarrow> bool" where
  "asleep ch i s \<longleftrightarrow> state (proc s i) = SLEEPING \<and> chan (proc s i) = Some ch"

abbreviation runs_on :: "nat \<Rightarrow> nat \<Rightarrow> 'a harts_scheme \<Rightarrow> bool" where
  "runs_on p h s \<equiv> cpu_proc (cpus s h) = Some p"

text \<open>
  A configuration is the state of the kernel and, for each process, what remains of its call
  of \<^verbatim>\<open>acquiresleep\<close> or \<^verbatim>\<open>releasesleep\<close> on the lock \<open>l\<close>. The steps: the process on a hart runs
  its next statement; it calls one of the two functions; the scheduler of a hart comes back
  from a process that has switched away; it switches to a parked process; and the rest of the
  kernel does anything else. The rest of the kernel never touches the sleep lock, puts nobody
  to sleep on it, and takes from no process the hart and the locks that its call holds.
\<close>

inductive sleep_step ::
  "sleepid \<Rightarrow> 'a sleeps_scheme \<times> (nat \<Rightarrow> stmt list) \<Rightarrow> 'a sleeps_scheme \<times> (nat \<Rightarrow> stmt list) \<Rightarrow> bool" for l where
  run: "runs_on p h s \<Longrightarrow> exec_stmt p (c p) (s\<lparr>tp := h\<rparr>) = Ok (xs, s') \<Longrightarrow> sleep_step l (s, c) (s', c(p := xs))"
| call_acquire: "runs_on p h s \<Longrightarrow> p < NPROC \<Longrightarrow> c p = [] \<Longrightarrow>
    sleep_step l (s, c) (s, c(p := acquiresleep_code l))"
| call_release: "runs_on p h s \<Longrightarrow> p < NPROC \<Longrightarrow> c p = [] \<Longrightarrow>
    sleep_step l (s, c) (s, c(p := releasesleep_code l p))"
| switched: "runs_on p h s \<Longrightarrow> c p = Parked ie # xs \<Longrightarrow> sched_back p (s\<lparr>tp := h\<rparr>) = Ok s' \<Longrightarrow>
    sleep_step l (s, c) (s', c)"
| switch_to: "cpu_proc (cpus s h) = None \<Longrightarrow> c p = Parked ie # xs \<Longrightarrow>
    sched_visit p (s\<lparr>tp := h\<rparr>) = Ok (Some p, s') \<Longrightarrow> sleep_step l (s, c) (sched_return ie s', c(p := xs))"
| other: "slock s' l = slock s l \<Longrightarrow> (\<And>p. asleep (sl_chan l) p s' \<Longrightarrow> asleep (sl_chan l) p s) \<Longrightarrow>
    (\<And>p h lk. runs_on p h s \<Longrightarrow> holds lk (c p) \<Longrightarrow> held lk h s \<Longrightarrow> runs_on p h s' \<and> held lk h s') \<Longrightarrow>
    sleep_step l (s, c) (s', c)"

section \<open>The discipline of the code\<close>

text \<open>
  What the proof needs of the code of a process, statement by statement. The first line is the
  point of \<^verbatim>\<open>sleep\<close>: between giving up the inner lock and switching away the process holds its
  own lock.
\<close>

primrec disciplined :: "sleepid \<Rightarrow> nat \<Rightarrow> stmt list \<Rightarrow> bool" where
  "disciplined l p [] \<longleftrightarrow> True"
| "disciplined l p (a # xs) \<longleftrightarrow> disciplined l p xs \<and>
     (Sched \<in> set (a # xs) \<and> \<not> holds (sl_lk l) (a # xs) \<longrightarrow> holds (ProcLock p) (a # xs)) \<and>
     (case a of
        Unlock lk \<Rightarrow> \<not> holds lk xs \<and> (lk = sl_lk l \<longrightarrow> (\<forall>i. Wake i (sl_chan l) \<notin> set xs))
      | While_locked k \<Rightarrow> k = l \<and> (\<forall>lk. holds lk xs \<longleftrightarrow> lk = sl_lk l) \<and> Sched \<notin> set xs \<and>
          (\<forall>i. Wake i (sl_chan l) \<notin> set xs)
      | Clear_locked k \<Rightarrow> k = l \<and> holds (sl_lk l) xs \<and> Sched \<notin> set xs \<and>
          (\<forall>i<NPROC. i \<noteq> p \<longrightarrow> Wake i (sl_chan l) \<in> set xs)
      | Set_locked k \<Rightarrow> k = l
      | Set_chan _ \<Rightarrow> Sched \<in> set xs
      | Set_sleeping \<Rightarrow> Sched \<in> set xs
      | Sched \<Rightarrow> Sched \<notin> set xs \<and> (\<forall>lk. holds lk xs \<longrightarrow> lk = ProcLock p)
      | Parked _ \<Rightarrow> Sched \<notin> set xs \<and> (\<forall>lk. holds lk xs \<longrightarrow> lk = ProcLock p)
      | Wake i ch \<Rightarrow> ch = sl_chan l \<and> i \<noteq> p \<and> holds (ProcLock i) xs
      | _ \<Rightarrow> True)"

lemma holds_sleep_code:
  "holds lk (sleep_code p ch k @ xs) \<longleftrightarrow> lk \<noteq> ProcLock p \<and> (lk = k \<or> holds lk xs)"
  by (auto simp: sleep_code_def)

lemma acquiresleep_code_disciplined: "disciplined l p (acquiresleep_code l)"
  by (auto simp: acquiresleep_code_def)

lemma sleep_code_disciplined:
  assumes "disciplined l p (While_locked l # xs)"
  shows "disciplined l p (sleep_code p (sl_chan l) (sl_lk l) @ While_locked l # xs)"
  using assms by (auto simp: sleep_code_def)

lemma wakes_disciplined:
  assumes "disciplined l p xs" and "holds (sl_lk l) xs" and "Sched \<notin> set xs" and "\<forall>i. \<not> holds (ProcLock i) xs"
  shows "disciplined l p (concat (map (wake_code p (sl_chan l)) is) @ xs)
    \<and> holds (sl_lk l) (concat (map (wake_code p (sl_chan l)) is) @ xs)
    \<and> Sched \<notin> set (concat (map (wake_code p (sl_chan l)) is) @ xs)
    \<and> (\<forall>i. \<not> holds (ProcLock i) (concat (map (wake_code p (sl_chan l)) is) @ xs))"
  using assms by (induction "is") (auto simp: wake_code_def)

lemma releasesleep_code_disciplined: "disciplined l p (releasesleep_code l p)"
proof -
  have "Wake i (sl_chan l) \<in> set (wakeup_code p (sl_chan l))" if "i < NPROC" "i \<noteq> p" for i
    using that by (auto simp: wakeup_code_def wake_code_def)
  then show ?thesis
    using wakes_disciplined [of l p "[Unlock (sl_lk l)]" "[0..<NPROC]", folded wakeup_code_def]
    by (simp add: releasesleep_code_def)
qed

section \<open>What a statement changes\<close>

lemma held_unique: "held lk h s \<Longrightarrow> held lk h' s \<Longrightarrow> h = h'"
  by (simp add: held_def)

lemma held_update [simp]:
  "held lk h (s\<lparr>tp := i\<rparr>) = held lk h s" "held lk h (s\<lparr>proc := P\<rparr>) = held lk h s" "held lk h (s\<lparr>queue := Q\<rparr>) = held lk h s"
  "held lk h (s\<lparr>slock := L\<rparr>) = held lk h s"
  by (simp_all add: held_def)

lemma acquire_effect:
  assumes "acquire lk s = Ok s'"
  shows "tp s' = tp s" "cpu_proc (cpus s' h) = cpu_proc (cpus s h)" "held lk (tp s) s'"
    "held k h s \<Longrightarrow> held k h s'" "harts.more s' = harts.more s" "\<not> held lk h s"
  using assms by (auto simp: acquire_def hart_defs held_def Let_def split: if_splits)

lemma release_effect:
  assumes "release lk s = Ok s'"
  shows "tp s' = tp s" "cpu_proc (cpus s' h) = cpu_proc (cpus s h)"
    "held k h s \<Longrightarrow> held k h s' \<or> k = lk \<and> h = tp s" "harts.more s' = harts.more s"
  using assms by (auto simp: release_def hart_defs held_def Let_def split: if_splits)

lemma release_others:
  assumes "release lk s = Ok s'" and "k \<noteq> lk"
  shows "held k h s' = held k h s"
  using assms by (auto simp: release_def hart_defs held_def Let_def split: if_splits)

lemma sched_effect:
  assumes "sched s = Ok (ie, s')"
  shows "tp s' = tp s" "cpu_proc (cpus s' h) = cpu_proc (cpus s h)" "held k h s' = held k h s" "harts.more s' = harts.more s"
  using assms by (auto simp: held_def sched_def with_proc_def myproc_def hart_defs Let_def split: if_splits option.splits)

lemma harts_more_sel:
  assumes "harts.more s' = harts.more s"
  shows "proc s' = proc s" "slock s' = slock s"
  using assms by (cases s; cases s'; simp)+

lemma enqueue_at_head_parts:
  assumes "enqueue_at_head p pri s = Ok s'"
  obtains q t P Q where "acquire (QueueLock q) s = Ok t" and "release (QueueLock q) (t\<lparr>proc := P, queue := Q\<rparr>) = Ok s'"
    and "\<And>i. unlinked (P i) = unlinked (proc t i)"
proof -
  let ?q = "nat pri"
  have "0 \<le> pri \<and> pri < int NQUEUE" using assms by (auto simp: enqueue_at_head_def queue_at_def split: if_splits)
  with assms obtain ok t u where a: "acquire (QueueLock ?q) s = Ok t" and r: "release (QueueLock ?q) u = Ok s'" and ok
    and u: "(case (q_head (queue t ?q), q_tail (queue t ?q)) of
              (None, None) \<Rightarrow> Ok (True, upd_queue ?q (\<lambda>qu. qu\<lparr>q_head := Some p, q_tail := Some p\<rparr>) t)
            | (None, _) \<Rightarrow> Ok (False, t)
            | (Some h, _) \<Rightarrow> Ok (True, upd_queue ?q (\<lambda>qu. qu\<lparr>q_head := Some p\<rparr>) (upd_proc p (\<lambda>r. r\<lparr>p_next := Some h\<rparr>) t)))
          = Ok (ok, u)"
    by (auto simp: enqueue_at_head_def critical_def queue_at_def split: if_splits)
  from u \<open>ok\<close> have "\<exists>P Q. u = t\<lparr>proc := P, queue := Q\<rparr> \<and> (\<forall>i. unlinked (P i) = unlinked (proc t i))"
    by (cases "q_head (queue t ?q)"; cases "q_tail (queue t ?q)")
      (force simp: upd_queue_def upd_proc_def intro: exI [of _ "proc t"])+
  then show ?thesis using that a r by blast
qed

lemma enqueue_at_head_effect:
  assumes "enqueue_at_head p pri s = Ok s'"
  shows "tp s' = tp s" "cpu_proc (cpus s' h) = cpu_proc (cpus s h)" "held k h s \<Longrightarrow> held k h s'"
    "slock s' = slock s" "state (proc s' i) = state (proc s i)" "chan (proc s' i) = chan (proc s i)"
proof -
  obtain q t P Q where a: "acquire (QueueLock q) s = Ok t" and r: "release (QueueLock q) (t\<lparr>proc := P, queue := Q\<rparr>) = Ok s'"
    and P: "\<And>i. unlinked (P i) = unlinked (proc t i)" using enqueue_at_head_parts [OF assms] by metis
  show "tp s' = tp s" "cpu_proc (cpus s' h) = cpu_proc (cpus s h)"
    using release_effect(1,2) [OF r] acquire_effect(1,2) [OF a] by simp_all
  show "held k h s'" if "held k h s"
    using release_others [OF r, of k h] acquire_effect(4) [OF a, of k h] acquire_effect(6) [OF a, of h] that by auto
  show "slock s' = slock s" "state (proc s' i) = state (proc s i)" "chan (proc s' i) = chan (proc s i)"
    using harts_more_sel [OF release_effect(4) [OF r]] harts_more_sel [OF acquire_effect(5) [OF a]] unlinked_sel(2,3) [OF P [of i]]
    by simp_all
qed

text \<open>The remaining code after a statement, and the effect of the statement.\<close>

lemma exec_stmt_code:
  assumes "exec_stmt p xs s = Ok (ys, s')"
  obtains (loop) l zs where "xs = While_locked l # zs" and "ys = sleep_code p (sl_chan l) (sl_lk l) @ xs"
      and "sl_locked (slock s l) \<noteq> 0"
  | (switch) ie zs where "xs = Sched # zs" and "ys = Parked ie # zs"
  | (woken) i ch zs where "xs = Wake i ch # zs" and "ys = Enqueue i # zs"
  | (rest) a where "xs = a # ys" and "a \<noteq> Sched" and "\<And>ie. a \<noteq> Parked ie"
  using assms by (cases "(p, xs, s)" rule: exec_stmt.cases) (auto split: if_splits)

lemma exec_stmt_harts:
  assumes "exec_stmt p (a # xs) s = Ok (ys, s')"
  shows "tp s' = tp s" "cpu_proc (cpus s' h) = cpu_proc (cpus s h)" "a = Lock lk \<Longrightarrow> held lk (tp s) s'"
    "held lk h s \<Longrightarrow> held lk h s' \<or> a = Unlock lk \<and> h = tp s"
proof -
  show "tp s' = tp s" "cpu_proc (cpus s' h) = cpu_proc (cpus s h)" "a = Lock lk \<Longrightarrow> held lk (tp s) s'"
    using assms
    by (cases "(p, a # xs, s)" rule: exec_stmt.cases;
        auto simp: upd_slock_def upd_proc_def acquire_effect release_effect sched_effect enqueue_at_head_effect split: if_splits)+
  show "held lk h s' \<or> a = Unlock lk \<and> h = tp s" if "held lk h s"
    using assms that
    by (cases "(p, a # xs, s)" rule: exec_stmt.cases)
      (auto simp: upd_slock_def upd_proc_def sched_effect split: if_splits
        dest: acquire_effect(4) release_effect(3) enqueue_at_head_effect(3))
qed

lemma exec_stmt_data:
  assumes "exec_stmt p (a # xs) s = Ok (ys, s')"
  shows "sl_locked (slock s' l) =
      (if a = Set_locked l then 1 else if a = Clear_locked l then 0 else sl_locked (slock s l))"
    "asleep ch q s' \<Longrightarrow> asleep ch q s \<or> q = p \<and> (a = Set_sleeping \<or> a = Set_chan ch)"
    "a = Wake i ch \<Longrightarrow> \<not> asleep ch i s'"
proof -
  note more = harts_more_sel [OF acquire_effect(5)] harts_more_sel [OF release_effect(4)] harts_more_sel [OF sched_effect(4)]
  show "sl_locked (slock s' l) =
      (if a = Set_locked l then 1 else if a = Clear_locked l then 0 else sl_locked (slock s l))"
    using assms
    by (cases "(p, a # xs, s)" rule: exec_stmt.cases)
      (auto simp: upd_slock_def upd_proc_def more enqueue_at_head_effect(4) split: if_splits)
  show "asleep ch q s \<or> q = p \<and> (a = Set_sleeping \<or> a = Set_chan ch)" if "asleep ch q s'"
    using assms that
    by (cases "(p, a # xs, s)" rule: exec_stmt.cases)
      (auto simp: asleep_def upd_slock_def upd_proc_def more enqueue_at_head_effect(5,6) split: if_splits)
  show "\<not> asleep ch i s'" if "a = Wake i ch"
    using assms that by (auto simp: asleep_def upd_proc_def split: if_splits)
qed

section \<open>The invariant\<close>

text \<open>
  The code of every process keeps the discipline. A lock that a code is to give back is held by
  the hart the process runs on, the lock of a parked process apart. Who is asleep on the sleep
  lock is inside \<^verbatim>\<open>sleep\<close>. When the sleep lock is free, whoever is asleep or on the way there is
  still to be visited by a \<^verbatim>\<open>wakeup\<close> that runs with the inner lock held.
\<close>

definition codes_ok :: "sleepid \<Rightarrow> (nat \<Rightarrow> stmt list) \<Rightarrow> bool" where
  "codes_ok l c \<longleftrightarrow> (\<forall>p. disciplined l p (c p) \<and> (c p \<noteq> [] \<longrightarrow> p < NPROC))"

definition locks_ok :: "'a sleeps_scheme \<Rightarrow> (nat \<Rightarrow> stmt list) \<Rightarrow> bool" where
  "locks_ok s c \<longleftrightarrow> (\<forall>p lk. holds lk (c p) \<and> (lk = ProcLock p \<longrightarrow> Sched \<in> set (c p)) \<longrightarrow>
     (\<exists>h. runs_on p h s \<and> held lk h s))"

definition sleepers_ok :: "sleepid \<Rightarrow> 'a sleeps_scheme \<Rightarrow> (nat \<Rightarrow> stmt list) \<Rightarrow> bool" where
  "sleepers_ok l s c \<longleftrightarrow> (\<forall>p. asleep (sl_chan l) p s \<longrightarrow> Sched \<in> set (c p) \<or> (\<exists>ie xs. c p = Parked ie # xs))"

definition wakes_ok :: "sleepid \<Rightarrow> 'a sleeps_scheme \<Rightarrow> (nat \<Rightarrow> stmt list) \<Rightarrow> bool" where
  "wakes_ok l s c \<longleftrightarrow> (\<forall>p. sl_locked (slock s l) = 0 \<and> (asleep (sl_chan l) p s \<or> Sched \<in> set (c p)) \<longrightarrow>
     (\<exists>q. holds (sl_lk l) (c q) \<and> Wake p (sl_chan l) \<in> set (c q)))"

definition sleep_inv :: "sleepid \<Rightarrow> 'a sleeps_scheme \<times> (nat \<Rightarrow> stmt list) \<Rightarrow> bool" where
  "sleep_inv l = (\<lambda>(s, c). codes_ok l c \<and> locks_ok s c \<and> sleepers_ok l s c \<and> wakes_ok l s c)"

lemma sleep_invD:
  assumes "sleep_inv l (s, c)"
  shows "disciplined l p (c p)" "c p \<noteq> [] \<Longrightarrow> p < NPROC"
    "holds lk (c p) \<Longrightarrow> lk = ProcLock p \<longrightarrow> Sched \<in> set (c p) \<Longrightarrow> \<exists>h. runs_on p h s \<and> held lk h s"
    "asleep (sl_chan l) p s \<Longrightarrow> Sched \<in> set (c p) \<or> (\<exists>ie xs. c p = Parked ie # xs)"
    "sl_locked (slock s l) = 0 \<Longrightarrow> asleep (sl_chan l) p s \<or> Sched \<in> set (c p) \<Longrightarrow>
      \<exists>q. holds (sl_lk l) (c q) \<and> Wake p (sl_chan l) \<in> set (c q)"
  using assms by (auto simp: sleep_inv_def codes_ok_def locks_ok_def sleepers_ok_def wakes_ok_def)

text \<open>Two processes never hold the same lock, whatever their codes say.\<close>

lemma holder_unique:
  assumes inv: "sleep_inv l (s, c)" and "holds lk (c p)" "lk = ProcLock p \<longrightarrow> Sched \<in> set (c p)"
    and "holds lk (c q)" "lk = ProcLock q \<longrightarrow> Sched \<in> set (c q)"
  shows "p = q"
proof -
  obtain h where h: "runs_on p h s" "held lk h s" using sleep_invD(3) [OF inv assms(2,3)] by blast
  obtain k where k: "runs_on q k s" "held lk k s" using sleep_invD(3) [OF inv assms(4,5)] by blast
  show ?thesis using h k held_unique [OF h(2) k(2)] by simp
qed

text \<open>A process that is visited by \<^verbatim>\<open>wakeup\<close> is not on its way to the scheduler.\<close>

lemma visited_not_going:
  assumes inv: "sleep_inv l (s, c)" and q: "c q = Wake p ch # xs" and lk: "holds (sl_lk l) (c q)"
  shows "Sched \<notin> set (c p)"
proof
  assume going: "Sched \<in> set (c p)"
  have d: "p \<noteq> q" "holds (ProcLock p) (c q)" using sleep_invD(1) [OF inv, of q] unfolding q by auto
  have "\<not> holds (sl_lk l) (c p)" using holder_unique [OF inv lk, of p] d(1) by auto
  then have "holds (ProcLock p) (c p)" using sleep_invD(1) [OF inv, of p] going by (cases "c p") auto
  then show False using holder_unique [OF inv, of "ProcLock p" p q] going d by auto
qed

lemma run_codes:
  assumes "disciplined l p xs" and "exec_stmt p xs s = Ok (ys, s')"
  shows "disciplined l p ys"
  using assms(2)
proof (cases rule: exec_stmt_code)
  case (loop k zs)
  then show ?thesis using assms(1) sleep_code_disciplined [of l p zs] by auto
qed (use assms(1) in auto)

lemma run_holds:
  assumes "disciplined l p (a # xs)" and "exec_stmt p (a # xs) s = Ok (ys, s')" and "holds lk ys"
    and "lk = ProcLock p \<longrightarrow> Sched \<in> set ys" and "a \<noteq> Lock lk"
  shows "holds lk (a # xs) \<and> (lk = ProcLock p \<longrightarrow> Sched \<in> set (a # xs)) \<and> a \<noteq> Unlock lk"
  using assms(2)
proof (cases rule: exec_stmt_code)
  case (loop k zs)
  then show ?thesis using assms(1,3) holds_sleep_code by auto
qed (use assms in auto)

lemma run_locks:
  assumes inv: "sleep_inv l (s, c)" and on: "runs_on p h s" and ex: "exec_stmt p (c p) (s\<lparr>tp := h\<rparr>) = Ok (ys, s')"
  shows "locks_ok s' (c(p := ys))"
proof -
  obtain a xs where cp: "c p = a # xs" using ex by (cases "c p") auto
  note eff = exec_stmt_harts [OF ex [unfolded cp]]
  have d: "disciplined l p (a # xs)" using sleep_invD(1) [OF inv, of p] cp by simp
  have "\<exists>k. runs_on q k s' \<and> held lk k s'"
    if hold: "holds lk ((c(p := ys)) q)" "lk = ProcLock q \<longrightarrow> Sched \<in> set ((c(p := ys)) q)" for q lk
  proof (cases "q = p \<and> a = Lock lk")
    case True
    then show ?thesis using eff(2,3) on by auto
  next
    case False
    have old: "holds lk (c q) \<and> (lk = ProcLock q \<longrightarrow> Sched \<in> set (c q)) \<and> (q = p \<longrightarrow> a \<noteq> Unlock lk)"
      using run_holds [OF d ex [unfolded cp], of lk] hold False cp by (cases "q = p") auto
    then obtain k where k: "runs_on q k s" "held lk k s" using sleep_invD(3) [OF inv] by blast
    have "\<not> (a = Unlock lk \<and> k = h)" using old k(1) on by auto
    then show ?thesis using eff(2) eff(4) [of lk k] k by auto
  qed
  then show ?thesis by (auto simp: locks_ok_def)
qed

lemma run_sleepers:
  assumes inv: "sleep_inv l (s, c)" and ex: "exec_stmt p (c p) (s\<lparr>tp := h\<rparr>) = Ok (ys, s')"
  shows "sleepers_ok l s' (c(p := ys))"
proof -
  obtain a xs where cp: "c p = a # xs" using ex by (cases "c p") auto
  have d: "disciplined l p (a # xs)" using sleep_invD(1) [OF inv, of p] cp by simp
  have going: "Sched \<in> set ys \<or> (\<exists>ie zs. ys = Parked ie # zs)" if "Sched \<in> set (c p)"
    using ex that by (cases rule: exec_stmt_code) auto
  have "Sched \<in> set ((c(p := ys)) q) \<or> (\<exists>ie xs. (c(p := ys)) q = Parked ie # xs)" if "asleep (sl_chan l) q s'" for q
  proof -
    have "asleep (sl_chan l) q s \<or> q = p \<and> Sched \<in> set (c p)"
      using exec_stmt_data(2) [OF ex [unfolded cp] that] d cp by (auto simp: asleep_def)
    then have "Sched \<in> set (c q) \<or> (\<exists>ie xs. c q = Parked ie # xs)" using sleep_invD(4) [OF inv] by blast
    then show ?thesis using going ex by (cases "q = p") auto
  qed
  then show ?thesis by (simp add: sleepers_ok_def)
qed

text \<open>While the lock is free no statement sends a process to sleep that was not on its way before.\<close>

lemma run_going:
  assumes d: "disciplined l p (c p)" and ex: "exec_stmt p (c p) (s\<lparr>tp := h\<rparr>) = Ok (ys, s')"
    and free: "sl_locked (slock s' l) = 0" and q: "asleep (sl_chan l) q s' \<or> Sched \<in> set ((c(p := ys)) q)"
  shows "asleep (sl_chan l) q s \<or> Sched \<in> set (c q)"
proof -
  obtain a xs where cp: "c p = a # xs" using ex by (cases "c p") auto
  note ex' = ex [unfolded cp]
  have "Sched \<in> set (c p)" if "Sched \<in> set ys"
    using ex
  proof (cases rule: exec_stmt_code)
    case (loop k zs)
    then show ?thesis using free d cp exec_stmt_data(1) [OF ex', of l] by auto
  qed (use that in auto)
  then show ?thesis using q exec_stmt_data(2) [OF ex', of _ q] d cp by (auto simp: asleep_def split: if_splits)
qed

text \<open>
  The heart of the matter: after the statement of a process \<open>p\<close>, somebody is still to wake every
  process \<open>q\<close> that is asleep, or going to sleep, while the lock is free.
\<close>

lemma run_wakes:
  assumes inv: "sleep_inv l (s, c)" and on: "runs_on p h s" and ex: "exec_stmt p (c p) (s\<lparr>tp := h\<rparr>) = Ok (ys, s')"
  shows "wakes_ok l s' (c(p := ys))"
proof -
  obtain a xs where cp: "c p = a # xs" using ex by (cases "c p") auto
  note ex' = ex [unfolded cp]
  have d: "disciplined l p (a # xs)" using sleep_invD(1) [OF inv, of p] cp by simp
  have "\<exists>r. holds (sl_lk l) ((c(p := ys)) r) \<and> Wake q (sl_chan l) \<in> set ((c(p := ys)) r)"
    if free: "sl_locked (slock s' l) = 0" and q: "asleep (sl_chan l) q s' \<or> Sched \<in> set ((c(p := ys)) q)" for q
  proof -
    have q0: "asleep (sl_chan l) q s \<or> Sched \<in> set (c q)" using run_going [OF _ ex free q] sleep_invD(1) [OF inv] by blast
    show ?thesis
    proof (cases "a = Clear_locked l")
      case True
      then have "ys = xs" "Sched \<notin> set (c p)" using ex' d cp by auto
      moreover have "\<forall>ie xs. c p \<noteq> Parked ie # xs" using cp True by simp
      ultimately have "q \<noteq> p" using sleep_invD(4) [OF inv, of q] q0 by auto
      moreover have "c q \<noteq> []" using sleep_invD(4) [OF inv, of q] q0 by auto
      ultimately have "q \<noteq> p" "q < NPROC" using sleep_invD(2) [OF inv] by blast+
      then show ?thesis using True d \<open>ys = xs\<close> by (intro exI [of _ p]) auto
    next
      case False
      then have "sl_locked (slock s l) = 0" using exec_stmt_data(1) [OF ex', of l] free by (auto split: if_splits)
      then obtain r where r: "holds (sl_lk l) (c r)" "Wake q (sl_chan l) \<in> set (c r)" using sleep_invD(5) [OF inv _ q0] by blast
      show ?thesis
      proof (cases "r = p")
        case True
        have "a \<noteq> Wake q (sl_chan l)"
        proof
          assume a: "a = Wake q (sl_chan l)"
          have "Sched \<notin> set (c q)" using visited_not_going [OF inv, of p q] cp a r(1) True by blast
          moreover have "\<not> asleep (sl_chan l) q s'" using exec_stmt_data(3) [OF ex'] a by blast
          moreover have "q \<noteq> p" using d a by simp
          ultimately show False using q by auto
        qed
        with ex have "holds (sl_lk l) ys \<and> Wake q (sl_chan l) \<in> set ys"
          using r True cp d by (cases rule: exec_stmt_code) auto
        then show ?thesis by auto
      qed (use r in auto)
    qed
  qed
  then show ?thesis by (simp add: wakes_ok_def)
qed

lemma run_inv:
  assumes "sleep_inv l (s, c)" and "runs_on p h s" and "exec_stmt p (c p) (s\<lparr>tp := h\<rparr>) = Ok (ys, s')"
  shows "sleep_inv l (s', c(p := ys))"
proof -
  have "c p \<noteq> []" using assms(3) by auto
  then have "codes_ok l (c(p := ys))"
    using sleep_invD(1,2) [OF assms(1)] run_codes [OF _ assms(3), of l] by (auto simp: codes_ok_def)
  then show ?thesis
    using run_locks [OF assms] run_sleepers [OF assms(1,3)] run_wakes [OF assms] by (simp add: sleep_inv_def)
qed

text \<open>A call starts without holding anything.\<close>

lemma call_inv:
  assumes inv: "sleep_inv l (s, c)" and "p < NPROC" and "c p = []"
    and "disciplined l p xs" and "\<forall>lk. \<not> holds lk xs" and "Sched \<notin> set xs"
  shows "sleep_inv l (s, c(p := xs))"
proof -
  have "\<not> asleep (sl_chan l) p s" using sleep_invD(4) [OF inv, of p] assms(3) by auto
  moreover have "(\<exists>q. holds (sl_lk l) (c q) \<and> Wake r (sl_chan l) \<in> set (c q)) \<longrightarrow>
      (\<exists>q. holds (sl_lk l) ((c(p := xs)) q) \<and> Wake r (sl_chan l) \<in> set ((c(p := xs)) q))" for r
    using assms(3) by (metis fun_upd_other holds.simps(1))
  ultimately show ?thesis using inv assms
    by (auto simp: sleep_inv_def codes_ok_def locks_ok_def sleepers_ok_def wakes_ok_def)
qed

text \<open>
  Steps outside the code of the calls: they leave the sleep lock alone, put nobody to sleep on
  it and take no lock from a call.
\<close>

lemma frame_inv:
  assumes inv: "sleep_inv l (s, c)" and "slock s' l = slock s l" and "\<And>p. asleep (sl_chan l) p s' \<Longrightarrow> asleep (sl_chan l) p s"
    and "\<And>p h lk. runs_on p h s \<Longrightarrow> holds lk (c p) \<Longrightarrow> lk = ProcLock p \<longrightarrow> Sched \<in> set (c p) \<Longrightarrow> held lk h s \<Longrightarrow>
      runs_on p h s' \<and> held lk h s'"
  shows "sleep_inv l (s', c)"
  using inv assms(2,3) assms(4)
  by (simp add: sleep_inv_def locks_ok_def sleepers_ok_def wakes_ok_def) blast

lemma parked_holds:
  assumes "sleep_inv l (s, c)" and "c p = Parked ie # xs" and "holds lk xs"
  shows "lk = ProcLock p" and "Sched \<notin> set (c p)"
  using sleep_invD(1) [OF assms(1), of p] assms(2,3) by auto

lemma switched_inv:
  assumes inv: "sleep_inv l (s, c)" and on: "runs_on p h s" and cp: "c p = Parked ie # xs"
    and b: "sched_back p (s\<lparr>tp := h\<rparr>) = Ok s'"
  shows "sleep_inv l (s', c)"
proof -
  let ?t = "set_cpu_proc None (s\<lparr>tp := h\<rparr>)"
  have r: "release (ProcLock p) ?t = Ok s'" using b by (simp add: sched_back_def)
  have t: "tp ?t = h" "cpus ?t k = (if k = h then (cpus s h)\<lparr>cpu_proc := None\<rparr> else cpus s k)"
    "held lk k ?t = held lk k s" "proc ?t = proc s" "slock ?t = slock s" for k lk
    by (simp_all add: set_cpu_proc_def hart_defs held_def)
  note eff = release_effect [OF r, unfolded t] harts_more_sel [OF release_effect(4) [OF r], unfolded t]
  show ?thesis
  proof (rule frame_inv [OF inv])
    fix q k lk assume q: "runs_on q k s" "holds lk (c q)" "lk = ProcLock q \<longrightarrow> Sched \<in> set (c q)" "held lk k s"
    have "q \<noteq> p" using parked_holds [OF inv cp, of lk] q(2,3) cp by auto
    then have "k \<noteq> h" using q(1) on by auto
    then show "runs_on q k s' \<and> held lk k s'" using eff(2) [of k] eff(3) [of lk k] q(1,4) by simp
  qed (simp_all add: asleep_def eff)
qed

lemma resumed_inv:
  assumes inv: "sleep_inv l (s, c)" and cp: "c p = Parked ie # xs" and awake: "\<not> asleep (sl_chan l) p s"
  shows "sleep_inv l (s, c(p := xs))"
proof -
  have "(\<exists>q. holds (sl_lk l) (c q) \<and> Wake r (sl_chan l) \<in> set (c q)) \<longrightarrow>
      (\<exists>q. holds (sl_lk l) ((c(p := xs)) q) \<and> Wake r (sl_chan l) \<in> set ((c(p := xs)) q))" for r
    using parked_holds(1) [OF inv cp] cp by (metis fun_upd_other holds.simps(2) sl_lk_neq(1) stmt.distinct)
  then have "wakes_ok l s (c(p := xs))" using inv awake cp by (auto simp: sleep_inv_def wakes_ok_def)
  moreover have "codes_ok l (c(p := xs))" "sleepers_ok l s (c(p := xs))"
    using inv cp awake sleep_invD(1) [OF inv, of p] by (auto simp: sleep_inv_def codes_ok_def sleepers_ok_def)
  moreover have "locks_ok s (c(p := xs))"
    using inv cp parked_holds [OF inv cp] by (auto simp: sleep_inv_def locks_ok_def)
  ultimately show ?thesis by (simp add: sleep_inv_def)
qed

lemma switch_to_inv:
  assumes inv: "sleep_inv l (s, c)" and idle: "cpu_proc (cpus s h) = None" and cp: "c p = Parked ie # xs"
    and v: "sched_visit p (s\<lparr>tp := h\<rparr>) = Ok (Some p, s')"
  shows "sleep_inv l (sched_return ie s', c(p := xs))"
proof -
  obtain t where a: "acquire (ProcLock p) (s\<lparr>tp := h\<rparr>) = Ok t"
    and s': "s' = set_cpu_proc (Some p) (upd_proc p (\<lambda>r. r\<lparr>state := RUNNING\<rparr>) t)"
    using v by (auto simp: sched_visit_def split: if_splits)
  let ?u = "sched_return ie s'"
  have t: "tp t = h" using acquire_effect(1) [OF a] by simp
  have u: "k \<noteq> h \<Longrightarrow> cpu_proc (cpus ?u k) = cpu_proc (cpus t k)" "held lk k ?u = held lk k t"
    "proc ?u = (proc t)(p := (proc t p)\<lparr>state := RUNNING\<rparr>)" "slock ?u = slock t" for k lk
    unfolding s' using t by (simp_all add: sched_return_def set_cpu_proc_def upd_proc_def hart_defs held_def)
  note eff = acquire_effect(2,4) [OF a] harts_more_sel [OF acquire_effect(5) [OF a]]
  have inv': "sleep_inv l (?u, c)"
  proof (rule frame_inv [OF inv])
    fix q k lk assume q: "runs_on q k s" "holds lk (c q)" "held lk k s"
    then have "k \<noteq> h" using idle by auto
    then show "runs_on q k ?u \<and> held lk k ?u" using u(1,2) eff(1) [of k] eff(2) [of lk k] q by simp
  qed (auto simp: asleep_def u eff split: if_splits)
  show ?thesis by (rule resumed_inv [OF inv' cp]) (simp add: asleep_def u)
qed

lemma call_codes:
  "\<not> holds lk (acquiresleep_code l)" "Sched \<notin> set (acquiresleep_code l)"
  "\<not> holds lk (releasesleep_code l p)" "Sched \<notin> set (releasesleep_code l p)"
proof -
  have "holds lk (concat (map (wake_code p ch) is) @ xs) \<longrightarrow> holds lk xs" "Sched \<notin> set (concat (map (wake_code p ch) is))"
    for ch "is" xs by (induction "is") (auto simp: wake_code_def)
  from this(1) [of _ "[0..<NPROC]" "[Unlock (sl_lk l)]"] this(2) [of _ "[0..<NPROC]"]
  show "\<not> holds lk (releasesleep_code l p)" "Sched \<notin> set (releasesleep_code l p)"
    unfolding releasesleep_code_def wakeup_code_def by auto
qed (auto simp: acquiresleep_code_def)

lemma step_inv:
  assumes "sleep_step l x y" and "sleep_inv l x"
  shows "sleep_inv l y"
  using assms
proof cases
  case (call_acquire p h s c)
  then show ?thesis using assms(2) call_inv acquiresleep_code_disciplined call_codes by blast
next
  case (call_release p h s c)
  then show ?thesis using call_release assms(2) call_inv releasesleep_code_disciplined call_codes by blast
next
  case (switch_to s h c p ie xs s')
  then show ?thesis using switch_to_inv [of l s c h p ie xs s'] assms(2) by simp
next
  case (other s' s c)
  then show ?thesis using frame_inv [of l s c s'] assms(2) by blast
qed (use assms run_inv switched_inv in blast)+

section \<open>No wakeup is lost\<close>

text \<open>
  Property C10. No wakeup of a sleep lock is lost, whatever the order in which the harts run the
  statements of \<^verbatim>\<open>acquiresleep\<close>, \<^verbatim>\<open>releasesleep\<close>, \<^verbatim>\<open>sleep\<close> and \<^verbatim>\<open>wakeup\<close> and the rest of the
  kernel runs between them. A process that is asleep on a lock that is free is about to be woken:
  some hart runs a process that holds the inner spin lock and whose remaining code still visits
  the sleeper. So once the inner lock is free too, nobody is asleep on the free lock.
\<close>

theorem no_lost_wakeup:
  assumes "(sleep_step l)\<^sup>*\<^sup>* (s, \<lambda>_. []) (s', c)" and "\<And>i. \<not> asleep (sl_chan l) i s" and "sl_locked (slock s' l) = 0"
  shows "(asleep (sl_chan l) i s' \<longrightarrow>
      (\<exists>h q. cpu_proc (cpus s' h) = Some q \<and> held (sl_lk l) h s' \<and> Wake i (sl_chan l) \<in> set (c q))) \<and>
    (locked (spin s' (sl_lk l)) = 0 \<longrightarrow> \<not> asleep (sl_chan l) i s')"
proof -
  have "sleep_inv l (s, \<lambda>_. [])"
    using assms(2) by (simp add: sleep_inv_def codes_ok_def locks_ok_def sleepers_ok_def wakes_ok_def)
  with assms(1) have inv: "sleep_inv l (s', c)" by (induction rule: rtranclp_induct) (auto intro: step_inv)
  have "\<exists>h q. cpu_proc (cpus s' h) = Some q \<and> held (sl_lk l) h s' \<and> Wake i (sl_chan l) \<in> set (c q)"
    if "asleep (sl_chan l) i s'"
    using sleep_invD(5) [OF inv assms(3), of i] that sleep_invD(3) [OF inv, of "sl_lk l"] by (metis sl_lk_neq(1))
  then show ?thesis by (auto simp: held_def)
qed

text \<open>
  Two harts: process 1 on hart 0 owns the lock, process 3 on hart 1 asks for it.
\<close>

definition two_harts :: sleeps where
  "two_harts = lock_waiter\<lparr>
     cpus := (\<lambda>h. \<lparr>cpu_proc = (if h = 0 then Some 1 else if h = 1 then Some 3 else None), noff = 0, intena = False\<rparr>),
     proc := (proc lock_waiter)(3 := idle_proc\<lparr>state := RUNNING, pid := 3\<rparr>)\<rparr>"

lemma exec_stmts_steps:
  assumes "exec_stmts p n xs s = Ok (ys, s')" and "runs_on p (tp s) s"
  shows "(sleep_step l)\<^sup>*\<^sup>* (s, c(p := xs)) (s', c(p := ys)) \<and> tp s' = tp s \<and> (\<forall>h. cpu_proc (cpus s' h) = cpu_proc (cpus s h))"
  using assms
proof (induction n arbitrary: xs s)
  case (Suc n)
  then obtain zs t where t: "exec_stmt p xs s = Ok (zs, t)" and r: "exec_stmts p n zs t = Ok (ys, s')" by auto
  obtain a as where xs: "xs = a # as" using t by (cases xs) auto
  note eff = exec_stmt_harts(1,2) [OF t [unfolded xs]]
  have step: "sleep_step l (s, c(p := xs)) (t, c(p := zs))"
    using sleep_step.run [where p = p and h = "tp s" and s = s and c = "c(p := xs)" and xs = zs and s' = t and l = l] t Suc.prems(2) by simp
  have on: "runs_on p (tp t) t" using Suc.prems(2) eff by simp
  show ?case using converse_rtranclp_into_rtranclp [where r = "sleep_step l", OF step] Suc.IH [OF r on] eff by metis
qed simp

text \<open>
  Process 3 goes to sleep and hart 1 returns to its scheduler; process 1 takes the inner lock and
  clears \<^verbatim>\<open>lk->locked\<close>.
\<close>

lemma two_harts_runs:
  "\<exists>s t u. exec_stmts 3 7 (acquiresleep_code (BufSl 0)) (two_harts\<lparr>tp := 1\<rparr>) =
      Ok (Parked False # drop 5 (sleep_code 3 (ChBufLock 0) (BufSleepLk 0)) @ drop 1 (acquiresleep_code (BufSl 0)), s) \<and>
    sched_back 3 s = Ok t \<and> runs_on 1 0 t \<and>
    exec_stmts 1 2 (releasesleep_code (BufSl 0) 1) (t\<lparr>tp := 0\<rparr>) = Ok (drop 2 (releasesleep_code (BufSl 0) 1), u) \<and>
    asleep (ChBufLock 0) 3 u \<and> sl_locked (slock u (BufSl 0)) = 0"
  by (simp add: two_harts_def lock_waiter_def acquiresleep_code_def sleep_code_def releasesleep_code_def numeral_eq_Suc
    acquire_def release_def hart_defs Let_def sched_def sched_back_def set_cpu_proc_def with_proc_def myproc_def upd_proc_def
    upd_slock_def asleep_def boot_procs_def idle_proc_def physmem.defs procs.defs boot_mem_def)

lemma two_harts_reach:
  "\<exists>u c. (sleep_step (BufSl 0))\<^sup>*\<^sup>* (two_harts, \<lambda>_. []) (u, c) \<and> sl_locked (slock u (BufSl 0)) = 0 \<and> asleep (ChBufLock 0) 3 u"
proof -
  let ?step = "sleep_step (BufSl 0)"
  define c0 :: "nat \<Rightarrow> stmt list" where "c0 = (\<lambda>_. [])"
  obtain ie s t u xs where r: "exec_stmts 3 7 (acquiresleep_code (BufSl 0)) (two_harts\<lparr>tp := 1\<rparr>) = Ok (Parked ie # xs, s)"
    and b: "sched_back 3 s = Ok t" and on: "runs_on 1 0 t"
    and w: "exec_stmts 1 2 (releasesleep_code (BufSl 0) 1) (t\<lparr>tp := 0\<rparr>) = Ok (drop 2 (releasesleep_code (BufSl 0) 1), u)"
    and u: "asleep (ChBufLock 0) 3 u" "sl_locked (slock u (BufSl 0)) = 0"
    using two_harts_runs by blast
  let ?a = "acquiresleep_code (BufSl 0)" and ?c1 = "c0(3 := Parked ie # xs)"
  have tp: "?step\<^sup>*\<^sup>* (v, c) (v\<lparr>tp := h\<rparr>, c)" for v c h
    by (intro r_into_rtranclp sleep_step.other) (simp_all add: asleep_def)
  have on3: "runs_on 3 1 two_harts" by (simp add: two_harts_def)
  note st = exec_stmts_steps [OF r, of "BufSl 0" c0]
  have s: "tp s = 1" "runs_on 3 1 s" using st on3 by simp_all
  have e: "s\<lparr>tp := 1\<rparr> = s" using s(1) by (intro sleeps.equality) simp_all
  have s1: "?step\<^sup>*\<^sup>* (two_harts, c0) (two_harts, c0(3 := ?a))"
    by (intro r_into_rtranclp sleep_step.call_acquire [OF on3]) (simp_all add: c0_def)
  have s2: "?step\<^sup>*\<^sup>* (two_harts, c0(3 := ?a)) (two_harts\<lparr>tp := 1\<rparr>, c0(3 := ?a))" by (rule tp)
  have s3: "?step\<^sup>*\<^sup>* (two_harts\<lparr>tp := 1\<rparr>, c0(3 := ?a)) (s, ?c1)" using st on3 by simp
  have s4: "?step\<^sup>*\<^sup>* (s, ?c1) (t, ?c1)"
    by (rule r_into_rtranclp, rule sleep_step.switched [OF s(2)]) (simp, simp only: e b)
  have s5: "?step\<^sup>*\<^sup>* (t, ?c1) (t, ?c1(1 := releasesleep_code (BufSl 0) 1))"
    by (rule r_into_rtranclp, rule sleep_step.call_release [where c = ?c1, OF on]) (simp_all add: c0_def)
  have s6: "?step\<^sup>*\<^sup>* (t, ?c1(1 := releasesleep_code (BufSl 0) 1)) (t\<lparr>tp := 0\<rparr>, ?c1(1 := releasesleep_code (BufSl 0) 1))" by (rule tp)
  have s7: "?step\<^sup>*\<^sup>* (t\<lparr>tp := 0\<rparr>, ?c1(1 := releasesleep_code (BufSl 0) 1)) (u, ?c1(1 := drop 2 (releasesleep_code (BufSl 0) 1)))"
    using exec_stmts_steps [OF w, of "BufSl 0" ?c1] on by simp
  show ?thesis
    using rtranclp_trans [OF rtranclp_trans [OF rtranclp_trans [OF s1 s2] rtranclp_trans [OF s3 s4]] rtranclp_trans [OF s5 rtranclp_trans [OF s6 s7]]] u
    unfolding c0_def by blast
qed

theorem no_lost_wakeup_witness:
  "\<exists>u c. (sleep_step (BufSl 0))\<^sup>*\<^sup>* (two_harts, \<lambda>_. []) (u, c) \<and> sl_locked (slock u (BufSl 0)) = 0 \<and> asleep (ChBufLock 0) 3 u \<and>
    (\<exists>h q. cpu_proc (cpus u h) = Some q \<and> held (BufSleepLk 0) h u \<and> Wake 3 (ChBufLock 0) \<in> set (c q))"
proof -
  obtain u c where u: "(sleep_step (BufSl 0))\<^sup>*\<^sup>* (two_harts, \<lambda>_. []) (u, c)" "sl_locked (slock u (BufSl 0)) = 0"
    "asleep (ChBufLock 0) 3 u" using two_harts_reach by blast
  have "\<not> asleep (sl_chan (BufSl 0)) i two_harts" for i
    by (simp add: asleep_def two_harts_def lock_waiter_def idle_proc_def procs.defs)
  from no_lost_wakeup [OF u(1) this u(2), of 3] u show ?thesis by auto
qed

end
