(* ===== verification/Critical.thy ===== *)
theory Critical
  imports Sleeplock
begin

text \<open>
  Code that runs with a spin lock held and calls \<^verbatim>\<open>wakeup\<close> and \<^verbatim>\<open>sleep\<close>, as pipes and the disk
  driver do: what these calls find and leave, and what is left when the lock is given up.
\<close>

lemma inside_relock [simp]: "inside lk (relock s) = inside lk s"
  by (cases s) (auto simp: inside_def relock_def relock_cpus_def)

text \<open>A state \<open>t\<close> inside the critical section that was entered in \<open>s\<close>, at the same level of nesting.\<close>

definition within :: "lockid \<Rightarrow> 'a procs_scheme \<Rightarrow> 'a procs_scheme \<Rightarrow> bool" where
  "within lk s t \<longleftrightarrow> tp t = tp s \<and> sie t = sie (inside lk s) \<and> cpus t = cpus (inside lk s) \<and> spin t = spin (inside lk s) \<and>
     valid_priority t \<and> paired t"

text \<open>The lock may be taken: it is free, and is not one that \<^verbatim>\<open>wakeup\<close> takes.\<close>

definition may_lock :: "lockid \<Rightarrow> 'a procs_scheme \<Rightarrow> bool" where
  "may_lock lk s \<longleftrightarrow> table_ok s \<and> lock_free lk s \<and> (\<forall>i. lk \<noteq> ProcLock i) \<and> (\<forall>i. lk \<noteq> QueueLock i)"

text \<open>Give up the lock.\<close>

definition leave :: "'a procs_scheme \<Rightarrow> 'a procs_scheme \<Rightarrow> 'a procs_scheme" where
  "leave s t = t\<lparr>sie := sie s, cpus := cpus (relock s), spin := spin s\<rparr>"

lemma enter:
  assumes "may_lock lk s"
  shows "acquire lk s = Ok (inside lk s)" "within lk s (inside lk s)"
proof -
  have "valid_priority (inside lk s) = valid_priority s" "paired (inside lk s) = paired s"
    by (simp_all add: valid_priority_def paired_def)
  then show "within lk s (inside lk s)" using assms by (simp add: may_lock_def within_def table_ok_def inside_def)
qed (use assms in \<open>simp add: may_lock_def acquire_free\<close>)

lemma release_held:
  assumes "hart_ok s" "lock_free lk s" "within lk s t"
  shows "release lk t = Ok (leave s t)"
  unfolding leave_def by (rule release_inside [OF assms(1,2)]) (use assms(3) in \<open>simp_all add: within_def\<close>)

lemma release_within:
  assumes "may_lock lk s" "within lk s t"
  shows "release lk t = Ok (leave s t)" "may_lock lk (leave s t)"
proof -
  show "release lk t = Ok (leave s t)" using assms table_ok_hart by (intro release_held) (auto simp: may_lock_def)
  have q: "quiet (relock s)" "lock_free lk (relock s)" using assms(1) by (simp_all add: may_lock_def table_ok_def)
  have "tp t = tp s" "valid_priority t" "paired t" using assms(2) by (simp_all add: within_def)
  then show "may_lock lk (leave s t)" using q assms(1)
    by (simp add: may_lock_def table_ok_def quiet_def valid_priority_def paired_def leave_def lock_simps)
qed

lemma wakeup_within:
  assumes "may_lock lk s" "within lk s t"
  shows "\<exists>P Q. wakeup c t = Ok (t\<lparr>proc := P, queue := Q\<rparr>) \<and> within lk s (t\<lparr>proc := P, queue := Q\<rparr>) \<and>
    (\<forall>i<NPROC. unlinked (P i) = unlinked (if Some i \<noteq> cpu_proc (cpus s (tp s)) then woken c (proc t i) else proc t i)) \<and>
    (\<forall>i. unlinked (woken c (P i)) = unlinked (woken c (proc t i)))"
proof -
  have h: "hart_ok s" using assms(1) table_ok_hart by (auto simp: may_lock_def)
  have "quiet (inside lk s)"
    using table_ok_inside [of s lk] assms(1) by (simp add: may_lock_def table_ok_def)
  then have "table_ok t" using assms(2) by (simp add: within_def table_ok_def quiet_def lock_simps)
  moreover have "noff (cpus t (tp t)) \<noteq> 0" using inside_noff [OF h, of lk] assms(2) by (simp add: within_def inside_def)
  ultimately obtain P Q where w: "wakeup c t = Ok (t\<lparr>proc := P, queue := Q\<rparr>)" "table_ok (t\<lparr>proc := P, queue := Q\<rparr>)"
    "\<forall>i<NPROC. unlinked (P i) = unlinked (if Some i \<noteq> cpu_proc (cpus t (tp t)) then woken c (proc t i) else proc t i)"
    "\<forall>i. unlinked (woken c (P i)) = unlinked (woken c (proc t i))" using wakeup_table by blast
  have "cpu_proc (cpus t (tp t)) = cpu_proc (cpus s (tp s))" using assms(2) by (simp add: within_def inside_def)
  moreover have "within lk s (t\<lparr>proc := P, queue := Q\<rparr>)"
    using w(2) assms(2) by (simp add: within_def table_ok_def)
  ultimately show ?thesis using w(1,3,4) by (intro exI [of _ P] exI [of _ Q]) simp
qed

lemma sleep_within:
  fixes s t :: "'a procs_scheme"
  assumes "may_lock lk s" "within lk s t" "cpu_proc (cpus s (tp s)) = Some p" "p < NPROC" "noff (cpus s (tp s)) = 0"
    and s': "s' = t\<lparr>sie := sie (inside (ProcLock p) s), cpus := cpus (inside (ProcLock p) s), spin := spin (inside (ProcLock p) s),
      proc := (proc t)(p := (proc t p)\<lparr>chan := Some wc, state := SLEEPING\<rparr>)\<rparr>"
  shows "sleep wc lk t = Ok (sie s (tp s), s')" "within (ProcLock p) s s'" "lock_free lk s'"
proof -
  note t = assms(2) [unfolded within_def]
  have s: "hart_ok s" "lock_free lk s" "lock_free (ProcLock p) s" "lk \<noteq> ProcLock p"
    using assms(1,4) by (auto simp: may_lock_def table_ok_def quiet_def)
  have f: "lock_free (ProcLock p) t" using s(3,4) t by (simp add: lock_simps inside_def)
  have w: "with_proc f t = f p t" for f :: "nat \<Rightarrow> 'a procs_scheme \<Rightarrow> (bool \<times> 'a procs_scheme) res"
  proof -
    have h: "hart_ok t" using s(1) t by (simp add: lock_simps inside_def)
    have "relock t = t" using s(1) t by (cases t) (simp add: relock_def relock_cpus_def inside_def lock_simps)
    moreover have "cpu_proc (cpus t (tp t)) = Some p" using assms(3) t by (simp add: inside_def relock_cpus_def)
    ultimately show ?thesis using with_proc_run [OF h, of p f] by simp
  qed
  have "(spin s)(lk := (spin s lk)\<lparr>lk_cpu := None, locked := 0\<rparr>) = spin s" using s(2) by (auto simp: lock_simps fun_eq_iff)
  then have u: "(spin s)(ProcLock p := x, lk := (spin s lk)\<lparr>lk_cpu := None, locked := 0\<rparr>) = (spin s)(ProcLock p := x)" for x
    using s(4) by (simp add: fun_upd_twist [of "ProcLock p" lk])
  show "sleep wc lk t = Ok (sie s (tp s), s')" unfolding sleep_def w acquire_free [OF f] s' using s t assms(3,5)
    by (cases t) (simp add: release_def sched_def with_proc_def myproc_def hart_defs upd_proc_def inside_def lock_simps Let_def
      relock_cpus_def u)
  show "within (ProcLock p) s s'" using t by (auto simp: within_def s' valid_priority_def paired_def)
  show "lock_free lk s'" using s(2,4) by (simp add: s' lock_simps inside_def)
qed

section \<open>Switching processes\<close>

text \<open>A process that went to sleep in \<open>s\<close> is back in the scheduler.\<close>

lemma sched_back_within:
  fixes s t :: "'a procs_scheme"
  assumes "table_ok s" "p < NPROC" "noff (cpus s (tp s)) = 0" "within (ProcLock p) s t"
  shows "\<exists>t'. sched_back p t = Ok t' \<and> t' = t\<lparr>sie := sie t', cpus := cpus t', spin := spin s\<rparr> \<and> table_ok t' \<and>
    cpu_proc (cpus t' (tp t')) = None \<and> noff (cpus t' (tp t')) = 0"
proof -
  let ?s = "set_cpu_proc None s" and ?t = "set_cpu_proc None t"
  have q: "hart_ok s" "lock_free (ProcLock p) s" "\<forall>i<NPROC. lock_free (ProcLock i) s" "\<forall>i<NQUEUE. lock_free (QueueLock i) s"
    using assms(1,2) by (auto simp: table_ok_def quiet_def)
  have w: "within (ProcLock p) ?s ?t" using assms(3,4)
    by (cases "cpus s (tp s)") (simp add: within_def set_cpu_proc_def hart_defs inside_def relock_cpus_def valid_priority_def paired_def)
  have "hart_ok ?s" "lock_free (ProcLock p) ?s" using q by (simp_all add: set_cpu_proc_def hart_defs lock_simps)
  from release_held [OF this w] have r: "sched_back p t = Ok (leave ?s ?t)" by (simp add: sched_back_def)
  have "tp t = tp s" using assms(4) by (simp add: within_def)
  then have "table_ok (leave ?s ?t)" using q assms(3,4)
    by (simp add: table_ok_def quiet_def leave_def within_def set_cpu_proc_def hart_defs lock_simps relock_def relock_cpus_def valid_priority_def paired_def)
  moreover have "leave ?s ?t = t\<lparr>sie := sie (leave ?s ?t), cpus := cpus (leave ?s ?t), spin := spin s\<rparr>"
    by (simp add: leave_def set_cpu_proc_def hart_defs)
  moreover have "cpu_proc (cpus (leave ?s ?t) (tp (leave ?s ?t))) = None" "noff (cpus (leave ?s ?t) (tp (leave ?s ?t))) = 0"
    using \<open>tp t = tp s\<close> assms(3) by (simp_all add: leave_def set_cpu_proc_def hart_defs relock_def relock_cpus_def)
  ultimately show ?thesis using r by blast
qed

text \<open>A process that has been woken up runs again, and \<^verbatim>\<open>sleep\<close> returns in it.\<close>

lemma resume_asleep:
  fixes s :: "'a procs_scheme"
  assumes "may_lock lk s" "p < NPROC" "noff (cpus s (tp s)) = 0" "state (proc s p) = RUNNABLE"
  shows "\<exists>t t'. sched_visit p s = Ok (Some p, t) \<and> sleep_return p lk ie t = acquire lk t' \<and> may_lock lk t' \<and>
    t' = s\<lparr>sie := sie t', cpus := cpus t', proc := (proc s)(p := (proc s p)\<lparr>state := RUNNING, chan := None\<rparr>)\<rparr> \<and>
    cpu_proc (cpus t' (tp t')) = Some p"
proof -
  have q: "hart_ok s" "lock_free (ProcLock p) s" "\<forall>i<NPROC. lock_free (ProcLock i) s" "\<forall>i<NQUEUE. lock_free (QueueLock i) s"
    using assms(1,2) by (auto simp: may_lock_def table_ok_def quiet_def)
  let ?t = "set_cpu_proc (Some p) (upd_proc p (\<lambda>r. r\<lparr>state := RUNNING\<rparr>) (inside (ProcLock p) s))"
  have v: "sched_visit p s = Ok (Some p, ?t)" using assms(4) acquire_free [OF q(2)] by (simp add: sched_visit_def)
  let ?u = "s\<lparr>sie := (sie s)(tp s := ie), cpus := (cpus s)(tp s := \<lparr>cpu_proc = Some p, noff = 0, intena = ie\<rparr>),
    proc := (proc s)(p := (proc s p)\<lparr>state := RUNNING, chan := None\<rparr>)\<rparr>"
  let ?v = "upd_proc p (\<lambda>r. r\<lparr>chan := None\<rparr>) (sched_return ie ?t)"
  have u: "hart_ok ?u" "lock_free (ProcLock p) ?u" using q by (simp_all add: lock_simps)
  have "valid_priority s" "paired s" using assms(1) by (simp_all add: may_lock_def table_ok_def)
  then have vp: "valid_priority ?v" "paired ?v" "valid_priority ?u" "paired ?u"
    by (simp_all add: valid_priority_def paired_def upd_proc_def sched_return_def set_cpu_proc_def hart_defs)
  have "tp ?v = tp ?u" "sie ?v = sie (inside (ProcLock p) ?u)" "cpus ?v = cpus (inside (ProcLock p) ?u)" "spin ?v = spin (inside (ProcLock p) ?u)"
    using assms(3) by (cases "cpus s (tp s)"; simp add: upd_proc_def sched_return_def set_cpu_proc_def hart_defs inside_def relock_cpus_def)+
  with vp have w: "within (ProcLock p) ?u ?v" unfolding within_def by blast
  have "leave ?u ?v = ?u"
    by (simp add: leave_def upd_proc_def sched_return_def set_cpu_proc_def hart_defs relock_def relock_cpus_def) (simp add: inside_def)
  then have "sleep_return p lk ie ?t = acquire lk ?u" using release_held [OF u w] by (simp add: sleep_return_def)
  moreover have "may_lock lk ?u" using q assms(1) vp(3,4)
    by (simp add: may_lock_def table_ok_def quiet_def lock_simps)
  ultimately show ?thesis using v by (intro exI [of _ ?t] exI [of _ ?u]) simp
qed

end
