(* ===== verification/Pipe_Spec.thy ===== *)
theory Pipe_Spec
  imports Pipe Vm_Copy Critical
begin

text \<open>
  What pipes promise: the bytes in a pipe are a queue of at most 512; \<^verbatim>\<open>pipewrite\<close> appends
  the bytes of the writer's address space to it, \<^verbatim>\<open>piperead\<close> moves bytes from its front to
  the reader's, also when the counters wrap around.
\<close>

section \<open>The bytes in a pipe\<close>

definition pipe_items :: "pipe \<Rightarrow> uchar list" where
  "pipe_items p = ring_items PIPESIZE (pi_data p) (nread p) (nwrite p)"

definition pipe_ok :: "pipe \<Rightarrow> bool" where
  "pipe_ok p \<longleftrightarrow> length (pipe_items p) \<le> PIPESIZE"

lemma pipe_full_iff: "nwrite p = nread p + of_nat PIPESIZE \<longleftrightarrow> length (pipe_items p) = PIPESIZE"
proof
  assume "length (pipe_items p) = PIPESIZE"
  then have "nwrite p - nread p = of_nat PIPESIZE" by (simp add: pipe_items_def word_unat_eq_iff)
  then show "nwrite p = nread p + of_nat PIPESIZE" by (simp add: algebra_simps)
qed (simp add: pipe_items_def)

lemma pipe_empty_iff: "nread p = nwrite p \<longleftrightarrow> pipe_items p = []"
  by (metis length_0_conv pipe_items_def ring_length right_minus_eq unat_eq_zero)

lemma pipe_push_items:
  assumes "length (pipe_items p) < PIPESIZE"
  shows "pipe_items (pipe_push c p) = pipe_items p @ [c]"
  using assms ring_put(1) [of PIPESIZE "nwrite p" "nread p" "pi_data p" c] by (simp add: pipe_items_def pipe_push_def)

lemma pipe_drop_items:
  assumes "pipe_items p \<noteq> []"
  shows "pipe_items p = pipe_front p # pipe_items (pipe_drop p)"
  using assms ring_get(1) [of "nread p" "nwrite p" PIPESIZE "pi_data p"]
  by (simp add: pipe_empty_iff [symmetric]) (simp add: pipe_items_def pipe_front_def pipe_drop_def)

lemma pipe_ends [simp]:
  "readopen (pipe_push c p) = readopen p" "writeopen (pipe_push c p) = writeopen p"
  "readopen (pipe_drop p) = readopen p" "writeopen (pipe_drop p) = writeopen p"
  by (simp_all add: pipe_push_def pipe_drop_def)

section \<open>User memory\<close>

abbreviation user_bytes :: "'a physmem_scheme \<Rightarrow> uint64 \<Rightarrow> uint64 \<Rightarrow> nat \<Rightarrow> uchar list" where
  "user_bytes s root a n \<equiv> map (\<lambda>k. user_byte s root (a + of_nat k)) [0..<n]"

lemma user_memory_cong:
  assumes "mem s' = mem s"
  shows "user_byte s' root = user_byte s root" "user_page s' root = user_page s root" "user_range s' root = user_range s root"
  by (intro ext, simp add: assms user_byte_def user_addr_def user_page_def user_range_def)+

lemma aspace_cong:
  assumes "aspace s root ps" "mem s' = mem s" "kend s' = kend s" "freelist s' = freelist s" "hart_ok s'" "lock_free KmemLock s'"
  shows "aspace s' root ps"
  using assms(1,5,6) unfolding aspace_def vm_ok_def kmem_ok_def free_pages_def user_memory_cong(2) [OF assms(2)] assms(2-4)
  by blast

lemma copyout_only_mem: "copyout root va bs s = Ok (r, s') \<Longrightarrow> s' = s\<lparr>mem := mem s'\<rparr>"
proof (induction root va bs s arbitrary: s' rule: copyout.induct)
  case (1 root va bs s)
  show ?case
  proof (cases "bs = []")
    case True
    then show ?thesis using "1.prems" by (simp add: copyout.simps [of root va "[]"])
  next
    case False
    with "1.prems" obtain pa where pa: "walkaddr root (PGROUNDDOWN va) s = Ok pa"
      by (subst (asm) copyout.simps) (auto simp: Let_def)
    show ?thesis using "1.IH" [OF False refl pa _ refl, of s'] "1.prems" False pa
      by (cases "pa = 0") (simp_all add: copyout.simps [of root va bs] Let_def)
  qed
qed

lemma user_range_sub:
  assumes "user_range s root a n" "i + k \<le> n"
  shows "user_range s root (a + of_nat i) k" "k \<noteq> 0 \<Longrightarrow> unat (a + of_nat i) = unat a + i"
proof -
  have n: "unat a + n \<le> 2 ^ 38" using assms(1) by (simp add: user_range_def)
  then have u: "unat (a + of_nat i) = unat a + i" using assms(2) by (simp add: unat_word_ariths unat_of_nat)
  then show "unat (a + of_nat i) = unat a + i" .
  show "user_range s root (a + of_nat i) k" using assms u by (auto simp: user_range_def)
qed

lemma aspace_pipe [simp]: "aspace (s\<lparr>pipe := X\<rparr>) root ps = aspace s root ps"
proof -
  have "aspace s' root ps" if "aspace s root ps" "s' = s\<lparr>pipe := X\<rparr>" for s s' :: "'a pipes_scheme" and X
    by (rule aspace_cong [OF that(1)]) (use that in \<open>auto simp: aspace_def vm_ok_def kmem_ok_def lock_simps\<close>)
  from this [of "s\<lparr>pipe := X\<rparr>" "(s\<lparr>pipe := X\<rparr>)\<lparr>pipe := pipe s\<rparr>" "pipe s"] this [of s "s\<lparr>pipe := X\<rparr>" X] show ?thesis by auto
qed

lemma user_pipe [simp]:
  "user_byte (s\<lparr>pipe := X\<rparr>) root = user_byte s root" "user_page (s\<lparr>pipe := X\<rparr>) root = user_page s root"
  "user_range (s\<lparr>pipe := X\<rparr>) root = user_range s root"
  by (rule user_memory_cong, simp)+

section \<open>The loops\<close>

declare pipewrite_loop.simps [simp del] piperead_copy.simps [simp del]

lemma pipewrite_step:
  assumes "i < n" "readopen (pipe s pi) \<noteq> 0" "killed (proc s pr) = 0" "length (pipe_items (pipe s pi)) < PIPESIZE"
    "aspace s (pagetable (proc s pr)) ps" "user_range s (pagetable (proc s pr)) addr n"
  shows "pipewrite_loop pr pi addr n i s = pipewrite_loop pr pi addr n (Suc i)
    (upd_pipe pi (pipe_push (user_byte s (pagetable (proc s pr)) (addr + of_nat i))) s)"
proof -
  have "user_range s (pagetable (proc s pr)) (addr + of_nat i) 1" using user_range_sub(1) [OF assms(6), of i 1] assms(1) by simp
  from copyin_user [OF assms(5) this] have "copyin (pagetable (proc s pr)) (addr + of_nat i) 1 s =
    Ok (0, [user_byte s (pagetable (proc s pr)) (addr + of_nat i)])" by simp
  moreover have "nwrite (pipe s pi) \<noteq> nread (pipe s pi) + of_nat PIPESIZE" unfolding pipe_full_iff using assms(4) by simp
  ultimately show ?thesis using assms(1-3) by (subst pipewrite_loop.simps) (simp add: Let_def ch_def)
qed

lemma pipewrite_fill:
  assumes "readopen (pipe s pi) \<noteq> 0" "killed (proc s pr) = 0" "aspace s (pagetable (proc s pr)) ps"
    "user_range s (pagetable (proc s pr)) addr n" "length (pipe_items (pipe s pi)) + k \<le> PIPESIZE" "k \<le> n"
  shows "\<exists>p. pipewrite_loop pr pi addr n 0 s = pipewrite_loop pr pi addr n k (s\<lparr>pipe := (pipe s)(pi := p)\<rparr>) \<and>
    pipe_items p = pipe_items (pipe s pi) @ user_bytes s (pagetable (proc s pr)) addr k \<and>
    readopen p = readopen (pipe s pi) \<and> writeopen p = writeopen (pipe s pi)"
  using assms(5,6)
proof (induction k)
  case 0
  then show ?case by (intro exI [of _ "pipe s pi"]) simp
next
  case (Suc k)
  then have "length (pipe_items (pipe s pi)) + k \<le> PIPESIZE" "k \<le> n" by simp_all
  from Suc.IH [OF this] obtain p where p: "pipewrite_loop pr pi addr n 0 s = pipewrite_loop pr pi addr n k (s\<lparr>pipe := (pipe s)(pi := p)\<rparr>)"
    "pipe_items p = pipe_items (pipe s pi) @ user_bytes s (pagetable (proc s pr)) addr k"
    "readopen p = readopen (pipe s pi)" "writeopen p = writeopen (pipe s pi)" by blast
  let ?c = "user_byte s (pagetable (proc s pr)) (addr + of_nat k)"
  have len: "length (pipe_items p) < PIPESIZE" using p(2) Suc.prems by simp
  have l: "pipewrite_loop pr pi addr n 0 s = pipewrite_loop pr pi addr n (Suc k) (s\<lparr>pipe := (pipe s)(pi := pipe_push ?c p)\<rparr>)"
    unfolding p(1) using pipewrite_step [of k n "s\<lparr>pipe := (pipe s)(pi := p)\<rparr>" pi pr ps addr] assms(1-4) Suc.prems(2) len p(3)
    by (simp add: upd_pipe_def)
  show ?case by (rule exI [of _ "pipe_push ?c p"], rule conjI [OF l]) (simp add: pipe_push_items [OF len] p(2-4))
qed

lemma piperead_step:
  assumes "i < n" "pipe_items (pipe s pi) \<noteq> []" "aspace s (pagetable (proc s pr)) ps" "user_range s (pagetable (proc s pr)) addr n"
  shows "\<exists>m. piperead_copy pr pi addr n i s =
      piperead_copy pr pi addr n (Suc i) (s\<lparr>mem := m, pipe := (pipe s)(pi := pipe_drop (pipe s pi))\<rparr>) \<and>
    aspace (s\<lparr>mem := m\<rparr>) (pagetable (proc s pr)) ps \<and>
    (\<forall>w. xlate (s\<lparr>mem := m\<rparr>) (pagetable (proc s pr)) w = xlate s (pagetable (proc s pr)) w) \<and>
    (\<forall>w. user_page s (pagetable (proc s pr)) w \<longrightarrow> user_byte (s\<lparr>mem := m\<rparr>) (pagetable (proc s pr)) w =
      (if unat w = unat addr + i then pipe_front (pipe s pi) else user_byte s (pagetable (proc s pr)) w))"
proof -
  let ?s = "upd_pipe pi pipe_drop s" and ?root = "pagetable (proc s pr)" and ?c = "pipe_front (pipe s pi)"
  have u: "user_range s ?root (addr + of_nat i) 1" "unat (addr + of_nat i) = unat addr + i"
    using user_range_sub [OF assms(4), of i 1] assms(1) by simp_all
  obtain s' where s': "copyout ?root (addr + of_nat i) [?c] ?s = Ok (0, s')" "aspace s' ?root ps" "\<forall>w. xlate s' ?root w = xlate s ?root w"
    "\<forall>w. user_page s ?root w \<longrightarrow> user_byte s' ?root w =
      (if unat addr + i \<le> unat w \<and> unat w < unat addr + i + 1 then [?c] ! (unat w - (unat addr + i)) else user_byte s ?root w)"
    using copyout_user [of ?s ?root ps "addr + of_nat i" "[?c]"] u assms(3) unfolding upd_pipe_def by auto
  have e: "s' = s\<lparr>mem := mem s', pipe := (pipe s)(pi := pipe_drop (pipe s pi))\<rparr>"
    by (rule trans [OF copyout_only_mem [OF s'(1)]]) (simp add: upd_pipe_def)
  have m: "user_byte s' ?root = user_byte (s\<lparr>mem := mem s'\<rparr>) ?root" by (rule user_memory_cong) simp
  have "aspace (s\<lparr>mem := mem s'\<rparr>) ?root ps"
    using s'(2) aspace_pipe [of "(pipe s)(pi := pipe_drop (pipe s pi))" "s\<lparr>mem := mem s'\<rparr>" ?root ps] e by simp
  moreover have "piperead_copy pr pi addr n i s = piperead_copy pr pi addr n (Suc i) s'"
    using assms(1,2) s'(1) by (subst piperead_copy.simps) (simp add: Let_def pipe_empty_iff upd_pipe_def)
  ultimately show ?thesis using s'(3,4) e m by (intro exI [of _ "mem s'"]) auto
qed

text \<open>What a reader finds in its memory: \<open>bs\<close> from \<open>addr\<close> on, and nothing else changed.\<close>

definition received :: "'a physmem_scheme \<Rightarrow> uint64 \<Rightarrow> uint64 \<Rightarrow> uchar list \<Rightarrow> 'a physmem_scheme \<Rightarrow> bool" where
  "received s root addr bs s' \<longleftrightarrow> (\<forall>w. xlate s' root w = xlate s root w) \<and>
     (\<forall>w. user_page s root w \<longrightarrow> user_byte s' root w =
        (if unat addr \<le> unat w \<and> unat w < unat addr + length bs then bs ! (unat w - unat addr) else user_byte s root w))"

lemma received_snoc:
  assumes "received s root addr bs s1" "\<forall>w. xlate s2 root w = xlate s1 root w"
    "\<forall>w. user_page s1 root w \<longrightarrow> user_byte s2 root w = (if unat w = unat addr + length bs then c else user_byte s1 root w)"
  shows "received s root addr (bs @ [c]) s2"
proof -
  have p: "user_page s1 root w = user_page s root w" for w using assms(1) by (simp add: received_def user_page_def)
  have "user_byte s2 root w = (if unat addr \<le> unat w \<and> unat w < unat addr + Suc (length bs)
      then (bs @ [c]) ! (unat w - unat addr) else user_byte s root w)" if w: "user_page s root w" for w
  proof -
    have "user_byte s1 root w = (if unat addr \<le> unat w \<and> unat w < unat addr + length bs then bs ! (unat w - unat addr)
        else user_byte s root w)" using assms(1) w by (simp add: received_def)
    moreover have "user_byte s2 root w = (if unat w = unat addr + length bs then c else user_byte s1 root w)"
      using assms(3) w p by simp
    ultimately show ?thesis by (auto simp: nth_append)
  qed
  then show ?thesis using assms(1,2) by (simp add: received_def)
qed

lemma received_bytes:
  assumes "received s root addr bs s'" "user_range s root addr (length bs)"
  shows "user_bytes s' root addr (length bs) = bs"
proof (rule nth_equalityI)
  fix i assume "i < length (user_bytes s' root addr (length bs))"
  then have i: "i < length bs" by simp
  have "unat (addr + of_nat i) = unat addr + i" using user_range_sub(2) [OF assms(2), of i 1] i by simp
  moreover have "user_page s root (addr + of_nat i)" using calculation assms(2) i by (simp add: user_range_def)
  ultimately show "user_bytes s' root addr (length bs) ! i = bs ! i" using assms(1) i by (simp add: received_def)
qed simp

lemma piperead_move:
  assumes "aspace s (pagetable (proc s pr)) ps" "user_range s (pagetable (proc s pr)) addr n"
    "k \<le> n" "k \<le> length (pipe_items (pipe s pi))"
  shows "\<exists>m p. piperead_copy pr pi addr n 0 s = piperead_copy pr pi addr n k (s\<lparr>mem := m, pipe := (pipe s)(pi := p)\<rparr>) \<and>
    pipe_items p = drop k (pipe_items (pipe s pi)) \<and> readopen p = readopen (pipe s pi) \<and> writeopen p = writeopen (pipe s pi) \<and>
    aspace (s\<lparr>mem := m\<rparr>) (pagetable (proc s pr)) ps \<and>
    received s (pagetable (proc s pr)) addr (take k (pipe_items (pipe s pi))) (s\<lparr>mem := m\<rparr>)"
  using assms(3,4)
proof (induction k)
  case 0
  then show ?case using assms(1) by (intro exI [of _ "mem s"] exI [of _ "pipe s pi"]) (auto simp: received_def)
next
  case (Suc k)
  let ?root = "pagetable (proc s pr)" and ?xs = "pipe_items (pipe s pi)"
  from Suc.prems have "k \<le> n" "k \<le> length ?xs" by simp_all
  from Suc.IH [OF this] obtain m p where p: "piperead_copy pr pi addr n 0 s = piperead_copy pr pi addr n k (s\<lparr>mem := m, pipe := (pipe s)(pi := p)\<rparr>)"
    "pipe_items p = drop k ?xs" "readopen p = readopen (pipe s pi)" "writeopen p = writeopen (pipe s pi)"
    "aspace (s\<lparr>mem := m\<rparr>) ?root ps" "received s ?root addr (take k ?xs) (s\<lparr>mem := m\<rparr>)" by blast
  let ?s1 = "s\<lparr>mem := m, pipe := (pipe s)(pi := p)\<rparr>"
  have ne: "pipe_items p \<noteq> []" using p(2) Suc.prems by simp
  then have c: "pipe_front p = ?xs ! k" "pipe_items (pipe_drop p) = drop (Suc k) ?xs"
    using pipe_drop_items [OF ne] p(2) Suc.prems(2) by (simp_all add: Cons_nth_drop_Suc [symmetric])
  have "user_range (s\<lparr>mem := m\<rparr>) ?root addr n" using assms(2) p(6) by (simp add: user_range_def received_def user_page_def)
  then obtain m' where m': "piperead_copy pr pi addr n k ?s1 = piperead_copy pr pi addr n (Suc k) (?s1\<lparr>mem := m', pipe := (pipe ?s1)(pi := pipe_drop p)\<rparr>)"
    "aspace (?s1\<lparr>mem := m'\<rparr>) ?root ps" "\<forall>w. xlate (?s1\<lparr>mem := m'\<rparr>) ?root w = xlate ?s1 ?root w"
    "\<forall>w. user_page ?s1 ?root w \<longrightarrow> user_byte (?s1\<lparr>mem := m'\<rparr>) ?root w = (if unat w = unat addr + k then ?xs ! k else user_byte ?s1 ?root w)"
    using piperead_step [of k n ?s1 pi pr ps addr] ne p(5) Suc.prems(1) c(1) by auto
  have e: "?s1\<lparr>mem := m', pipe := (pipe ?s1)(pi := pipe_drop p)\<rparr> = s\<lparr>mem := m', pipe := (pipe s)(pi := pipe_drop p)\<rparr>"
    "?s1\<lparr>mem := m'\<rparr> = (s\<lparr>mem := m'\<rparr>)\<lparr>pipe := (pipe s)(pi := p)\<rparr>" by simp_all
  have "received s ?root addr (take k ?xs @ [?xs ! k]) (s\<lparr>mem := m'\<rparr>)"
    by (rule received_snoc [OF p(6)]) (use m'(3,4) Suc.prems(2) in \<open>simp_all add: e(2)\<close>)
  moreover have "aspace (s\<lparr>mem := m'\<rparr>) ?root ps" using m'(2) unfolding e(2) by simp
  ultimately have "pipe_items (pipe_drop p) = drop (Suc k) ?xs \<and> readopen (pipe_drop p) = readopen (pipe s pi) \<and>
    writeopen (pipe_drop p) = writeopen (pipe s pi) \<and> aspace (s\<lparr>mem := m'\<rparr>) ?root ps \<and>
    received s ?root addr (take (Suc k) ?xs) (s\<lparr>mem := m'\<rparr>)"
    using p(3,4) c(2) Suc.prems(2) by (simp add: take_Suc_conv_app_nth)
  with trans [OF p(1) m'(1) [unfolded e(1)]] show ?case by blast
qed

section \<open>Reading and writing\<close>

text \<open>Process \<open>pr\<close> runs on this hart, holds no lock that the pipe needs, and was not killed.\<close>

definition pipe_caller :: "nat \<Rightarrow> uint64 \<Rightarrow> 'a pipes_scheme \<Rightarrow> bool" where
  "pipe_caller pr pi s \<longleftrightarrow> may_lock (PipeLock pi) s \<and> cpu_proc (cpus s (tp s)) = Some pr"

lemma pipe_caller_enter:
  assumes "pipe_caller pr pi s"
  shows "with_proc (\<lambda>pr s. res_bind (acquire (PipeLock pi) s) (f pr)) s = f pr (inside (PipeLock pi) s)"
  using assms by (simp add: pipe_caller_def may_lock_def table_ok_hart with_proc_run acquire_free)

lemma mem_inside [simp]:
  "mem (inside lk s) = mem s" "kend (inside lk s) = kend s" "freelist (inside lk s) = freelist s"
  by (simp_all add: inside_def)

lemma pipe_inside [simp]:
  "pipe (inside lk s) = pipe s" "pipe (relock s) = pipe s"
  by (simp_all add: inside_def relock_def)

lemma aspace_inside:
  assumes "aspace s root ps" shows "aspace (inside (PipeLock pi) s) root ps"
  by (rule aspace_cong [OF assms]) (use assms in \<open>simp_all add: aspace_def vm_ok_def kmem_ok_def\<close>)

lemma wake_and_release:
  assumes c: "pipe_caller pr pi s" and t: "t = (inside (PipeLock pi) s)\<lparr>mem := m, pipe := X\<rparr>"
  shows "\<exists>P Q. wakeup (Some wc) t = Ok (t\<lparr>proc := P, queue := Q\<rparr>) \<and> within (PipeLock pi) s (t\<lparr>proc := P, queue := Q\<rparr>) \<and>
    release (PipeLock pi) (t\<lparr>proc := P, queue := Q\<rparr>) = Ok ((relock s)\<lparr>mem := m, proc := P, queue := Q, pipe := X\<rparr>) \<and>
    pipe_caller pr pi ((relock s)\<lparr>mem := m, proc := P, queue := Q, pipe := X\<rparr>) \<and>
    (\<forall>i<NPROC. unlinked (P i) = unlinked (if i \<noteq> pr then woken (Some wc) (proc s i) else proc s i))"
proof -
  have r: "may_lock (PipeLock pi) s" "cpu_proc (cpus s (tp s)) = Some pr" using c by (simp_all add: pipe_caller_def)
  have "within (PipeLock pi) s t" using enter(2) [OF r(1)] by (simp add: t within_def valid_priority_def paired_def)
  from wakeup_within [OF r(1) this, of "Some wc"] obtain P Q where w: "wakeup (Some wc) t = Ok (t\<lparr>proc := P, queue := Q\<rparr>)"
    "within (PipeLock pi) s (t\<lparr>proc := P, queue := Q\<rparr>)"
    "\<forall>i<NPROC. unlinked (P i) = unlinked (if Some i \<noteq> cpu_proc (cpus s (tp s)) then woken (Some wc) (proc t i) else proc t i)" by blast
  have "leave s (t\<lparr>proc := P, queue := Q\<rparr>) = (relock s)\<lparr>mem := m, proc := P, queue := Q, pipe := X\<rparr>"
    by (simp add: t leave_def inside_def relock_def)
  moreover note release_within [OF r(1) w(2)]
  moreover have "\<forall>i<NPROC. unlinked (P i) = unlinked (if i \<noteq> pr then woken (Some wc) (proc s i) else proc s i)"
    using w(3) r(2) by (simp add: t)
  ultimately show ?thesis using w(1,2) r(2) by (intro exI [of _ P] exI [of _ Q]) (simp add: pipe_caller_def)
qed

lemma received_cong:
  assumes "received s root addr bs t" "mem s1 = mem s" "mem t1 = mem t"
  shows "received s1 root addr bs t1"
  using assms(1) unfolding received_def user_memory_cong [OF assms(2)] user_memory_cong [OF assms(3)] assms(2,3) .

lemma pipewrite_run:
  assumes c: "pipe_caller pr pi s" and as: "aspace s (pagetable (proc s pr)) ps"
    and ur: "user_range s (pagetable (proc s pr)) addr (nat (sint n))" and k: "killed (proc s pr) = 0"
    and op: "readopen (pipe s pi) \<noteq> 0" and room: "length (pipe_items (pipe s pi)) + nat (sint n) \<le> PIPESIZE"
  shows "\<exists>s'. pipewrite pi addr n s = Ok (Returned (int (nat (sint n))), nat (sint n), s') \<and> pipe_caller pr pi s' \<and> mem s' = mem s \<and>
    pipe_items (pipe s' pi) = pipe_items (pipe s pi) @ user_bytes s (pagetable (proc s pr)) addr (nat (sint n)) \<and>
    (\<forall>a. a \<noteq> pi \<longrightarrow> pipe s' a = pipe s a) \<and>
    (\<forall>i<NPROC. unlinked (proc s' i) = unlinked (if i \<noteq> pr then woken (Some (ChPipeRead pi)) (proc s i) else proc s i))"
proof -
  let ?N = "nat (sint n)" and ?in = "inside (PipeLock pi) s" and ?root = "pagetable (proc s pr)"
  have u: "user_byte ?in ?root = user_byte s ?root" "user_range ?in ?root = user_range s ?root" by (rule user_memory_cong, simp)+
  obtain p where p: "pipewrite_loop pr pi addr ?N 0 ?in = pipewrite_loop pr pi addr ?N ?N (?in\<lparr>pipe := (pipe s)(pi := p)\<rparr>)"
    "pipe_items p = pipe_items (pipe s pi) @ user_bytes s ?root addr ?N"
    using pipewrite_fill [of ?in pi pr ps addr ?N ?N] op k ur room aspace_inside [OF as, of pi] u by auto
  let ?X = "(pipe s)(pi := p)"
  have "?in\<lparr>pipe := ?X\<rparr> = ?in\<lparr>mem := mem s, pipe := ?X\<rparr>" by (cases s) (simp add: inside_def)
  from wake_and_release [OF c this, of "ChPipeRead pi"] obtain P Q where
    w: "wakeup (Some (ChPipeRead pi)) (?in\<lparr>pipe := ?X\<rparr>) = Ok (?in\<lparr>pipe := ?X, proc := P, queue := Q\<rparr>)"
    "release (PipeLock pi) (?in\<lparr>pipe := ?X, proc := P, queue := Q\<rparr>) = Ok ((relock s)\<lparr>mem := mem s, proc := P, queue := Q, pipe := ?X\<rparr>)"
    "pipe_caller pr pi ((relock s)\<lparr>mem := mem s, proc := P, queue := Q, pipe := ?X\<rparr>)"
    "\<forall>i<NPROC. unlinked (P i) = unlinked (if i \<noteq> pr then woken (Some (ChPipeRead pi)) (proc s i) else proc s i)" by blast
  have "pipewrite pi addr n s = pipewrite_loop pr pi addr ?N ?N (?in\<lparr>pipe := ?X\<rparr>)"
    unfolding pipewrite_def pipe_caller_enter [OF c] by (rule p(1))
  also have "\<dots> = Ok (Returned (int ?N), ?N, (relock s)\<lparr>mem := mem s, proc := P, queue := Q, pipe := ?X\<rparr>)"
    using w(1,2) by (subst pipewrite_loop.simps) simp
  finally show ?thesis using w(3,4) p(2) by (intro exI conjI) (assumption, simp_all)
qed

lemma piperead_run:
  assumes c: "pipe_caller pr pi s" and as: "aspace s (pagetable (proc s pr)) ps"
    and ur: "user_range s (pagetable (proc s pr)) addr (nat (sint n))"
    and ne: "pipe_items (pipe s pi) \<noteq> [] \<or> writeopen (pipe s pi) = 0"
  shows "\<exists>s'. piperead pi addr n s = Ok (Returned (int (min (nat (sint n)) (length (pipe_items (pipe s pi))))), s') \<and> pipe_caller pr pi s' \<and>
    received s (pagetable (proc s pr)) addr (take (nat (sint n)) (pipe_items (pipe s pi))) s' \<and>
    pipe_items (pipe s' pi) = drop (nat (sint n)) (pipe_items (pipe s pi)) \<and> (\<forall>a. a \<noteq> pi \<longrightarrow> pipe s' a = pipe s a) \<and>
    (\<forall>i<NPROC. unlinked (proc s' i) = unlinked (if i \<noteq> pr then woken (Some (ChPipeWrite pi)) (proc s i) else proc s i))"
proof -
  let ?N = "nat (sint n)" and ?in = "inside (PipeLock pi) s" and ?root = "pagetable (proc s pr)" and ?xs = "pipe_items (pipe s pi)"
  let ?k = "min ?N (length ?xs)"
  have u: "user_range ?in ?root = user_range s ?root" by (rule user_memory_cong, simp)
  obtain m p where p: "piperead_copy pr pi addr ?N 0 ?in = piperead_copy pr pi addr ?N ?k (?in\<lparr>mem := m, pipe := (pipe s)(pi := p)\<rparr>)"
    "pipe_items p = drop ?k ?xs" "received ?in ?root addr (take ?k ?xs) (?in\<lparr>mem := m\<rparr>)"
    using piperead_move [of ?in pr ps addr ?N ?k pi] ur aspace_inside [OF as, of pi] u by auto
  let ?X = "(pipe s)(pi := p)"
  from wake_and_release [OF c refl, where m = m and X = ?X and wc = "ChPipeWrite pi"] obtain P Q where
    w: "wakeup (Some (ChPipeWrite pi)) (?in\<lparr>mem := m, pipe := ?X\<rparr>) = Ok (?in\<lparr>mem := m, pipe := ?X, proc := P, queue := Q\<rparr>)"
    "release (PipeLock pi) (?in\<lparr>mem := m, pipe := ?X, proc := P, queue := Q\<rparr>) = Ok ((relock s)\<lparr>mem := m, proc := P, queue := Q, pipe := ?X\<rparr>)"
    "pipe_caller pr pi ((relock s)\<lparr>mem := m, proc := P, queue := Q, pipe := ?X\<rparr>)"
    "\<forall>i<NPROC. unlinked (P i) = unlinked (if i \<noteq> pr then woken (Some (ChPipeWrite pi)) (proc s i) else proc s i)" by blast
  have "piperead_copy pr pi addr ?N ?k (?in\<lparr>mem := m, pipe := ?X\<rparr>) = Ok (?k, ?in\<lparr>mem := m, pipe := ?X\<rparr>)"
    using p(2) by (subst piperead_copy.simps) (simp add: pipe_empty_iff min_def)
  then have "piperead_round pr pi addr ?N ?in = Ok (Returned (int ?k), (relock s)\<lparr>mem := m, proc := P, queue := Q, pipe := ?X\<rparr>)"
    unfolding piperead_round_def p(1) using ne w(1,2) by (elim disjE) (simp_all add: pipe_empty_iff)
  then have "piperead pi addr n s = Ok (Returned (int ?k), (relock s)\<lparr>mem := m, proc := P, queue := Q, pipe := ?X\<rparr>)"
    unfolding piperead_def pipe_caller_enter [OF c] .
  moreover have tk: "take ?k ?xs = take ?N ?xs" by (simp add: min_def)
  have "received s ?root addr (take ?N ?xs) ((relock s)\<lparr>mem := m, proc := P, queue := Q, pipe := ?X\<rparr>)"
    by (rule received_cong [OF p(3) [unfolded tk]]) simp_all
  moreover have "pipe_items p = drop ?N ?xs" using p(2) by (simp add: min_def)
  ultimately show ?thesis using w(3,4) by (intro exI conjI) (assumption, simp_all)
qed

text \<open>
  Property C7. What a process writes to a pipe with room for it is what readers get, in order
  and after the bytes that were in the pipe before: if some process reads \<open>m\<close> bytes with the
  pipe as \<^verbatim>\<open>pipewrite\<close> left it, it is returned the number of bytes there are, up to \<open>m\<close>, finds
  these bytes in its memory, and no other byte of its memory changed; the rest stays in the
  pipe. This holds wherever the counters wrap around, and across page boundaries on both sides.
\<close>

theorem pipe_roundtrip:
  assumes "pipe_caller w pi s" "aspace s (pagetable (proc s w)) ps" "user_range s (pagetable (proc s w)) a (nat (sint n))"
    "killed (proc s w) = 0" "readopen (pipe s pi) \<noteq> 0"
    and bs: "bs = pipe_items (pipe s pi) @ user_bytes s (pagetable (proc s w)) a (nat (sint n))"
    and len: "0 < length bs" "length bs \<le> PIPESIZE"
  shows "\<exists>s1. pipewrite pi a n s = Ok (Returned (int (nat (sint n))), nat (sint n), s1) \<and>
    (\<forall>s2 r b qs. pipe s2 pi = pipe s1 pi \<and> pipe_caller r pi s2 \<and> aspace s2 (pagetable (proc s2 r)) qs \<and>
        user_range s2 (pagetable (proc s2 r)) b (nat (sint m)) \<longrightarrow>
      (\<exists>s3. piperead pi b m s2 = Ok (Returned (int (min (nat (sint m)) (length bs))), s3) \<and>
        received s2 (pagetable (proc s2 r)) b (take (nat (sint m)) bs) s3 \<and>
        pipe_items (pipe s3 pi) = drop (nat (sint m)) bs))"
proof -
  obtain s1 where s1: "pipewrite pi a n s = Ok (Returned (int (nat (sint n))), nat (sint n), s1)" "pipe_items (pipe s1 pi) = bs"
    using pipewrite_run [OF assms(1-5)] bs len(2) by auto
  have "\<exists>s3. piperead pi b m s2 = Ok (Returned (int (min (nat (sint m)) (length bs))), s3) \<and>
      received s2 (pagetable (proc s2 r)) b (take (nat (sint m)) bs) s3 \<and> pipe_items (pipe s3 pi) = drop (nat (sint m)) bs"
    if h: "pipe s2 pi = pipe s1 pi" "pipe_caller r pi s2" "aspace s2 (pagetable (proc s2 r)) qs"
      "user_range s2 (pagetable (proc s2 r)) b (nat (sint m))" for s2 r b qs
  proof -
    have "pipe_items (pipe s2 pi) \<noteq> [] \<or> writeopen (pipe s2 pi) = 0" using h(1) s1(2) len(1) by auto
    from piperead_run [OF h(2,3,4) this] h(1) s1(2) show ?thesis by auto
  qed
  with s1(1) show ?thesis by blast
qed

text \<open>A pipe with one byte in it, whose counters are about to wrap around.\<close>

definition some_pipe :: pipes where
  "some_pipe = undefined\<lparr>tp := 0, sie := \<lambda>_. True, cpus := \<lambda>_. \<lparr>cpu_proc = Some 1, noff = 0, intena = True\<rparr>,
     spin := \<lambda>_. \<lparr>locked = 0, lk_name = [], lk_cpu = None\<rparr>, kend := kend mapped, mem := mem mapped, freelist := freelist mapped,
     proc := \<lambda>_. idle_proc\<lparr>pagetable := 0x87fff000\<rparr>, queue := \<lambda>_. \<lparr>q_timeslice = 0, q_head = None, q_tail = None\<rparr>,
     pipe := \<lambda>_. \<lparr>pi_data = \<lambda>_. 7, nread = 0xfffffffe, nwrite = 0xffffffff, readopen = 1, writeopen = 1\<rparr>\<rparr>"

lemma some_pipe_ok:
  "pipe_caller 1 pi some_pipe" "aspace some_pipe 0x87fff000 []" "user_range some_pipe 0x87fff000 0xffd 3"
  "pagetable (proc some_pipe r) = 0x87fff000" "killed (proc some_pipe r) = 0" "readopen (pipe some_pipe pi) = 1"
  "pipe_items (pipe some_pipe pi) = [7]"
proof -
  have sel: "mem some_pipe = mem mapped" "kend some_pipe = kend mapped" "freelist some_pipe = freelist mapped" "hart_ok some_pipe"
    "lock_free lk some_pipe" for lk by (simp_all add: some_pipe_def lock_simps)
  show "aspace some_pipe 0x87fff000 []" by (rule aspace_cong [OF mapped_aspace(1) sel])
  show "user_range some_pipe 0x87fff000 0xffd 3" using mapped_aspace(2) user_memory_cong(3) [OF sel(1)] by simp
  show "pipe_items (pipe some_pipe pi) = [7]" by (simp add: some_pipe_def pipe_items_def ring_items_def)
qed (simp_all add: some_pipe_def pipe_caller_def may_lock_def table_ok_def quiet_def valid_priority_def paired_def lock_simps idle_proc_def)

theorem pipe_roundtrip_witness:
  "\<exists>s1 s3. pipewrite 0x87ffb000 0xffd 3 some_pipe = Ok (Returned 3, 3, s1) \<and>
    piperead 0x87ffb000 0xffd 2 (some_pipe\<lparr>pipe := pipe s1\<rparr>) = Ok (Returned 2, s3) \<and>
    pipe_items (pipe s3 0x87ffb000) = user_bytes some_pipe 0x87fff000 0xffe 2"
proof -
  let ?bs = "7 # user_bytes some_pipe 0x87fff000 0xffd 3"
  have caller: "pipe_caller 1 pi (some_pipe\<lparr>pipe := X\<rparr>)" for pi X
    using some_pipe_ok(1) [of pi] by (simp add: pipe_caller_def may_lock_def table_ok_def quiet_def valid_priority_def paired_def lock_simps)
  have bs: "?bs = pipe_items (pipe some_pipe 0x87ffb000) @ user_bytes some_pipe (pagetable (proc some_pipe 1)) 0xffd (nat (sint (3 :: cint)))"
    by (simp add: some_pipe_ok)
  have pre: "aspace some_pipe (pagetable (proc some_pipe 1)) []"
    "user_range some_pipe (pagetable (proc some_pipe 1)) 0xffd (nat (sint (3 :: cint)))"
    "readopen (pipe some_pipe 0x87ffb000) \<noteq> 0" "0 < length ?bs" "length ?bs \<le> PIPESIZE"
    by (simp_all add: some_pipe_ok)
  obtain s1 where s1: "pipewrite 0x87ffb000 0xffd 3 some_pipe = Ok (Returned (int (nat (sint (3 :: cint)))), nat (sint (3 :: cint)), s1)"
    "\<forall>(s2 :: pipes) r b qs. pipe s2 0x87ffb000 = pipe s1 0x87ffb000 \<and> pipe_caller r 0x87ffb000 s2 \<and> aspace s2 (pagetable (proc s2 r)) qs \<and>
        user_range s2 (pagetable (proc s2 r)) b (nat (sint (2 :: cint))) \<longrightarrow>
      (\<exists>s3. piperead 0x87ffb000 b 2 s2 = Ok (Returned (int (min (nat (sint (2 :: cint))) (length ?bs))), s3) \<and>
        received s2 (pagetable (proc s2 r)) b (take (nat (sint (2 :: cint))) ?bs) s3 \<and>
        pipe_items (pipe s3 0x87ffb000) = drop (nat (sint (2 :: cint))) ?bs)"
    using pipe_roundtrip [OF some_pipe_ok(1) pre(1,2) some_pipe_ok(5) pre(3) bs pre(4,5), of 2] by blast
  have "user_range some_pipe 0x87fff000 0xffd 2" using user_range_sub(1) [OF some_pipe_ok(3), of 0 2] by simp
  then have "\<exists>s3. piperead 0x87ffb000 0xffd 2 (some_pipe\<lparr>pipe := pipe s1\<rparr>) = Ok (Returned 2, s3) \<and>
      pipe_items (pipe s3 0x87ffb000) = drop 2 ?bs"
    using s1(2) [rule_format, of "some_pipe\<lparr>pipe := pipe s1\<rparr>" 1 "[]" "0xffd"] caller some_pipe_ok(2,4) by auto
  then show ?thesis using s1(1) by (auto simp: numeral_3_eq_3 numeral_2_eq_2)
qed

section \<open>Writing to a full pipe\<close>

text \<open>
  Property C30. A writer goes to sleep only when the pipe is full, having put in as many bytes
  as there was room for; by then it has woken all readers and given up the lock, so that
  they can make room.
\<close>

theorem full_pipe_sleeps:
  assumes c: "pipe_caller pr pi s" "pr < NPROC" "noff (cpus s (tp s)) = 0" and as: "aspace s (pagetable (proc s pr)) ps"
    and ur: "user_range s (pagetable (proc s pr)) addr (nat (sint n))" and k: "killed (proc s pr) = 0"
    and op: "readopen (pipe s pi) \<noteq> 0" and ok: "pipe_ok (pipe s pi)"
    and room: "length (pipe_items (pipe s pi)) + nat (sint n) > PIPESIZE"
  shows "\<exists>s'. pipewrite pi addr n s = Ok (Asleep (sie s (tp s)), PIPESIZE - length (pipe_items (pipe s pi)), s') \<and>
    length (pipe_items (pipe s' pi)) = PIPESIZE \<and>
    pipe_items (pipe s' pi) = pipe_items (pipe s pi) @
      user_bytes s (pagetable (proc s pr)) addr (PIPESIZE - length (pipe_items (pipe s pi))) \<and>
    sleepers (ChPipeRead pi) s' = {} \<and> pr \<in> sleepers (ChPipeWrite pi) s' \<and> lock_free (PipeLock pi) s'"
proof -
  let ?N = "nat (sint n)" and ?in = "inside (PipeLock pi) s" and ?root = "pagetable (proc s pr)"
  let ?k = "PIPESIZE - length (pipe_items (pipe s pi))"
  have u: "user_byte ?in ?root = user_byte s ?root" "user_range ?in ?root = user_range s ?root" by (rule user_memory_cong, simp)+
  obtain p where p: "pipewrite_loop pr pi addr ?N 0 ?in = pipewrite_loop pr pi addr ?N ?k (?in\<lparr>pipe := (pipe s)(pi := p)\<rparr>)"
    "pipe_items p = pipe_items (pipe s pi) @ user_bytes s ?root addr ?k" "readopen p = readopen (pipe s pi)"
    using pipewrite_fill [of ?in pi pr ps addr ?N ?k] op k ur room ok aspace_inside [OF as, of pi] u by (auto simp: pipe_ok_def)
  have full: "length (pipe_items p) = PIPESIZE" using p(2) ok by (simp add: pipe_ok_def)
  let ?X = "(pipe s)(pi := p)"
  have "?in\<lparr>pipe := ?X\<rparr> = ?in\<lparr>mem := mem s, pipe := ?X\<rparr>" by (cases s) (simp add: inside_def)
  from wake_and_release [OF c(1) this, of "ChPipeRead pi"] obtain P Q where
    w: "wakeup (Some (ChPipeRead pi)) (?in\<lparr>pipe := ?X\<rparr>) = Ok (?in\<lparr>pipe := ?X, proc := P, queue := Q\<rparr>)"
    "\<forall>i<NPROC. unlinked (P i) = unlinked (if i \<noteq> pr then woken (Some (ChPipeRead pi)) (proc s i) else proc s i)"
    "within (PipeLock pi) s (?in\<lparr>pipe := ?X, proc := P, queue := Q\<rparr>)" by blast
  let ?t = "?in\<lparr>pipe := ?X, proc := P, queue := Q\<rparr>"
  have r: "may_lock (PipeLock pi) s" "cpu_proc (cpus s (tp s)) = Some pr" using c(1) by (simp_all add: pipe_caller_def)
  obtain s' where s': "sleep (ChPipeWrite pi) (PipeLock pi) ?t = Ok (sie s (tp s), s')" "lock_free (PipeLock pi) s'"
    and pq: "proc s' = P(pr := (P pr)\<lparr>chan := Some (ChPipeWrite pi), state := SLEEPING\<rparr>)" "pipe s' = ?X"
    using sleep_within [OF r(1) w(3) r(2) c(2,3) refl, where wc = "ChPipeWrite pi"] by simp
  have lt: "?k < ?N" using room ok by (auto simp: pipe_ok_def)
  have nf: "nwrite p = nread p + of_nat PIPESIZE" using pipe_full_iff full by blast
  have "pipewrite pi addr n s = pipewrite_loop pr pi addr ?N ?k (?in\<lparr>pipe := ?X\<rparr>)"
    unfolding pipewrite_def pipe_caller_enter [OF c(1)] by (rule p(1))
  also have "\<dots> = Ok (Asleep (sie s (tp s)), ?k, s')"
    using w(1) s'(1) nf p(3) op k lt by (subst pipewrite_loop.simps) (simp del: diff_less)
  finally have run: "pipewrite pi addr n s = Ok (Asleep (sie s (tp s)), ?k, s')" .
  have "\<not> (state (P i) = SLEEPING \<and> chan (P i) = Some (ChPipeRead pi))" if "i < NPROC" "i \<noteq> pr" for i
    using unlinked_sel [OF w(2) [rule_format, OF that(1)]] that(2) by (auto simp: woken_def split: if_splits)
  then have "sleepers (ChPipeRead pi) s' = {}" using pq(1) by (auto simp: sleepers_def)
  moreover have "pr \<in> sleepers (ChPipeWrite pi) s'" using pq(1) c(2) by (simp add: sleepers_def)
  ultimately show ?thesis using run full p(2) s'(2) pq(2) by (intro exI conjI) (assumption, simp_all)
qed

theorem full_pipe_sleeps_witness:
  "\<exists>s'. pipewrite 0x87ffb000 0xffd 3 (some_pipe\<lparr>pipe := \<lambda>_. \<lparr>pi_data = \<lambda>_. 7, nread = 0, nwrite = 510, readopen = 1, writeopen = 1\<rparr>\<rparr>) =
      Ok (Asleep True, 2, s') \<and> length (pipe_items (pipe s' 0x87ffb000)) = 512 \<and> 1 \<in> sleepers (ChPipeWrite 0x87ffb000) s'"
proof -
  let ?s = "some_pipe\<lparr>pipe := \<lambda>_. \<lparr>pi_data = \<lambda>_. 7, nread = 0, nwrite = 510, readopen = 1, writeopen = 1\<rparr>\<rparr>"
  have len: "length (pipe_items (pipe ?s pi)) = 510" for pi by (simp add: pipe_items_def)
  have "pipe_caller 1 pi ?s" for pi
    using some_pipe_ok(1) [of pi] by (simp add: pipe_caller_def may_lock_def table_ok_def quiet_def valid_priority_def paired_def lock_simps)
  moreover have "sie ?s (tp ?s) = True" "noff (cpus ?s (tp ?s)) = 0" by (simp_all add: some_pipe_def)
  ultimately show ?thesis using full_pipe_sleeps [of 1 "0x87ffb000" ?s "[]" "0xffd" 3] some_pipe_ok(2-5) len
    by (auto simp: pipe_ok_def)
qed

end
