(* ===== verification/Virtio_Spec.thy ===== *)
theory Virtio_Spec
  imports Virtio Critical
begin

text \<open>
  What the disk driver promises: descriptors are handed out and taken back like slots of a
  pool, a request asks for three of them or none, and a transfer through the rings, the
  device and the interrupt handler does what the buffer cache expects of \<^verbatim>\<open>virtio_disk_rw\<close>.
\<close>

declare upt_rec_numeral [simp del] free_chain_loop.simps [simp del]

section \<open>The pool of descriptors\<close>

definition free_descs :: "'a vdisk_scheme \<Rightarrow> nat set" where
  "free_descs s = {i. i < NUM \<and> vd_free s i}"

text \<open>Inside the critical section of the driver's lock.\<close>

definition in_driver :: "'a vdisk_scheme \<Rightarrow> bool" where
  "in_driver t \<longleftrightarrow> (\<exists>s. may_lock VdiskLock s \<and> within VdiskLock s t)"

lemma within_vdisk [simp]:
  "within lk s (t\<lparr>vd_desc := x1\<rparr>) = within lk s t" "within lk s (t\<lparr>vd_free := x2\<rparr>) = within lk s t"
  "within lk s (t\<lparr>vd_info_b := x3\<rparr>) = within lk s t" "within lk s (t\<lparr>vd_info_status := x4\<rparr>) = within lk s t"
  "within lk s (t\<lparr>vd_ops := x5\<rparr>) = within lk s t" "within lk s (t\<lparr>vd_avail := x6\<rparr>) = within lk s t"
  "within lk s (t\<lparr>vd_avail_idx := x7\<rparr>) = within lk s t" "within lk s (t\<lparr>vd_seen := x8\<rparr>) = within lk s t"
  "within lk s (t\<lparr>mmio_wr := x9\<rparr>) = within lk s t"
  by (simp_all add: within_def valid_priority_def paired_def)

lemma within_buf [simp]: "within lk s (t\<lparr>buf := x\<rparr>) = within lk s t"
  by (simp add: within_def valid_priority_def paired_def)

lemma free_desc_run:
  assumes "may_lock VdiskLock s" "within VdiskLock s t" "i < NUM" "\<not> vd_free t i"
  shows "\<exists>P Q. free_desc i t = Ok (t\<lparr>vd_desc := (vd_desc t)(i := no_desc), vd_free := (vd_free t)(i := True), proc := P, queue := Q\<rparr>) \<and>
    within VdiskLock s (t\<lparr>vd_desc := (vd_desc t)(i := no_desc), vd_free := (vd_free t)(i := True), proc := P, queue := Q\<rparr>) \<and>
    (\<forall>i<NPROC. unlinked (P i) = unlinked (if Some i \<noteq> cpu_proc (cpus s (tp s)) then woken (Some ChDesc) (proc t i) else proc t i))"
proof -
  let ?t = "t\<lparr>vd_desc := (vd_desc t)(i := no_desc), vd_free := (vd_free t)(i := True)\<rparr>"
  have "vd_desc t i\<lparr>vq_addr := VNull, vq_len := 0, vq_flags := 0, vq_next := 0\<rparr> = no_desc"
    by (cases "vd_desc t i") (simp add: no_desc_def)
  then have e: "free_desc i t = wakeup (Some ChDesc) ?t" using assms(3,4) by (simp add: free_desc_def upd_desc_def)
  have "within VdiskLock s ?t" using assms(2) by simp
  moreover have "proc ?t = proc t" by simp
  ultimately show ?thesis using wakeup_within [OF assms(1), of ?t "Some ChDesc"] unfolding e by metis
qed

lemma alloc_desc_none: "free_descs s = {} \<Longrightarrow> alloc_desc s = (None, s)"
  by (auto simp: alloc_desc_def free_descs_def find_None_iff split: option.splits dest: find_SomeD)

lemma alloc_desc_some:
  assumes "free_descs s \<noteq> {}"
  shows "\<exists>i \<in> free_descs s. alloc_desc s = (Some i, s\<lparr>vd_free := (vd_free s)(i := False)\<rparr>) \<and>
    free_descs (s\<lparr>vd_free := (vd_free s)(i := False)\<rparr>) = free_descs s - {i}"
proof -
  obtain i where "find (\<lambda>i. vd_free s i) [0..<NUM] = Some i"
    using assms by (cases "find (\<lambda>i. vd_free s i) [0..<NUM]") (auto simp: find_None_iff free_descs_def)
  moreover from find_SomeD [OF this] have "i \<in> free_descs s" by (auto simp: free_descs_def)
  ultimately show ?thesis by (intro bexI [of _ i]) (auto simp: alloc_desc_def free_descs_def)
qed

interpretation vdesc: slot_pool in_driver free_descs "\<lambda>s i. i < NUM \<and> \<not> vd_free s i" "\<lambda>s. Ok (alloc_desc s)" free_desc
proof
  fix s :: "'a vdisk_scheme" and r assume inv: "in_driver s"
  show "finite (free_descs s)" by (simp add: free_descs_def)
  show "\<exists>r s'. Ok (alloc_desc s) = Ok (Some r, s') \<and> r \<in> free_descs s \<and> free_descs s' = free_descs s - {r} \<and> in_driver s' \<and>
      r < NUM \<and> \<not> vd_free s' r" if "free_descs s \<noteq> {}"
    using alloc_desc_some [OF that] inv by (auto simp: in_driver_def free_descs_def)
  show "\<exists>s'. Ok (alloc_desc s) = Ok (None, s') \<and> free_descs s' = {} \<and> in_driver s'" if "free_descs s = {}"
    using alloc_desc_none [OF that] inv that by simp
  assume r: "r < NUM \<and> \<not> vd_free s r"
  then show "r \<notin> free_descs s" by (simp add: free_descs_def)
  from inv obtain s0 where "may_lock VdiskLock s0" "within VdiskLock s0 s" by (auto simp: in_driver_def)
  from free_desc_run [OF this] this(1) r show "\<exists>s'. free_desc r s = Ok s' \<and> free_descs s' = insert r (free_descs s) \<and> in_driver s'"
    by (fastforce simp: in_driver_def free_descs_def)
qed

lemma free_chain_loop_ends:
  assumes "in_driver s" "card {k. k < NUM \<and> \<not> vd_free s k} \<le> fuel"
  shows "(\<exists>s'. free_chain_loop fuel i s = Ok s' \<and> in_driver s' \<and> insert i (free_descs s) \<subseteq> free_descs s') \<or>
    (\<exists>m. free_chain_loop fuel i s = Panic m)"
  using assms
proof (induction fuel arbitrary: i s)
  case 0
  then show ?case by (simp add: free_chain_loop.simps free_desc_def)
next
  case (Suc fuel)
  show ?case
  proof (cases "i < NUM \<and> \<not> vd_free s i")
    case False
    then show ?thesis by (auto simp: free_chain_loop.simps free_desc_def)
  next
    case True
    from Suc.prems(1) obtain s0 where s0: "may_lock VdiskLock s0" "within VdiskLock s0 s" by (auto simp: in_driver_def)
    from free_desc_run [OF this] True obtain P Q where f:
      "free_desc i s = Ok (s\<lparr>vd_desc := (vd_desc s)(i := no_desc), vd_free := (vd_free s)(i := True), proc := P, queue := Q\<rparr>)"
      "within VdiskLock s0 (s\<lparr>vd_desc := (vd_desc s)(i := no_desc), vd_free := (vd_free s)(i := True), proc := P, queue := Q\<rparr>)" by blast
    let ?s = "s\<lparr>vd_desc := (vd_desc s)(i := no_desc), vd_free := (vd_free s)(i := True), proc := P, queue := Q\<rparr>"
    have d: "in_driver ?s" using s0(1) f(2) by (auto simp: in_driver_def)
    have fr: "free_descs ?s = insert i (free_descs s)" using True by (auto simp: free_descs_def)
    have "{k. k < NUM \<and> \<not> vd_free ?s k} = {k. k < NUM \<and> \<not> vd_free s k} - {i}" by auto
    then have "card {k. k < NUM \<and> \<not> vd_free ?s k} \<le> fuel" using Suc.prems(2) True by simp
    from Suc.IH [OF d this, of "unat (vq_next (vd_desc s i))"] d fr f(1) show ?thesis
      by (cases "vq_flags (vd_desc s i) AND 1 = 0") (auto simp: free_chain_loop.simps [of "Suc fuel"] Let_def)
  qed
qed

text \<open>
  Property C31. \<^verbatim>\<open>free_chain\<close> ends whatever the descriptors contain, a chain that runs in a circle
  or out of the table included: it has freed the descriptor it was given and none has got lost,
  or it panics, at a descriptor that is free already or does not exist.
\<close>

theorem free_chain_terminates:
  assumes "in_driver s"
  shows "(\<exists>s'. free_chain i s = Ok s' \<and> in_driver s' \<and> insert i (free_descs s) \<subseteq> free_descs s') \<or> (\<exists>m. free_chain i s = Panic m)"
proof -
  have "{k. k < NUM \<and> \<not> vd_free s k} \<subseteq> {..<NUM}" by auto
  from card_mono [OF _ this] have "card {k. k < NUM \<and> \<not> vd_free s k} \<le> NUM" by simp
  from free_chain_loop_ends [OF assms this] show ?thesis unfolding free_chain_def .
qed

section \<open>Three descriptors, or none\<close>

lemma alloc3_some:
  assumes "3 \<le> card (free_descs s)"
  shows "\<exists>i j k. distinct [i, j, k] \<and> {i, j, k} \<subseteq> free_descs s \<and>
    alloc3_desc s = Ok (Some (i, j, k), s\<lparr>vd_free := (vd_free s)(i := False, j := False, k := False)\<rparr>)"
proof -
  have fin: "finite (free_descs s)" by (simp add: free_descs_def)
  have "free_descs s \<noteq> {}" using assms by auto
  from alloc_desc_some [OF this] obtain i where i: "i \<in> free_descs s" "alloc_desc s = (Some i, s\<lparr>vd_free := (vd_free s)(i := False)\<rparr>)"
    "free_descs (s\<lparr>vd_free := (vd_free s)(i := False)\<rparr>) = free_descs s - {i}" by blast
  let ?s1 = "s\<lparr>vd_free := (vd_free s)(i := False)\<rparr>"
  have c1: "2 \<le> card (free_descs ?s1)" using assms i fin by simp
  then have "free_descs ?s1 \<noteq> {}" by auto
  from alloc_desc_some [OF this] obtain j where j: "j \<in> free_descs ?s1" "alloc_desc ?s1 = (Some j, ?s1\<lparr>vd_free := (vd_free ?s1)(j := False)\<rparr>)"
    "free_descs (?s1\<lparr>vd_free := (vd_free ?s1)(j := False)\<rparr>) = free_descs ?s1 - {j}" by blast
  let ?s2 = "?s1\<lparr>vd_free := (vd_free ?s1)(j := False)\<rparr>"
  have "1 \<le> card (free_descs ?s2)" using c1 i j fin by simp
  then have "free_descs ?s2 \<noteq> {}" by auto
  from alloc_desc_some [OF this] obtain k where k: "k \<in> free_descs ?s2" "alloc_desc ?s2 = (Some k, ?s2\<lparr>vd_free := (vd_free ?s2)(k := False)\<rparr>)"
    by blast
  have "distinct [i, j, k]" "{i, j, k} \<subseteq> free_descs s" using i(1,3) j(1,3) k(1) by auto
  moreover have "alloc3_desc s = Ok (Some (i, j, k), s\<lparr>vd_free := (vd_free s)(i := False, j := False, k := False)\<rparr>)"
    using i(2) j(2) k(2) by (simp add: alloc3_desc_def Let_def)
  ultimately show ?thesis by blast
qed

lemma undo_allocs:
  assumes "in_driver s" "set is \<subseteq> {i. i < NUM \<and> \<not> vd_free s i}" "distinct is"
  shows "\<exists>s'. mfold free_desc is s = Ok s' \<and> in_driver s' \<and> free_descs s' = set is \<union> free_descs s"
  using assms
proof (induction "is" arbitrary: s)
  case (Cons i "is")
  then obtain s1 where s1: "free_desc i s = Ok s1" "free_descs s1 = insert i (free_descs s)" "in_driver s1"
    using vdesc.dealloc_ok [of s i] by auto
  have "set is \<subseteq> {i. i < NUM \<and> \<not> vd_free s1 i}"
    using Cons.prems(2,3) s1(2) by (auto simp: free_descs_def set_eq_iff)
  from Cons.IH [OF s1(3) this] Cons.prems(3) s1(1,2) show ?case by auto
qed simp

lemma alloc3_none:
  assumes d: "in_driver s" and c: "card (free_descs s) < 3"
  shows "\<exists>s'. alloc3_desc s = Ok (None, s') \<and> in_driver s' \<and> free_descs s' = free_descs s"
proof -
  have fin: "finite (free_descs s)" by (simp add: free_descs_def)
  show ?thesis
  proof (cases "free_descs s = {}")
    case True
    then show ?thesis using alloc_desc_none [OF True] d by (simp add: alloc3_desc_def)
  next
    case False
    from alloc_desc_some [OF this] obtain i where i: "i \<in> free_descs s" "alloc_desc s = (Some i, s\<lparr>vd_free := (vd_free s)(i := False)\<rparr>)"
      "free_descs (s\<lparr>vd_free := (vd_free s)(i := False)\<rparr>) = free_descs s - {i}" by blast
    let ?s1 = "s\<lparr>vd_free := (vd_free s)(i := False)\<rparr>"
    have d1: "in_driver ?s1" using d by (simp add: in_driver_def)
    show ?thesis
    proof (cases "free_descs ?s1 = {}")
      case True
      have "set [i] \<subseteq> {k. k < NUM \<and> \<not> vd_free ?s1 k}" "distinct [i]" using i(1) by (simp_all add: free_descs_def)
      from undo_allocs [OF d1 this] obtain s' where s': "mfold free_desc [i] ?s1 = Ok s'" "in_driver s'" "free_descs s' = set [i] \<union> free_descs ?s1"
        by blast
      have "free_descs s' = free_descs s" unfolding s'(3) i(3) using i(1) by auto
      then show ?thesis using alloc_desc_none [OF True] i(2) s'(1,2) unfolding alloc3_desc_def by simp
    next
      case False
      from alloc_desc_some [OF this] obtain j where j: "j \<in> free_descs ?s1" "alloc_desc ?s1 = (Some j, ?s1\<lparr>vd_free := (vd_free ?s1)(j := False)\<rparr>)"
        "free_descs (?s1\<lparr>vd_free := (vd_free ?s1)(j := False)\<rparr>) = free_descs ?s1 - {j}" by blast
      let ?s2 = "?s1\<lparr>vd_free := (vd_free ?s1)(j := False)\<rparr>"
      have "card (free_descs s - {i} - {j}) = 0" using c i(1) j(1) i(3) fin by (simp add: card_Diff_singleton)
      then have e: "free_descs ?s2 = {}" using i(3) j(3) fin by simp
      have d2: "in_driver ?s2" using d by (simp add: in_driver_def)
      have "i < NUM" "j < NUM" "i \<noteq> j" using i(1) j(1) unfolding i(3) by (simp_all add: free_descs_def)
      then have "set [i, j] \<subseteq> {k. k < NUM \<and> \<not> vd_free ?s2 k}" "distinct [i, j]" by simp_all
      from undo_allocs [OF d2 this] obtain s' where s': "mfold free_desc [i, j] ?s2 = Ok s'" "in_driver s'" "free_descs s' = set [i, j] \<union> free_descs ?s2"
        by blast
      have "free_descs s' = free_descs s" unfolding s'(3) j(3) i(3) using i(1) j(1) i(3) by auto
      then show ?thesis using alloc_desc_none [OF e] i(2) j(2) s'(1,2) unfolding alloc3_desc_def by simp
    qed
  qed
qed

section \<open>The device\<close>

text \<open>
  A request as the virtio specification has it: a header the device reads, a buffer of one block
  that it reads or writes, and a status byte that it writes. The result is whether the block is
  to be written to the disk, the sector, the buffer, and which status byte to set.
\<close>

definition blk_request :: "'a vdisk_scheme \<Rightarrow> nat \<Rightarrow> (bool \<times> uint64 \<times> nat \<times> nat) option" where
  "blk_request s i =
     (let d0 = vd_desc s i; d1 = vd_desc s (unat (vq_next d0)); d2 = vd_desc s (unat (vq_next d1)) in
      case (vq_addr d0, vq_addr d1, vq_addr d2) of
        (VReq r, VData b, VStatus st) \<Rightarrow>
          let out = (rq_type (vd_ops s r) = VIRTIO_BLK_T_OUT) in
          if vq_flags d0 = VRING_DESC_F_NEXT \<and> vq_len d0 = 16 \<and>
             vq_flags d1 = (if out then 0 else VRING_DESC_F_WRITE) OR VRING_DESC_F_NEXT \<and> vq_len d1 = of_nat BSIZE \<and>
             vq_flags d2 = VRING_DESC_F_WRITE \<and> vq_len d2 = 1 \<and> (out \<or> rq_type (vd_ops s r) = VIRTIO_BLK_T_IN)
          then Some (out, rq_sector (vd_ops s r), b, st) else None
      | _ \<Rightarrow> None)"

text \<open>
  What the driver relies on: a device that has a request in the available ring carries it out on
  the two sectors of the block, sets the status to 0 and puts the request on the used ring.
\<close>

definition virtio_device :: "('a vdisk_scheme \<Rightarrow> 'a vdisk_scheme) \<Rightarrow> bool" where
  "virtio_device dev \<longleftrightarrow> (\<forall>s i wr n b st.
     vd_used_idx s \<noteq> vd_avail_idx s \<and> vd_avail s (unat (vd_used_idx s) mod NUM) = of_nat i \<and> i < NUM \<and>
     blk_request s i = Some (wr, 2 * ucast n, b, st) \<longrightarrow>
     dev s =
       (if wr then s\<lparr>disk := (disk s)(n := b_data (buf s b)), disk_writes := disk_writes s @ [(n, b_data (buf s b))]\<rparr>
        else s\<lparr>buf := (buf s)(b := (buf s b)\<lparr>b_data := disk s n\<rparr>)\<rparr>)
         \<lparr>vd_info_status := (vd_info_status s)(st := 0),
          vd_used := (vd_used s)(unat (vd_used_idx s) mod NUM := of_nat i), vd_used_idx := vd_used_idx s + 1\<rparr>)"

text \<open>No request is under way.\<close>

definition rings_idle :: "'a vdisk_scheme \<Rightarrow> bool" where
  "rings_idle s \<longleftrightarrow> vd_used_idx s = vd_avail_idx s \<and> vd_seen s = vd_used_idx s"

section \<open>A transfer\<close>

text \<open>The three descriptors of a request, with the fields that \<^verbatim>\<open>free_chain\<close> looks at.\<close>

definition chained :: "'a vdisk_scheme \<Rightarrow> nat \<Rightarrow> nat \<Rightarrow> nat \<Rightarrow> bool" where
  "chained s i j k \<longleftrightarrow> distinct [i, j, k] \<and> i < NUM \<and> j < NUM \<and> k < NUM \<and> \<not> vd_free s i \<and> \<not> vd_free s j \<and> \<not> vd_free s k \<and>
     vq_flags (vd_desc s i) AND VRING_DESC_F_NEXT \<noteq> 0 \<and> vq_next (vd_desc s i) = of_nat j \<and>
     vq_flags (vd_desc s j) AND VRING_DESC_F_NEXT \<noteq> 0 \<and> vq_next (vd_desc s j) = of_nat k \<and>
     vq_flags (vd_desc s k) AND VRING_DESC_F_NEXT = 0"

lemma unat_desc: "i < NUM \<Longrightarrow> unat (of_nat i :: ushort) = i" "i < NUM \<Longrightarrow> unat (of_nat i :: uint) = i"
  by (simp_all add: unat_of_nat)

lemma sector_of_block:
  assumes "unat (n :: uint) < 2 ^ 31"
  shows "(ucast (n * 2) :: uint64) = 2 * ucast n"
  using assms by (simp add: word_unat_eq_iff unat_word_ariths unat_ucast_uint64)

lemma submit_request:
  assumes ijk: "distinct [i, j, k]" "i < NUM" "j < NUM" "k < NUM" and free: "\<not> vd_free t i" "\<not> vd_free t j" "\<not> vd_free t k"
    and n: "unat (b_blockno (buf t b)) < 2 ^ 31"
  shows "chained (submit i j k b wr t) i j k"
    and "blk_request (submit i j k b wr t) i = Some (wr, 2 * ucast (b_blockno (buf t b)), b, i)"
  using assms unat_desc [OF ijk(3)] unat_desc [OF ijk(4)] sector_of_block [OF n]
  by (cases wr; simp add: submit_def chained_def blk_request_def upd_desc_def upd_buf_def wr_reg_def Let_def)+

lemma submit_sel:
  "vd_avail_idx (submit i j k b wr t) = vd_avail_idx t + 1"
  "vd_avail (submit i j k b wr t) (unat (vd_avail_idx t) mod NUM) = of_nat i"
  "vd_used_idx (submit i j k b wr t) = vd_used_idx t" "vd_seen (submit i j k b wr t) = vd_seen t"
  "vd_free (submit i j k b wr t) = vd_free t" "vd_info_b (submit i j k b wr t) = (vd_info_b t)(i := Some b)"
  "buf (submit i j k b wr t) = (buf t)(b := (buf t b)\<lparr>b_disk := 1\<rparr>)"
  "disk (submit i j k b wr t) = disk t" "disk_writes (submit i j k b wr t) = disk_writes t"
  "proc (submit i j k b wr t) = proc t" "within lk s (submit i j k b wr t) = within lk s t"
  by (simp_all add: submit_def upd_desc_def upd_buf_def wr_reg_def Let_def)

text \<open>
  In \<open>t\<close> the request that was made in \<open>s\<close> for buffer \<open>b\<close> has the descriptors \<open>i\<close>, \<open>j\<close>, \<open>k\<close>;
  nothing else the driver knows of has changed.
\<close>

definition pending :: "'a vdisk_scheme \<Rightarrow> nat \<Rightarrow> nat \<Rightarrow> nat \<Rightarrow> nat \<Rightarrow> 'a vdisk_scheme \<Rightarrow> bool" where
  "pending s i j k b t \<longleftrightarrow> chained t i j k \<and> {i, j, k} \<subseteq> free_descs s \<and> vd_free t = (vd_free s)(i := False, j := False, k := False) \<and>
     vd_info_b t i = Some b \<and> vd_avail_idx t = vd_avail_idx s + 1"

lemma pending_frame [simp]:
  "pending s i j k b (t\<lparr>sie := x1\<rparr>) = pending s i j k b t" "pending s i j k b (t\<lparr>cpus := x2\<rparr>) = pending s i j k b t"
  "pending s i j k b (t\<lparr>spin := x3\<rparr>) = pending s i j k b t" "pending s i j k b (t\<lparr>proc := x4\<rparr>) = pending s i j k b t"
  "pending s i j k b (t\<lparr>queue := x5\<rparr>) = pending s i j k b t" "pending s i j k b (t\<lparr>buf := x6\<rparr>) = pending s i j k b t"
  "pending s i j k b (t\<lparr>disk := x7\<rparr>) = pending s i j k b t" "pending s i j k b (t\<lparr>disk_writes := x8\<rparr>) = pending s i j k b t"
  "pending s i j k b (t\<lparr>vd_info_status := x9\<rparr>) = pending s i j k b t" "pending s i j k b (t\<lparr>vd_used := x10\<rparr>) = pending s i j k b t"
  "pending s i j k b (t\<lparr>vd_used_idx := x11\<rparr>) = pending s i j k b t" "pending s i j k b (t\<lparr>vd_seen := x12\<rparr>) = pending s i j k b t"
  "pending s i j k b (t\<lparr>mmio_wr := x13\<rparr>) = pending s i j k b t"
  by (simp_all add: pending_def chained_def)

lemma blk_request_cong:
  assumes "vd_desc t = vd_desc s" "vd_ops t = vd_ops s"
  shows "blk_request t i = blk_request s i"
  unfolding blk_request_def assms ..

lemma rw_start:
  assumes r: "may_lock VdiskLock s" "cpu_proc (cpus s (tp s)) = Some p" "p < NPROC" "noff (cpus s (tp s)) = 0"
    and f: "3 \<le> card (free_descs s)" and n: "unat (b_blockno (buf s b)) < 2 ^ 31"
  shows "\<exists>i j k s1. virtio_disk_rw b wr s = Ok (Transfer i (sie s (tp s)), s1) \<and> within (ProcLock p) s s1 \<and> lock_free VdiskLock s1 \<and>
    pending s i j k b s1 \<and> blk_request s1 i = Some (wr, 2 * ucast (b_blockno (buf s b)), b, i) \<and>
    vd_avail s1 (unat (vd_avail_idx s) mod NUM) = of_nat i \<and> vd_used_idx s1 = vd_used_idx s \<and> vd_seen s1 = vd_seen s \<and>
    buf s1 = (buf s)(b := (buf s b)\<lparr>b_disk := 1\<rparr>) \<and> disk s1 = disk s \<and> disk_writes s1 = disk_writes s \<and>
    state (proc s1 p) = SLEEPING \<and> chan (proc s1 p) = Some (ChBuf b)"
proof -
  let ?in = "inside VdiskLock s"
  have sel: "vd_free ?in = vd_free s" "free_descs ?in = free_descs s" "buf ?in = buf s" "disk ?in = disk s" "disk_writes ?in = disk_writes s"
    "vd_avail_idx ?in = vd_avail_idx s" "vd_used_idx ?in = vd_used_idx s" "vd_seen ?in = vd_seen s"
    by (simp_all add: inside_def free_descs_def)
  obtain i j k where ijk: "distinct [i, j, k]" "{i, j, k} \<subseteq> free_descs s"
    and a: "alloc3_desc ?in = Ok (Some (i, j, k), ?in\<lparr>vd_free := (vd_free s)(i := False, j := False, k := False)\<rparr>)"
    using alloc3_some [of ?in] f sel(1,2) by auto
  let ?t = "?in\<lparr>vd_free := (vd_free s)(i := False, j := False, k := False)\<rparr>"
  let ?u = "submit i j k b wr ?t"
  have lt: "i < NUM" "j < NUM" "k < NUM" using ijk(2) by (auto simp: free_descs_def)
  note sub = submit_request [OF ijk(1) lt, of ?t b wr]
  have w: "within VdiskLock s ?u" using enter(2) [OF r(1)] by (simp add: submit_sel)
  let ?s1 = "?u\<lparr>sie := sie (inside (ProcLock p) s), cpus := cpus (inside (ProcLock p) s), spin := spin (inside (ProcLock p) s),
    proc := (proc ?u)(p := (proc ?u p)\<lparr>chan := Some (ChBuf b), state := SLEEPING\<rparr>)\<rparr>"
  note sl = sleep_within [OF r(1) w r(2,3,4) refl, where wc = "ChBuf b"]
  have "pending s i j k b ?u" using sub(1) ijk(2) n sel by (simp add: pending_def submit_sel)
  then have "pending s i j k b ?s1" by simp
  moreover have "blk_request ?s1 i = blk_request ?u i" by (rule blk_request_cong) simp_all
  then have "blk_request ?s1 i = Some (wr, 2 * ucast (b_blockno (buf s b)), b, i)" using sub(2) n sel(3) by simp
  moreover have "virtio_disk_rw b wr s = Ok (Transfer i (sie s (tp s)), ?s1)"
    using enter(1) [OF r(1)] a sl(1) by (simp add: virtio_disk_rw_def rw_round_def rw_wait_def submit_sel)
  moreover have "vd_avail ?s1 (unat (vd_avail_idx s) mod NUM) = of_nat i" using submit_sel(2) [of i j k b wr ?t] sel(6) by simp
  ultimately show ?thesis using sl(2,3) sel by (intro exI conjI) (assumption | simp add: submit_sel)+
qed

lemma may_lock_vdisk [simp]:
  "may_lock lk (t\<lparr>vd_info_status := x1\<rparr>) = may_lock lk t" "may_lock lk (t\<lparr>vd_used := x2\<rparr>) = may_lock lk t" "may_lock lk (t\<lparr>vd_used_idx := x3\<rparr>) = may_lock lk t"
  by (simp_all add: may_lock_def table_ok_def quiet_def valid_priority_def paired_def lock_simps)

lemma may_lock_disk [simp]:
  "may_lock lk (t\<lparr>buf := x1\<rparr>) = may_lock lk t" "may_lock lk (t\<lparr>disk := x2\<rparr>) = may_lock lk t" "may_lock lk (t\<lparr>disk_writes := x3\<rparr>) = may_lock lk t"
  by (simp_all add: may_lock_def table_ok_def quiet_def valid_priority_def paired_def lock_simps)

text \<open>The interrupt handler finds one request on the used ring.\<close>

lemma intr_one:
  assumes r: "may_lock VdiskLock s" and u: "vd_used_idx s = vd_seen s + 1" "vd_used s (unat (vd_seen s) mod NUM) = of_nat i" "i < NUM"
    "vd_info_status s i = 0" "vd_info_b s i = Some b"
    and p: "p < NPROC" "cpu_proc (cpus s (tp s)) \<noteq> Some p" "state (proc s p) = SLEEPING" "chan (proc s p) = Some (ChBuf b)"
  shows "\<exists>s'. virtio_disk_intr s = Ok s' \<and> may_lock VdiskLock s' \<and> state (proc s' p) = RUNNABLE \<and> noff (cpus s' (tp s')) = noff (cpus s (tp s)) \<and>
    s' = s\<lparr>cpus := cpus s', proc := proc s', queue := queue s', mmio_wr := mmio_wr s', vd_seen := vd_seen s + 1,
      buf := (buf s)(b := (buf s b)\<lparr>b_disk := 0\<rparr>)\<rparr>"
proof -
  let ?t = "wr_reg 0x64 (mmio_rd (inside VdiskLock s) 0x60 AND 3) (inside VdiskLock s)"
  let ?u = "upd_buf b (\<lambda>r. r\<lparr>b_disk := 0\<rparr>) ?t"
  have "within VdiskLock s ?u" using enter(2) [OF r] by (simp add: upd_buf_def wr_reg_def)
  from wakeup_within [OF r this, of "Some (ChBuf b)"] obtain P Q where
    w: "wakeup (Some (ChBuf b)) ?u = Ok (?u\<lparr>proc := P, queue := Q\<rparr>)" "within VdiskLock s (?u\<lparr>proc := P, queue := Q\<rparr>)"
    "\<forall>i<NPROC. unlinked (P i) = unlinked (if Some i \<noteq> cpu_proc (cpus s (tp s)) then woken (Some (ChBuf b)) (proc ?u i) else proc ?u i)"
    by blast
  have "proc ?u = proc s" by (simp add: upd_buf_def wr_reg_def)
  then have "unlinked (P p) = unlinked (woken (Some (ChBuf b)) (proc s p))" using w(3) [rule_format, OF p(1)] p(2) by simp
  from unlinked_sel(2) [OF this] have run: "state (P p) = RUNNABLE" using p(3,4) by (simp add: woken_def)
  let ?v = "?u\<lparr>proc := P, queue := Q, vd_seen := vd_seen s + 1\<rparr>"
  have v: "within VdiskLock s ?v" using w(2) by simp
  have sel: "vd_used_idx ?t = vd_used_idx s" "vd_seen ?t = vd_seen s" "vd_used ?t = vd_used s" "vd_info_status ?t = vd_info_status s"
    "vd_info_b ?t = vd_info_b s" by (simp_all add: wr_reg_def inside_def)
  have "intr_loop (unat (vd_used_idx ?t - vd_seen ?t)) ?t = Ok ?v"
    unfolding sel(1,2) u(1) using u(2-5) w(1) sel unat_desc(2) [OF u(3)] by (simp add: Let_def upd_buf_def wr_reg_def inside_def)
  then have "virtio_disk_intr s = Ok (leave s ?v)"
    using enter(1) [OF r] release_within(1) [OF r v] by (simp add: virtio_disk_intr_def Let_def)
  moreover have "may_lock VdiskLock (leave s ?v)" by (rule release_within(2) [OF r v])
  moreover have "leave s ?v = s\<lparr>cpus := cpus (leave s ?v), proc := P, queue := Q, mmio_wr := mmio_wr (leave s ?v), vd_seen := vd_seen s + 1,
      buf := (buf s)(b := (buf s b)\<lparr>b_disk := 0\<rparr>)\<rparr>"
    by (cases s) (simp add: leave_def upd_buf_def wr_reg_def inside_def)
  moreover have "noff (cpus (leave s ?v) (tp (leave s ?v))) = noff (cpus s (tp s))" "proc (leave s ?v) = P" "queue (leave s ?v) = Q"
    by (simp_all add: leave_def upd_buf_def wr_reg_def inside_def relock_def)
  ultimately show ?thesis using run by (intro exI [of _ "leave s ?v"]) simp
qed

lemma free_chain_three:
  assumes r: "may_lock VdiskLock s" and t: "within VdiskLock s t" and c: "chained t i j k"
  shows "\<exists>D P Q. free_chain i t = Ok (t\<lparr>vd_desc := D, vd_free := (vd_free t)(i := True, j := True, k := True), proc := P, queue := Q\<rparr>) \<and>
    within VdiskLock s (t\<lparr>vd_desc := D, vd_free := (vd_free t)(i := True, j := True, k := True), proc := P, queue := Q\<rparr>)"
proof -
  note c' = c [unfolded chained_def]
  have u: "unat (of_nat j :: ushort) = j" "unat (of_nat k :: ushort) = k" using c' by (auto intro: unat_desc)
  obtain P1 Q1 where 1: "free_desc i t = Ok (t\<lparr>vd_desc := (vd_desc t)(i := no_desc), vd_free := (vd_free t)(i := True), proc := P1, queue := Q1\<rparr>)"
    "within VdiskLock s (t\<lparr>vd_desc := (vd_desc t)(i := no_desc), vd_free := (vd_free t)(i := True), proc := P1, queue := Q1\<rparr>)"
    using free_desc_run [OF r t, of i] c' by blast
  let ?t1 = "t\<lparr>vd_desc := (vd_desc t)(i := no_desc), vd_free := (vd_free t)(i := True), proc := P1, queue := Q1\<rparr>"
  obtain P2 Q2 where 2: "free_desc j ?t1 = Ok (?t1\<lparr>vd_desc := (vd_desc ?t1)(j := no_desc), vd_free := (vd_free ?t1)(j := True), proc := P2, queue := Q2\<rparr>)"
    "within VdiskLock s (?t1\<lparr>vd_desc := (vd_desc ?t1)(j := no_desc), vd_free := (vd_free ?t1)(j := True), proc := P2, queue := Q2\<rparr>)"
    using free_desc_run [OF r 1(2), of j] c' by force
  let ?t2 = "?t1\<lparr>vd_desc := (vd_desc ?t1)(j := no_desc), vd_free := (vd_free ?t1)(j := True), proc := P2, queue := Q2\<rparr>"
  obtain P3 Q3 where 3: "free_desc k ?t2 = Ok (?t2\<lparr>vd_desc := (vd_desc ?t2)(k := no_desc), vd_free := (vd_free ?t2)(k := True), proc := P3, queue := Q3\<rparr>)"
    "within VdiskLock s (?t2\<lparr>vd_desc := (vd_desc ?t2)(k := no_desc), vd_free := (vd_free ?t2)(k := True), proc := P3, queue := Q3\<rparr>)"
    using free_desc_run [OF r 2(2), of k] c' by force
  let ?D = "(vd_desc t)(i := no_desc, j := no_desc, k := no_desc)"
  have "free_chain i t = Ok (t\<lparr>vd_desc := ?D, vd_free := (vd_free t)(i := True, j := True, k := True), proc := P3, queue := Q3\<rparr>)"
    unfolding free_chain_def using 1(1) 2(1) 3(1) c' u
    by (simp add: free_chain_loop.simps [of 8] free_chain_loop.simps [of 7] free_chain_loop.simps [of 6] Let_def)
  moreover have "within VdiskLock s (t\<lparr>vd_desc := ?D, vd_free := (vd_free t)(i := True, j := True, k := True), proc := P3, queue := Q3\<rparr>)"
    using 3(2) by simp
  ultimately show ?thesis by blast
qed

lemma rw_finish:
  assumes r: "may_lock VdiskLock t" and c: "pending s i j k b t" and d: "b_disk (buf t b) = 0"
  shows "\<exists>t'. res_bind (acquire VdiskLock t) (rw_wait b i) = Ok (Rw_done, t') \<and> may_lock VdiskLock t' \<and> vd_free t' = vd_free s \<and>
    t' = t\<lparr>cpus := cpus t', proc := proc t', queue := queue t', vd_desc := vd_desc t', vd_free := vd_free t', vd_info_b := vd_info_b t'\<rparr>"
proof -
  let ?in = "(inside VdiskLock t)\<lparr>vd_info_b := (vd_info_b t)(i := None)\<rparr>"
  have w: "within VdiskLock t ?in" using enter(2) [OF r] by simp
  have ch: "chained ?in i j k" using c by (simp add: pending_def chained_def) (simp add: inside_def)
  from free_chain_three [OF r w ch] obtain D P Q where
    f: "free_chain i ?in = Ok (?in\<lparr>vd_desc := D, vd_free := (vd_free ?in)(i := True, j := True, k := True), proc := P, queue := Q\<rparr>)"
    "within VdiskLock t (?in\<lparr>vd_desc := D, vd_free := (vd_free ?in)(i := True, j := True, k := True), proc := P, queue := Q\<rparr>)" by blast
  let ?u = "?in\<lparr>vd_desc := D, vd_free := (vd_free ?in)(i := True, j := True, k := True), proc := P, queue := Q\<rparr>"
  have sel: "vd_info_b (inside VdiskLock t) = vd_info_b t" "buf (inside VdiskLock t) = buf t" by (simp_all add: inside_def)
  have "res_bind (acquire VdiskLock t) (rw_wait b i) = Ok (Rw_done, leave t ?u)"
    using enter(1) [OF r] release_within(1) [OF r f(2)] f(1) d sel by (simp add: rw_wait_def)
  moreover have e: "leave t ?u = t\<lparr>cpus := cpus (relock t), proc := P, queue := Q, vd_desc := D,
      vd_free := (vd_free t)(i := True, j := True, k := True), vd_info_b := (vd_info_b t)(i := None)\<rparr>"
    by (cases t) (simp add: leave_def inside_def)
  moreover have "(vd_free t)(i := True, j := True, k := True) = vd_free s" using c by (auto simp: pending_def free_descs_def fun_eq_iff)
  moreover have "may_lock VdiskLock (leave t ?u)" by (rule release_within(2) [OF r f(2)])
  ultimately show ?thesis by (intro exI [of _ "leave t ?u"]) (simp add: e)
qed

lemma device_served:
  assumes dev: "virtio_device dev" and c: "pending s i j k b t" "blk_request t i = Some (wr, 2 * ucast (b_blockno (buf s b)), b, i)"
    and a: "vd_avail t (unat (vd_avail_idx s) mod NUM) = of_nat i" "vd_used_idx t = vd_avail_idx s"
    and d: "buf t = (buf s)(b := (buf s b)\<lparr>b_disk := 1\<rparr>)" "disk t = disk s" "disk_writes t = disk_writes s"
  shows "dev t = t\<lparr>buf := (buf (disk_rw b wr s))(b := (buf (disk_rw b wr s) b)\<lparr>b_disk := 1\<rparr>),
    disk := disk (disk_rw b wr s), disk_writes := disk_writes (disk_rw b wr s), vd_info_status := (vd_info_status t)(i := 0),
    vd_used := (vd_used t)(unat (vd_used_idx t) mod NUM := of_nat i), vd_used_idx := vd_used_idx t + 1\<rparr>"
proof -
  let ?n = "b_blockno (buf s b)"
  have "i < NUM" "vd_used_idx t \<noteq> vd_avail_idx t" using c(1) a(2) by (auto simp: pending_def chained_def)
  then have e: "dev t = (if wr then t\<lparr>disk := (disk t)(?n := b_data (buf t b)), disk_writes := disk_writes t @ [(?n, b_data (buf t b))]\<rparr>
      else t\<lparr>buf := (buf t)(b := (buf t b)\<lparr>b_data := disk t ?n\<rparr>)\<rparr>)
        \<lparr>vd_info_status := (vd_info_status t)(i := 0), vd_used := (vd_used t)(unat (vd_used_idx t) mod NUM := of_nat i), vd_used_idx := vd_used_idx t + 1\<rparr>"
    using dev a c(2) unfolding virtio_device_def by (auto simp del: of_nat_eq_iff)
  show ?thesis unfolding e using d by (cases "buf s b"; cases t; cases wr) (simp_all add: disk_rw_def Let_def upd_buf_def)
qed

text \<open>From the call to the interrupt.\<close>

lemma rw_to_interrupt:
  assumes dev: "virtio_device dev"
    and r: "may_lock VdiskLock s" "cpu_proc (cpus s (tp s)) = Some p" "p < NPROC" "noff (cpus s (tp s)) = 0"
    and f: "3 \<le> card (free_descs s)" and idle: "rings_idle s"
    and b: "b_disk (buf s b) = 0" "unat (b_blockno (buf s b)) < 2 ^ 31"
  shows "\<exists>i j k s1 s2 s3. virtio_disk_rw b wr s = Ok (Transfer i (sie s (tp s)), s1) \<and> sched_back p s1 = Ok s2 \<and>
    virtio_disk_intr (dev s2) = Ok s3 \<and> may_lock VdiskLock s3 \<and> state (proc s3 p) = RUNNABLE \<and> noff (cpus s3 (tp s3)) = 0 \<and>
    pending s i j k b s3 \<and> rings_idle s3 \<and>
    buf s3 = buf (disk_rw b wr s) \<and> disk s3 = disk (disk_rw b wr s) \<and> disk_writes s3 = disk_writes (disk_rw b wr s)"
proof -
  obtain i j k s1 where s1: "virtio_disk_rw b wr s = Ok (Transfer i (sie s (tp s)), s1)" "within (ProcLock p) s s1"
    "pending s i j k b s1" "blk_request s1 i = Some (wr, 2 * ucast (b_blockno (buf s b)), b, i)"
    "vd_avail s1 (unat (vd_avail_idx s) mod NUM) = of_nat i" "vd_used_idx s1 = vd_used_idx s" "vd_seen s1 = vd_seen s"
    "buf s1 = (buf s)(b := (buf s b)\<lparr>b_disk := 1\<rparr>)" "disk s1 = disk s" "disk_writes s1 = disk_writes s"
    "state (proc s1 p) = SLEEPING" "chan (proc s1 p) = Some (ChBuf b)" using rw_start [OF r f b(2), of wr] by metis
  have "table_ok s" using r(1) by (simp add: may_lock_def)
  from sched_back_within [OF this r(3,4) s1(2)] obtain s2 where s2: "sched_back p s1 = Ok s2"
    "s2 = s1\<lparr>sie := sie s2, cpus := cpus s2, spin := spin s\<rparr>" "table_ok s2" "cpu_proc (cpus s2 (tp s2)) = None" "noff (cpus s2 (tp s2)) = 0" by blast
  define x1 x2 where "x1 = sie s2" and "x2 = cpus s2"
  note s2' = s2(2) [folded x1_def x2_def]
  have r2: "may_lock VdiskLock s2" using s2(3) r(1) by (simp add: may_lock_def lock_simps) (simp add: s2')
  have "pending s i j k b s2" using s1(3) by (simp add: s2')
  moreover have "blk_request s2 i = blk_request s1 i" by (rule blk_request_cong) (simp_all add: s2')
  then have "blk_request s2 i = Some (wr, 2 * ucast (b_blockno (buf s b)), b, i)" using s1(4) by simp
  moreover have "vd_avail s2 (unat (vd_avail_idx s) mod NUM) = of_nat i" "vd_used_idx s2 = vd_avail_idx s" "buf s2 = (buf s)(b := (buf s b)\<lparr>b_disk := 1\<rparr>)"
    "disk s2 = disk s" "disk_writes s2 = disk_writes s" using s1(5-10) idle by (simp_all add: s2' rings_idle_def)
  ultimately have t: "dev s2 = s2\<lparr>buf := (buf (disk_rw b wr s))(b := (buf (disk_rw b wr s) b)\<lparr>b_disk := 1\<rparr>),
      disk := disk (disk_rw b wr s), disk_writes := disk_writes (disk_rw b wr s), vd_info_status := (vd_info_status s2)(i := 0),
      vd_used := (vd_used s2)(unat (vd_used_idx s2) mod NUM := of_nat i), vd_used_idx := vd_used_idx s2 + 1\<rparr>" (is "_ = ?t")
    by (rule device_served [OF dev])
  have "may_lock VdiskLock ?t" "p < NPROC" "cpu_proc (cpus ?t (tp ?t)) \<noteq> Some p" using r2 s2(4) r(3) by simp_all
  moreover have "state (proc ?t p) = SLEEPING" "chan (proc ?t p) = Some (ChBuf b)" using s1(11,12) by (simp_all add: s2')
  moreover have "i < NUM" "vd_info_b ?t i = Some b" using s1(3) by (simp_all add: pending_def chained_def s2')
  moreover have "vd_used_idx ?t = vd_seen ?t + 1" "vd_used ?t (unat (vd_seen ?t) mod NUM) = of_nat i" "vd_info_status ?t i = 0"
    using s1(6,7) idle by (simp_all add: s2' rings_idle_def)
  ultimately obtain s3 where s3: "virtio_disk_intr ?t = Ok s3" "may_lock VdiskLock s3" "state (proc s3 p) = RUNNABLE" "noff (cpus s3 (tp s3)) = noff (cpus ?t (tp ?t))"
    "s3 = ?t\<lparr>cpus := cpus s3, proc := proc s3, queue := queue s3, mmio_wr := mmio_wr s3, vd_seen := vd_seen ?t + 1,
      buf := (buf ?t)(b := (buf ?t b)\<lparr>b_disk := 0\<rparr>)\<rparr>"
    using intr_one by blast
  define y1 y2 y3 y4 where "y1 = cpus s3" and "y2 = proc s3" and "y3 = queue s3" and "y4 = mmio_wr s3"
  note s3' = s3(5) [folded y1_def y2_def y3_def y4_def]
  have "noff (cpus s3 (tp s3)) = 0" using s3(4) s2(5) by simp
  moreover have "pending s i j k b s3" using s1(3) by (simp add: s3' s2')
  moreover have "rings_idle s3" using s1(3,6,7) idle by (simp add: s3' s2' rings_idle_def pending_def)
  moreover have "buf s3 = buf (disk_rw b wr s)" using b(1) by (cases "buf s b") (auto simp: s3' disk_rw_def Let_def upd_buf_def fun_eq_iff)
  moreover have "disk s3 = disk (disk_rw b wr s)" "disk_writes s3 = disk_writes (disk_rw b wr s)" by (simp_all add: s3')
  ultimately show ?thesis using s1(1) s2(1) s3(1-3) unfolding t [symmetric] by blast
qed

text \<open>
  Property C5. The driver implements what the buffer cache relies on. A process that calls
  \<^verbatim>\<open>virtio_disk_rw\<close> goes to sleep; when a device that keeps to the virtio specification has
  done its part and has interrupted, the process is made runnable again by \<^verbatim>\<open>virtio_disk_intr\<close>,
  and its call returns. Buffers and disk are then as after \<open>disk_rw\<close>, all descriptors are given
  back, and the rings and the lock are idle again. This needs three free descriptors and a block
  number below \<open>2 ^ 31\<close>, so that the number of its first sector is still a \<^verbatim>\<open>uint\<close>.
\<close>

theorem virtio_implements_disk_rw:
  assumes dev: "virtio_device dev"
    and r: "may_lock VdiskLock s" "cpu_proc (cpus s (tp s)) = Some p" "p < NPROC" "noff (cpus s (tp s)) = 0"
    and f: "3 \<le> card (free_descs s)" and idle: "rings_idle s"
    and b: "b_disk (buf s b) = 0" "unat (b_blockno (buf s b)) < 2 ^ 31"
  shows "\<exists>i ie s1 s2 s3 s4 s5.
    virtio_disk_rw b wr s = Ok (Transfer i ie, s1) \<and> sched_back p s1 = Ok s2 \<and>
    virtio_disk_intr (dev s2) = Ok s3 \<and>
    sched_visit p s3 = Ok (Some p, s4) \<and> virtio_disk_rw_resume p (Transfer i ie) b wr s4 = Ok (Rw_done, s5) \<and>
    buf s5 = buf (disk_rw b wr s) \<and> disk s5 = disk (disk_rw b wr s) \<and> disk_writes s5 = disk_writes (disk_rw b wr s) \<and>
    vd_free s5 = vd_free s \<and> rings_idle s5 \<and> may_lock VdiskLock s5"
proof -
  obtain i j k s1 s2 s3 where s3: "virtio_disk_rw b wr s = Ok (Transfer i (sie s (tp s)), s1)" "sched_back p s1 = Ok s2"
    "virtio_disk_intr (dev s2) = Ok s3" "may_lock VdiskLock s3" "state (proc s3 p) = RUNNABLE" "noff (cpus s3 (tp s3)) = 0"
    "pending s i j k b s3" "rings_idle s3"
    "buf s3 = buf (disk_rw b wr s)" "disk s3 = disk (disk_rw b wr s)" "disk_writes s3 = disk_writes (disk_rw b wr s)"
    using rw_to_interrupt [OF assms, of wr] by blast
  obtain s4 t where s4: "sched_visit p s3 = Ok (Some p, s4)" "sleep_return p VdiskLock (sie s (tp s)) s4 = acquire VdiskLock t" "may_lock VdiskLock t"
    "t = s3\<lparr>sie := sie t, cpus := cpus t, proc := (proc s3)(p := (proc s3 p)\<lparr>state := RUNNING, chan := None\<rparr>)\<rparr>"
    using resume_asleep [OF s3(4) r(3) s3(6,5), of "sie s (tp s)"] by blast
  have sel: "buf t = buf s3" "disk t = disk s3" "disk_writes t = disk_writes s3" "rings_idle t = rings_idle s3" "pending s i j k b t = pending s i j k b s3"
    by (subst s4(4), simp add: rings_idle_def)+
  have bd: "b_disk (buf t b) = 0" using b(1) sel(1) s3(9) by (simp add: disk_rw_def Let_def upd_buf_def)
  have "pending s i j k b t" using s3(7) sel(5) by simp
  from rw_finish [OF s4(3) this bd] obtain s5 where s5: "res_bind (acquire VdiskLock t) (rw_wait b i) = Ok (Rw_done, s5)"
    "may_lock VdiskLock s5" "vd_free s5 = vd_free s"
    "s5 = t\<lparr>cpus := cpus s5, proc := proc s5, queue := queue s5, vd_desc := vd_desc s5, vd_free := vd_free s5, vd_info_b := vd_info_b s5\<rparr>"
    by (elim exE conjE) rule
  have "buf s5 = buf t" "disk s5 = disk t" "disk_writes s5 = disk_writes t" "rings_idle s5 = rings_idle t"
    by (subst s5(4), simp add: rings_idle_def)+
  moreover have "virtio_disk_rw_resume p (Transfer i (sie s (tp s))) b wr s4 = Ok (Rw_done, s5)"
    using s4(2) s5(1) by (simp add: virtio_disk_rw_resume_def)
  ultimately show ?thesis using s3 s4(1) s5(2,3) sel by metis
qed

section \<open>A device\<close>

definition simple_device :: "'a vdisk_scheme \<Rightarrow> 'a vdisk_scheme" where
  "simple_device s =
     (let u = unat (vd_used_idx s) mod NUM; i = unat (vd_avail s u) in
      case blk_request s i of
        None \<Rightarrow> s
      | Some (wr, sector, b, st) \<Rightarrow>
          let n = ucast (drop_bit 1 sector) in
          (if wr then s\<lparr>disk := (disk s)(n := b_data (buf s b)), disk_writes := disk_writes s @ [(n, b_data (buf s b))]\<rparr>
           else s\<lparr>buf := (buf s)(b := (buf s b)\<lparr>b_data := disk s n\<rparr>)\<rparr>)
            \<lparr>vd_info_status := (vd_info_status s)(st := 0), vd_used := (vd_used s)(u := of_nat i), vd_used_idx := vd_used_idx s + 1\<rparr>)"

lemma half_of_sector: "ucast (drop_bit 1 (2 * ucast n :: uint64)) = (n :: uint)"
proof -
  have "unat (ucast n :: uint64) < 2 ^ 32" using unsigned_less [of n, where ?'a = nat] by (simp add: unat_ucast_uint64)
  then have "drop_bit 1 (2 * ucast n :: uint64) = ucast n"
    by (simp add: word_unat_eq_iff unat_drop_bit_eq drop_bit_eq_div unat_word_ariths)
  then show ?thesis by (simp only:) (rule bit_word_eqI, simp add: bit_simps)
qed

lemma simple_device_ok: "virtio_device simple_device"
  unfolding virtio_device_def
proof (intro allI impI, elim conjE)
  fix s :: "'a vdisk_scheme" and i wr b st and n :: uint
  assume a: "vd_avail s (unat (vd_used_idx s) mod NUM) = of_nat i" "i < NUM" "blk_request s i = Some (wr, 2 * ucast n, b, st)"
  show "simple_device s =
     (if wr then s\<lparr>disk := (disk s)(n := b_data (buf s b)), disk_writes := disk_writes s @ [(n, b_data (buf s b))]\<rparr>
      else s\<lparr>buf := (buf s)(b := (buf s b)\<lparr>b_data := disk s n\<rparr>)\<rparr>)
       \<lparr>vd_info_status := (vd_info_status s)(st := 0),
        vd_used := (vd_used s)(unat (vd_used_idx s) mod NUM := of_nat i), vd_used_idx := vd_used_idx s + 1\<rparr>"
    unfolding simple_device_def Let_def a(1) unat_desc(1) [OF a(2)] a(3) by (simp add: half_of_sector [simplified])
qed

text \<open>Process 1 runs, with four free descriptors, of which the first is chained to itself.\<close>

definition some_vdisk :: vdisk where
  "some_vdisk = undefined\<lparr>tp := 0, sie := \<lambda>_. True, cpus := \<lambda>_. \<lparr>cpu_proc = Some 1, noff = 0, intena = True\<rparr>,
     spin := \<lambda>_. \<lparr>locked = 0, lk_name = [], lk_cpu = None\<rparr>, proc := \<lambda>_. idle_proc, queue := \<lambda>_. \<lparr>q_timeslice = 0, q_head = None, q_tail = None\<rparr>,
     buf := \<lambda>_. \<lparr>b_valid = 0, b_disk = 0, b_dev = 1, b_blockno = 5, b_refcnt = 1, b_prev = 0, b_next = 0, b_data = [1, 2]\<rparr>,
     disk := \<lambda>n. [ucast n], disk_writes := [], vd_free := \<lambda>i. i \<ge> 4, vd_avail_idx := 0xffff, vd_used_idx := 0xffff, vd_seen := 0xffff,
     vd_desc := \<lambda>i. \<lparr>vq_addr = VNull, vq_len = 0, vq_flags = 1, vq_next = 0\<rparr>\<rparr>"

lemma some_vdisk_ok: "may_lock VdiskLock some_vdisk" "free_descs some_vdisk = {4, 5, 6, 7}" "rings_idle some_vdisk"
proof -
  show "free_descs some_vdisk = {4, 5, 6, 7}" by (auto simp: some_vdisk_def free_descs_def)
qed (simp_all add: some_vdisk_def rings_idle_def may_lock_def table_ok_def quiet_def valid_priority_def paired_def lock_simps idle_proc_def)

theorem virtio_implements_disk_rw_witness:
  "\<exists>i ie s1 s2 s3 s4 s5.
    virtio_disk_rw 3 False some_vdisk = Ok (Transfer i ie, s1) \<and> sched_back 1 s1 = Ok s2 \<and>
    virtio_disk_intr (simple_device s2) = Ok s3 \<and>
    sched_visit 1 s3 = Ok (Some 1, s4) \<and> virtio_disk_rw_resume 1 (Transfer i ie) 3 False s4 = Ok (Rw_done, s5) \<and>
    b_data (buf s5 3) = [5]"
proof -
  have "3 \<le> card (free_descs some_vdisk)" unfolding some_vdisk_ok(2) by simp
  moreover have "cpu_proc (cpus some_vdisk (tp some_vdisk)) = Some 1" "noff (cpus some_vdisk (tp some_vdisk)) = 0"
    "b_disk (buf some_vdisk 3) = 0" "unat (b_blockno (buf some_vdisk 3)) < 2 ^ 31" by (simp_all add: some_vdisk_def)
  ultimately obtain i ie s1 s2 s3 s4 s5 where x: "virtio_disk_rw 3 False some_vdisk = Ok (Transfer i ie, s1)" "sched_back 1 s1 = Ok s2"
    "virtio_disk_intr (simple_device s2) = Ok s3" "sched_visit 1 s3 = Ok (Some 1, s4)"
    "virtio_disk_rw_resume 1 (Transfer i ie) 3 False s4 = Ok (Rw_done, s5)" "buf s5 = buf (disk_rw 3 False some_vdisk)"
    using virtio_implements_disk_rw [OF simple_device_ok some_vdisk_ok(1), of 1 3 False] some_vdisk_ok(3) by auto
  moreover have "b_data (buf s5 3) = [5]" unfolding x(6) by (simp add: disk_rw_def upd_buf_def some_vdisk_def)
  ultimately show ?thesis by blast
qed

theorem free_chain_terminates_witness:
  "(\<exists>s'. free_chain 0 (inside VdiskLock some_vdisk) = Ok s' \<and> in_driver s' \<and> insert 0 (free_descs (inside VdiskLock some_vdisk)) \<subseteq> free_descs s') \<or>
   (\<exists>m. free_chain 0 (inside VdiskLock some_vdisk) = Panic m)"
proof (rule free_chain_terminates)
  show "in_driver (inside VdiskLock some_vdisk)" using enter(2) [OF some_vdisk_ok(1)] some_vdisk_ok(1) by (auto simp: in_driver_def)
qed

text \<open>
  Property C32. \<^verbatim>\<open>alloc3_desc\<close> hands out three different free descriptors, or, when there are
  fewer than three, gives back those it had already taken: no descriptor is lost.
\<close>

theorem alloc3_all_or_none:
  assumes "in_driver s"
  shows "\<exists>r s'. alloc3_desc s = Ok (r, s') \<and> in_driver s' \<and>
    (case r of None \<Rightarrow> card (free_descs s) < 3 \<and> free_descs s' = free_descs s
     | Some (i, j, k) \<Rightarrow> distinct [i, j, k] \<and> {i, j, k} \<subseteq> free_descs s \<and> free_descs s' = free_descs s - {i, j, k})"
proof (cases "3 \<le> card (free_descs s)")
  case True
  from alloc3_some [OF this] obtain i j k where ijk: "distinct [i, j, k]" "{i, j, k} \<subseteq> free_descs s"
    "alloc3_desc s = Ok (Some (i, j, k), s\<lparr>vd_free := (vd_free s)(i := False, j := False, k := False)\<rparr>)" by blast
  moreover have "free_descs (s\<lparr>vd_free := (vd_free s)(i := False, j := False, k := False)\<rparr>) = free_descs s - {i, j, k}"
    by (auto simp: free_descs_def)
  moreover have "in_driver (s\<lparr>vd_free := (vd_free s)(i := False, j := False, k := False)\<rparr>)" using assms by (simp add: in_driver_def)
  ultimately show ?thesis by (intro exI conjI) (assumption | simp)+
next
  case False
  then show ?thesis using alloc3_none [OF assms] by fastforce
qed

theorem alloc3_all_or_none_witness:
  "\<exists>i j k s'. alloc3_desc (inside VdiskLock some_vdisk) = Ok (Some (i, j, k), s') \<and> distinct [i, j, k] \<and> card (free_descs s') = 1"
proof -
  have f: "free_descs (inside VdiskLock some_vdisk) = {4, 5, 6, 7}" using some_vdisk_ok(2) by (simp add: free_descs_def inside_def)
  have "in_driver (inside VdiskLock some_vdisk)" using enter(2) [OF some_vdisk_ok(1)] some_vdisk_ok(1) by (auto simp: in_driver_def)
  from alloc3_all_or_none [OF this] obtain r s' where r: "alloc3_desc (inside VdiskLock some_vdisk) = Ok (r, s')"
    "case r of None \<Rightarrow> card {4, 5, 6, 7 :: nat} < 3 \<and> free_descs s' = {4, 5, 6, 7}
     | Some (i, j, k) \<Rightarrow> distinct [i, j, k] \<and> {i, j, k} \<subseteq> {4, 5, 6, 7} \<and> free_descs s' = {4, 5, 6, 7} - {i, j, k}"
    unfolding f by blast
  then obtain i j k where ijk: "r = Some (i, j, k)" by (cases r) auto
  with r(2) have d: "distinct [i, j, k]" "{i, j, k} \<subseteq> {4, 5, 6, 7}" and s': "free_descs s' = {4, 5, 6, 7} - {i, j, k}" by simp_all
  have "card {i, j, k} = 3" using d(1) by simp
  then have "card (free_descs s') = 1" unfolding s' using card_Diff_subset [OF _ d(2)] by simp
  with r(1) ijk d(1) show ?thesis by blast
qed

end
