(* ===== verification/Ulib.thy ===== *)
theory Ulib
  imports Kstring
begin

text \<open>
  \<^verbatim>\<open>user/ulib.c\<close>: the library of the user programs, over the memory of a process. A loop that
  looks for a NUL that is not there has no result. System calls are parameters: \<^verbatim>\<open>read\<close> is the
  list of what it answers, and \<^verbatim>\<open>stat\<close> is given \<^verbatim>\<open>open\<close>, \<^verbatim>\<open>fstat\<close> and \<^verbatim>\<open>close\<close> as functions on the
  state of the system.
\<close>

section \<open>Definitions\<close>

text \<open>The new memory; the function returns its first argument.\<close>

partial_function (option) strcpy :: "memory \<Rightarrow> uint64 \<Rightarrow> uint64 \<Rightarrow> memory option" where
  "strcpy m s t = (let c = m t; m = m(s := c) in if c \<noteq> 0 then strcpy m (s + 1) (t + 1) else Some m)"

partial_function (option) strcmp :: "memory \<Rightarrow> uint64 \<Rightarrow> uint64 \<Rightarrow> int option" where
  "strcmp m p q =
     (if m p \<noteq> 0 \<and> m p = m q then strcmp m (p + 1) (q + 1) else Some (uint (m p) - uint (m q)))"

partial_function (option) strlen_from :: "memory \<Rightarrow> uint64 \<Rightarrow> 32 word \<Rightarrow> uint option" where
  "strlen_from m s n = (if m (s + scast n) \<noteq> 0 then strlen_from m s (n + 1) else Some n)"

definition strlen :: "memory \<Rightarrow> uint64 \<Rightarrow> uint option" where
  "strlen m s = strlen_from m s 0"

definition memset :: "memory \<Rightarrow> uint64 \<Rightarrow> 32 word \<Rightarrow> uint \<Rightarrow> memory" where
  "memset m dst c n = memset_loop m dst (ucast c) (unat n)"

partial_function (option) strchr :: "memory \<Rightarrow> uint64 \<Rightarrow> uchar \<Rightarrow> uint64 option" where
  "strchr m s c = (if m s = 0 then Some 0 else if m s = c then Some s else strchr m (s + 1) c)"

text \<open>The bytes that \<^verbatim>\<open>read\<close> delivers one by one; it fails or is at the end when there is none.\<close>

function gets_loop :: "memory \<Rightarrow> uint64 \<Rightarrow> int \<Rightarrow> nat \<Rightarrow> uchar list \<Rightarrow> memory \<times> uchar list" where
  "gets_loop m buf mx i inp =
     (if int i + 1 < mx then
        case inp of [] \<Rightarrow> (m(buf + of_nat i := 0), [])
        | c # inp \<Rightarrow>
            let m = m(buf + of_nat i := c) in
            if c = 10 \<or> c = 13 then (m(buf + of_nat (Suc i) := 0), inp)
            else gets_loop m buf mx (Suc i) inp
      else (m(buf + of_nat i := 0), inp))"
  by pat_completeness auto
termination
  by (relation "measure (\<lambda>(_, _, mx, i, _). nat (mx - int i))") auto

declare gets_loop.simps [simp del]

definition gets :: "memory \<Rightarrow> uint64 \<Rightarrow> int \<Rightarrow> uchar list \<Rightarrow> memory \<times> uchar list" where
  "gets m buf mx inp = gets_loop m buf mx 0 inp"

definition stat :: "('n \<Rightarrow> int \<Rightarrow> 'w \<Rightarrow> int \<times> 'w) \<Rightarrow> (int \<Rightarrow> 'w \<Rightarrow> int \<times> 'w) \<Rightarrow> (int \<Rightarrow> 'w \<Rightarrow> 'w) \<Rightarrow> 'n \<Rightarrow> 'w \<Rightarrow> int \<times> 'w" where
  "stat opn fstat cls n w =
     (let (fd, w) = opn n 0 w in
      if fd < 0 then (- 1, w)
      else let (r, w) = fstat fd w in (r, cls fd w))"

partial_function (option) atoi_loop :: "memory \<Rightarrow> uint64 \<Rightarrow> 32 word \<Rightarrow> 32 word option" where
  "atoi_loop m s n = (if 48 \<le> m s \<and> m s \<le> 57 then atoi_loop m (s + 1) (n * 10 + ucast (m s) - 48) else Some n)"

definition atoi :: "memory \<Rightarrow> uint64 \<Rightarrow> 32 word option" where
  "atoi m s = atoi_loop m s 0"

definition memmove :: "memory \<Rightarrow> uint64 \<Rightarrow> uint64 \<Rightarrow> 32 word \<Rightarrow> memory" where
  "memmove m dst src n =
     (if src > dst then copy_up m dst src (nat (sint n))
      else copy_down m (dst + scast n) (src + scast n) (nat (sint n)))"

primrec memcmp_loop :: "memory \<Rightarrow> uint64 \<Rightarrow> uint64 \<Rightarrow> nat \<Rightarrow> int" where
  "memcmp_loop m p1 p2 0 = 0"
| "memcmp_loop m p1 p2 (Suc n) =
     (if m p1 \<noteq> m p2 then uint (m p1) - uint (m p2) else memcmp_loop m (p1 + 1) (p2 + 1) n)"

definition memcmp :: "memory \<Rightarrow> uint64 \<Rightarrow> uint64 \<Rightarrow> uint \<Rightarrow> int" where
  "memcmp m s1 s2 n = memcmp_loop m s1 s2 (unat n)"

definition memcpy :: "memory \<Rightarrow> uint64 \<Rightarrow> uint64 \<Rightarrow> uint \<Rightarrow> memory" where
  "memcpy m dst src n = memmove m dst src n"

section \<open>Strings\<close>

text \<open>The C string \<open>xs\<close> is at \<open>p\<close>.\<close>

primrec string_at :: "memory \<Rightarrow> uint64 \<Rightarrow> uchar list \<Rightarrow> bool" where
  "string_at m p [] \<longleftrightarrow> m p = 0"
| "string_at m p (x # xs) \<longleftrightarrow> m p = x \<and> x \<noteq> 0 \<and> string_at m (p + 1) xs"

lemma strcmp_strings: "string_at m p xs \<Longrightarrow> string_at m q ys \<Longrightarrow> \<exists>r. strcmp m p q = Some r \<and> (r = 0 \<longleftrightarrow> xs = ys)"
proof (induction xs arbitrary: p q ys)
  case Nil
  then show ?case by (cases ys) (auto simp: strcmp.simps [of m p q] word_uint_eq_iff)
next
  case (Cons x xs)
  then show ?case
  proof (cases ys)
    case Nil
    then show ?thesis using Cons.prems by (auto simp: strcmp.simps [of m p q] word_uint_eq_iff)
  next
    case ys: (Cons y ys')
    show ?thesis
    proof (cases "x = y")
      case True
      then show ?thesis using ys Cons.IH [of "p + 1" "q + 1" ys'] Cons.prems by (simp add: strcmp.simps [of m p q])
    next
      case False
      then show ?thesis using ys Cons.prems by (auto simp: strcmp.simps [of m p q] word_uint_eq_iff)
    qed
  qed
qed

lemma strchr_string:
  assumes "string_at m p xs" "unat p + length xs < 2 ^ 64" "p \<noteq> 0"
  shows "\<exists>r. strchr m p c = Some r \<and> (if c \<in> set xs then m r = c \<and> r \<noteq> 0 else r = 0)"
  using assms
proof (induction xs arbitrary: p)
  case Nil
  then show ?case by (auto simp: strchr.simps [of m p])
next
  case (Cons x xs)
  have "unat (p + 1) = unat p + 1" using Cons.prems(2) by (simp add: unat_word_ariths)
  then have "p + 1 \<noteq> 0" "unat (p + 1) + length xs < 2 ^ 64" using Cons.prems(2) by auto
  then show ?case using Cons.IH [of "p + 1"] Cons.prems(1,3) by (auto simp: strchr.simps [of m p])
qed

text \<open>The number that a string of digits stands for.\<close>

definition digits_value :: "uchar list \<Rightarrow> nat" where
  "digits_value ds = foldl (\<lambda>n d. n * 10 + (unat d - 48)) 0 ds"

lemma atoi_digits:
  assumes "string_at m p (ds @ rest)" "\<forall>d \<in> set ds. 48 \<le> d \<and> d \<le> 57" "rest = [] \<or> \<not> (48 \<le> hd rest \<and> hd rest \<le> 57)"
  shows "atoi m p = Some (of_nat (digits_value ds))"
proof -
  have "atoi_loop m p (of_nat n) = Some (of_nat (foldl (\<lambda>n d. n * 10 + (unat d - 48)) n ds))" for n
    using assms(1,2)
  proof (induction ds arbitrary: p n)
    case Nil
    then show ?case using assms(3) by (cases rest) (auto simp: atoi_loop.simps [of m p])
  next
    case (Cons d ds)
    have "(of_nat (n * 10 + (unat d - 48)) :: 32 word) = of_nat n * 10 + ucast d - 48"
      using Cons.prems(2) by (simp add: of_nat_diff word_le_nat_alt)
    then show ?case using Cons.IH [of "p + 1" "n * 10 + (unat d - 48)"] Cons.prems by (simp add: atoi_loop.simps [of m p] add_diff_eq)
  qed
  from this [of 0] show ?thesis by (simp add: atoi_def digits_value_def)
qed

text \<open>The two implementations of \<^verbatim>\<open>memmove\<close>, in the kernel and in user space, agree.\<close>

lemma memmove_same:
  assumes "0 \<le> sint n" "unat src + unat n < 2 ^ 64" "unat dst + unat n < 2 ^ 64"
  shows "memmove m dst src n = Kstring.memmove m dst src n"
proof -
  have "uint n = sint n mod 2 ^ 32" by (simp add: uint_sint take_bit_eq_mod)
  then have un: "uint n = sint n" using assms(1) sint_lt [of n] by simp
  then have n: "nat (sint n) = unat n" by (metis unat_eq_nat_uint)
  have "(of_int (sint n) :: uint64) = scast n" "(of_int (uint n) :: uint64) = ucast n" by simp_all
  then have sc: "(scast n :: uint64) = of_nat (unat n)" using un ucast_uint64_of_nat [of n] by metis
  have le: "unat n \<le> 2 ^ 64" using assms(2) by simp
  have "memmove m dst src n = (\<lambda>x. if unat (x - dst) < unat n then m (src + (x - dst)) else m x)"
  proof (cases "src > dst")
    case True
    then have "unat n \<le> unat (dst - src)" using assms(2,3) by (simp add: unat_sub_if' word_less_nat_alt)
    then show ?thesis using True copy_up_eq [OF le] n by (simp add: memmove_def)
  next
    case False
    then have "unat (src - dst) = 0 \<or> unat n \<le> unat (src - dst)"
      using assms(2,3) by (auto simp: unat_sub_if' word_less_nat_alt)
    then show ?thesis using False copy_down_eq [OF le, of src dst m] n sc by (simp add: memmove_def)
  qed
  then show ?thesis using memmove_eq [OF assms(2,3)] by simp
qed

end
