(* ===== verification/Umalloc.thy ===== *)
theory Umalloc
  imports Xv6_Prelude
begin

text \<open>
  \<^verbatim>\<open>user/umalloc.c\<close>: the storage allocator of the user programs, after Kernighan and Ritchie. A
  \<^verbatim>\<open>Header\<close> of 16 bytes stands before each block; the headers of the free blocks form a ring
  in the order of their addresses, which starts with the static \<^verbatim>\<open>base\<close>. The system call \<^verbatim>\<open>sbrk\<close>
  is a parameter. The lemmas show that the free blocks are disjoint and coalesced, that
  \<^verbatim>\<open>malloc\<close> takes what it returns out of the free memory, and that \<^verbatim>\<open>free\<close> puts it back.
\<close>

section \<open>Definitions\<close>

record header =
  h_ptr :: uint64
  h_size :: uint

text \<open>\<open>hdr\<close> is the memory of the process, seen as headers; \<open>base_at\<close> is the address of \<^verbatim>\<open>base\<close>.\<close>

record uheap =
  hdr :: "uint64 \<Rightarrow> header"
  freep :: uint64
  base_at :: uint64

definition set_ptr :: "uint64 \<Rightarrow> uint64 \<Rightarrow> uheap \<Rightarrow> uheap" where
  "set_ptr a x s = s\<lparr>hdr := (hdr s)(a := (hdr s a)\<lparr>h_ptr := x\<rparr>)\<rparr>"

definition set_size :: "uint64 \<Rightarrow> uint \<Rightarrow> uheap \<Rightarrow> uheap" where
  "set_size a n s = s\<lparr>hdr := (hdr s)(a := (hdr s a)\<lparr>h_size := n\<rparr>)\<rparr>"

text \<open>The address \<open>n\<close> headers after \<open>a\<close>.\<close>

definition units :: "uint64 \<Rightarrow> uint \<Rightarrow> uint64" where
  "units a n = a + 16 * ucast n"

text \<open>The loop of \<^verbatim>\<open>free\<close> that finds the free block before \<open>bp\<close>.\<close>

partial_function (option) free_scan :: "(uint64 \<Rightarrow> header) \<Rightarrow> uint64 \<Rightarrow> uint64 \<Rightarrow> uint64 option" where
  "free_scan h bp p =
     (if bp > p \<and> bp < h_ptr (h p) then Some p
      else if p \<ge> h_ptr (h p) \<and> (bp > p \<or> bp < h_ptr (h p)) then Some p
      else free_scan h bp (h_ptr (h p)))"

text \<open>
  Join the block \<open>bp\<close> with the free block \<open>nx\<close> that follows it if it touches it, or chain it to
  that block; then do the same with the free block \<open>p\<close> before it.
\<close>

definition join_next :: "uint64 \<Rightarrow> uint64 \<Rightarrow> uheap \<Rightarrow> uheap" where
  "join_next bp nx s =
     (if units bp (h_size (hdr s bp)) = nx
      then set_ptr bp (h_ptr (hdr s nx)) (set_size bp (h_size (hdr s bp) + h_size (hdr s nx)) s)
      else set_ptr bp nx s)"

definition join_prev :: "uint64 \<Rightarrow> uint64 \<Rightarrow> uheap \<Rightarrow> uheap" where
  "join_prev bp p s =
     (if units p (h_size (hdr s p)) = bp
      then set_ptr p (h_ptr (hdr s bp)) (set_size p (h_size (hdr s p) + h_size (hdr s bp)) s)
      else set_ptr p bp s)"

definition free :: "uint64 \<Rightarrow> uheap \<Rightarrow> uheap option" where
  "free ap s =
     (let bp = ap - 16 in
      case free_scan (hdr s) bp (freep s) of None \<Rightarrow> None
      | Some p \<Rightarrow> Some ((join_prev bp p (join_next bp (h_ptr (hdr s p)) s))\<lparr>freep := p\<rparr>))"

text \<open>\<^verbatim>\<open>sbrk\<close> takes an \<^verbatim>\<open>int\<close>; it returns the old end of the memory, or -1.\<close>

definition morecore ::
  "(32 word \<Rightarrow> 'w \<Rightarrow> uint64 \<times> 'w) \<Rightarrow> uint \<Rightarrow> uheap \<Rightarrow> 'w \<Rightarrow> (uint64 \<times> uheap \<times> 'w) option" where
  "morecore sbrk nu s w =
     (let nu = (if nu < 4096 then 4096 else nu);
          (p, w) = sbrk (nu * 16) w
      in
      if p = - 1 then Some (0, s, w)
      else case free (p + 16) (set_size p nu s) of None \<Rightarrow> None | Some s \<Rightarrow> Some (freep s, s, w))"

text \<open>Take a block of \<open>nunits\<close> out of the free block \<open>p\<close>, whose predecessor is \<open>prevp\<close>.\<close>

definition take_block :: "uint \<Rightarrow> uint64 \<Rightarrow> uint64 \<Rightarrow> uheap \<Rightarrow> uint64 \<times> uheap" where
  "take_block nunits prevp p s =
     (let (p, s) =
        (if h_size (hdr s p) = nunits then (p, set_ptr prevp (h_ptr (hdr s p)) s)
         else
           let s = set_size p (h_size (hdr s p) - nunits) s;
               q = units p (h_size (hdr s p))
           in (q, set_size q nunits s))
      in (p + 16, s\<lparr>freep := prevp\<rparr>))"

partial_function (option) malloc_loop ::
  "(32 word \<Rightarrow> 'w \<Rightarrow> uint64 \<times> 'w) \<Rightarrow> uint \<Rightarrow> uint64 \<Rightarrow> uint64 \<Rightarrow> uheap \<Rightarrow> 'w \<Rightarrow> (uint64 \<times> uheap \<times> 'w) option" where
  "malloc_loop sbrk nunits prevp p s w =
     (if h_size (hdr s p) \<ge> nunits then let (r, s) = take_block nunits prevp p s in Some (r, s, w)
      else if p = freep s then
        Option.bind (morecore sbrk nunits s w) (\<lambda>(p, s, w).
          if p = 0 then Some (0, s, w) else malloc_loop sbrk nunits p (h_ptr (hdr s p)) s w)
      else malloc_loop sbrk nunits p (h_ptr (hdr s p)) s w)"

definition nunits_for :: "uint \<Rightarrow> uint" where
  "nunits_for nbytes = ucast ((ucast nbytes + 16 - 1) div 16 + 1 :: uint64)"

definition malloc ::
  "(32 word \<Rightarrow> 'w \<Rightarrow> uint64 \<times> 'w) \<Rightarrow> uint \<Rightarrow> uheap \<Rightarrow> 'w \<Rightarrow> (uint64 \<times> uheap \<times> 'w) option" where
  "malloc sbrk nbytes s w =
     (let s = (if freep s = 0 then set_size (base_at s) 0 (set_ptr (base_at s) (base_at s) (s\<lparr>freep := base_at s\<rparr>)) else s)
      in malloc_loop sbrk (nunits_for nbytes) (freep s) (h_ptr (hdr s (freep s))) s w)"

section \<open>The ring of free blocks\<close>

type_synonym blocks = "(uint64 \<times> uint) list"

text \<open>The headers from \<open>p\<close> on are those of the blocks \<open>bs\<close>, and the pointer in the last leads to \<open>q\<close>.\<close>

primrec chain :: "(uint64 \<Rightarrow> header) \<Rightarrow> uint64 \<Rightarrow> blocks \<Rightarrow> uint64 \<Rightarrow> bool" where
  "chain h p [] q \<longleftrightarrow> p = q"
| "chain h p (b # bs) q \<longleftrightarrow> p = fst b \<and> h_size (h p) = snd b \<and> chain h (h_ptr (h p)) bs q"

text \<open>The address after a block.\<close>

definition end_of :: "uint64 \<times> uint \<Rightarrow> nat" where
  "end_of b = unat (fst b) + 16 * unat (snd b)"

text \<open>The blocks are in the order of their addresses, with something between them.\<close>

definition spaced :: "blocks \<Rightarrow> bool" where
  "spaced bs \<longleftrightarrow> sorted_wrt (\<lambda>b c. end_of b < unat (fst c)) bs \<and> (\<forall>b \<in> set bs. end_of b \<le> 2 ^ 36)"

definition ring :: "uheap \<Rightarrow> blocks \<Rightarrow> bool" where
  "ring s bs \<longleftrightarrow> (\<exists>cs. bs = (base_at s, 0) # cs \<and> (\<forall>b \<in> set cs. 0 < snd b)) \<and> chain (hdr s) (base_at s) bs (base_at s) \<and> spaced bs \<and>
     freep s \<in> fst ` set bs \<and> base_at s \<noteq> 0"

definition extent :: "uint64 \<times> uint \<Rightarrow> nat set" where
  "extent b = {unat (fst b) ..< end_of b}"

definition free_space :: "blocks \<Rightarrow> nat set" where
  "free_space bs = (\<Union>b \<in> set bs. extent b)"

lemma chain_append: "chain h p (xs @ ys) q \<longleftrightarrow> (\<exists>r. chain h p xs r \<and> chain h r ys q)"
  by (induction xs arbitrary: p) auto

lemma chain_cong: "(\<And>b. b \<in> set bs \<Longrightarrow> h' (fst b) = h (fst b)) \<Longrightarrow> chain h' p bs q = chain h p bs q"
proof (induction bs arbitrary: p)
  case (Cons b bs)
  have e: "h' (fst b) = h (fst b)" using Cons.prems by simp
  have "chain h' (h_ptr (h (fst b))) bs q = chain h (h_ptr (h (fst b))) bs q" using Cons by simp
  then show ?case by (simp add: e cong: conj_cong)
qed simp

lemma chain_next:
  assumes "chain h p (xs @ b # ys) q"
  shows "h_ptr (h (fst b)) = (case ys of [] \<Rightarrow> q | c # _ \<Rightarrow> fst c)" "h_size (h (fst b)) = snd b"
  using assms by (auto simp: chain_append split: list.splits)

lemma spaced_append:
  "spaced (xs @ ys) \<longleftrightarrow> spaced xs \<and> spaced ys \<and> (\<forall>b \<in> set xs. \<forall>c \<in> set ys. end_of b < unat (fst c))"
  by (auto simp: spaced_def sorted_wrt_append)

lemma spaced_Cons: "spaced (b # bs) \<longleftrightarrow> end_of b \<le> 2 ^ 36 \<and> (\<forall>c \<in> set bs. end_of b < unat (fst c)) \<and> spaced bs"
  by (auto simp: spaced_def)

lemma start_le_end: "unat (fst b) \<le> end_of b"
  by (simp add: end_of_def)

lemma spaced_distinct: "spaced bs \<Longrightarrow> distinct (map fst bs)"
proof (induction bs)
  case (Cons b bs)
  have "fst b \<noteq> fst c" if "c \<in> set bs" for c using Cons.prems that start_le_end [of b] by (fastforce simp: spaced_Cons)
  then show ?case using Cons by (auto simp: spaced_Cons)
qed simp

lemma spaced_before:
  assumes "spaced (xs @ b # ys)"
  shows "c \<in> set xs \<Longrightarrow> fst c < fst b" "c \<in> set ys \<Longrightarrow> fst b < fst c"
  using assms start_le_end [of c] start_le_end [of b] by (fastforce simp: spaced_append spaced_Cons word_less_nat_alt)+

lemma unat_units: "end_of (a, n) \<le> 2 ^ 36 \<Longrightarrow> unat (units a n) = end_of (a, n)"
  by (simp add: units_def end_of_def unat_word_ariths unat_ucast_uint64)

lemma units_eq_iff: "end_of (a, n) \<le> 2 ^ 36 \<Longrightarrow> units a n = x \<longleftrightarrow> end_of (a, n) = unat x"
  by (metis unat_units word_unat_eq_iff)

section \<open>Giving back a block\<close>

text \<open>A block between the free ones.\<close>

definition in_use :: "uheap \<Rightarrow> blocks \<Rightarrow> uint64 \<Rightarrow> uint \<Rightarrow> bool" where
  "in_use s bs a n \<longleftrightarrow> 0 < n \<and> base_at s < a \<and> end_of (a, n) \<le> 2 ^ 36 \<and>
     extent (a, n) \<inter> free_space bs = {}"

lemma extent_apart: "0 < snd b \<Longrightarrow> 0 < snd c \<Longrightarrow> extent b \<inter> extent c = {} \<longleftrightarrow> end_of b \<le> unat (fst c) \<or> end_of c \<le> unat (fst b)"
  by (auto simp: extent_def end_of_def word_less_nat_alt disjoint_iff not_le)

lemma in_use_apart:
  assumes "ring s bs" "in_use s bs a n" "b \<in> set bs"
  shows "end_of b \<le> unat a \<or> end_of (a, n) \<le> unat (fst b)"
proof (cases "b = (base_at s, 0)")
  case False
  then have "0 < snd b" "extent b \<inter> extent (a, n) = {}" "0 < n" using assms by (auto simp: ring_def in_use_def free_space_def)
  then show ?thesis using extent_apart [of b "(a, n)"] by simp
qed (use assms(2) in \<open>simp add: in_use_def end_of_def word_less_nat_alt\<close>)

lemma split_at:
  assumes r: "ring s bs" and u: "in_use s bs a n"
  shows "\<exists>pre b post. bs = pre @ b # post \<and> (\<forall>c \<in> set (pre @ [b]). end_of c \<le> unat a \<and> fst c < a) \<and>
    (\<forall>c \<in> set post. end_of (a, n) \<le> unat (fst c))"
proof -
  let ?P = "\<lambda>b. end_of b \<le> unat a"
  let ?xs = "takeWhile ?P bs" and ?ys = "dropWhile ?P bs"
  obtain cs where bs: "bs = (base_at s, 0) # cs" using r by (auto simp: ring_def)
  have "?P (base_at s, 0)" using u by (simp add: in_use_def end_of_def word_less_nat_alt)
  then have "?xs \<noteq> []" by (simp add: bs)
  then obtain pre b where pre: "?xs = pre @ [b]" by (metis append_butlast_last_id)
  have "end_of (a, n) \<le> unat (fst c)" if c: "c \<in> set ?ys" for c
  proof -
    obtain d ds where ys: "?ys = d # ds" using c by (cases ?ys) auto
    then have d: "\<not> ?P d" using hd_dropWhile [of ?P bs] by simp
    then have le: "end_of (a, n) \<le> unat (fst d)" using in_use_apart [OF r u, of d] ys set_dropWhileD [of d ?P bs] by auto
    have "spaced (?xs @ d # ds)" using r by (simp add: ring_def flip: ys)
    then have "unat (fst d) \<le> unat (fst c)" using c ys start_le_end [of d] by (fastforce simp: spaced_append spaced_Cons)
    then show ?thesis using le by simp
  qed
  moreover have "end_of c \<le> unat a \<and> fst c < a" if "c \<in> set (pre @ [b])" for c
  proof -
    have c: "c \<in> set bs" "end_of c \<le> unat a" using that unfolding pre [symmetric] by (auto dest: set_takeWhileD)
    moreover have "fst c < a"
    proof (cases "c = (base_at s, 0)")
      case True
      then show ?thesis using u by (simp add: in_use_def)
    next
      case False
      then have "0 < snd c" using c(1) r by (auto simp: ring_def)
      then show ?thesis using c(2) by (simp add: end_of_def word_less_nat_alt)
    qed
    ultimately show ?thesis by simp
  qed
  moreover have "bs = pre @ b # ?ys" using takeWhile_dropWhile_id [of ?P bs] pre by simp
  ultimately show ?thesis by blast
qed

text \<open>The loop of \<^verbatim>\<open>free\<close> stops at \<open>p\<close>.\<close>

definition stops :: "(uint64 \<Rightarrow> header) \<Rightarrow> uint64 \<Rightarrow> uint64 \<Rightarrow> bool" where
  "stops h bp p \<longleftrightarrow> bp > p \<and> bp < h_ptr (h p) \<or> p \<ge> h_ptr (h p) \<and> (bp > p \<or> bp < h_ptr (h p))"

lemma free_scan_stop: "stops h bp p \<Longrightarrow> free_scan h bp p = Some p"
  by (auto simp: stops_def free_scan.simps [of h bp p])

lemma free_scan_walk:
  assumes "chain h p xs q" "\<forall>b \<in> set xs. \<not> stops h bp (fst b)"
  shows "free_scan h bp p = free_scan h bp q"
  using assms
proof (induction xs arbitrary: p)
  case (Cons b xs)
  have "free_scan h bp p = free_scan h bp (h_ptr (h p))"
    using Cons.prems by (subst free_scan.simps) (auto simp: stops_def)
  also have "\<dots> = free_scan h bp q" using Cons.prems by (intro Cons.IH) auto
  finally show ?case .
qed simp

lemma ring_next:
  assumes "ring s (xs @ b # ys)"
  shows "h_ptr (hdr s (fst b)) = (case ys of [] \<Rightarrow> base_at s | c # _ \<Rightarrow> fst c)" "h_size (hdr s (fst b)) = snd b"
proof -
  have "chain (hdr s) (base_at s) (xs @ b # ys) (base_at s)" using assms unfolding ring_def by blast
  from chain_next [OF this] show "h_ptr (hdr s (fst b)) = (case ys of [] \<Rightarrow> base_at s | c # _ \<Rightarrow> fst c)" "h_size (hdr s (fst b)) = snd b"
    by simp_all
qed

lemma ring_base_le: "ring s bs \<Longrightarrow> b \<in> set bs \<Longrightarrow> base_at s \<le> fst b"
  by (fastforce simp: ring_def spaced_Cons end_of_def word_le_nat_alt)

lemma free_scan_ring:
  assumes r: "ring s bs" and bs: "bs = pre @ b # post" and u: "base_at s < bp"
    and lo: "\<forall>c \<in> set (pre @ [b]). fst c < bp" and hi: "\<forall>c \<in> set post. bp < fst c"
  shows "free_scan (hdr s) bp (freep s) = Some (fst b)"
proof -
  have sp: "spaced bs" and ch: "chain (hdr s) (base_at s) bs (base_at s)" using r by (simp_all add: ring_def)
  have "stops (hdr s) bp (fst b)"
    using ring_next(1) [of s pre b post] r bs lo hi ring_base_le [OF r, of b] by (auto simp: stops_def split: list.splits)
  then have stop: "free_scan (hdr s) bp (fst b) = Some (fst b)" by (rule free_scan_stop)
  have nlo: "\<not> stops (hdr s) bp (fst c)" if "c \<in> set pre" for c
  proof -
    from that obtain us vs where uv: "pre = us @ c # vs" by (meson split_list)
    have sp': "spaced (us @ c # (vs @ b # post))" using sp bs uv by simp
    let ?d = "hd (vs @ b # post)"
    have nx: "h_ptr (hdr s (fst c)) = fst ?d"
      using ring_next(1) [of s us c "vs @ b # post"] r bs uv by (cases vs) simp_all
    have "?d \<in> set (pre @ [b])" "?d \<in> set (vs @ b # post)" using uv by (cases vs, simp_all)+
    then have "fst ?d < bp" "fst c < fst ?d" using lo spaced_before(2) [OF sp'] by blast+
    then show ?thesis unfolding stops_def nx by auto
  qed
  have nhi: "\<not> stops (hdr s) bp (fst c)" if "c \<in> set post" for c
  proof -
    from that obtain us vs where uv: "post = us @ c # vs" by (meson split_list)
    have sp': "spaced ((pre @ b # us) @ c # vs)" using sp bs uv by simp
    have c: "bp < fst c" using hi that by blast
    have nx: "h_ptr (hdr s (fst c)) = (case vs of [] \<Rightarrow> base_at s | d # _ \<Rightarrow> fst d)"
      using ring_next(1) [of s "pre @ b # us" c vs] r bs uv by simp
    show ?thesis
    proof (cases vs)
      case Nil
      then show ?thesis using c u nx by (auto simp: stops_def)
    next
      case (Cons d ds)
      then have "fst c < fst d" using spaced_before(2) [OF sp', of d] by simp
      then show ?thesis using c nx Cons by (auto simp: stops_def)
    qed
  qed
  have pre: "chain (hdr s) (base_at s) pre (fst b)" and post: "chain (hdr s) (h_ptr (hdr s (fst b))) post (base_at s)"
    using ch bs by (auto simp: chain_append)
  have base: "free_scan (hdr s) bp (base_at s) = Some (fst b)" using free_scan_walk [OF pre] nlo stop by simp
  obtain c where c: "c \<in> set bs" "freep s = fst c" using r by (auto simp: ring_def)
  from c(1) bs consider "c \<in> set pre" | "c = b" | "c \<in> set post" by auto
  then show ?thesis
  proof cases
    case 1
    then obtain us vs where uv: "pre = us @ c # vs" by (meson split_list)
    have "chain (hdr s) (fst c) (c # vs) (fst b)" using pre uv by (auto simp: chain_append)
    from free_scan_walk [OF this, of bp] nlo uv stop c(2) show ?thesis by simp
  next
    case 2
    then show ?thesis using stop c(2) by simp
  next
    case 3
    then obtain us vs where uv: "post = us @ c # vs" by (meson split_list)
    have "chain (hdr s) (fst c) (c # vs) (base_at s)" using post uv by (auto simp: chain_append)
    from free_scan_walk [OF this, of bp] nhi uv base c(2) show ?thesis by simp
  qed
qed

lemma join_blocks:
  assumes "end_of (a, n) = unat c" "end_of (c, m) \<le> 2 ^ 36" "0 < unat a"
  shows "end_of (a, n + m) = end_of (c, m)" "extent (a, n + m) = extent (a, n) \<union> extent (c, m)"
proof -
  have "16 * (unat n + unat m) < 16 * 2 ^ 32" using assms by (simp add: end_of_def)
  then have "unat (n + m) = unat n + unat m" by (simp add: unat_word_ariths)
  then show e: "end_of (a, n + m) = end_of (c, m)" using assms(1) by (simp add: end_of_def)
  then show "extent (a, n + m) = extent (a, n) \<union> extent (c, m)"
    using assms(1) start_le_end [of "(c, m)"] start_le_end [of "(a, n)"] by (auto simp: extent_def)
qed

lemma set_sel [simp]:
  "hdr (set_ptr a x s) = (hdr s)(a := (hdr s a)\<lparr>h_ptr := x\<rparr>)" "hdr (set_size a n s) = (hdr s)(a := (hdr s a)\<lparr>h_size := n\<rparr>)"
  "freep (set_ptr a x s) = freep s" "freep (set_size a n s) = freep s"
  "base_at (set_ptr a x s) = base_at s" "base_at (set_size a n s) = base_at s"
  by (simp_all add: set_ptr_def set_size_def)

lemma chain_upd: "a \<notin> fst ` set bs \<Longrightarrow> chain (h(a := x)) p bs q = chain h p bs q"
  by (rule chain_cong) auto

lemma join_next_chain:
  assumes r: "chain (hdr s) nx post (base_at s)" and sp: "spaced post" and hi: "\<forall>c \<in> set post. end_of (a, n) \<le> unat (fst c)"
    and a: "h_size (hdr s a) = n" "end_of (a, n) \<le> 2 ^ 36" "base_at s < a" "0 < n"
  shows "\<exists>m post'. chain (hdr (join_next a nx s)) a ((a, m) # post') (base_at s) \<and> spaced ((a, m) # post') \<and>
    free_space ((a, m) # post') = extent (a, n) \<union> free_space post \<and> set post' \<subseteq> set post \<and> 0 < m \<and>
    hdr (join_next a nx s) = (hdr s)(a := hdr (join_next a nx s) a)"
proof -
  have pos: "0 < unat a" "unat a < end_of (a, n)" using a(3,4) by (auto simp: word_less_nat_alt end_of_def)
  have notin: "a \<notin> fst ` set post" using hi pos(2) by fastforce
  show ?thesis
  proof (cases "units a n = nx")
    case True
    then have e: "end_of (a, n) = unat nx" using units_eq_iff [OF a(2)] by simp
    have "post \<noteq> []" using r e pos(2) a(3) by (auto simp: word_less_nat_alt)
    then obtain c post' where p: "post = c # post'" by (cases post) auto
    then have c: "fst c = nx" "h_size (hdr s nx) = snd c" "chain (hdr s) (h_ptr (hdr s nx)) post' (base_at s)" using r by auto
    then have cc: "c = (nx, snd c)" by (cases c) simp
    note j = join_blocks [of a n nx "snd c", OF e _ pos(1)]
    have ce: "end_of (nx, snd c) \<le> 2 ^ 36" using sp p cc by (metis spaced_Cons)
    have "\<forall>d \<in> set post'. end_of (nx, snd c) < unat (fst d)" using sp p cc by (metis spaced_Cons)
    then have "spaced ((a, n + snd c) # post')" using sp p ce j(1) by (simp add: spaced_Cons)
    moreover have "free_space ((a, n + snd c) # post') = extent (a, n) \<union> free_space post"
      using j(2) [OF ce] p cc by (simp add: free_space_def) (metis Un_assoc)
    moreover have "join_next a nx s = set_ptr a (h_ptr (hdr s nx)) (set_size a (n + snd c) s)" using True a(1) c(2) by (simp add: join_next_def)
    moreover have "unat a < end_of (a, n + snd c)" using j(1) [OF ce] e pos(2) start_le_end [of "(nx, snd c)"] by simp
    then have "0 < n + snd c" by (simp add: end_of_def word_less_nat_alt)
    ultimately show ?thesis using c(3) notin p by (intro exI [of _ "n + snd c"] exI [of _ post']) (auto simp: chain_upd)
  next
    case False
    have "spaced ((a, n) # post)"
    proof -
      have "end_of (a, n) < unat (fst c)" if c: "c \<in> set post" for c
      proof (cases post)
        case (Cons d ds)
        then have d: "fst d = nx" using r by auto
        have "end_of (a, n) \<noteq> unat nx" using False units_eq_iff [OF a(2)] by simp
        moreover have "end_of (a, n) \<le> unat nx" using hi Cons d by auto
        moreover have "unat nx \<le> unat (fst c)" using sp c Cons d start_le_end [of d] by (fastforce simp: spaced_Cons)
        ultimately show ?thesis by simp
      qed (use c in simp)
      then show ?thesis using sp a(2) by (simp add: spaced_Cons)
    qed
    moreover have "join_next a nx s = set_ptr a nx s" using False a(1) by (simp add: join_next_def)
    ultimately show ?thesis using r notin a(1,4) by (intro exI [of _ n] exI [of _ post]) (auto simp: chain_upd free_space_def)
  qed
qed

lemma ringI:
  assumes "bs = (base_at s, 0) # cs" "\<forall>b \<in> set cs. 0 < snd b" "chain (hdr s) (base_at s) bs (base_at s)" "spaced bs"
    "freep s \<in> fst ` set bs" "base_at s \<noteq> 0"
  shows "ring s bs"
  using assms unfolding ring_def by blast

lemma join_prev_ring:
  assumes pre: "chain (hdr s) (base_at s) (pre @ [b]) x" and post: "chain (hdr s) a ((a, m) # post) (base_at s)"
    and sp: "spaced (pre @ [b])" "spaced ((a, m) # post)" and lo: "\<forall>c \<in> set (pre @ [b]). end_of c \<le> unat a \<and> fst c < a"
    and base: "pre @ [b] = (base_at s, 0) # cs" "base_at s \<noteq> 0" and pos: "\<forall>c \<in> set (cs @ (a, m) # post). 0 < snd c"
  shows "\<exists>bs. ring ((join_prev a (fst b) s)\<lparr>freep := fst b\<rparr>) bs \<and> free_space bs = free_space (pre @ [b]) \<union> free_space ((a, m) # post)"
proof -
  let ?p = "fst b"
  have pc: "chain (hdr s) (base_at s) pre ?p" "h_size (hdr s ?p) = snd b" using pre by (auto simp: chain_append)
  have lt: "end_of c < unat (fst d)" if "c \<in> set (pre @ [b])" "d \<in> set post" for c d
    using lo that sp(2) start_le_end [of "(a, m)"] by (fastforce simp: spaced_Cons)
  have npre: "?p \<notin> fst ` set pre" using spaced_distinct [OF sp(1)] by auto
  have pa: "?p \<noteq> a" using lo by auto
  have npost: "?p \<notin> fst ` set post" using lt [of b] start_le_end [of b] by fastforce
  have be: "end_of b \<le> 2 ^ 36" using sp(1) by (simp add: spaced_append spaced_Cons)
  have bb: "b = (?p, snd b)" by simp
  show ?thesis
  proof (cases "units ?p (snd b) = a")
    case True
    let ?s = "set_ptr ?p (h_ptr (hdr s a)) (set_size ?p (snd b + m) s)" and ?c = "(?p, snd b + m)"
    have e: "end_of b = unat a" using True units_eq_iff [of ?p "snd b" a] be bb by simp
    have am: "h_size (hdr s a) = m" "chain (hdr s) (h_ptr (hdr s a)) post (base_at s)" "end_of (a, m) \<le> 2 ^ 36"
      using post sp(2) by (simp_all add: spaced_Cons)
    have s: "join_prev a ?p s = ?s" using True pc(2) am(1) by (simp add: join_prev_def)
    obtain pre' where pre': "pre = (base_at s, 0) # pre'" "cs = pre' @ [b]"
    proof (cases pre)
      case Nil
      then have "b = (base_at s, 0)" using base(1) by simp
      then show ?thesis using e lo by (simp add: end_of_def word_less_nat_alt)
    qed (use base(1) that in auto)
    have "base_at s < ?p" using spaced_before(1) [OF sp(1), of "(base_at s, 0)"] pre'(1) by simp
    then have "0 < unat ?p" by (simp add: word_less_nat_alt)
    note j = join_blocks [of ?p "snd b" a m, folded bb, OF e am(3) this]
    have "chain (hdr ?s) (base_at s) (pre @ ?c # post) (base_at s)"
      using pc(1) am(2) npre npost by (auto simp: chain_append chain_upd)
    moreover have "spaced (pre @ ?c # post)"
      using sp j(1) am(3) lt lo by (auto simp: spaced_append spaced_Cons)
    moreover have "0 < snd b + m"
    proof -
      have "unat ?p < end_of ?c" using j(1) e lo start_le_end [of "(a, m)"] by (simp add: word_less_nat_alt)
      then show ?thesis by (simp add: end_of_def word_less_nat_alt)
    qed
    moreover have "free_space (pre @ ?c # post) = free_space (pre @ [b]) \<union> free_space ((a, m) # post)"
      using j(2) by (auto simp: free_space_def)
    ultimately show ?thesis unfolding s using pre' pos base(2)
      by (intro exI [of _ "pre @ ?c # post"]) (auto simp: ring_def)
  next
    case False
    let ?s = "set_ptr ?p a s"
    have s: "join_prev a ?p s = ?s" using False pc(2) by (simp add: join_prev_def)
    have ne: "end_of b < unat a" using False units_eq_iff [of ?p "snd b" a] be bb lo by fastforce
    let ?bs = "pre @ b # (a, m) # post"
    have ch: "chain (hdr ?s) (base_at s) ?bs (base_at s)"
      using pc post npre npost pa by (auto simp: chain_append chain_upd)
    have "end_of c < unat a" if "c \<in> set pre" for c
      using sp(1) that lo start_le_end [of b] by (fastforce simp: spaced_append word_less_nat_alt)
    then have spb: "spaced ?bs" using sp ne lt by (auto simp: spaced_append spaced_Cons)
    have "?bs = (base_at s, 0) # (cs @ (a, m) # post)" using base(1) by (metis append.assoc append_Cons append_Nil)
    moreover have "?p \<in> fst ` set ?bs" by simp
    ultimately have "ring (?s\<lparr>freep := ?p\<rparr>) ?bs" using ch spb base(2)
      by (intro ringI [OF _ pos]) (simp_all del: set_append list.set chain.simps)
    moreover have "free_space (pre @ b # (a, m) # post) = free_space (pre @ [b]) \<union> free_space ((a, m) # post)"
      by (auto simp: free_space_def)
    ultimately show ?thesis unfolding s by blast
  qed
qed

lemma free_ring:
  assumes r: "ring s bs" and u: "in_use s bs a (h_size (hdr s a))"
  shows "\<exists>s' bs'. free (a + 16) s = Some s' \<and> ring s' bs' \<and> free_space bs' = free_space bs \<union> extent (a, h_size (hdr s a)) \<and>
    base_at s' = base_at s \<and> (\<forall>x. x \<noteq> a \<longrightarrow> x \<notin> fst ` set bs \<longrightarrow> hdr s' x = hdr s x)"
proof -
  let ?n = "h_size (hdr s a)"
  obtain pre b post where bs: "bs = pre @ b # post" and lo: "\<forall>c \<in> set (pre @ [b]). end_of c \<le> unat a \<and> fst c < a"
    and hi: "\<forall>c \<in> set post. end_of (a, ?n) \<le> unat (fst c)" using split_at [OF r u] by blast
  have an: "end_of (a, ?n) \<le> 2 ^ 36" "base_at s < a" "0 < ?n" using u by (auto simp: in_use_def)
  have sp: "spaced bs" and ch: "chain (hdr s) (base_at s) bs (base_at s)" using r by (simp_all add: ring_def)
  have "\<forall>c \<in> set post. a < fst c" using hi an(3) by (fastforce simp: end_of_def word_less_nat_alt)
  then have scan: "free_scan (hdr s) a (freep s) = Some (fst b)" using free_scan_ring [OF r bs an(2)] lo by blast
  let ?nx = "h_ptr (hdr s (fst b))" and ?s = "join_next a (h_ptr (hdr s (fst b))) s"
  have post: "chain (hdr s) ?nx post (base_at s)" and pre: "chain (hdr s) (base_at s) (pre @ [b]) ?nx"
    using ch bs by (auto simp: chain_append)
  have "spaced post" "spaced (pre @ [b])" using sp bs spaced_append [of "pre @ [b]" post] by auto
  obtain m post' where j: "chain (hdr ?s) a ((a, m) # post') (base_at s)" "spaced ((a, m) # post')"
    "free_space ((a, m) # post') = extent (a, ?n) \<union> free_space post" "set post' \<subseteq> set post" "0 < m"
    "hdr ?s = (hdr s)(a := hdr ?s a)"
    using join_next_chain [OF post \<open>spaced post\<close> hi refl an] by blast
  have ba: "base_at ?s = base_at s" by (simp add: join_next_def)
  have "a \<notin> fst ` set (pre @ [b])" using lo by blast
  then have pre': "chain (hdr ?s) (base_at ?s) (pre @ [b]) ?nx" using pre chain_upd [of a] ba by (metis j(6))
  obtain ds where ds: "bs = (base_at s, 0) # ds" "\<forall>c \<in> set ds. 0 < snd c" using r by (auto simp: ring_def)
  then obtain cs where cs: "pre @ [b] = (base_at s, 0) # cs" "ds = cs @ post" using bs by (cases pre) auto
  have pos: "\<forall>c \<in> set (cs @ (a, m) # post'). 0 < snd c" using ds(2) cs(2) j(4,5) by auto
  obtain bs' where "ring ((join_prev a (fst b) ?s)\<lparr>freep := fst b\<rparr>) bs'"
    "free_space bs' = free_space (pre @ [b]) \<union> free_space ((a, m) # post')"
    using join_prev_ring [OF pre' j(1) [folded ba] \<open>spaced (pre @ [b])\<close> j(2) lo cs(1) [folded ba] _ pos] r ba
    by (auto simp: ring_def)
  moreover have "free_space (pre @ [b]) \<union> free_space ((a, m) # post') = free_space bs \<union> extent (a, ?n)"
    unfolding j(3) bs by (auto simp: free_space_def)
  moreover have "hdr (join_prev a (fst b) ?s) x = hdr s x" if "x \<noteq> a" "x \<notin> fst ` set bs" for x
    using that bs fun_cong [OF j(6), of x] by (auto simp: join_prev_def)
  moreover have "base_at (join_prev a (fst b) ?s) = base_at s" by (simp add: join_prev_def ba)
  moreover have "free (a + 16) s = Some ((join_prev a (fst b) ?s)\<lparr>freep := fst b\<rparr>)" using scan by (simp add: free_def)
  ultimately show ?thesis by (intro exI [of _ "(join_prev a (fst b) ?s)\<lparr>freep := fst b\<rparr>"] exI [of _ bs']) simp
qed

section \<open>Taking a block\<close>

lemma take_exact:
  assumes r: "ring s (pre @ b # d # post)" and n: "snd d = n"
  shows "ring (set_ptr (fst b) (h_ptr (hdr s (fst d))) s\<lparr>freep := fst b\<rparr>) (pre @ b # post)"
proof -
  let ?bs = "pre @ b # post"
  have sp: "spaced (pre @ b # d # post)" and ch: "chain (hdr s) (base_at s) (pre @ b # d # post) (base_at s)"
    using r by (simp_all add: ring_def)
  have ne: "fst b \<notin> fst ` set pre" "fst b \<noteq> fst d" "fst b \<notin> fst ` set post" using spaced_distinct [OF sp] by auto
  have "chain (hdr (set_ptr (fst b) (h_ptr (hdr s (fst d))) s)) (base_at s) ?bs (base_at s)"
    using ch ne by (auto simp: chain_append chain_upd)
  moreover have "spaced ?bs" using sp by (simp add: spaced_append spaced_Cons)
  moreover obtain cs where cs: "pre @ b # d # post = (base_at s, 0) # cs" "\<forall>c \<in> set cs. 0 < snd c" "base_at s \<noteq> 0"
    using r by (auto simp: ring_def)
  then have "\<exists>cs'. ?bs = (base_at s, 0) # cs' \<and> set cs' \<subseteq> set cs" by (cases pre) auto
  then obtain cs' where "?bs = (base_at s, 0) # cs'" "set cs' \<subseteq> set cs" by blast
  moreover have "fst b \<in> fst ` set ?bs" by simp
  ultimately show ?thesis using cs(2,3) by (intro ringI [of _ _ cs']) (simp_all del: set_append list.set chain.simps, blast)
qed

lemma split_block:
  assumes n: "n < snd d" "0 < n" and e: "end_of d \<le> 2 ^ 36"
  defines "q \<equiv> units (fst d) (snd d - n)"
  shows "unat q = end_of (fst d, snd d - n)" "end_of (q, n) = end_of d" "unat (fst d) < unat q" "unat q < end_of d"
    "extent d = extent (fst d, snd d - n) \<union> extent (q, n)" "extent (fst d, snd d - n) \<inter> extent (q, n) = {}"
proof -
  have m: "unat (snd d - n) = unat (snd d) - unat n" "unat n < unat (snd d)" "0 < unat n"
    using n by (simp_all add: unat_sub_if' word_less_nat_alt)
  show q: "unat q = end_of (fst d, snd d - n)" unfolding q_def using e m by (intro unat_units) (simp add: end_of_def)
  show "end_of (q, n) = end_of d" "unat (fst d) < unat q" "unat q < end_of d" using q m by (auto simp: end_of_def)
  then show "extent d = extent (fst d, snd d - n) \<union> extent (q, n)" "extent (fst d, snd d - n) \<inter> extent (q, n) = {}"
    using q by (auto simp: extent_def)
qed

lemma take_split:
  assumes r: "ring s (pre @ d # post)" and f: "f \<in> fst ` set (pre @ d # post)" and n: "n < snd d" "0 < n"
  defines "q \<equiv> units (fst d) (snd d - n)"
  shows "ring (set_size q n (set_size (fst d) (snd d - n) s)\<lparr>freep := f\<rparr>) (pre @ (fst d, snd d - n) # post)"
proof -
  let ?d = "(fst d, snd d - n)" let ?bs = "pre @ ?d # post" and ?s = "set_size q n (set_size (fst d) (snd d - n) s)"
  have sp: "spaced (pre @ d # post)" and ch: "chain (hdr s) (base_at s) (pre @ d # post) (base_at s)"
    using r by (simp_all add: ring_def)
  have e: "end_of d \<le> 2 ^ 36" using sp by (simp add: spaced_append spaced_Cons)
  note b = split_block [OF n e, folded q_def]
  have "end_of c < unat q" if "c \<in> set pre" for c using sp that b(3) by (fastforce simp: spaced_append)
  then have qp: "q \<notin> fst ` set pre" by (metis imageE leD start_le_end)
  have qq: "q \<notin> fst ` set post" "q \<noteq> fst d" using sp b(3,4) by (fastforce simp: spaced_append spaced_Cons)+
  have ne: "fst d \<notin> fst ` set pre" "fst d \<notin> fst ` set post" using spaced_distinct [OF sp] by auto
  have "chain (hdr ?s) (base_at s) ?bs (base_at s)" using ch qp qq ne by (auto simp: chain_append chain_upd)
  moreover have "spaced ?bs" using sp b by (auto simp: spaced_append spaced_Cons)
  moreover obtain cs where cs: "pre @ d # post = (base_at s, 0) # cs" "\<forall>c \<in> set cs. 0 < snd c" "base_at s \<noteq> 0"
    using r by (auto simp: ring_def)
  then have "\<exists>cs'. ?bs = (base_at s, 0) # cs' \<and> set cs' \<subseteq> insert ?d (set cs)" using n(1) by (cases pre) auto
  then obtain cs' where "?bs = (base_at s, 0) # cs'" "set cs' \<subseteq> insert ?d (set cs)" by blast
  moreover have "f \<in> fst ` set ?bs" using f by auto
  moreover have "0 < snd d - n" using n(1) by (simp add: word_less_nat_alt unat_sub_if')
  ultimately show ?thesis using cs(2,3) by (intro ringI [of _ _ cs']) (simp_all del: set_append list.set chain.simps, auto)
qed

text \<open>What a block of \<open>n\<close> units is taken from the free ones.\<close>

lemma take_block_ring:
  assumes r: "ring s bs" and pp: "prevp \<in> fst ` set bs" and p: "h_ptr (hdr s prevp) = p" and n: "n \<le> h_size (hdr s p)" "0 < n"
  shows "\<exists>a s' bs'. take_block n prevp p s = (a + 16, s') \<and> ring s' bs' \<and> h_size (hdr s' a) = n \<and> base_at s' = base_at s \<and>
    free_space bs = free_space bs' \<union> extent (a, n) \<and> free_space bs' \<inter> extent (a, n) = {} \<and> base_at s < a \<and>
    (\<forall>x. x \<notin> fst ` set bs \<longrightarrow> unat x \<notin> free_space bs \<longrightarrow> hdr s' x = hdr s x)"
proof -
  from pp obtain b where "b \<in> set bs" and b: "prevp = fst b" by auto
  then obtain pre ds where bs: "bs = pre @ b # ds" by (meson split_list)
  have nx: "p = (case ds of [] \<Rightarrow> base_at s | c # _ \<Rightarrow> fst c)" using ring_next(1) [of s pre b ds] r bs p b by simp
  obtain cs where "bs = (base_at s, 0) # cs" using r by (auto simp: ring_def)
  then have "h_size (hdr s (base_at s)) = 0" using r by (simp add: ring_def)
  then have "p \<noteq> base_at s" using n by auto
  then obtain d post where ds: "ds = d # post" and pd: "p = fst d" using nx by (cases ds) auto
  have d: "h_size (hdr s p) = snd d" using ring_next(2) [of s "pre @ [b]" d post] r bs ds pd by simp
  have sp: "spaced (pre @ b # d # post)" using r bs ds by (simp add: ring_def)
  have base: "base_at s < fst d" using ring_base_le [OF r, of d] bs ds \<open>p \<noteq> base_at s\<close> pd by simp
  have fd: "free_space bs = free_space (pre @ b # post) \<union> extent d" using bs ds by (auto simp: free_space_def)
  have dis: "extent c \<inter> extent d = {}" if "c \<in> set (pre @ b # post)" for c
    using sp that by (fastforce simp: extent_def spaced_append spaced_Cons)
  show ?thesis
  proof (cases "snd d = n")
    case True
    let ?s = "set_ptr (fst b) (h_ptr (hdr s (fst d))) s\<lparr>freep := fst b\<rparr>"
    have "take_block n prevp p s = (fst d + 16, ?s)" using True d b pd by (simp add: take_block_def Let_def)
    moreover have "ring ?s (pre @ b # post)" using take_exact [OF _ True] r bs ds by simp
    moreover have "h_size (hdr ?s (fst d)) = n" using True d pd by auto
    moreover have "free_space (pre @ b # post) \<inter> extent d = {}" using dis unfolding free_space_def by blast
    moreover have "d = (fst d, n)" using True by auto
    ultimately show ?thesis using fd base bs
      by (intro exI [of _ "fst d"] exI [of _ ?s] exI [of _ "pre @ b # post"]) auto
  next
    case False
    then have n': "n < snd d" using n d by simp
    let ?q = "units (fst d) (snd d - n)" let ?s = "set_size ?q n (set_size (fst d) (snd d - n) s)\<lparr>freep := fst b\<rparr>"
    let ?bs = "(pre @ [b]) @ (fst d, snd d - n) # post"
    have e: "end_of d \<le> 2 ^ 36" using sp by (simp add: spaced_append spaced_Cons)
    note q = split_block [OF n' n(2) e]
    have "take_block n prevp p s = (?q + 16, ?s)" using False d b pd by (simp add: take_block_def Let_def)
    moreover have "ring ?s ?bs" using bs ds r n' n(2) by (intro take_split) auto
    moreover have "h_size (hdr ?s ?q) = n" by simp
    moreover have "free_space bs = free_space ?bs \<union> extent (?q, n)" unfolding fd q(5) by (auto simp: free_space_def)
    moreover have "free_space ?bs \<inter> extent (?q, n) = {}" using dis q(5,6) unfolding free_space_def by fastforce
    moreover have "base_at s < ?q" using base q(3) by (simp add: word_less_nat_alt)
    moreover have "unat ?q \<in> free_space bs" using q(3,4) bs ds by (auto simp: free_space_def extent_def)
    ultimately show ?thesis using bs ds
      by (intro exI [of _ ?q] exI [of _ ?s] exI [of _ ?bs]) auto
  qed
qed

section \<open>The search of malloc\<close>

text \<open>A step of the search: the successor of \<open>pp\<close> is large enough, and a block is taken from it.\<close>

definition takes :: "uheap \<Rightarrow> uint64 set \<Rightarrow> uint \<Rightarrow> 'w \<Rightarrow> (uint64 \<times> uheap \<times> 'w) option \<Rightarrow> bool" where
  "takes s S n w res \<longleftrightarrow> (\<exists>pp \<in> S. n \<le> h_size (hdr s (h_ptr (hdr s pp))) \<and>
     res = Some (fst (take_block n pp (h_ptr (hdr s pp)) s), snd (take_block n pp (h_ptr (hdr s pp)) s), w))"

lemma takesI:
  assumes "pp \<in> S" "h_ptr (hdr s pp) = p" "n \<le> h_size (hdr s p)"
  shows "takes s S n w (malloc_loop sbrk n pp p s w)"
proof -
  have "malloc_loop sbrk n pp p s w = Some (fst (take_block n pp p s), snd (take_block n pp p s), w)"
    using assms(3) by (subst malloc_loop.simps) (simp add: case_prod_beta)
  then show ?thesis unfolding takes_def using assms by blast
qed

lemma malloc_walk:
  assumes "chain (hdr s) p xs q" "\<forall>b \<in> set xs. fst b \<noteq> freep s" "fst ` set xs \<subseteq> S" "pp \<in> S" "h_ptr (hdr s pp) = p"
  shows "takes s S n w (malloc_loop sbrk n pp p s w) \<or>
    (\<forall>b \<in> set xs. snd b < n) \<and> (\<exists>pp' \<in> S. h_ptr (hdr s pp') = q \<and> malloc_loop sbrk n pp p s w = malloc_loop sbrk n pp' q s w)"
  using assms
proof (induction xs arbitrary: p pp)
  case (Cons b xs)
  have b: "p = fst b" "h_size (hdr s p) = snd b" "p \<noteq> freep s" "p \<in> S" using Cons.prems by auto
  show ?case
  proof (cases "n \<le> snd b")
    case True
    then have "takes s S n w (malloc_loop sbrk n pp p s w)" using b(2) by (intro takesI [OF Cons.prems(4,5)]) simp
    then show ?thesis by blast
  next
    case False
    have e: "malloc_loop sbrk n pp p s w = malloc_loop sbrk n p (h_ptr (hdr s p)) s w"
      using b False by (subst malloc_loop.simps) simp
    have ch: "chain (hdr s) (h_ptr (hdr s p)) xs q" and f: "\<forall>b \<in> set xs. fst b \<noteq> freep s" "fst ` set xs \<subseteq> S"
      using Cons.prems by auto
    show ?thesis using Cons.IH [OF ch f b(4) refl] False unfolding e by auto
  qed
qed auto

text \<open>A whole turn round the ring: a block is taken, or none is large enough and \<^verbatim>\<open>morecore\<close> is called.\<close>

lemma malloc_turn:
  assumes r: "ring s bs"
  defines "p \<equiv> h_ptr (hdr s (freep s))"
  shows "takes s (fst ` set bs) n w (malloc_loop sbrk n (freep s) p s w) \<or> (\<forall>b \<in> set bs. snd b < n) \<and>
    malloc_loop sbrk n (freep s) p s w = Option.bind (morecore sbrk n s w) (\<lambda>(p, s, w).
      if p = 0 then Some (0, s, w) else malloc_loop sbrk n p (h_ptr (hdr s p)) s w)"
proof -
  let ?S = "fst ` set bs"
  obtain f where "f \<in> set bs" and f: "freep s = fst f" using r by (auto simp: ring_def)
  then obtain xs ys where bs: "bs = xs @ f # ys" by (meson split_list)
  have sp: "spaced bs" and ch: "chain (hdr s) (base_at s) bs (base_at s)" using r by (simp_all add: ring_def)
  have c: "chain (hdr s) p (ys @ xs) (freep s)" using ch bs f by (auto simp: chain_append p_def)
  have ne: "\<forall>b \<in> set (ys @ xs). fst b \<noteq> freep s" using spaced_distinct [OF sp] unfolding bs f by (auto simp: image_iff)
  have fz: "h_size (hdr s (freep s)) = snd f" using ring_next(2) [of s xs f ys] r bs f by simp
  have "takes s ?S n w (malloc_loop sbrk n (freep s) p s w) \<or>
    (\<forall>b \<in> set (ys @ xs). snd b < n) \<and> (\<exists>pp \<in> ?S. h_ptr (hdr s pp) = freep s \<and> malloc_loop sbrk n (freep s) p s w = malloc_loop sbrk n pp (freep s) s w)"
    using bs f by (intro malloc_walk [OF c ne]) (auto simp: p_def)
  then show ?thesis
  proof (elim disjE conjE bexE)
    fix pp
    assume pp: "\<forall>b \<in> set (ys @ xs). snd b < n" "pp \<in> ?S" "h_ptr (hdr s pp) = freep s"
      "malloc_loop sbrk n (freep s) p s w = malloc_loop sbrk n pp (freep s) s w"
    show ?thesis
    proof (cases "n \<le> snd f")
      case True
      then have "takes s ?S n w (malloc_loop sbrk n pp (freep s) s w)" using fz by (intro takesI [OF pp(2,3)]) simp
      then show ?thesis using pp(4) by simp
    next
      case False
      then have "malloc_loop sbrk n pp (freep s) s w = Option.bind (morecore sbrk n s w) (\<lambda>(p, s, w).
        if p = 0 then Some (0, s, w) else malloc_loop sbrk n p (h_ptr (hdr s p)) s w)"
        using fz by (subst malloc_loop.simps) simp
      then show ?thesis using False pp(1,4) bs by auto
    qed
  qed blast
qed

text \<open>A free stretch lies in one free block, because the free blocks do not touch each other.\<close>

lemma one_block:
  assumes sp: "spaced bs" and sub: "extent (a, n) \<subseteq> free_space bs" and n: "0 < n"
  shows "\<exists>b \<in> set bs. n \<le> snd b"
proof -
  have a: "unat a \<in> extent (a, n)" using n by (simp add: extent_def end_of_def word_less_nat_alt)
  then obtain b where b: "b \<in> set bs" "unat a \<in> extent b" using sub by (auto simp: free_space_def)
  have "end_of (a, n) \<le> end_of b"
  proof (rule ccontr)
    assume "\<not> end_of (a, n) \<le> end_of b"
    then have "end_of b \<in> extent (a, n)" using b(2) by (simp add: extent_def)
    then obtain c where c: "c \<in> set bs" "end_of b \<in> extent c" using sub by (auto simp: free_space_def)
    from b(1) obtain us vs where "bs = us @ b # vs" by (meson split_list)
    then show False using sp c start_le_end [of b] by (fastforce simp: spaced_append spaced_Cons extent_def)
  qed
  then have "n \<le> snd b" using b(2) by (auto simp: extent_def end_of_def word_le_nat_alt)
  then show ?thesis using b(1) by blast
qed

section \<open>The heap of a program\<close>

text \<open>
  The free blocks are \<open>bs\<close> and the blocks the program holds are \<open>us\<close>; none of them share memory, and
  all lie below the end \<open>lim\<close> of the memory of the process.
\<close>

definition live :: "uheap \<Rightarrow> blocks \<Rightarrow> (uint64 \<times> uint) set \<Rightarrow> nat \<Rightarrow> bool" where
  "live s bs us lim \<longleftrightarrow> ring s bs \<and> free_space bs \<subseteq> {..<lim} \<and> unat (base_at s) < lim \<and> lim \<le> 2 ^ 36 \<and>
     (\<forall>u \<in> us. in_use s bs (fst u) (snd u) \<and> end_of u \<le> lim \<and> h_size (hdr s (fst u)) = snd u) \<and>
     (\<forall>u \<in> us. \<forall>v \<in> us. u \<noteq> v \<longrightarrow> extent u \<inter> extent v = {})"

lemma start_in_extent: "0 < snd b \<Longrightarrow> unat (fst b) \<in> extent b"
  by (simp add: extent_def end_of_def word_less_nat_alt)

lemma in_use_not_head:
  assumes "ring s bs" "in_use s bs a n"
  shows "a \<notin> fst ` set bs" "unat a \<notin> free_space bs"
proof -
  have "unat a \<in> extent (a, n)" using assms(2) start_in_extent [of "(a, n)"] by (simp add: in_use_def)
  then show f: "unat a \<notin> free_space bs" using assms(2) by (auto simp: in_use_def)
  show "a \<notin> fst ` set bs"
  proof
    assume "a \<in> fst ` set bs"
    then obtain b where b: "b \<in> set bs" "a = fst b" by auto
    then have "b \<noteq> (base_at s, 0)" using assms(2) by (auto simp: in_use_def)
    then have "0 < snd b" using assms(1) b(1) by (auto simp: ring_def)
    then show False using f b start_in_extent [of b] by (auto simp: free_space_def)
  qed
qed

lemma free_live:
  assumes l: "live s bs us lim" and u: "(a, n) \<in> us"
  shows "\<exists>s' bs'. free (a + 16) s = Some s' \<and> live s' bs' (us - {(a, n)}) lim \<and> free_space bs' = free_space bs \<union> extent (a, n)"
proof -
  have r: "ring s bs" and an: "in_use s bs a n" "h_size (hdr s a) = n" "end_of (a, n) \<le> lim" using l u by (auto simp: live_def)
  obtain s' bs' where f: "free (a + 16) s = Some s'" "ring s' bs'" "free_space bs' = free_space bs \<union> extent (a, n)"
    "base_at s' = base_at s" "\<And>x. x \<noteq> a \<Longrightarrow> x \<notin> fst ` set bs \<Longrightarrow> hdr s' x = hdr s x"
    using free_ring [OF r] an by blast
  have "in_use s' bs' (fst v) (snd v) \<and> h_size (hdr s' (fst v)) = snd v" if v: "v \<in> us - {(a, n)}" for v
  proof -
    have iv: "in_use s bs (fst v) (snd v)" "h_size (hdr s (fst v)) = snd v" and d: "extent v \<inter> extent (a, n) = {}"
      using l u v by (auto simp: live_def)
    have "unat (fst v) \<in> extent v" "unat a \<in> extent (a, n)" using iv(1) an(1) start_in_extent [of v] start_in_extent [of "(a, n)"] by (simp_all add: in_use_def)
    then have "fst v \<noteq> a" using d by auto
    then have "hdr s' (fst v) = hdr s (fst v)" using f(5) in_use_not_head(1) [OF r iv(1)] by blast
    then show ?thesis using iv d f(3,4) by (auto simp: in_use_def)
  qed
  moreover have "extent (a, n) \<subseteq> {..<lim}" using an(3) by (auto simp: extent_def)
  ultimately have "live s' bs' (us - {(a, n)}) lim" using l f(2-4) by (auto simp: live_def)
  then show ?thesis using f(1,3) by blast
qed

lemma live_freep: "live s bs us lim \<Longrightarrow> freep s \<noteq> 0"
proof -
  assume "live s bs us lim"
  then have r: "ring s bs" by (simp add: live_def)
  then obtain c where "c \<in> set bs" "freep s = fst c" "base_at s \<noteq> 0" by (auto simp: ring_def)
  then show ?thesis using ring_base_le [OF r, of c] by (auto simp: word_le_nat_alt unat_eq_0)
qed

lemma disjoint_insert:
  assumes "\<forall>u \<in> us. \<forall>v \<in> us. u \<noteq> v \<longrightarrow> extent u \<inter> extent v = {}" "\<And>v. v \<in> us \<Longrightarrow> extent v \<inter> extent b = {}"
  shows "\<forall>u \<in> insert b us. \<forall>v \<in> insert b us. u \<noteq> v \<longrightarrow> extent u \<inter> extent v = {}"
  using assms by (auto simp: Int_commute)

lemma live_grow:
  assumes l: "live s bs us (unat p)" and n: "0 < n" "end_of (p, n) \<le> 2 ^ 36"
  shows "live (set_size p n s) bs (insert (p, n) us) (end_of (p, n))" "(p, n) \<notin> us"
proof -
  have r: "ring s bs" and f: "free_space bs \<subseteq> {..<unat p}" and b: "unat (base_at s) < unat p" using l by (auto simp: live_def)
  have u: "in_use s bs (fst v) (snd v) \<and> end_of v \<le> unat p \<and> h_size (hdr s (fst v)) = snd v" if "v \<in> us" for v
    using l that by (simp add: live_def)
  have fu: "unat (fst v) < unat p" if "v \<in> us" for v using u [OF that] by (auto simp: in_use_def end_of_def word_less_nat_alt)
  then show np: "(p, n) \<notin> us" by fastforce
  have pe: "extent (p, n) \<inter> {..<unat p} = {}" by (auto simp: extent_def)
  have "in_use s bs p n" using n b f pe by (auto simp: in_use_def word_less_nat_alt)
  then have "p \<notin> fst ` set bs" using in_use_not_head(1) [OF r] by simp
  then have r': "ring (set_size p n s) bs" using r by (simp add: ring_def chain_upd)
  have ev: "extent v \<subseteq> {..<unat p}" if "v \<in> us" for v using u [OF that] by (auto simp: extent_def)
  have le: "unat p \<le> end_of (p, n)" by (simp add: end_of_def)
  have us: "in_use (set_size p n s) bs (fst v) (snd v) \<and> end_of v \<le> end_of (p, n) \<and> h_size (hdr (set_size p n s) (fst v)) = snd v"
    if "v \<in> insert (p, n) us" for v
  proof (cases "v = (p, n)")
    case False
    then have v: "v \<in> us" using that by blast
    then have "fst v \<noteq> p" using fu by blast
    then show ?thesis using u [OF v] le by (simp add: in_use_def)
  qed (use \<open>in_use s bs p n\<close> in \<open>simp add: in_use_def\<close>)
  have dis: "\<forall>u \<in> insert (p, n) us. \<forall>v \<in> insert (p, n) us. u \<noteq> v \<longrightarrow> extent u \<inter> extent v = {}"
    using l ev pe by (intro disjoint_insert) (simp add: live_def, blast)
  show "live (set_size p n s) bs (insert (p, n) us) (end_of (p, n))" unfolding live_def
  proof (intro conjI)
    show "free_space bs \<subseteq> {..<end_of (p, n)}" using f le by fastforce
    show "unat (base_at (set_size p n s)) < end_of (p, n)" using b le by simp
  qed (use r' n(2) us dis in blast)+
qed

lemma take_live:
  assumes l: "live s bs us lim" and t: "takes s (fst ` set bs) n w res" and n: "0 < n"
  shows "\<exists>a s' bs'. res = Some (a + 16, s', w) \<and> live s' bs' (insert (a, n) us) lim \<and> (a, n) \<notin> us \<and> a + 16 \<noteq> 0"
proof -
  have r: "ring s bs" and f: "free_space bs \<subseteq> {..<lim}" and lim: "lim \<le> 2 ^ 36" using l by (auto simp: live_def)
  have u: "in_use s bs (fst v) (snd v) \<and> end_of v \<le> lim \<and> h_size (hdr s (fst v)) = snd v" if "v \<in> us" for v
    using l that by (simp add: live_def)
  obtain pp where pp: "pp \<in> fst ` set bs" "n \<le> h_size (hdr s (h_ptr (hdr s pp)))"
    "res = Some (fst (take_block n pp (h_ptr (hdr s pp)) s), snd (take_block n pp (h_ptr (hdr s pp)) s), w)"
    using t unfolding takes_def by blast
  obtain a s' bs' where a: "take_block n pp (h_ptr (hdr s pp)) s = (a + 16, s')" "ring s' bs'" "h_size (hdr s' a) = n" "base_at s' = base_at s"
    "free_space bs = free_space bs' \<union> extent (a, n)" "free_space bs' \<inter> extent (a, n) = {}" "base_at s < a"
    "\<And>x. x \<notin> fst ` set bs \<Longrightarrow> unat x \<notin> free_space bs \<Longrightarrow> hdr s' x = hdr s x"
    using take_block_ring [OF r pp(1) refl pp(2) n] by blast
  have sub: "extent (a, n) \<subseteq> {..<lim}" using a(5) f by blast
  have "end_of (a, n) - 1 \<in> extent (a, n)" using n by (auto simp: extent_def end_of_def word_less_nat_alt)
  then have ae: "end_of (a, n) \<le> lim" using sub by auto
  have ia: "in_use s' bs' a n" using n a(4,6,7) ae lim by (auto simp: in_use_def)
  have uv: "in_use s' bs' (fst v) (snd v) \<and> h_size (hdr s' (fst v)) = snd v" if "v \<in> us" for v
  proof -
    have "hdr s' (fst v) = hdr s (fst v)" using u [OF that] a(8) in_use_not_head [OF r] by blast
    then show ?thesis using u [OF that] a(4,5) by (auto simp: in_use_def)
  qed
  have ev: "extent v \<inter> extent (a, n) = {}" if "v \<in> us" for v using u [OF that] a(5) by (auto simp: in_use_def)
  have "(a, n) \<notin> us" using ev [of "(a, n)"] start_in_extent [of "(a, n)"] n by auto
  moreover have "live s' bs' (insert (a, n) us) lim" unfolding live_def [of s']
  proof (intro conjI)
    show "\<forall>u \<in> insert (a, n) us. \<forall>v \<in> insert (a, n) us. u \<noteq> v \<longrightarrow> extent u \<inter> extent v = {}"
      using l ev by (intro disjoint_insert) (simp add: live_def, blast)
  qed (use l a(2-5) f ia ae lim u uv in \<open>auto simp: live_def\<close>)
  moreover have "a + 16 \<noteq> 0"
  proof -
    have "unat a < 2 ^ 36" using ae lim n by (simp add: end_of_def word_less_nat_alt)
    then have "unat (a + 16) = unat a + 16" by (simp add: unat_word_ariths)
    then show ?thesis by auto
  qed
  ultimately show ?thesis using pp(3) a(1) by auto
qed

text \<open>
  What \<^verbatim>\<open>sbrk\<close> promises for a positive number of bytes: it refuses, or it returns the end of the
  memory and moves it up by that number. \<open>brk\<close> reads the end off the state of the system.
\<close>

definition grows :: "(32 word \<Rightarrow> 'w \<Rightarrow> uint64 \<times> 'w) \<Rightarrow> ('w \<Rightarrow> nat) \<Rightarrow> bool" where
  "grows sbrk brk \<longleftrightarrow> (\<forall>n w. 0 < unat n \<and> unat n < 2 ^ 31 \<longrightarrow>
     fst (sbrk n w) = - 1 \<and> brk (snd (sbrk n w)) = brk w \<or>
     unat (fst (sbrk n w)) = brk w \<and> brk (snd (sbrk n w)) = brk w + unat n \<and> brk w + unat n \<le> 2 ^ 36)"

text \<open>The number of bytes that \<^verbatim>\<open>morecore\<close> asks of \<^verbatim>\<open>sbrk\<close>.\<close>

definition core_bytes :: "uint \<Rightarrow> 32 word" where
  "core_bytes nu = (if nu < 4096 then 4096 else nu) * 16"

lemma morecore_live:
  assumes l: "live s bs us (brk w)" and g: "grows sbrk brk" and n: "16 * unat nu < 2 ^ 31"
  shows "\<exists>w'. morecore sbrk nu s w = Some (0, s, w') \<and> fst (sbrk (core_bytes nu) w) = - 1 \<and> live s bs us (brk w') \<or>
    (\<exists>s' bs'. morecore sbrk nu s w = Some (freep s', s', w') \<and> live s' bs' us (brk w') \<and> freep s' \<noteq> 0 \<and> (\<exists>b \<in> set bs'. nu \<le> snd b))"
proof -
  define m where "m = (if nu < 4096 then 4096 else nu)"
  let ?p = "fst (sbrk (m * 16) w)" and ?w = "snd (sbrk (m * 16) w)"
  have m: "16 * unat m < 2 ^ 31" "0 < m" "nu \<le> m" using n by (auto simp: m_def word_less_nat_alt word_le_nat_alt)
  then have mm: "unat (m * 16) = unat m * 16" "0 < unat m" by (simp_all add: unat_word_ariths word_less_nat_alt)
  then have "?p = - 1 \<and> brk ?w = brk w \<or> unat ?p = brk w \<and> brk ?w = brk w + unat m * 16 \<and> brk w + unat m * 16 \<le> 2 ^ 36"
    using g m(1) unfolding grows_def by (metis mult.commute nat_0_less_mult_iff zero_less_numeral)
  then consider "?p = - 1" "brk ?w = brk w" | "unat ?p = brk w" "brk ?w = end_of (?p, m)" "end_of (?p, m) \<le> 2 ^ 36"
    by (auto simp: end_of_def mult.commute)
  then show ?thesis
  proof cases
    case 1
    then have "morecore sbrk nu s w = Some (0, s, ?w)" by (simp add: morecore_def case_prod_beta flip: m_def)
    then show ?thesis using l 1 by (auto simp: core_bytes_def m_def)
  next
    case 2
    have p: "?p \<noteq> - 1"
    proof
      assume "?p = - 1"
      then have "unat ?p = 2 ^ 64 - 1" by (simp add: unsigned_minus_1_eq_mask mask_eq_exp_minus_1)
      then show False using 2(3) by (simp add: end_of_def)
    qed
    note lg = live_grow [OF l [folded 2(1)] m(2) 2(3)]
    obtain s' bs' where f: "free (?p + 16) (set_size ?p m s) = Some s'" "live s' bs' us (brk ?w)"
      "free_space bs' = free_space bs \<union> extent (?p, m)"
      using free_live [OF lg(1), of ?p m] lg(2) 2(2) by (auto simp: insert_Diff_if)
    have r: "ring s' bs'" using f(2) by (simp add: live_def)
    have "\<exists>b \<in> set bs'. m \<le> snd b" using one_block [of bs' ?p m] r f(3) m(2) by (auto simp: ring_def)
    then have "\<exists>b \<in> set bs'. nu \<le> snd b" using m(3) by (meson order.trans)
    moreover have "freep s' \<noteq> 0" using live_freep [OF f(2)] .
    moreover have "morecore sbrk nu s w = Some (freep s', s', ?w)"
      using p f(1) by (simp add: morecore_def case_prod_beta flip: m_def)
    ultimately show ?thesis using f(2) by auto
  qed
qed

lemma malloc_live:
  assumes l: "live s bs us (brk w)" and g: "grows sbrk brk" and n: "16 * unat n < 2 ^ 31" "0 < n"
  shows "\<exists>r s' w' bs'. malloc_loop sbrk n (freep s) (h_ptr (hdr s (freep s))) s w = Some (r, s', w') \<and>
    (r = 0 \<and> fst (sbrk (core_bytes n) w) = - 1 \<and> live s' bs' us (brk w') \<or> r \<noteq> 0 \<and> (r - 16, n) \<notin> us \<and> live s' bs' (insert (r - 16, n) us) (brk w'))"
    (is "\<exists>r s' w' bs'. ?l s w = _ \<and> ?Q r s' w' bs'")
proof -
  have fits: "\<exists>r s' w' bs'. ?l s w = Some (r, s', w') \<and> ?Q r s' w' bs'"
    if l: "live s bs us (brk w)" and t: "takes s (fst ` set bs) n w (?l s w)" for s w bs
  proof -
    obtain a s' bs' where "?l s w = Some (a + 16, s', w)" "live s' bs' (insert (a, n) us) (brk w)" "(a, n) \<notin> us" "a + 16 \<noteq> 0"
      using take_live [OF l t n(2)] by blast
    then show ?thesis by (intro exI [of _ "a + 16"] exI [of _ s'] exI [of _ w] exI [of _ bs']) simp
  qed
  have r: "ring s bs" using l by (simp add: live_def)
  from malloc_turn [OF r, of n w sbrk] show ?thesis
  proof (elim disjE conjE)
    assume m: "?l s w = Option.bind (morecore sbrk n s w) (\<lambda>(p, s, w).
      if p = 0 then Some (0, s, w) else malloc_loop sbrk n p (h_ptr (hdr s p)) s w)"
    obtain w' where "morecore sbrk n s w = Some (0, s, w') \<and> fst (sbrk (core_bytes n) w) = - 1 \<and> live s bs us (brk w') \<or>
      (\<exists>s' bs'. morecore sbrk n s w = Some (freep s', s', w') \<and> live s' bs' us (brk w') \<and> freep s' \<noteq> 0 \<and> (\<exists>b \<in> set bs'. n \<le> snd b))"
      using morecore_live [of s bs us brk w sbrk n] l g n(1) by blast
    then show ?thesis
    proof (elim disjE conjE exE bexE)
      assume "morecore sbrk n s w = Some (0, s, w')" "fst (sbrk (core_bytes n) w) = - 1" "live s bs us (brk w')"
      then show ?thesis using m by auto
    next
      fix s' bs' b
      assume 2: "morecore sbrk n s w = Some (freep s', s', w')" "live s' bs' us (brk w')" "freep s' \<noteq> 0" "b \<in> set bs'" "n \<le> snd b"
      have "ring s' bs'" using 2(2) by (simp add: live_def)
      then have "takes s' (fst ` set bs') n w' (?l s' w')" using malloc_turn [of s' bs' n w' sbrk] 2(4,5) by (auto simp: not_less)
      from fits [OF 2(2) this] show ?thesis using m 2(1,3) by simp
    qed
  qed (rule fits [OF l])
qed

lemma unat_nunits_for: "unat (nunits_for nbytes) = (unat nbytes + 15) div 16 + 1"
proof -
  have b: "unat nbytes < 2 ^ 32" using unsigned_less [of nbytes] by simp
  then have "unat (ucast nbytes + 16 - 1 :: uint64) = unat nbytes + 15" by (simp add: unat_word_ariths unat_ucast_uint64)
  then have "unat ((ucast nbytes + 16 - 1 :: uint64) div 16 + 1) = (unat nbytes + 15) div 16 + 1"
    using b by (simp add: unat_word_ariths unat_div)
  then show ?thesis using b by (simp add: nunits_for_def unsigned_ucast_eq take_bit_eq_mod)
qed

text \<open>The heap before the first \<^verbatim>\<open>malloc\<close>.\<close>

definition untouched :: "uheap \<Rightarrow> nat \<Rightarrow> bool" where
  "untouched s lim \<longleftrightarrow> freep s = 0 \<and> base_at s \<noteq> 0 \<and> unat (base_at s) < lim \<and> lim \<le> 2 ^ 36"

lemma untouched_live:
  assumes "untouched s lim"
  shows "live (set_size (base_at s) 0 (set_ptr (base_at s) (base_at s) (s\<lparr>freep := base_at s\<rparr>))) [(base_at s, 0)] {} lim"
  using assms by (auto simp: live_def ring_def untouched_def spaced_def end_of_def free_space_def extent_def)

section \<open>Properties\<close>

text \<open>
  Property C34. A \<^verbatim>\<open>malloc\<close> of fewer than \<open>2^31 - 64\<close> bytes, from the untouched heap or from one with
  free blocks \<open>bs\<close> and blocks \<open>us\<close> in the hands of the program, always returns. It returns 0 only when
  \<^verbatim>\<open>sbrk\<close> refuses the memory, and then leaves the blocks of the program as they are. Otherwise it returns
  the address of a block that it takes out of the free memory, or out of what \<^verbatim>\<open>sbrk\<close> gave it: the block
  shares no byte with another block of the program or with a free block, and has room for its header and
  the bytes asked for. \<^verbatim>\<open>sbrk\<close> is assumed to keep its promise. The bound makes the number of bytes asked
  of \<^verbatim>\<open>sbrk\<close> a positive \<^verbatim>\<open>int\<close>; \<open>malloc_largest_wraps\<close> below shows what happens without it.
\<close>

theorem malloc_allocates:
  assumes h: "live s bs us (brk w) \<or> untouched s (brk w) \<and> us = {}" and g: "grows sbrk brk" and n: "unat nbytes < 2 ^ 31 - 64"
  shows "\<exists>r s' w' bs'. malloc sbrk nbytes s w = Some (r, s', w') \<and>
    (r = 0 \<and> fst (sbrk (core_bytes (nunits_for nbytes)) w) = - 1 \<and> live s' bs' us (brk w') \<or>
     r \<noteq> 0 \<and> (r - 16, nunits_for nbytes) \<notin> us \<and> live s' bs' (insert (r - 16, nunits_for nbytes) us) (brk w') \<and>
     unat nbytes + 16 \<le> 16 * unat (nunits_for nbytes))"
proof -
  have u: "16 * unat (nunits_for nbytes) < 2 ^ 31" "0 < nunits_for nbytes" "unat nbytes + 16 \<le> 16 * unat (nunits_for nbytes)"
    using n by (simp_all add: unat_nunits_for word_less_nat_alt)
  obtain s1 bs1 where l: "live s1 bs1 us (brk w)"
    and m: "malloc sbrk nbytes s w = malloc_loop sbrk (nunits_for nbytes) (freep s1) (h_ptr (hdr s1 (freep s1))) s1 w"
    using h
  proof
    assume "live s bs us (brk w)"
    then show ?thesis using that live_freep by (simp add: malloc_def)
  next
    let ?s = "set_size (base_at s) 0 (set_ptr (base_at s) (base_at s) (s\<lparr>freep := base_at s\<rparr>))"
    assume u: "untouched s (brk w) \<and> us = {}"
    then have "live ?s [(base_at s, 0)] us (brk w)" using untouched_live by simp
    moreover have "freep s = 0" using u by (simp add: untouched_def)
    ultimately show ?thesis using that [of ?s] by (simp add: malloc_def)
  qed
  show ?thesis unfolding m using malloc_live [OF l g u(1,2)] u(3) by blast
qed

text \<open>The least \<^verbatim>\<open>sbrk\<close>: the state is the end of the memory, and there is room for 64 GB.\<close>

definition plain_sbrk :: "32 word \<Rightarrow> nat \<Rightarrow> uint64 \<times> nat" where
  "plain_sbrk n w = (if w + unat n \<le> 2 ^ 36 then (of_nat w, w + unat n) else (- 1, w))"

lemma plain_sbrk_grows: "grows plain_sbrk id"
  by (auto simp: grows_def plain_sbrk_def unat_of_nat)

theorem malloc_allocates_witness:
  "\<exists>r s' w' bs'. malloc plain_sbrk 100 \<lparr>hdr = (\<lambda>_. \<lparr>h_ptr = 0, h_size = 0\<rparr>), freep = 0, base_at = 0x2000\<rparr> 0x4000 = Some (r, s', w') \<and>
    r \<noteq> 0 \<and> live s' bs' {(r - 16, nunits_for 100)} w' \<and> 116 \<le> 16 * unat (nunits_for 100)"
proof -
  let ?s = "\<lparr>hdr = (\<lambda>_. \<lparr>h_ptr = 0, h_size = 0\<rparr>), freep = 0, base_at = 0x2000\<rparr>"
  have "untouched ?s (id 0x4000)" by (simp add: untouched_def)
  moreover have "fst (plain_sbrk (core_bytes (nunits_for 100)) 0x4000) \<noteq> - 1"
    by (simp add: plain_sbrk_def core_bytes_def nunits_for_def)
  ultimately show ?thesis using malloc_allocates [of ?s "[]" "{}" id "0x4000" plain_sbrk 100] plain_sbrk_grows by auto
qed

text \<open>
  Property C35. \<^verbatim>\<open>free\<close> of a block the program holds always returns, and puts exactly that block back: the
  free memory grows by the bytes of the block, the ring of free blocks stays in the order of the
  addresses with no two of them touching, and the other blocks of the program keep their headers and stay
  apart from each other and from the free ones.
\<close>

theorem free_gives_back:
  assumes "live s bs us lim" "(a, n) \<in> us"
  shows "\<exists>s' bs'. free (a + 16) s = Some s' \<and> live s' bs' (us - {(a, n)}) lim \<and> free_space bs' = free_space bs \<union> extent (a, n)"
  by (rule free_live [OF assms])

theorem free_gives_back_witness:
  "\<exists>s' bs'. free (0x4000 + 16) \<lparr>hdr = (\<lambda>a. \<lparr>h_ptr = 0x2000, h_size = if a = 0x4000 then 9 else if a = 0x5000 then 2 else 0\<rparr>), freep = 0x2000, base_at = 0x2000\<rparr> = Some s' \<and>
    live s' bs' {(0x5000, 2)} 0x6000 \<and> free_space bs' = extent (0x4000, 9)"
proof -
  let ?s = "\<lparr>hdr = (\<lambda>a. \<lparr>h_ptr = 0x2000, h_size = if a = 0x4000 then 9 else if a = 0x5000 then 2 else 0\<rparr>), freep = 0x2000, base_at = 0x2000\<rparr>"
  have "live ?s [(0x2000, 0)] {(0x4000, 9), (0x5000, 2)} 0x6000"
    by (auto simp: live_def ring_def spaced_def end_of_def free_space_def extent_def in_use_def)
  then show ?thesis
    using free_gives_back [of ?s "[(0x2000, 0)]" "{(0x4000, 9), (0x5000, 2)}" "0x6000" "0x4000" 9]
    by (simp add: free_space_def extent_def end_of_def insert_Diff_if)
qed

text \<open>
  Why the size is bounded in the property of \<^verbatim>\<open>malloc\<close>: for the largest request the number of bytes that
  \<^verbatim>\<open>morecore\<close> asks of \<^verbatim>\<open>sbrk\<close> wraps to 16, while the header it writes says \<open>2^28 + 1\<close> units.
\<close>

lemma malloc_largest_wraps: "nunits_for 0xFFFFFFFF = 0x10000001 \<and> nunits_for 0xFFFFFFFF * 16 = 16"
  by (simp add: nunits_for_def)

end
