(* ===== verification/Grep.thy ===== *)
theory Grep
  imports Xv6_Prelude
begin

text \<open>
  \<^verbatim>\<open>user/grep.c\<close>: the pattern matcher and the loop that prints the matching lines. A C string is
  the list of its bytes up to the terminating NUL. The lemmas relate the matcher to the
  languages that patterns denote, and the loop to the lines of the file.
\<close>

section \<open>The matcher\<close>

abbreviation (input) newline :: uchar where "newline \<equiv> 10"
abbreviation (input) dollar :: uchar where "dollar \<equiv> 36"
abbreviation (input) star :: uchar where "star \<equiv> 42"
abbreviation (input) dot :: uchar where "dot \<equiv> 46"
abbreviation (input) caret :: uchar where "caret \<equiv> 94"

function (sequential) matchhere :: "uchar list \<Rightarrow> uchar list \<Rightarrow> bool"
  and matchstar :: "uchar \<Rightarrow> uchar list \<Rightarrow> uchar list \<Rightarrow> bool" where
  "matchhere [] tx = True"
| "matchhere (c # re) tx =
     (if re \<noteq> [] \<and> hd re = star then matchstar c (tl re) tx
      else if c = dollar \<and> re = [] then tx = []
      else if tx \<noteq> [] \<and> (c = dot \<or> c = hd tx) then matchhere re (tl tx)
      else False)"
| "matchstar c re tx =
     (if matchhere re tx then True
      else if tx \<noteq> [] \<and> (hd tx = c \<or> c = dot) then matchstar c re (tl tx)
      else False)"
  by pat_completeness auto
termination
  by (relation "measure (\<lambda>x. case x of Inl (re, t) \<Rightarrow> 2 * (length re + length t)
    | Inr (_, re, t) \<Rightarrow> 2 * (length re + length t) + 1)") (auto simp: neq_Nil_conv)

declare matchstar.simps [simp del]

primrec match_from :: "uchar list \<Rightarrow> uchar list \<Rightarrow> bool" where
  "match_from re [] = matchhere re []"
| "match_from re (c # tx) = (if matchhere re (c # tx) then True else match_from re tx)"

definition match :: "uchar list \<Rightarrow> uchar list \<Rightarrow> bool" where
  "match re tx = (if re \<noteq> [] \<and> hd re = caret then matchhere (tl re) tx else match_from re tx)"

section \<open>Printing the matching lines\<close>

text \<open>
  The inner loop, on the bytes of the buffer from \<^verbatim>\<open>p\<close> on: what is written to the output,
  and what is left when there is no newline before the first NUL.
\<close>

function grep_lines :: "uchar list \<Rightarrow> uchar list \<Rightarrow> uchar list \<times> uchar list" where
  "grep_lines pattern p =
     (if newline \<in> set (takeWhile (\<lambda>c. c \<noteq> 0) p) then
        let line = takeWhile (\<lambda>c. c \<noteq> newline) p;
            (out, rest) = grep_lines pattern (drop (Suc (length line)) p)
        in ((if match pattern line then line @ [newline] else []) @ out, rest)
      else ([], p))"
  by pat_completeness auto
termination
  by (relation "measure (\<lambda>(_, p). length p)") (auto dest!: set_takeWhileD intro!: diff_less length_pos_if_in_set)

declare grep_lines.simps [simp del]

text \<open>
  The outer loop. The system call \<^verbatim>\<open>read\<close> is the parameter \<open>rd\<close>: given the number of bytes asked
  for, it returns those it read, none at the end of the file or if there was an error.
\<close>

partial_function (option) grep_loop ::
  "(nat \<Rightarrow> 'w \<Rightarrow> uchar list \<times> 'w) \<Rightarrow> uchar list \<Rightarrow> uchar list \<Rightarrow> 'w \<Rightarrow> (uchar list \<times> 'w) option" where
  "grep_loop rd pattern buf w =
     (let (bs, w) = rd (1024 - length buf - 1) w in
      if bs = [] then Some ([], w)
      else
        let (out, rest) = grep_lines pattern (buf @ bs) in
        Option.bind (grep_loop rd pattern rest w) (\<lambda>(out', w). Some (out @ out', w)))"

definition grep :: "(nat \<Rightarrow> 'w \<Rightarrow> uchar list \<times> 'w) \<Rightarrow> uchar list \<Rightarrow> 'w \<Rightarrow> (uchar list \<times> 'w) option" where
  "grep rd pattern = grep_loop rd pattern []"

section \<open>What patterns mean\<close>

datatype item = One uchar | Many uchar

text \<open>The characters that one character of a pattern stands for.\<close>

definition cls :: "uchar \<Rightarrow> uchar set" where
  "cls c = (if c = dot then UNIV else {c})"

text \<open>The items of a pattern, and whether it ends with an anchor.\<close>

fun items :: "uchar list \<Rightarrow> item list \<times> bool" where
  "items [] = ([], False)"
| "items [c] = (if c = dollar then ([], True) else ([One c], False))"
| "items (c # d # re) =
     (if d = star then case items re of (ps, a) \<Rightarrow> (Many c # ps, a)
      else case items (d # re) of (ps, a) \<Rightarrow> (One c # ps, a))"

primrec lang :: "item list \<Rightarrow> uchar list set" where
  "lang [] = {[]}"
| "lang (i # ps) = (case i of One c \<Rightarrow> {x # w | x w. x \<in> cls c \<and> w \<in> lang ps}
     | Many c \<Rightarrow> {u @ w | u w. set u \<subseteq> cls c \<and> w \<in> lang ps})"

definition accepts :: "item list \<times> bool \<Rightarrow> uchar list \<Rightarrow> bool" where
  "accepts p tx \<longleftrightarrow> (\<exists>u v. tx = u @ v \<and> u \<in> lang (fst p) \<and> (snd p \<longrightarrow> v = []))"

lemma accepts_One:
  "accepts (One c # ps, a) tx \<longleftrightarrow> tx \<noteq> [] \<and> hd tx \<in> cls c \<and> accepts (ps, a) (tl tx)"
proof -
  have "accepts (One c # ps, a) tx \<longleftrightarrow> (\<exists>x u v. tx = x # u @ v \<and> x \<in> cls c \<and> u \<in> lang ps \<and> (a \<longrightarrow> v = []))"
    unfolding accepts_def by (simp, metis append_Cons)
  then show ?thesis by (cases tx) (auto simp: accepts_def)
qed

lemma accepts_Many_iff:
  "accepts (Many c # ps, a) tx \<longleftrightarrow> (\<exists>u w v. tx = u @ w @ v \<and> set u \<subseteq> cls c \<and> w \<in> lang ps \<and> (a \<longrightarrow> v = []))"
  unfolding accepts_def by (simp, metis append_assoc)

lemma accepts_Many:
  "accepts (Many c # ps, a) tx \<longleftrightarrow> accepts (ps, a) tx \<or> (tx \<noteq> [] \<and> hd tx \<in> cls c \<and> accepts (Many c # ps, a) (tl tx))"
proof
  assume "accepts (Many c # ps, a) tx"
  then obtain u w v where t: "tx = u @ w @ v" "set u \<subseteq> cls c" "w \<in> lang ps" "a \<longrightarrow> v = []"
    by (auto simp: accepts_Many_iff)
  show "accepts (ps, a) tx \<or> (tx \<noteq> [] \<and> hd tx \<in> cls c \<and> accepts (Many c # ps, a) (tl tx))"
  proof (cases u)
    case Nil
    then show ?thesis using t by (auto simp: accepts_def)
  next
    case (Cons x u')
    then have "accepts (Many c # ps, a) (u' @ w @ v)" using t unfolding accepts_Many_iff by auto
    then show ?thesis using t Cons by auto
  qed
next
  assume "accepts (ps, a) tx \<or> (tx \<noteq> [] \<and> hd tx \<in> cls c \<and> accepts (Many c # ps, a) (tl tx))"
  then show "accepts (Many c # ps, a) tx"
  proof
    assume "accepts (ps, a) tx"
    then obtain w v where "tx = [] @ w @ v" "w \<in> lang ps" "a \<longrightarrow> v = []" by (auto simp: accepts_def)
    then show ?thesis unfolding accepts_Many_iff by (metis empty_subsetI empty_set)
  next
    assume h: "tx \<noteq> [] \<and> hd tx \<in> cls c \<and> accepts (Many c # ps, a) (tl tx)"
    then obtain u w v where t: "tl tx = u @ w @ v" "set u \<subseteq> cls c" "w \<in> lang ps" "a \<longrightarrow> v = []"
      by (auto simp: accepts_Many_iff)
    have "tx = hd tx # tl tx" using h by simp
    then have "tx = (hd tx # u) @ w @ v" unfolding t(1) by simp
    moreover have "set (hd tx # u) \<subseteq> cls c" using h t(2) by simp
    ultimately show ?thesis using t(3,4) unfolding accepts_Many_iff by blast
  qed
qed

lemma matcher_accepts:
  shows "matchhere re tx \<longleftrightarrow> accepts (items re) tx"
    and "matchstar c re tx \<longleftrightarrow> accepts (case items re of (ps, a) \<Rightarrow> (Many c # ps, a)) tx"
proof (induction re tx and c re tx rule: matchhere_matchstar.induct)
  case (1 tx)
  then show ?case by (simp add: accepts_def)
next
  case (2 c re tx)
  show ?case
  proof (cases "re \<noteq> [] \<and> hd re = star")
    case True
    then obtain re' where "re = star # re'" by (cases re) auto
    then show ?thesis using "2.IH"(1) True by (cases "items re'") simp
  next
    case False
    show ?thesis
    proof (cases "c = dollar \<and> re = []")
      case True
      then show ?thesis by (simp add: accepts_def)
    next
      case ne: False
      have it: "items (c # re) = (case items re of (ps, a) \<Rightarrow> (One c # ps, a))"
        using False ne by (cases re) auto
      have "matchhere (c # re) tx \<longleftrightarrow> tx \<noteq> [] \<and> hd tx \<in> cls c \<and> matchhere re (tl tx)"
        using False ne by (auto simp: cls_def)
      also have "\<dots> \<longleftrightarrow> tx \<noteq> [] \<and> hd tx \<in> cls c \<and> accepts (items re) (tl tx)"
        using "2.IH"(2) False ne by (auto simp: cls_def split: if_splits)
      finally show ?thesis unfolding it by (simp add: accepts_One split: prod.splits)
    qed
  qed
next
  case (3 c re tx)
  then show ?case
    by (cases "items re") (auto simp: matchstar.simps [of c re tx] accepts_Many [of c _ _ tx] cls_def split: if_splits)
qed

lemma match_from_iff: "match_from re tx \<longleftrightarrow> (\<exists>pre suf. tx = pre @ suf \<and> matchhere re suf)"
proof (induction tx)
  case (Cons c tx)
  have "(\<exists>pre suf. c # tx = pre @ suf \<and> matchhere re suf) \<longleftrightarrow>
    matchhere re (c # tx) \<or> (\<exists>pre suf. tx = pre @ suf \<and> matchhere re suf)"
    unfolding Cons_eq_append_conv by blast
  then show ?case using Cons by simp
qed simp

text \<open>A pattern without the anchor at its start.\<close>

definition unanchored :: "uchar list \<Rightarrow> uchar list" where
  "unanchored re = (if re \<noteq> [] \<and> hd re = caret then tl re else re)"

text \<open>
  Property C38. \<^verbatim>\<open>match\<close> finds a pattern in a text exactly when some part of the text is in the
  language of the pattern: \<^verbatim>\<open>.\<close> stands for any character, \<^verbatim>\<open>*\<close> for any number of repetitions, a
  \<^verbatim>\<open>^\<close> at the start of the pattern ties the part to the start of the text and a \<^verbatim>\<open>$\<close> at its end to
  the end.
\<close>

theorem match_iff_lang:
  "match re tx \<longleftrightarrow> (\<exists>pre mid suf. tx = pre @ mid @ suf \<and> mid \<in> lang (fst (items (unanchored re))) \<and>
     (snd (items (unanchored re)) \<longrightarrow> suf = []) \<and> (unanchored re \<noteq> re \<longrightarrow> pre = []))"
proof (cases "re \<noteq> [] \<and> hd re = caret")
  case True
  then have "unanchored re = tl re" "unanchored re \<noteq> re" by (auto simp: unanchored_def neq_Nil_conv)
  then show ?thesis using True by (auto simp: match_def matcher_accepts(1) accepts_def)
next
  case False
  then have "unanchored re = re" by (auto simp: unanchored_def)
  then show ?thesis unfolding match_def using False by (auto simp: match_from_iff matcher_accepts(1) accepts_def)
qed

theorem match_iff_lang_witness:
  "match [94, 97, 42, 46, 36] [97, 97, 98] \<longleftrightarrow>
    (\<exists>pre mid suf. [97, 97, 98] = pre @ mid @ suf \<and> mid \<in> lang (fst (items [97, 42, 46, 36])) \<and>
     (snd (items [97, 42, 46, 36]) \<longrightarrow> suf = []) \<and> pre = [])"
  using match_iff_lang [of "[94, 97, 42, 46, 36]" "[97, 97, 98]"] by (simp add: unanchored_def)

section \<open>The lines of a file\<close>

function full_lines :: "uchar list \<Rightarrow> uchar list list" where
  "full_lines xs =
     (if newline \<in> set xs then takeWhile (\<lambda>c. c \<noteq> newline) xs # full_lines (drop (Suc (length (takeWhile (\<lambda>c. c \<noteq> newline) xs))) xs)
      else [])"
  by pat_completeness auto
termination
  by (relation "measure length") (auto intro!: diff_less length_pos_if_in_set)

declare full_lines.simps [simp del]

text \<open>What follows the last newline.\<close>

definition last_part :: "uchar list \<Rightarrow> uchar list" where
  "last_part xs = rev (takeWhile (\<lambda>c. c \<noteq> newline) (rev xs))"

lemma first_line:
  assumes "newline \<notin> set l"
  shows "full_lines (l @ newline # xs) = l # full_lines xs" "last_part (l @ newline # xs) = last_part xs"
proof -
  have t: "takeWhile (\<lambda>c. c \<noteq> newline) (l @ newline # xs) = l" using assms by (subst takeWhile_append2) auto
  show "full_lines (l @ newline # xs) = l # full_lines xs" by (subst full_lines.simps) (simp add: t)
  show "last_part (l @ newline # xs) = last_part xs"
    by (simp add: last_part_def takeWhile_tail)
qed

lemma no_line:
  assumes "newline \<notin> set l"
  shows "full_lines l = []" "last_part l = l"
proof -
  show "full_lines l = []" using assms by (subst full_lines.simps) simp
  have "takeWhile (\<lambda>c. c \<noteq> newline) (rev l) = rev l" using assms by (auto simp: takeWhile_eq_all_conv)
  then show "last_part l = l" unfolding last_part_def by (simp only: rev_rev_ident)
qed

lemma split_line: "newline \<in> set xs \<Longrightarrow> \<exists>l ys. xs = l @ newline # ys \<and> newline \<notin> set l"
  by (rule split_list_first)

lemma line_cases [case_names none line]:
  assumes "newline \<notin> set xs \<Longrightarrow> P" "\<And>l ys. xs = l @ newline # ys \<Longrightarrow> newline \<notin> set l \<Longrightarrow> P"
  shows P
  using assms split_line by blast

lemma full_lines_append:
  "full_lines (xs @ ys) = full_lines xs @ full_lines (last_part xs @ ys) \<and> last_part (xs @ ys) = last_part (last_part xs @ ys)"
proof (induction "length xs" arbitrary: xs rule: less_induct)
  case less
  show ?case
  proof (cases xs rule: line_cases)
    case none
    then show ?thesis by (simp add: no_line)
  next
    case (line l zs)
    then show ?thesis using less [of zs] by (simp add: first_line)
  qed
qed

section \<open>The output of grep\<close>

definition matching :: "uchar list \<Rightarrow> uchar list \<Rightarrow> uchar list" where
  "matching pattern xs = concat (map (\<lambda>l. l @ [newline]) (filter (match pattern) (full_lines xs)))"

lemma grep_lines_eq:
  assumes "0 \<notin> set p"
  shows "grep_lines pattern p = (matching pattern p, last_part p)"
  using assms
proof (induction "length p" arbitrary: p rule: less_induct)
  case less
  have "takeWhile (\<lambda>c. c \<noteq> 0) p = p" using less.prems by (auto simp: takeWhile_eq_all_conv)
  note step = grep_lines.simps [of pattern p, unfolded this]
  show ?case
  proof (cases p rule: line_cases)
    case none
    then show ?thesis unfolding step by (simp add: matching_def no_line)
  next
    case (line l zs)
    have "takeWhile (\<lambda>c. c \<noteq> newline) (l @ newline # zs) = l" using line(2) by (subst takeWhile_append2) auto
    then show ?thesis unfolding step using less.hyps [of zs] less.prems line by (simp add: matching_def first_line)
  qed
qed

text \<open>
  What \<^verbatim>\<open>read\<close> promises for a file with the contents \<open>content w\<close> still to be read: the bytes come in
  order, at most as many as asked for, and none only at the end.
\<close>

definition byte_source :: "(nat \<Rightarrow> 'w \<Rightarrow> uchar list \<times> 'w) \<Rightarrow> ('w \<Rightarrow> uchar list) \<Rightarrow> bool" where
  "byte_source rd content \<longleftrightarrow> (\<forall>k w bs w'. rd k w = (bs, w') \<longrightarrow>
     content w = bs @ content w' \<and> length bs \<le> k \<and> (bs = [] \<longrightarrow> k = 0 \<or> content w = []))"

definition short_lines :: "uchar list \<Rightarrow> bool" where
  "short_lines xs \<longleftrightarrow> (\<forall>l \<in> set (full_lines xs). length l < 1023) \<and> length (last_part xs) < 1023"

lemma short_last_part:
  assumes "short_lines (xs @ ys)"
  shows "length (last_part xs) < 1023"
proof (cases "newline \<in> set ys")
  case True
  then obtain l zs where ys: "ys = l @ newline # zs" "newline \<notin> set l" using split_line by blast
  have "newline \<notin> set (last_part xs)" by (auto simp: last_part_def dest: set_takeWhileD)
  then have "full_lines (last_part xs @ ys) = (last_part xs @ l) # full_lines zs"
    using first_line(1) [of "last_part xs @ l" zs] ys by simp
  then show ?thesis using assms by (simp add: short_lines_def full_lines_append [of xs ys])
next
  case False
  moreover have "newline \<notin> set (last_part xs)" by (auto simp: last_part_def dest: set_takeWhileD)
  ultimately have "last_part (xs @ ys) = last_part xs @ ys" using full_lines_append [of xs ys] no_line(2) [of "last_part xs @ ys"] by simp
  then show ?thesis using assms by (simp add: short_lines_def)
qed

lemma grep_loop_lines:
  assumes src: "byte_source rd content" and "newline \<notin> set buf" "0 \<notin> set (buf @ content w)" "short_lines (buf @ content w)"
  shows "\<exists>w'. grep_loop rd pattern buf w = Some (matching pattern (buf @ content w), w') \<and> content w' = []"
  using assms(2-4)
proof (induction "length (content w)" arbitrary: buf w rule: less_induct)
  case less
  obtain bs w1 where rd: "rd (1023 - length buf) w = (bs, w1)" by fastforce
  then have c: "content w = bs @ content w1" "bs = [] \<longrightarrow> 1023 - length buf = 0 \<or> content w = []"
    using src unfolding byte_source_def by blast+
  have "length buf < 1023" using short_last_part [OF less.prems(3)] no_line(2) [OF less.prems(1)] by simp
  show ?case
  proof (cases "bs = []")
    case True
    then have "content w = []" using c(2) \<open>length buf < 1023\<close> by simp
    then show ?thesis using True rd c(1) less.prems(1) by (subst grep_loop.simps) (simp add: matching_def no_line)
  next
    case False
    let ?b = "last_part (buf @ bs)"
    have app: "buf @ content w = (buf @ bs) @ content w1" using c(1) by simp
    have "newline \<notin> set ?b" by (auto simp: last_part_def dest: set_takeWhileD)
    moreover have "set ?b \<subseteq> set (buf @ bs)" unfolding last_part_def by (auto dest: set_takeWhileD)
    then have "0 \<notin> set (?b @ content w1)" using less.prems(2) c(1) by auto
    moreover have "short_lines (?b @ content w1)"
      using less.prems(3) unfolding app short_lines_def by (simp add: full_lines_append [of "buf @ bs" "content w1", simplified])
    ultimately obtain w' where w': "grep_loop rd pattern ?b w1 = Some (matching pattern (?b @ content w1), w')" "content w' = []"
      using less.hyps [of w1 ?b] c(1) False by auto
    have "matching pattern (buf @ content w) = matching pattern (buf @ bs) @ matching pattern (?b @ content w1)"
      unfolding app matching_def using full_lines_append [of "buf @ bs" "content w1"] by simp
    moreover have "0 \<notin> set (buf @ bs)" using less.prems(2) c(1) by simp
    ultimately show ?thesis using rd False w' by (subst grep_loop.simps) (simp add: grep_lines_eq)
  qed
qed

text \<open>
  Property C39. \<^verbatim>\<open>grep\<close> ends and prints, in order, exactly the lines of the file that match, however
  \<^verbatim>\<open>read\<close> cuts the file into pieces, provided that the file has no NUL byte and that no line, nor
  what follows the last newline, has 1023 bytes or more. What follows the last newline is not printed.
\<close>

theorem grep_prints_matching_lines:
  assumes "byte_source rd content" "0 \<notin> set (content w)" "short_lines (content w)"
  shows "\<exists>w'. grep rd pattern w = Some (concat (map (\<lambda>l. l @ [newline]) (filter (match pattern) (full_lines (content w)))), w') \<and>
    content w' = []"
  using grep_loop_lines [OF assms(1), of "[]" w pattern] assms(2,3) by (simp add: grep_def matching_def)

text \<open>A file that is read three bytes at a time.\<close>

definition read3 :: "nat \<Rightarrow> uchar list \<Rightarrow> uchar list \<times> uchar list" where
  "read3 k xs = (take (min 3 k) xs, drop (min 3 k) xs)"

theorem grep_prints_matching_lines_witness:
  "\<exists>w'. grep read3 [98] [97, 10, 97, 98, 10, 98, 98] = Some ([97, 98, 10], w') \<and> w' = []"
proof -
  have "byte_source read3 (\<lambda>xs. xs)" by (auto simp: byte_source_def read3_def)
  moreover have l: "full_lines [97, 10, 97, 98, 10, 98, 98] = [[97], [97, 98]]" by (simp add: full_lines.simps)
  moreover have "short_lines [97, 10, 97, 98, 10, 98, 98]" by (simp add: short_lines_def l last_part_def)
  ultimately show ?thesis
    using grep_prints_matching_lines [of read3 "\<lambda>xs. xs" "[97, 10, 97, 98, 10, 98, 98]" "[98]"] by (simp add: match_def)
qed

end
