(* ===== verification/Shell.thy ===== *)
theory Shell
  imports Xv6_Prelude
begin

text \<open>
  \<^verbatim>\<open>user/sh.c\<close>: the parser of the shell. A pointer into the line is an offset; the bytes after the
  array read as NUL. The functions that call each other take fuel, one unit for a call and one for a turn of a
  loop; \<open>Blocked\<close> is the result when it runs out, and \<^verbatim>\<open>parsecmd\<close> gives four units for each
  byte of the line, which is always enough. \<open>Panic\<close> is the \<^verbatim>\<open>panic\<close> of the shell. The constructors
  are assumed to get their memory from \<^verbatim>\<open>malloc\<close>.
\<close>

section \<open>Tokens\<close>

abbreviation (input) NUL :: char where "NUL \<equiv> CHR 0x00"

definition whitespace :: string where
  "whitespace = [CHR '' '', CHR 0x09, CHR 0x0D, CHR 0x0A, CHR 0x0B]"

definition symbols :: string where
  "symbols = ''<|>&;()''"

definition char_at :: "string \<Rightarrow> nat \<Rightarrow> char" where
  "char_at b i = (if i < length b then b ! i else NUL)"

text \<open>The two loops over the bytes below \<^verbatim>\<open>es\<close>: past the whitespace, and to the end of a word.\<close>

function skip_space :: "string \<Rightarrow> nat \<Rightarrow> nat \<Rightarrow> nat" where
  "skip_space b es s = (if s < es \<and> char_at b s \<in> set whitespace then skip_space b es (Suc s) else s)"
  by pat_completeness auto
termination
  by (relation "measure (\<lambda>(_, es, s). es - s)") auto

function skip_word :: "string \<Rightarrow> nat \<Rightarrow> nat \<Rightarrow> nat" where
  "skip_word b es s =
     (if s < es \<and> char_at b s \<notin> set whitespace \<and> char_at b s \<notin> set symbols then skip_word b es (Suc s) else s)"
  by pat_completeness auto
termination
  by (relation "measure (\<lambda>(_, es, s). es - s)") auto

declare skip_space.simps [simp del] skip_word.simps [simp del]

text \<open>The results are the kind of the token, \<^verbatim>\<open>*q\<close>, \<^verbatim>\<open>*eq\<close> and the new \<^verbatim>\<open>*ps\<close>.\<close>

definition gettoken :: "string \<Rightarrow> nat \<Rightarrow> nat \<Rightarrow> char \<times> nat \<times> nat \<times> nat" where
  "gettoken b es ps =
     (let q = skip_space b es ps;
          c = char_at b q;
          (ret, eq) =
            (if c = NUL then (c, q)
             else if c \<in> set ''|();&<'' then (c, Suc q)
             else if c = CHR ''>'' then if char_at b (Suc q) = CHR ''>'' then (CHR ''+'', Suc (Suc q)) else (c, Suc q)
             else (CHR ''a'', skip_word b es q))
      in (ret, q, eq, skip_space b es eq))"

definition peek :: "string \<Rightarrow> nat \<Rightarrow> nat \<Rightarrow> string \<Rightarrow> bool \<times> nat" where
  "peek b es ps toks =
     (let s = skip_space b es ps in (char_at b s \<noteq> NUL \<and> char_at b s \<in> set toks, s))"

section \<open>Commands\<close>

text \<open>
  A word is the pair of its start and its end. \<open>EXEC\<close> has the filled part of \<^verbatim>\<open>argv\<close> and \<^verbatim>\<open>eargv\<close>;
  \<open>REDIR\<close> has \<^verbatim>\<open>cmd\<close>, \<^verbatim>\<open>file\<close> and \<^verbatim>\<open>efile\<close>, \<^verbatim>\<open>mode\<close> and \<^verbatim>\<open>fd\<close>.
\<close>

datatype cmd =
    EXEC "(nat \<times> nat) list"
  | REDIR cmd "nat \<times> nat" int int
  | PIPE cmd cmd
  | LIST cmd cmd
  | BACK cmd

abbreviation (input) MAXARGS :: nat where "MAXARGS \<equiv> 10"

fun parseredirs :: "nat \<Rightarrow> string \<Rightarrow> nat \<Rightarrow> cmd \<Rightarrow> nat \<Rightarrow> (cmd \<times> nat) res" where
  "parseredirs 0 b es cmd ps = Blocked"
| "parseredirs (Suc k) b es cmd ps =
     (let (more, ps) = peek b es ps ''<>'' in
      if more then
        let (tok, _, _, ps) = gettoken b es ps;
            (word, q, eq, ps) = gettoken b es ps
        in
        if word \<noteq> CHR ''a'' then Panic ''missing file for redirection''
        else parseredirs k b es
          (if tok = CHR ''<'' then REDIR cmd (q, eq) 0 0
           else if tok = CHR ''>'' then REDIR cmd (q, eq) 0x601 1
           else if tok = CHR ''+'' then REDIR cmd (q, eq) 0x201 1
           else cmd) ps
      else Ok (cmd, ps))"

text \<open>
  \<^verbatim>\<open>parseexec\<close> keeps a pointer to the \<^verbatim>\<open>execcmd\<close> at the bottom of the redirections it has read, and
  stores the arguments there.
\<close>

fun add_arg :: "nat \<times> nat \<Rightarrow> cmd \<Rightarrow> cmd" where
  "add_arg a (EXEC as) = EXEC (as @ [a])"
| "add_arg a (REDIR c f m fd) = REDIR (add_arg a c) f m fd"
| "add_arg a c = c"

fun exec_args :: "nat \<Rightarrow> string \<Rightarrow> nat \<Rightarrow> nat \<Rightarrow> cmd \<Rightarrow> nat \<Rightarrow> (cmd \<times> nat) res" where
  "exec_args 0 b es argc ret ps = Blocked"
| "exec_args (Suc k) b es argc ret ps =
     (let (stop, ps) = peek b es ps ''|)&;'' in
      if stop then Ok (ret, ps)
      else
        let (tok, q, eq, ps) = gettoken b es ps in
        if tok = NUL then Ok (ret, ps)
        else if tok \<noteq> CHR ''a'' then Panic ''syntax''
        else if Suc argc \<ge> MAXARGS then Panic ''too many args''
        else res_bind (parseredirs k b es (add_arg (q, eq) ret) ps) (\<lambda>(ret, ps). exec_args k b es (Suc argc) ret ps))"

fun back_loop :: "nat \<Rightarrow> string \<Rightarrow> nat \<Rightarrow> cmd \<Rightarrow> nat \<Rightarrow> (cmd \<times> nat) res" where
  "back_loop 0 b es cmd ps = Blocked"
| "back_loop (Suc k) b es cmd ps =
     (let (amp, ps) = peek b es ps ''&'' in
      if amp then let (_, _, _, ps) = gettoken b es ps in back_loop k b es (BACK cmd) ps
      else Ok (cmd, ps))"

function (sequential) parseline :: "nat \<Rightarrow> string \<Rightarrow> nat \<Rightarrow> nat \<Rightarrow> (cmd \<times> nat) res"
  and parsepipe :: "nat \<Rightarrow> string \<Rightarrow> nat \<Rightarrow> nat \<Rightarrow> (cmd \<times> nat) res"
  and parseblock :: "nat \<Rightarrow> string \<Rightarrow> nat \<Rightarrow> nat \<Rightarrow> (cmd \<times> nat) res"
  and parseexec :: "nat \<Rightarrow> string \<Rightarrow> nat \<Rightarrow> nat \<Rightarrow> (cmd \<times> nat) res" where
  "parseline 0 b es ps = Blocked"
| "parseline (Suc k) b es ps =
     res_bind (parsepipe k b es ps) (\<lambda>(cmd, ps).
     res_bind (back_loop k b es cmd ps) (\<lambda>(cmd, ps).
     let (semi, ps) = peek b es ps '';'' in
     if semi then
       let (_, _, _, ps) = gettoken b es ps in
       res_bind (parseline k b es ps) (\<lambda>(right, ps). Ok (LIST cmd right, ps))
     else Ok (cmd, ps)))"
| "parsepipe 0 b es ps = Blocked"
| "parsepipe (Suc k) b es ps =
     res_bind (parseexec k b es ps) (\<lambda>(cmd, ps).
     let (bar, ps) = peek b es ps ''|'' in
     if bar then
       let (_, _, _, ps) = gettoken b es ps in
       res_bind (parsepipe k b es ps) (\<lambda>(right, ps). Ok (PIPE cmd right, ps))
     else Ok (cmd, ps))"
| "parseblock 0 b es ps = Blocked"
| "parseblock (Suc k) b es ps =
     (let (lpar, ps) = peek b es ps ''('' in
      if \<not> lpar then Panic ''parseblock''
      else
        let (_, _, _, ps) = gettoken b es ps in
        res_bind (parseline k b es ps) (\<lambda>(cmd, ps).
        let (rpar, ps) = peek b es ps '')'' in
        if \<not> rpar then Panic ''syntax - missing )''
        else let (_, _, _, ps) = gettoken b es ps in parseredirs k b es cmd ps))"
| "parseexec 0 b es ps = Blocked"
| "parseexec (Suc k) b es ps =
     (let (lpar, ps) = peek b es ps ''('' in
      if lpar then parseblock k b es ps
      else res_bind (parseredirs k b es (EXEC []) ps) (\<lambda>(ret, ps). exec_args k b es 0 ret ps))"
  by pat_completeness auto
termination
  by (relation "measure (\<lambda>x. case x of Inl (Inl (k, _)) \<Rightarrow> k | Inl (Inr (k, _)) \<Rightarrow> k | Inr (Inl (k, _)) \<Rightarrow> k | Inr (Inr (k, _)) \<Rightarrow> k)") auto

text \<open>The \<^verbatim>\<open>for\<close> loop of \<^verbatim>\<open>nulterminate\<close> ends each argument; the store is the array with the line.\<close>

primrec nulterminate :: "cmd \<Rightarrow> string \<Rightarrow> string" where
  "nulterminate (EXEC as) b = fold (\<lambda>a b. b[snd a := NUL]) as b"
| "nulterminate (REDIR c f mode fd) b = (nulterminate c b)[snd f := NUL]"
| "nulterminate (PIPE c d) b = nulterminate d (nulterminate c b)"
| "nulterminate (LIST c d) b = nulterminate d (nulterminate c b)"
| "nulterminate (BACK c) b = nulterminate c b"

text \<open>The offset of \<^verbatim>\<open>s + strlen(s)\<close>.\<close>

definition line_end :: "string \<Rightarrow> nat" where
  "line_end b = length (takeWhile (\<lambda>c. c \<noteq> NUL) b)"

definition parsecmd :: "string \<Rightarrow> (cmd \<times> string) res" where
  "parsecmd b =
     (let es = line_end b in
      res_bind (parseline (4 * es + 4) b es 0) (\<lambda>(cmd, s).
      let (_, s) = peek b es s '''' in
      if s \<noteq> es then Panic ''syntax'' else Ok (cmd, nulterminate cmd b)))"

section \<open>Scanning\<close>

text \<open>The line ends at \<open>es\<close>; a clean byte belongs to a word.\<close>

definition line :: "string \<Rightarrow> nat \<Rightarrow> bool" where
  "line b es \<longleftrightarrow> (\<forall>i < es. char_at b i \<noteq> NUL) \<and> char_at b es = NUL"

definition clean :: "char \<Rightarrow> bool" where
  "clean c \<longleftrightarrow> c \<notin> set whitespace \<and> c \<notin> set symbols"

definition word :: "string \<Rightarrow> nat \<Rightarrow> nat \<times> nat \<Rightarrow> bool" where
  "word b es a \<longleftrightarrow> fst a < snd a \<and> snd a \<le> es \<and> (\<forall>i \<in> {fst a ..< snd a}. clean (char_at b i)) \<and>
     (snd a < es \<longrightarrow> \<not> clean (char_at b (snd a)))"

text \<open>Each clean byte from \<open>s\<close> up to \<open>t\<close> is in a word of \<open>ws\<close>.\<close>

definition covers :: "string \<Rightarrow> nat \<Rightarrow> nat \<Rightarrow> (nat \<times> nat) set \<Rightarrow> bool" where
  "covers b s t ws \<longleftrightarrow> (\<forall>i. s \<le> i \<and> i < t \<and> clean (char_at b i) \<longrightarrow> (\<exists>a \<in> ws. fst a \<le> i \<and> i < snd a))"

lemma covers_trans: "covers b s t ws \<Longrightarrow> covers b t u ws' \<Longrightarrow> ws \<subseteq> ws'' \<Longrightarrow> ws' \<subseteq> ws'' \<Longrightarrow> covers b s u ws''"
  unfolding covers_def by (meson not_le_imp_less subsetD)

lemma covers_mono: "covers b s t ws \<Longrightarrow> ws \<subseteq> ws' \<Longrightarrow> covers b s t ws'"
  unfolding covers_def by blast

lemma skip_space_spec:
  "s \<le> es \<Longrightarrow> s \<le> skip_space b es s \<and> skip_space b es s \<le> es \<and> covers b s (skip_space b es s) {} \<and>
     (skip_space b es s < es \<longrightarrow> char_at b (skip_space b es s) \<notin> set whitespace)"
proof (induction b es s rule: skip_space.induct)
  case (1 b es s)
  show ?case
  proof (cases "s < es \<and> char_at b s \<in> set whitespace")
    case True
    then have e: "skip_space b es s = skip_space b es (Suc s)" by (simp add: skip_space.simps [of b es s])
    have "covers b s (Suc s) {}" using True by (auto simp: covers_def clean_def le_less_Suc_eq)
    then show ?thesis unfolding e using 1 True covers_trans [of b s "Suc s" "{}" _ "{}" "{}"] by auto
  next
    case False
    then have "skip_space b es s = s" by (auto simp: skip_space.simps [of b es s])
    then show ?thesis using False 1 by (auto simp: covers_def)
  qed
qed

lemma skip_word_spec:
  "s \<le> es \<Longrightarrow> s \<le> skip_word b es s \<and> skip_word b es s \<le> es \<and> (\<forall>i \<in> {s ..< skip_word b es s}. clean (char_at b i)) \<and>
     (skip_word b es s < es \<longrightarrow> \<not> clean (char_at b (skip_word b es s)))"
proof (induction b es s rule: skip_word.induct)
  case (1 b es s)
  show ?case
  proof (cases "s < es \<and> clean (char_at b s)")
    case True
    then have e: "skip_word b es s = skip_word b es (Suc s)" by (simp add: skip_word.simps [of b es s] clean_def)
    let ?t = "skip_word b es (Suc s)"
    have ih: "Suc s \<le> ?t" "?t \<le> es" "\<forall>i \<in> {Suc s ..< ?t}. clean (char_at b i)" "?t < es \<longrightarrow> \<not> clean (char_at b ?t)"
      using "1.IH" True Suc_leI [of s es] unfolding clean_def by blast+
    have "clean (char_at b i)" if "i \<in> {s ..< ?t}" for i
      using that ih(3) True by (cases "i = s") auto
    then show ?thesis unfolding e using ih by auto
  next
    case False
    then have "skip_word b es s = s" by (auto simp: skip_word.simps [of b es s] clean_def)
    then show ?thesis using False 1 by auto
  qed
qed

lemma skip_word_moves: "s < es \<Longrightarrow> clean (char_at b s) \<Longrightarrow> s < skip_word b es s"
  using skip_word_spec [of "Suc s" es b] by (simp add: skip_word.simps [of b es s] clean_def)

lemma peek_spec:
  assumes "peek b es s toks = (yes, t)" "s \<le> es" "line b es"
  shows "s \<le> t" "t \<le> es" "covers b s t {}" "yes \<Longrightarrow> t < es \<and> char_at b t \<in> set toks"
proof -
  have t: "t = skip_space b es s" and y: "yes \<longleftrightarrow> char_at b t \<noteq> NUL \<and> char_at b t \<in> set toks"
    using assms(1) by (auto simp: peek_def Let_def)
  then show "s \<le> t" "covers b s t {}" and te: "t \<le> es" using skip_space_spec [OF assms(2), of b] by auto
  assume yes
  then have "t \<noteq> es" using y assms(3) by (auto simp: line_def)
  then show "t < es \<and> char_at b t \<in> set toks" using te y \<open>yes\<close> by simp
qed

lemma covers_symbol: "i < es \<Longrightarrow> \<not> clean (char_at b i) \<Longrightarrow> covers b i (Suc i) {}"
  by (auto simp: covers_def le_less_Suc_eq)

lemma symbol_not_clean: "c \<in> set ''|();&<'' \<or> c = CHR ''>'' \<longleftrightarrow> c \<in> set symbols"
  by (auto simp: symbols_def)

lemma gettoken_cases:
  assumes g: "gettoken b es s = (tok, q, e, t)" and s: "s \<le> es" and l: "line b es"
  obtains "tok = NUL" "e = q"
  | "char_at b q \<in> set symbols" "tok = char_at b q" "e = Suc q" "q < es"
  | "char_at b q = CHR ''>''" "char_at b (Suc q) = CHR ''>''" "tok = CHR ''+''" "e = Suc (Suc q)" "Suc q < es"
  | "clean (char_at b q)" "tok = CHR ''a''" "e = skip_word b es q" "q < es"
proof -
  let ?c = "char_at b q"
  have q: "q = skip_space b es s" using g by (auto simp: gettoken_def Let_def case_prod_beta)
  then have qs: "q \<le> es" "q < es \<Longrightarrow> ?c \<notin> set whitespace" using skip_space_spec [OF s, of b] by auto
  have g': "(tok, e) = (if ?c = NUL then (?c, q) else if ?c \<in> set ''|();&<'' then (?c, Suc q)
    else if ?c = CHR ''>'' then if char_at b (Suc q) = CHR ''>'' then (CHR ''+'', Suc (Suc q)) else (?c, Suc q)
    else (CHR ''a'', skip_word b es q))"
    using g unfolding q by (auto simp: gettoken_def Let_def case_prod_beta split: if_splits)
  show thesis
  proof (cases "?c = NUL")
    case True
    then show ?thesis using that(1) g' by simp
  next
    case c: False
    have lt: "q < es" using l c qs(1) by (auto simp: line_def le_less)
    show ?thesis
    proof (cases "?c \<in> set symbols")
      case sym: True
      show ?thesis
      proof (cases "?c = CHR ''>'' \<and> char_at b (Suc q) = CHR ''>''")
        case True
        then have "Suc q \<noteq> es" using l by (auto simp: line_def)
        then show ?thesis using that(3) g' True lt by simp
      next
        case False
        then have "(tok, e) = (?c, Suc q)" using sym c g' by (auto simp: symbols_def)
        then show ?thesis using that(2) sym lt by simp
      qed
    next
      case False
      then have "(tok, e) = (CHR ''a'', skip_word b es q)" using c g' symbol_not_clean [of ?c] by simp
      then show ?thesis using that(4) lt False qs(2) by (simp add: clean_def)
    qed
  qed
qed

text \<open>A token covers the bytes it was read from, with a word or without one.\<close>

lemma gettoken_spec:
  assumes g: "gettoken b es s = (tok, q, e, t)" and s: "s \<le> es" and l: "line b es"
  shows "s \<le> t" "t \<le> es" "tok \<noteq> NUL \<Longrightarrow> s < t"
    "tok = CHR ''a'' \<Longrightarrow> word b es (q, e) \<and> covers b s t {(q, e)}" "tok \<noteq> CHR ''a'' \<Longrightarrow> covers b s t {}"
proof -
  have q: "q = skip_space b es s" and t: "t = skip_space b es e" using g by (auto simp: gettoken_def Let_def case_prod_beta)
  have qs: "s \<le> q" "q \<le> es" "covers b s q {}" using skip_space_spec [OF s, of b] q by auto
  have e: "q \<le> e \<and> e \<le> es \<and> (tok \<noteq> NUL \<longrightarrow> q < e) \<and> (tok = CHR ''a'' \<longrightarrow> word b es (q, e)) \<and> (tok \<noteq> CHR ''a'' \<longrightarrow> covers b q e {})"
    using g s l
  proof (cases rule: gettoken_cases)
    case 1
    then show ?thesis using qs by (simp add: covers_def)
  next
    case 2
    then show ?thesis by (auto simp: covers_def le_less_Suc_eq clean_def symbols_def)
  next
    case 3
    then have "\<not> clean (char_at b i)" if "q \<le> i" "i < Suc (Suc q)" for i
      using that by (auto simp: less_Suc_eq clean_def symbols_def le_less_Suc_eq)
    then show ?thesis using 3 by (auto simp: covers_def)
  next
    case 4
    then show ?thesis using skip_word_spec [OF qs(2), of b] skip_word_moves [of q es b] by (auto simp: word_def)
  qed
  have ts: "e \<le> t" "t \<le> es" "covers b e t {}" using skip_space_spec [of e es b] e by (auto simp: t)
  show "s \<le> t" "t \<le> es" "tok \<noteq> NUL \<Longrightarrow> s < t" using qs(1) e ts by auto
  have c: "covers b s t ws" if "covers b q e ws" for ws
    by (rule covers_trans [OF covers_trans [OF qs(3) that] ts(3)]) auto
  have "covers b q e {(q, e)}" by (auto simp: covers_def)
  then show "tok = CHR ''a'' \<Longrightarrow> word b es (q, e) \<and> covers b s t {(q, e)}" "tok \<noteq> CHR ''a'' \<Longrightarrow> covers b s t {}"
    using e c by simp_all
qed

lemma symbol_token:
  assumes g: "gettoken b es s = (tok, q, e, t)" and s: "s < es" "char_at b s \<in> set symbols" and l: "line b es"
  shows "s < t" "t \<le> es" "covers b s t {}" "tok = char_at b s \<or> tok = CHR ''+''"
proof -
  have "char_at b s \<notin> set whitespace" using s(2) by (auto simp: symbols_def whitespace_def)
  then have q: "q = s" using g by (auto simp: gettoken_def Let_def case_prod_beta skip_space.simps [of b es s])
  have "s \<le> es" using s(1) by simp
  from g this l have "tok = char_at b s \<or> tok = CHR ''+''"
  proof (cases rule: gettoken_cases)
    case 1
    have "char_at b s \<noteq> NUL" using s(2) by (auto simp: symbols_def)
    then show ?thesis using 1 q g s(2) by (auto simp: gettoken_def Let_def case_prod_beta symbols_def split: if_splits)
  qed (use s q in \<open>auto simp: clean_def symbols_def\<close>)
  then have "tok \<noteq> NUL \<and> tok \<noteq> CHR ''a''" using s(2) by (auto simp: symbols_def)
  then show "s < t" "t \<le> es" "covers b s t {}" using gettoken_spec [OF g \<open>s \<le> es\<close> l] by auto
  show "tok = char_at b s \<or> tok = CHR ''+''" by fact
qed

section \<open>Parsing\<close>

primrec words :: "cmd \<Rightarrow> (nat \<times> nat) set" where
  "words (EXEC as) = set as"
| "words (REDIR c f m fd) = insert f (words c)"
| "words (PIPE c d) = words c \<union> words d"
| "words (LIST c d) = words c \<union> words d"
| "words (BACK c) = words c"

text \<open>
  The type of a command: \<open>argv\<close> keeps its last place for the null pointer, the words are words of the line, and a
  redirection opens the descriptor and has the mode of one of the three signs.
\<close>

primrec cmd_ok :: "string \<Rightarrow> nat \<Rightarrow> cmd \<Rightarrow> bool" where
  "cmd_ok b es (EXEC as) \<longleftrightarrow> length as < MAXARGS \<and> (\<forall>a \<in> set as. word b es a)"
| "cmd_ok b es (REDIR c f m fd) \<longleftrightarrow> cmd_ok b es c \<and> word b es f \<and> (m, fd) \<in> {(0, 0), (0x601, 1), (0x201, 1)}"
| "cmd_ok b es (PIPE c d) \<longleftrightarrow> cmd_ok b es c \<and> cmd_ok b es d"
| "cmd_ok b es (LIST c d) \<longleftrightarrow> cmd_ok b es c \<and> cmd_ok b es d"
| "cmd_ok b es (BACK c) \<longleftrightarrow> cmd_ok b es c"

text \<open>The number of arguments in the \<^verbatim>\<open>execcmd\<close> below the redirections.\<close>

primrec argc_of :: "cmd \<Rightarrow> nat option" where
  "argc_of (EXEC as) = Some (length as)"
| "argc_of (REDIR c f m fd) = argc_of c"
| "argc_of (PIPE c d) = None"
| "argc_of (LIST c d) = None"
| "argc_of (BACK c) = None"

lemma add_arg_ok:
  "argc_of c = Some n \<Longrightarrow> cmd_ok b es c \<Longrightarrow> Suc n < MAXARGS \<Longrightarrow> word b es a \<Longrightarrow>
     argc_of (add_arg a c) = Some (Suc n) \<and> cmd_ok b es (add_arg a c) \<and> words (add_arg a c) = insert a (words c)"
  by (induction c) auto

text \<open>The code returns with a result that satisfies \<open>P\<close>, or reports one of the errors of the syntax.\<close>

definition finishes :: "('a \<Rightarrow> bool) \<Rightarrow> 'a res \<Rightarrow> bool" where
  "finishes P r \<longleftrightarrow> (\<exists>x. r = Ok x \<and> P x) \<or>
     (\<exists>m \<in> {''syntax'', ''syntax - missing )'', ''missing file for redirection'', ''too many args''}. r = Panic m)"

lemma finishes_Ok [simp]: "finishes P (Ok x) \<longleftrightarrow> P x"
  by (simp add: finishes_def)

lemma finishes_Panic [simp]:
  "finishes P (Panic m) \<longleftrightarrow> m \<in> {''syntax'', ''syntax - missing )'', ''missing file for redirection'', ''too many args''}"
  by (auto simp: finishes_def)

lemma finishes_bind:
  assumes "finishes P r" "\<And>c t. P (c, t) \<Longrightarrow> finishes Q (f (c, t))"
  shows "finishes Q (res_bind r f)"
  using assms unfolding finishes_def by force

lemma finishes_mono: "finishes P r \<Longrightarrow> (\<And>c t. P (c, t) \<Longrightarrow> Q (c, t)) \<Longrightarrow> finishes Q r"
  unfolding finishes_def by force

text \<open>What a parser that starts at \<open>s\<close> with the words \<open>ws\<close> has read when it returns.\<close>

definition parsed :: "string \<Rightarrow> nat \<Rightarrow> nat \<Rightarrow> (nat \<times> nat) set \<Rightarrow> cmd \<times> nat \<Rightarrow> bool" where
  "parsed b es s ws r \<longleftrightarrow> s \<le> snd r \<and> snd r \<le> es \<and> cmd_ok b es (fst r) \<and> ws \<subseteq> words (fst r) \<and>
     covers b s (snd r) (words (fst r))"

lemma parsed_later:
  assumes "parsed b es t ws r" "s \<le> t" "covers b s t ws'" "ws' \<subseteq> ws"
  shows "parsed b es s ws r"
  using assms covers_trans [of b s t ws' "snd r" "words (fst r)" "words (fst r)"] by (auto simp: parsed_def)

lemma parsed_mono: "parsed b es s ws r \<Longrightarrow> ws' \<subseteq> ws \<Longrightarrow> parsed b es s ws' r"
  by (auto simp: parsed_def)

lemma parseredirs_ok:
  assumes "line b es" "s \<le> es" "es - s < k" "cmd_ok b es c"
  shows "finishes (\<lambda>r. parsed b es s (words c) r \<and> argc_of (fst r) = argc_of c) (parseredirs k b es c s)"
  using assms
proof (induction k arbitrary: c s)
  case (Suc k)
  obtain more t where p: "peek b es s ''<>'' = (more, t)" by fastforce
  note pk = peek_spec [OF p Suc.prems(2,1)]
  show ?case
  proof (cases more)
    case False
    then show ?thesis using p pk Suc.prems(4) covers_mono [OF pk(3)] by (simp add: parsed_def)
  next
    case True
    obtain tok x y u where g: "gettoken b es t = (tok, x, y, u)" by (metis prod_cases4)
    have t: "t < es" "char_at b t \<in> set symbols" using pk(4) True by (auto simp: symbols_def)
    note sy = symbol_token [OF g t Suc.prems(1)]
    obtain w q e v where h: "gettoken b es u = (w, q, e, v)" by (metis prod_cases4)
    note tk = gettoken_spec [OF h sy(2) Suc.prems(1)]
    show ?thesis
    proof (cases "w = CHR ''a''")
      case False
      then show ?thesis using p True g h by simp
    next
      case w: True
      define d where "d = (if tok = CHR ''<'' then REDIR c (q, e) 0 0 else if tok = CHR ''>'' then REDIR c (q, e) 0x601 1
        else if tok = CHR ''+'' then REDIR c (q, e) 0x201 1 else c)"
      have "tok \<in> {CHR ''<'', CHR ''>'', CHR ''+''}" using sy(4) pk(4) True by auto
      then have d: "cmd_ok b es d" "words d = insert (q, e) (words c)" "argc_of d = argc_of c"
        using Suc.prems(4) tk(4) [OF w] by (auto simp: d_def)
      have "covers b s v {(q, e)}"
        using tk(4) [OF w] covers_trans [OF covers_trans [OF pk(3) sy(3), of "{}"], of v "{(q, e)}"] by simp
      moreover have "finishes (\<lambda>r. parsed b es v (words d) r \<and> argc_of (fst r) = argc_of d) (parseredirs k b es d v)"
        using Suc.prems(1,3) tk(1,2) sy(1) pk(1,2) t(1) d(1) by (intro Suc.IH) auto
      ultimately show ?thesis using p True g h w d parsed_later [of b es v "words d" _ s "{(q, e)}"] pk(1) sy(1) tk(1)
        by (auto simp: d_def [symmetric] elim!: finishes_mono intro: parsed_mono)
    qed
  qed
qed simp

lemma exec_args_ok:
  assumes "line b es" "s \<le> es" "es - s < k" "cmd_ok b es c" "argc_of c = Some n" "n < MAXARGS"
  shows "finishes (parsed b es s (words c)) (exec_args k b es n c s)"
  using assms
proof (induction k arbitrary: c s n)
  case (Suc k)
  obtain stop t where p: "peek b es s ''|)&;'' = (stop, t)" by fastforce
  note pk = peek_spec [OF p Suc.prems(2,1)]
  obtain tok q e u where g: "gettoken b es t = (tok, q, e, u)" by (metis prod_cases4)
  note tk = gettoken_spec [OF g pk(2) Suc.prems(1)]
  consider "stop" | "\<not> stop" "tok = NUL" | "\<not> stop" "tok \<noteq> NUL" "tok \<noteq> CHR ''a''"
    | "\<not> stop" "tok = CHR ''a''" "Suc n \<ge> MAXARGS" | "\<not> stop" "tok = CHR ''a''" "Suc n < MAXARGS" by force
  then show ?case
  proof cases
    case 1
    then show ?thesis using p pk Suc.prems(4) covers_mono [OF pk(3)] by (simp add: parsed_def)
  next
    case 2
    have "covers b s u {}" using 2 tk(5) pk(3) covers_trans [of b s t "{}" u "{}" "{}"] by simp
    then show ?thesis using 2 p g pk tk Suc.prems(4) covers_mono [of b s u "{}"] by (simp add: parsed_def)
  next
    case 5
    let ?c = "add_arg (q, e) c"
    have w: "word b es (q, e)" "covers b s u {(q, e)}"
      using 5 tk(4) covers_trans [OF pk(3), of u "{(q, e)}" "{(q, e)}"] by auto
    have c: "argc_of ?c = Some (Suc n)" "cmd_ok b es ?c" "words ?c = insert (q, e) (words c)"
      using add_arg_ok [OF Suc.prems(5,4) 5(3) w(1)] by auto
    have lt: "t < u" using tk(3) 5(2) by simp
    have "finishes (\<lambda>r. parsed b es u (words ?c) r \<and> argc_of (fst r) = argc_of ?c) (parseredirs k b es ?c u)"
      using Suc.prems pk lt tk c by (intro parseredirs_ok) auto
    then have "finishes (parsed b es s (words c)) (res_bind (parseredirs k b es ?c u) (\<lambda>(d, v). exec_args k b es (Suc n) d v))"
    proof (rule finishes_bind)
      fix d v
      assume d: "parsed b es u (words ?c) (d, v) \<and> argc_of (fst (d, v)) = argc_of ?c"
      then have dv: "u \<le> v" "v \<le> es" "cmd_ok b es d" "words ?c \<subseteq> words d" "covers b u v (words d)" by (auto simp: parsed_def)
      have "finishes (parsed b es v (words d)) (exec_args k b es (Suc n) d v)"
        using Suc.prems(1,3) dv d c 5(3) lt pk tk by (intro Suc.IH) auto
      moreover have "covers b s v (words d)" using covers_trans [OF w(2) dv(5)] dv(4) c(3) by simp
      then have "parsed b es s (words c) r" if "parsed b es v (words d) r" for r
        using parsed_later [OF that, of s "words d"] parsed_mono [of b es s "words d" r "words c"] dv c(3) lt pk(1) by auto
      ultimately show "finishes (parsed b es s (words c)) (case (d, v) of (d, v) \<Rightarrow> exec_args k b es (Suc n) d v)"
        by (auto elim!: finishes_mono)
    qed
    then show ?thesis using 5 p g by (simp add: case_prod_beta)
  qed (use p g in simp_all)
qed simp

lemma covers_refl [simp]: "covers b s s ws"
  by (auto simp: covers_def)

text \<open>Reading the sign that was seen.\<close>

lemma peek_token:
  assumes p: "peek b es s toks = (True, t)" and g: "gettoken b es t = (tok, x, y, u)" and toks: "set toks \<subseteq> set symbols"
    and s: "s \<le> es" and l: "line b es"
  shows "s < u" "t < u" "u \<le> es" "covers b s u {}"
proof -
  note pk = peek_spec [OF p s l]
  have t: "t < es" "char_at b t \<in> set symbols" using pk(4) toks by auto
  note sy = symbol_token [OF g t l]
  show "s < u" "t < u" "u \<le> es" using pk(1) sy by auto
  show "covers b s u {}" using covers_trans [OF pk(3) sy(3), of "{}"] by simp
qed

lemma parsed_stop:
  assumes "parsed b es s ws (c, t)" "peek b es t toks = (no, u)" "line b es"
  shows "parsed b es s ws (c, u)"
proof -
  have "t \<le> es" using assms(1) by (simp add: parsed_def)
  note pk = peek_spec [OF assms(2) this assms(3)]
  show ?thesis using assms(1) pk(1,2) covers_trans [of b s t "words c", OF _ pk(3), of "words c"] by (auto simp: parsed_def)
qed

lemma back_loop_ok:
  assumes "line b es" "s \<le> es" "es - s < k" "cmd_ok b es c"
  shows "finishes (parsed b es s (words c)) (back_loop k b es c s)"
  using assms
proof (induction k arbitrary: c s)
  case (Suc k)
  obtain amp t where p: "peek b es s ''&'' = (amp, t)" by fastforce
  show ?case
  proof (cases amp)
    case False
    have "parsed b es s (words c) (c, s)" using Suc.prems by (simp add: parsed_def)
    from parsed_stop [OF this p Suc.prems(1)] show ?thesis using p False by simp
  next
    case True
    obtain tok x y u where g: "gettoken b es t = (tok, x, y, u)" by (metis prod_cases4)
    have p': "peek b es s ''&'' = (True, t)" using p True by simp
    note tk = peek_token [OF p' g _ Suc.prems(2,1), unfolded symbols_def, simplified]
    have "finishes (parsed b es u (words (BACK c))) (back_loop k b es (BACK c) u)"
      using Suc.prems tk by (intro Suc.IH) auto
    then show ?thesis using p True g tk parsed_later [of b es u "words c" _ s "{}"]
      by (auto elim!: finishes_mono)
  qed
qed simp

text \<open>
  A binary sign: the command \<open>c\<close> has been read up to \<open>t\<close>, and the parser \<open>f\<close> reads on after the sign.
\<close>

lemma binary_ok:
  assumes c: "parsed b es s {} (c, t)" and l: "line b es" and toks: "set toks \<subseteq> set symbols"
    and f: "\<And>u. t < u \<Longrightarrow> u \<le> es \<Longrightarrow> finishes (parsed b es u {}) (f u)"
    and k: "\<And>c d. cmd_ok b es c \<Longrightarrow> cmd_ok b es d \<Longrightarrow> cmd_ok b es (K c d) \<and> words (K c d) = words c \<union> words d"
  shows "finishes (parsed b es s {}) (let (yes, t) = peek b es t toks in
    if yes then let (_, _, _, u) = gettoken b es t in res_bind (f u) (\<lambda>(d, v). Ok (K c d, v)) else Ok (c, t))"
proof -
  obtain yes t' where p: "peek b es t toks = (yes, t')" by fastforce
  obtain tok x y u where g: "gettoken b es t' = (tok, x, y, u)" by (metis prod_cases4)
  have te: "t \<le> es" using c by (simp add: parsed_def)
  show ?thesis
  proof (cases yes)
    case False
    then show ?thesis using p parsed_stop [OF c p l] by simp
  next
    case True
    have p': "peek b es t toks = (True, t')" using p True by simp
    note tk = peek_token [OF p' g toks te l]
    have "finishes (parsed b es s {}) (res_bind (f u) (\<lambda>(d, v). Ok (K c d, v)))"
    proof (rule finishes_bind [OF f [OF tk(1,3)]])
      fix d v
      assume "parsed b es u {} (d, v)"
      then have d: "u \<le> v" "v \<le> es" "cmd_ok b es d" "covers b u v (words d)" by (auto simp: parsed_def)
      have c': "s \<le> t" "cmd_ok b es c" "covers b s t (words c)" using c by (auto simp: parsed_def)
      have "covers b s u (words c)" using covers_trans [OF c'(3) tk(4), of "words c"] by simp
      then have "covers b s v (words c \<union> words d)" by (rule covers_trans [OF _ d(4)]) auto
      then show "finishes (parsed b es s {}) (case (d, v) of (d, v) \<Rightarrow> Ok (K c d, v))"
        using k [OF c'(2) d(3)] c'(1) d(1,2) tk(1) by (auto simp: parsed_def)
    qed
    then show ?thesis using p True g by simp
  qed
qed

lemma parseline_step:
  assumes l: "line b es" "s \<le> es" and fuel: "4 * (es - s) + 3 \<le> k"
    and pipe: "finishes (parsed b es s {}) (parsepipe k b es s)"
    and rest: "\<And>u. s < u \<Longrightarrow> u \<le> es \<Longrightarrow> finishes (parsed b es u {}) (parseline k b es u)"
  shows "finishes (parsed b es s {}) (parseline (Suc k) b es s)"
  unfolding parseline.simps
proof (rule finishes_bind [OF pipe])
  fix c t
  assume "parsed b es s {} (c, t)"
  then have c: "s \<le> t" "t \<le> es" "cmd_ok b es c" "covers b s t (words c)" by (auto simp: parsed_def)
  have "finishes (parsed b es t (words c)) (back_loop k b es c t)" using c l fuel by (intro back_loop_ok) auto
  then have "finishes (parsed b es s {}) (back_loop k b es c t)"
    by (rule finishes_mono) (rule parsed_mono [OF parsed_later [OF _ c(1,4)]], auto)
  then show "finishes (parsed b es s {}) (case (c, t) of (c, t) \<Rightarrow> res_bind (back_loop k b es c t) (\<lambda>(c, t).
    let (semi, t) = peek b es t '';'' in if semi then let (_, _, _, t) = gettoken b es t in
      res_bind (parseline k b es t) (\<lambda>(d, t). Ok (LIST c d, t)) else Ok (c, t)))"
    unfolding prod.case
  proof (rule finishes_bind)
    fix d u
    assume d: "parsed b es s {} (d, u)"
    show "finishes (parsed b es s {}) (case (d, u) of (c, t) \<Rightarrow>
      let (semi, t) = peek b es t '';'' in if semi then let (_, _, _, t) = gettoken b es t in
        res_bind (parseline k b es t) (\<lambda>(d, t). Ok (LIST c d, t)) else Ok (c, t))"
      unfolding prod.case
      by (rule binary_ok [OF d l(1)]) (use d rest in \<open>auto simp: parsed_def symbols_def\<close>)
  qed
qed

lemma parsepipe_step:
  assumes l: "line b es" "s \<le> es"
    and exec: "finishes (parsed b es s {}) (parseexec k b es s)"
    and rest: "\<And>u. s < u \<Longrightarrow> u \<le> es \<Longrightarrow> finishes (parsed b es u {}) (parsepipe k b es u)"
  shows "finishes (parsed b es s {}) (parsepipe (Suc k) b es s)"
  unfolding parsepipe.simps
proof (rule finishes_bind [OF exec])
  fix c t
  assume c: "parsed b es s {} (c, t)"
  show "finishes (parsed b es s {}) (case (c, t) of (c, t) \<Rightarrow>
    let (bar, t) = peek b es t ''|'' in if bar then let (_, _, _, t) = gettoken b es t in
      res_bind (parsepipe k b es t) (\<lambda>(d, t). Ok (PIPE c d, t)) else Ok (c, t))"
    unfolding prod.case
    by (rule binary_ok [OF c l(1)]) (use c rest in \<open>auto simp: parsed_def symbols_def\<close>)
qed

lemma peek_again: "peek b es s toks = (yes, t) \<Longrightarrow> s \<le> es \<Longrightarrow> peek b es t toks = (yes, t)"
proof -
  assume p: "peek b es s toks = (yes, t)" and s: "s \<le> es"
  then have t: "t = skip_space b es s" by (auto simp: peek_def Let_def)
  then have "\<not> (t < es \<and> char_at b t \<in> set whitespace)" using skip_space_spec [OF s, of b] by auto
  then have "skip_space b es t = t" by (auto simp: skip_space.simps [of b es t])
  then show ?thesis using p t by (auto simp: peek_def Let_def)
qed

lemma parseblock_step:
  assumes l: "line b es" "s \<le> es" and p: "peek b es s ''('' = (True, s)" and fuel: "es - s < k"
    and rest: "\<And>u. s < u \<Longrightarrow> u \<le> es \<Longrightarrow> finishes (parsed b es u {}) (parseline k b es u)"
  shows "finishes (parsed b es s {}) (parseblock (Suc k) b es s)"
proof -
  obtain tok x y u where g: "gettoken b es s = (tok, x, y, u)" by (metis prod_cases4)
  have tk: "s < u" "u \<le> es" "covers b s u {}" using peek_token [OF p g _ l(2,1)] by (simp_all add: symbols_def)
  let ?f = "\<lambda>(c, t). let (rpar, t) = peek b es t '')'' in if \<not> rpar then Panic ''syntax - missing )''
    else let (_, _, _, t) = gettoken b es t in parseredirs k b es c t"
  have "finishes (parsed b es s {}) (res_bind (parseline k b es u) ?f)"
  proof (rule finishes_bind [OF rest [OF tk(1,2)]])
    fix c t
    assume "parsed b es u {} (c, t)"
    then have c: "u \<le> t" "t \<le> es" "cmd_ok b es c" "covers b u t (words c)" by (auto simp: parsed_def)
    obtain rpar t' where p': "peek b es t '')'' = (rpar, t')" by fastforce
    obtain tok' x' y' v where g': "gettoken b es t' = (tok', x', y', v)" by (metis prod_cases4)
    show "finishes (parsed b es s {}) (?f (c, t))"
    proof (cases rpar)
      case True
      have tk': "t < v" "v \<le> es" "covers b t v {}" using peek_token [of b es t "'')''", OF _ g' _ c(2) l(1)] p' True by (simp_all add: symbols_def)
      have "covers b s v (words c)"
        by (rule covers_trans [OF covers_trans [OF tk(3) c(4), of "words c"] tk'(3)]) auto
      then have "parsed b es s {} r" if "parsed b es v (words c) r" for r
        using parsed_mono [OF parsed_later [OF that]] tk(1) c(1) tk'(1) by simp
      moreover have "finishes (\<lambda>r. parsed b es v (words c) r \<and> argc_of (fst r) = argc_of c) (parseredirs k b es c v)"
        using l fuel tk c tk' by (intro parseredirs_ok) auto
      ultimately show ?thesis using p' True g' by (auto elim!: finishes_mono)
    qed (use p' in simp)
  qed
  then show ?thesis using p g by simp
qed

lemma parseexec_step:
  assumes l: "line b es" "s \<le> es" and fuel: "es - s < k"
    and block: "\<And>t. s \<le> t \<Longrightarrow> t < es \<Longrightarrow> peek b es t ''('' = (True, t) \<Longrightarrow> finishes (parsed b es t {}) (parseblock k b es t)"
  shows "finishes (parsed b es s {}) (parseexec (Suc k) b es s)"
proof -
  obtain lpar t where p: "peek b es s ''('' = (lpar, t)" by fastforce
  note pk = peek_spec [OF p l(2,1)]
  have le: "parsed b es s {} r" if "parsed b es t {} r" for r using parsed_later [OF that pk(1,3)] by simp
  show ?thesis
  proof (cases lpar)
    case True
    then have "finishes (parsed b es t {}) (parseblock k b es t)" using block pk(1,4) peek_again [OF p l(2)] by simp
    then show ?thesis using p True le by (auto elim!: finishes_mono)
  next
    case False
    have "finishes (\<lambda>r. parsed b es t (words (EXEC [])) r \<and> argc_of (fst r) = argc_of (EXEC [])) (parseredirs k b es (EXEC []) t)"
      using l fuel pk by (intro parseredirs_ok) auto
    then have "finishes (parsed b es s {}) (res_bind (parseredirs k b es (EXEC []) t) (\<lambda>(c, u). exec_args k b es 0 c u))"
    proof (rule finishes_bind)
      fix c u
      assume "parsed b es t (words (EXEC [])) (c, u) \<and> argc_of (fst (c, u)) = argc_of (EXEC [])"
      then have c: "t \<le> u" "u \<le> es" "cmd_ok b es c" "covers b t u (words c)" "argc_of c = Some 0" by (auto simp: parsed_def)
      have "finishes (parsed b es u (words c)) (exec_args k b es 0 c u)"
        using l fuel pk(1) c by (intro exec_args_ok) auto
      then show "finishes (parsed b es s {}) (case (c, u) of (c, u) \<Rightarrow> exec_args k b es 0 c u)"
        using parsed_mono [OF parsed_later [OF _ c(1,4)]] le by (auto elim!: finishes_mono)
    qed
    then show ?thesis using p False by simp
  qed
qed

text \<open>The fuel: each of the four functions takes one unit, and a bracket moves to the next byte.\<close>

lemma parse_ok:
  assumes l: "line b es"
  shows "(\<forall>s \<le> es. (4 * (es - s) + 4 \<le> k \<longrightarrow> finishes (parsed b es s {}) (parseline k b es s)) \<and>
    (4 * (es - s) + 3 \<le> k \<longrightarrow> finishes (parsed b es s {}) (parsepipe k b es s)) \<and>
    (4 * (es - s) + 2 \<le> k \<longrightarrow> finishes (parsed b es s {}) (parseexec k b es s)) \<and>
    (4 * (es - s) + 1 \<le> k \<and> s < es \<and> peek b es s ''('' = (True, s) \<longrightarrow> finishes (parsed b es s {}) (parseblock k b es s)))"
proof (induction k)
  case (Suc k)
  show ?case
  proof (intro allI impI conjI; (elim conjE)?)
    fix s assume s: "s \<le> es"
    show "finishes (parsed b es s {}) (parseline (Suc k) b es s)" if "4 * (es - s) + 4 \<le> Suc k"
      using Suc s that by (intro parseline_step [OF l s]) auto
    show "finishes (parsed b es s {}) (parsepipe (Suc k) b es s)" if "4 * (es - s) + 3 \<le> Suc k"
      using Suc s that by (intro parsepipe_step [OF l s]) auto
    show "finishes (parsed b es s {}) (parseexec (Suc k) b es s)" if "4 * (es - s) + 2 \<le> Suc k"
      using Suc s that by (intro parseexec_step [OF l s]) auto
    show "finishes (parsed b es s {}) (parseblock (Suc k) b es s)"
      if "4 * (es - s) + 1 \<le> Suc k" "s < es" "peek b es s ''('' = (True, s)"
      using Suc s that by (intro parseblock_step [OF l s that(3)]) auto
  qed
qed simp

section \<open>Ending the words\<close>

lemma char_at_update: "char_at (b[e := NUL]) i = (if i = e then NUL else char_at b i)"
  by (auto simp: char_at_def)

lemma fold_nul:
  "length (fold (\<lambda>a b. b[snd a := NUL]) as b) = length b \<and>
   char_at (fold (\<lambda>a b. b[snd a := NUL]) as b) i = (if i \<in> snd ` set as then NUL else char_at b i)"
  by (induction as arbitrary: b) (auto simp: char_at_update)

lemma nulterminate_char:
  "length (nulterminate c b) = length b \<and>
   char_at (nulterminate c b) i = (if i \<in> snd ` words c then NUL else char_at b i)"
proof (induction c arbitrary: b)
  case (EXEC as)
  then show ?case using fold_nul [of as b i] by simp
qed (auto simp: char_at_update)

lemma cmd_ok_words: "cmd_ok b es c \<Longrightarrow> a \<in> words c \<Longrightarrow> word b es a"
  by (induction c) auto

text \<open>The string at \<open>q\<close>, and the text of a word.\<close>

definition cstring :: "string \<Rightarrow> nat \<Rightarrow> string" where
  "cstring b q = takeWhile (\<lambda>c. c \<noteq> NUL) (drop q b)"

definition text_of :: "string \<Rightarrow> nat \<times> nat \<Rightarrow> string" where
  "text_of b a = take (snd a - fst a) (drop (fst a) b)"

text \<open>Each word of \<open>ws\<close> is a C string of its own in \<open>b'\<close>.\<close>

definition terminated :: "string \<Rightarrow> string \<Rightarrow> (nat \<times> nat) set \<Rightarrow> bool" where
  "terminated b b' ws \<longleftrightarrow> (\<forall>a \<in> ws. cstring b' (fst a) = text_of b a)"

lemma nulterminate_words:
  assumes l: "line b es" "es \<le> length b" and ok: "cmd_ok b es c"
  shows "terminated b (nulterminate c b) (words c)"
  unfolding terminated_def
proof
  fix a :: "nat \<times> nat"
  let ?b = "nulterminate c b" and ?q = "fst a" and ?n = "snd a - fst a"
  assume "a \<in> words c"
  then have a: "word b es a" using cmd_ok_words [OF ok] by simp
  have len: "length ?b = length b" and ch: "\<And>i. char_at ?b i = (if i \<in> snd ` words c then NUL else char_at b i)"
    using nulterminate_char by auto
  have same: "char_at ?b i = char_at b i \<and> char_at b i \<noteq> NUL" if "?q \<le> i" "i < snd a" for i
  proof -
    have i: "clean (char_at b i)" "i < es" using a that by (auto simp: word_def)
    have "i \<notin> snd ` words c" using i cmd_ok_words [OF ok] by (fastforce simp: word_def)
    then show ?thesis using ch i l(1) by (simp add: line_def)
  qed
  have nth: "drop ?q ?b ! i = char_at ?b (?q + i) \<and> drop ?q b ! i = char_at b (?q + i)" if "i < length (drop ?q b)" for i
    using that len by (auto simp: char_at_def)
  have "cstring ?b ?q = take ?n (drop ?q ?b)" unfolding cstring_def
  proof (rule takeWhile_eq_take_P_nth)
    show "drop ?q ?b ! i \<noteq> NUL" if "i < ?n" "i < length (drop ?q ?b)" for i
      using that nth [of i] same [of "?q + i"] len by simp
    show "\<not> drop ?q ?b ! ?n \<noteq> NUL" if "?n < length (drop ?q ?b)"
      using that nth [of ?n] len ch [of "snd a"] \<open>a \<in> words c\<close> a by (simp add: word_def)
  qed
  also have "\<dots> = take ?n (drop ?q b)"
    using nth same len by (intro nth_equalityI) (auto simp: less_diff_conv2)
  finally show "cstring ?b ?q = text_of b a" by (simp add: text_of_def)
qed

lemma line_strlen: "line b (line_end b)" "line_end b \<le> length b"
proof -
  show le: "line_end b \<le> length b" unfolding line_end_def by (rule length_takeWhile_le)
  have "char_at b i \<noteq> NUL" if "i < line_end b" for i
    using that le nth_mem [of i "takeWhile (\<lambda>c. c \<noteq> NUL) b"] by (auto simp: char_at_def line_end_def takeWhile_nth dest: set_takeWhileD)
  moreover have "char_at b (line_end b) = NUL" using nth_length_takeWhile [of "\<lambda>c. c \<noteq> NUL" b] by (auto simp: char_at_def line_end_def)
  ultimately show "line b (line_end b)" by (simp add: line_def)
qed

text \<open>
  Property C37. For every line \<^verbatim>\<open>parsecmd\<close> returns a command or reports one of the four errors of the syntax:
  it never loops, and \<^verbatim>\<open>parseblock\<close> never panics. The command is well formed: no command has more than nine
  arguments, so that \<^verbatim>\<open>argv\<close> ends with a null pointer; each argument and each file name is a maximal run of
  bytes of the line that are neither whitespace nor signs; no such byte of the line is lost; and in the
  array that \<^verbatim>\<open>nulterminate\<close> leaves each of them is a C string of its own.
\<close>

theorem parsecmd_well_formed:
  "(\<exists>m. parsecmd b = Panic m \<and> m \<in> {''syntax'', ''syntax - missing )'', ''missing file for redirection'', ''too many args''}) \<or>
    (\<exists>c b'. parsecmd b = Ok (c, b') \<and> cmd_ok b (line_end b) c \<and> covers b 0 (line_end b) (words c) \<and> terminated b b' (words c))"
proof -
  note l = line_strlen [of b]
  have "finishes (parsed b (line_end b) 0 {}) (parseline (4 * line_end b + 4) b (line_end b) 0)" using parse_ok [OF l(1), of "4 * line_end b + 4"] by simp
  then have "finishes (\<lambda>(c, b'). cmd_ok b (line_end b) c \<and> covers b 0 (line_end b) (words c) \<and> terminated b b' (words c)) (parsecmd b)"
    unfolding parsecmd_def Let_def
  proof (rule finishes_bind)
    fix c t
    assume c: "parsed b (line_end b) 0 {} (c, t)"
    obtain no u where p: "peek b (line_end b) t '''' = (no, u)" by fastforce
    from parsed_stop [OF c p l(1)] have "parsed b (line_end b) 0 {} (c, u)" .
    then show "finishes (\<lambda>(c, b'). cmd_ok b (line_end b) c \<and> covers b 0 (line_end b) (words c) \<and> terminated b b' (words c))
      (case (c, t) of (cmd, s) \<Rightarrow> case peek b (line_end b) s [] of (_, s) \<Rightarrow> if s \<noteq> line_end b then Panic ''syntax'' else Ok (cmd, nulterminate cmd b))"
      using p nulterminate_words [OF l] by (auto simp: parsed_def)
  qed
  then show ?thesis by (auto simp: finishes_def)
qed

end
