(* ===== verification/Shell_Spec.thy ===== *)
theory Shell_Spec
  imports Shell
begin

text \<open>
  The parser of the shell reads back what a command is written as: abstract commands, their text, with brackets
  around the parts, and the command that the parser returns for it.
\<close>

section \<open>Commands and their text\<close>

text \<open>A redirection has the mode and the descriptor of its sign.\<close>

datatype acmd =
    AExec "string list"
  | ARedir acmd string int int
  | APipe acmd acmd
  | AList acmd acmd
  | ABack acmd

definition sign :: "int \<Rightarrow> string" where
  "sign m = (if m = 0 then ''<'' else if m = 0x601 then ''>'' else ''>>'')"

primrec written :: "acmd \<Rightarrow> string" where
  "written (AExec ws) = concat (map (\<lambda>w. w @ '' '') ws)"
| "written (ARedir a f m fd) = ''('' @ written a @ '')'' @ sign m @ f @ '' ''"
| "written (APipe a c) = ''('' @ written a @ '')|('' @ written c @ '')''"
| "written (AList a c) = ''('' @ written a @ '');('' @ written c @ '')''"
| "written (ABack a) = ''('' @ written a @ '')&''"

definition clean_word :: "string \<Rightarrow> bool" where
  "clean_word w \<longleftrightarrow> w \<noteq> [] \<and> (\<forall>c \<in> set w. clean c \<and> c \<noteq> NUL)"

primrec acmd_ok :: "acmd \<Rightarrow> bool" where
  "acmd_ok (AExec ws) \<longleftrightarrow> length ws < MAXARGS \<and> (\<forall>w \<in> set ws. clean_word w)"
| "acmd_ok (ARedir a f m fd) \<longleftrightarrow> acmd_ok a \<and> clean_word f \<and> (m, fd) \<in> {(0, 0), (0x601, 1), (0x201, 1)}"
| "acmd_ok (APipe a c) \<longleftrightarrow> acmd_ok a \<and> acmd_ok c"
| "acmd_ok (AList a c) \<longleftrightarrow> acmd_ok a \<and> acmd_ok c"
| "acmd_ok (ABack a) \<longleftrightarrow> acmd_ok a"

text \<open>The command with the words themselves in place of their positions.\<close>

primrec denoted :: "string \<Rightarrow> cmd \<Rightarrow> acmd" where
  "denoted b (EXEC as) = AExec (map (text_of b) as)"
| "denoted b (REDIR c f m fd) = ARedir (denoted b c) (text_of b f) m fd"
| "denoted b (PIPE c d) = APipe (denoted b c) (denoted b d)"
| "denoted b (LIST c d) = AList (denoted b c) (denoted b d)"
| "denoted b (BACK c) = ABack (denoted b c)"

section \<open>Reading one token\<close>

lemma char_at_append: "char_at (pre @ xs) (length pre + i) = char_at xs i"
  by (simp add: char_at_def nth_append)

lemma char_at_here [simp]: "char_at (pre @ xs) (length pre) = (case xs of [] \<Rightarrow> NUL | x # _ \<Rightarrow> x)"
  using char_at_append [of pre xs 0] by (simp add: char_at_def split: list.splits)

lemma skip_space_stay: "char_at b p \<notin> set whitespace \<Longrightarrow> skip_space b es p = p"
  by (simp add: skip_space.simps [of b es p])

lemma nul_not_space [simp]: "NUL \<notin> set whitespace"
  by (simp add: whitespace_def)

lemma peek_here: "char_at b p \<notin> set whitespace \<Longrightarrow> peek b es p toks = (char_at b p \<noteq> NUL \<and> char_at b p \<in> set toks, p)"
  by (simp add: peek_def skip_space_stay)

lemma symbol_not_space: "c \<in> set symbols \<Longrightarrow> c \<notin> set whitespace \<and> c \<noteq> NUL"
  by (auto simp: symbols_def whitespace_def)

text \<open>Nothing, or a byte that is not whitespace, follows.\<close>

definition no_space :: "string \<Rightarrow> bool" where
  "no_space xs \<longleftrightarrow> (case xs of [] \<Rightarrow> True | x # _ \<Rightarrow> x \<notin> set whitespace)"

lemma no_space_char: "no_space xs \<Longrightarrow> char_at (pre @ xs) (length pre) \<notin> set whitespace"
  by (auto simp: no_space_def split: list.splits)

lemma gettoken_sign:
  assumes "b = pre @ c # xs" "c \<in> set ''|();&<''" "no_space xs"
  shows "gettoken b es (length pre) = (c, length pre, Suc (length pre), Suc (length pre))"
proof -
  have c: "char_at b (length pre) = c" using assms(1) by simp
  have "c \<in> set symbols" using assms(2) symbol_not_clean by blast
  then have "c \<notin> set whitespace" "c \<noteq> NUL" using symbol_not_space by auto
  moreover have "char_at b (Suc (length pre)) \<notin> set whitespace"
    using no_space_char [OF assms(3), of "pre @ [c]"] assms(1) by simp
  ultimately show ?thesis using c assms(2) by (simp add: gettoken_def Let_def skip_space_stay)
qed

lemma skip_word_over:
  assumes "\<forall>c \<in> set w. clean c" "\<not> clean d"
  shows "length (pre @ w) < es \<Longrightarrow> skip_word (pre @ w @ d # xs) es (length pre) = length pre + length w"
  using assms
proof (induction w arbitrary: pre)
  case Nil
  then show ?case by (auto simp: skip_word.simps [of _ es "length pre"] clean_def)
next
  case (Cons c w)
  have "skip_word ((pre @ [c]) @ w @ d # xs) es (length (pre @ [c])) = length (pre @ [c]) + length w"
    using Cons.prems by (intro Cons.IH) auto
  then show ?case using Cons.prems by (simp add: skip_word.simps [of _ es "length pre"] clean_def)
qed

lemma gettoken_word:
  assumes b: "b = pre @ w @ CHR '' '' # xs" and w: "clean_word w" and es: "length b = es" and xs: "no_space xs"
  shows "gettoken b es (length pre) = (CHR ''a'', length pre, length pre + length w, Suc (length pre + length w))"
proof -
  obtain c w' where cw: "w = c # w'" using w by (cases w) (auto simp: clean_word_def)
  have c: "char_at b (length pre) = c" "clean c" "c \<noteq> NUL" using b w cw by (auto simp: clean_word_def)
  have sk: "skip_word b es (length pre) = length pre + length w" unfolding b
    using w es b by (intro skip_word_over) (auto simp: clean_word_def clean_def whitespace_def)
  have "char_at b (length pre + length w) = CHR '' ''" using char_at_here [of "pre @ w" "CHR '' '' # xs"] b by simp
  moreover have "char_at b (Suc (length pre + length w)) \<notin> set whitespace"
    using no_space_char [OF xs, of "pre @ w @ '' ''"] b by simp
  moreover have "length pre + length w < es" using es b by auto
  moreover have "CHR '' '' \<in> set whitespace" by (simp add: whitespace_def)
  ultimately have "skip_space b es (length pre + length w) = Suc (length pre + length w)"
    by (simp add: skip_space.simps [of b es "length pre + length w"] skip_space_stay)
  moreover have "c \<notin> set ''|();&<''" "c \<noteq> CHR ''>''" "c \<notin> set whitespace" using c(2) symbol_not_clean [of c] by (auto simp: clean_def)
  ultimately show ?thesis using c sk by (simp add: gettoken_def Let_def skip_space_stay)
qed

section \<open>Reading a simple command\<close>

text \<open>The text of a command ends at the end of the line or at a bracket.\<close>

definition ends :: "string \<Rightarrow> bool" where
  "ends xs \<longleftrightarrow> (case xs of [] \<Rightarrow> True | x # _ \<Rightarrow> x = CHR '')'')"

lemma ends_char:
  assumes "ends xs" "b = pre @ xs"
  shows "char_at b (length pre) \<in> {NUL, CHR '')''}" "char_at b (length pre) \<notin> set whitespace"
  using assms by (auto simp: ends_def whitespace_def split: list.splits)

lemma peek_ends:
  assumes "ends xs" "b = pre @ xs" "CHR '')'' \<notin> set toks"
  shows "peek b es (length pre) toks = (False, length pre)"
  using ends_char [OF assms(1,2)] assms(3) peek_here [of b "length pre" es toks] by auto

lemma ends_no_space: "ends xs \<Longrightarrow> no_space xs"
  by (auto simp: ends_def no_space_def whitespace_def split: list.splits)

lemma peek_clean:
  assumes "clean c" "b = pre @ c # xs" "set toks \<subseteq> set symbols"
  shows "peek b es (length pre) toks = (False, length pre)"
proof -
  have "char_at b (length pre) = c" "c \<notin> set whitespace" "c \<notin> set toks" using assms by (auto simp: clean_def)
  then show ?thesis using peek_here [of b "length pre" es toks] by simp
qed

lemma words_no_space:
  assumes "\<forall>w \<in> set ws. clean_word w" "no_space rest"
  shows "no_space (concat (map (\<lambda>w. w @ '' '') ws) @ rest)"
proof (cases ws)
  case (Cons w ws')
  then obtain x w' where "w = x # w'" "clean x" using assms(1) by (cases w) (auto simp: clean_word_def)
  then show ?thesis using Cons by (simp add: no_space_def clean_def)
qed (use assms(2) in simp)

lemma no_redirs:
  assumes "b = pre @ concat (map (\<lambda>w. w @ '' '') ws) @ rest" "\<forall>w \<in> set ws. clean_word w" "ends rest" "0 < k"
  shows "parseredirs k b es c (length pre) = Ok (c, length pre)"
proof -
  have "peek b es (length pre) ''<>'' = (False, length pre)"
  proof (cases ws)
    case Nil
    then show ?thesis using assms by (intro peek_ends [of rest]) auto
  next
    case (Cons w ws')
    then obtain x w' where "w = x # w'" "clean x" using assms(2) by (cases w) (auto simp: clean_word_def)
    then show ?thesis using assms(1) Cons by (intro peek_clean [of x]) (auto simp: symbols_def)
  qed
  then show ?thesis using assms(4) by (cases k) auto
qed

lemma exec_words:
  assumes "b = pre @ concat (map (\<lambda>w. w @ '' '') ws) @ rest" "\<forall>w \<in> set ws. clean_word w" "ends rest" "length b = es"
    and "length as + length ws < MAXARGS" "length ws < k"
  shows "\<exists>as'. exec_args k b es (length as) (EXEC as) (length pre) =
    Ok (EXEC (as @ as'), length pre + length (concat (map (\<lambda>w. w @ '' '') ws))) \<and> map (text_of b) as' = ws"
  using assms
proof (induction ws arbitrary: pre as k)
  case Nil
  then obtain k' where k: "k = Suc k'" by (cases k) auto
  have c: "char_at b (length pre) = NUL \<or> char_at b (length pre) = CHR '')''" "char_at b (length pre) \<notin> set whitespace"
    using ends_char [OF Nil(3), of b pre] Nil(1) by auto
  then have "peek b es (length pre) ''|)&;'' = (char_at b (length pre) = CHR '')'', length pre)"
    using peek_here [of b "length pre" es "''|)&;''"] by auto
  moreover have "gettoken b es (length pre) = (NUL, length pre, length pre, length pre)" if "char_at b (length pre) = NUL"
    using that c(2) by (simp add: gettoken_def Let_def skip_space_stay)
  ultimately show ?case using c(1) k by auto
next
  case (Cons w ws)
  obtain k' where k: "k = Suc k'" "length ws < k'" using Cons.prems(6) by (cases k) auto
  let ?xs = "concat (map (\<lambda>w. w @ '' '') ws) @ rest" and ?p = "(length pre, length pre + length w)"
  have b: "b = pre @ w @ CHR '' '' # ?xs" "b = (pre @ w @ '' '') @ ?xs" using Cons.prems(1) by simp_all
  have w: "clean_word w" "\<forall>w \<in> set ws. clean_word w" using Cons.prems(2) by auto
  obtain x w' where x: "w = x # w'" "clean x" using w by (cases w) (auto simp: clean_word_def)
  have "peek b es (length pre) ''|)&;'' = (False, length pre)" using b(1) x by (intro peek_clean [of x]) (auto simp: symbols_def)
  moreover have "gettoken b es (length pre) = (CHR ''a'', length pre, length pre + length w, Suc (length pre + length w))"
    using words_no_space [OF w(2) ends_no_space [OF Cons.prems(3)]] by (intro gettoken_word [OF b(1) w(1) Cons.prems(4)])
  moreover have "parseredirs k' b es (EXEC (as @ [?p])) (length (pre @ w @ '' '')) = Ok (EXEC (as @ [?p]), length (pre @ w @ '' ''))"
    using b(2) w(2) Cons.prems(3) k by (intro no_redirs) auto
  moreover obtain as' where "exec_args k' b es (length (as @ [?p])) (EXEC (as @ [?p])) (length (pre @ w @ '' '')) =
      Ok (EXEC ((as @ [?p]) @ as'), length (pre @ w @ '' '') + length (concat (map (\<lambda>w. w @ '' '') ws)))" "map (text_of b) as' = ws"
    using Cons.IH [of "pre @ w @ '' ''" "as @ [?p]" k'] b(2) w(2) Cons.prems(3-5) k(2) by auto
  moreover have "text_of b ?p = w" using b(1) by (simp add: text_of_def)
  ultimately show ?case using k(1) Cons.prems(5) by (intro exI [of _ "?p # as'"]) simp
qed

section \<open>Reading brackets, redirections and signs\<close>

lemma peek_sign:
  assumes "b = pre @ c # xs" "c \<in> set symbols"
  shows "peek b es (length pre) toks = (c \<in> set toks, length pre)"
  using peek_here [of b "length pre" es toks] symbol_not_space [OF assms(2)] assms(1) by simp

lemma redirs_stop: "peek b es p ''<>'' = (False, p) \<Longrightarrow> 0 < k \<Longrightarrow> parseredirs k b es c p = Ok (c, p)"
  by (cases k) auto

lemma pipe_stop: "parseexec k b es p = Ok (c, q) \<Longrightarrow> peek b es q ''|'' = (False, q) \<Longrightarrow> parsepipe (Suc k) b es p = Ok (c, q)"
  by simp

lemma back_stop: "peek b es q ''&'' = (False, q) \<Longrightarrow> 0 < k \<Longrightarrow> back_loop k b es c q = Ok (c, q)"
  by (cases k) auto

lemma line_stop:
  assumes "parsepipe k b es p = Ok (c, length q)" "b = q @ rest" "ends rest" "0 < k"
  shows "parseline (Suc k) b es p = Ok (c, length q)"
  using assms back_stop [OF peek_ends [OF assms(3,2)]] peek_ends [OF assms(3,2), of "'';''"] by simp

lemma block_reads:
  assumes b: "b = pre @ ''('' @ x @ '')'' @ rest" and x: "no_space (x @ '')'' @ rest)" and rest: "no_space rest"
    and l: "parseline k b es (length (pre @ ''('')) = Ok (c, length (pre @ ''('' @ x))"
  shows "parseexec (Suc (Suc k)) b es (length pre) = parseredirs k b es c (length (pre @ ''('' @ x @ '')''))"
proof -
  have p: "peek b es (length pre) ''('' = (True, length pre)" using peek_sign [of b pre "CHR ''(''"] b by (simp add: symbols_def)
  have g: "gettoken b es (length pre) = (CHR ''('', length pre, Suc (length pre), Suc (length pre))"
    using b x by (intro gettoken_sign [of b pre _ "x @ '')'' @ rest"]) auto
  have b': "b = (pre @ ''('' @ x) @ CHR '')'' # rest" using b by simp
  have p': "peek b es (length (pre @ ''('' @ x)) '')'' = (True, length (pre @ ''('' @ x))"
    using peek_sign [OF b', of es "'')''"] by (simp add: symbols_def)
  have g': "gettoken b es (length (pre @ ''('' @ x)) =
      (CHR '')'', length (pre @ ''('' @ x), Suc (length (pre @ ''('' @ x)), Suc (length (pre @ ''('' @ x)))"
    using rest by (intro gettoken_sign [OF b']) auto
  show ?thesis using p g p' g' l by simp
qed

lemma written_no_space: "acmd_ok a \<Longrightarrow> no_space rest \<Longrightarrow> no_space (written a @ rest)"
  using words_no_space by (cases a) (auto simp: no_space_def whitespace_def)

lemma gettoken_redir:
  assumes b: "b = pre @ sign m @ x # xs" and x: "clean x"
  shows "\<exists>q e. gettoken b es (length pre) =
    (if m = 0 then CHR ''<'' else if m = 0x601 then CHR ''>'' else CHR ''+'', q, e, length (pre @ sign m))"
proof -
  have xw: "x \<notin> set whitespace" "x \<noteq> CHR ''>''" using x by (auto simp: clean_def symbols_def)
  have at: "char_at b (length (pre @ sign m)) = x" using char_at_here [of "pre @ sign m" "x # xs"] b by simp
  have ws: "CHR ''>'' \<notin> set whitespace" by (simp add: whitespace_def)
  consider "m = 0" | "m = 0x601" | "m \<noteq> 0" "m \<noteq> 0x601" by blast
  then show ?thesis
  proof cases
    case 1
    then have "gettoken b es (length pre) = (CHR ''<'', length pre, Suc (length pre), Suc (length pre))"
      using b xw by (intro gettoken_sign [of b pre _ "x # xs"]) (auto simp: sign_def no_space_def)
    then show ?thesis using 1 by (simp add: sign_def)
  next
    case 2
    then have "char_at b (length pre) = CHR ''>''" "char_at b (Suc (length pre)) = x" using b at by (auto simp: sign_def)
    then show ?thesis using 2 xw ws by (simp add: gettoken_def Let_def skip_space_stay sign_def)
  next
    case 3
    have "char_at b (length pre) = CHR ''>''" "char_at b (Suc (length pre)) = CHR ''>''"
      using b 3 char_at_here [of "pre @ ''>''" "CHR ''>'' # x # xs"] by (auto simp: sign_def)
    moreover have "char_at b (Suc (Suc (length pre))) = x" using at 3 by (simp add: sign_def)
    ultimately show ?thesis using 3 xw ws by (simp add: gettoken_def Let_def skip_space_stay sign_def)
  qed
qed

lemma redir_reads:
  assumes b: "b = pre @ sign m @ f @ '' '' @ rest" and f: "clean_word f" and rest: "ends rest" and es: "length b = es"
    and m: "(m, fd) \<in> {(0, 0), (0x601, 1), (0x201, 1)}" and k: "1 < k"
  shows "\<exists>a. parseredirs k b es c (length pre) = Ok (REDIR c a m fd, length (pre @ sign m @ f @ '' '')) \<and> text_of b a = f"
proof -
  obtain x f' where x: "f = x # f'" "clean x" using f by (cases f) (auto simp: clean_word_def)
  let ?tok = "if m = 0 then CHR ''<'' else if m = 0x601 then CHR ''>'' else CHR ''+''"
  let ?a = "(length (pre @ sign m), length (pre @ sign m) + length f)"
  have p: "peek b es (length pre) ''<>'' = (True, length pre)"
    using peek_here [of b "length pre" es "''<>''"] b by (auto simp: sign_def whitespace_def)
  have "b = pre @ sign m @ x # (f' @ '' '' @ rest)" using b x(1) by simp
  from gettoken_redir [OF this x(2), of es] obtain q e where g: "gettoken b es (length pre) = (?tok, q, e, length (pre @ sign m))" by blast
  have b': "b = (pre @ sign m) @ f @ CHR '' '' # rest" using b by simp
  have w: "gettoken b es (length (pre @ sign m)) = (CHR ''a'', fst ?a, snd ?a, Suc (snd ?a))"
    using gettoken_word [OF b' f es ends_no_space [OF rest]] by simp
  obtain k' where k': "k = Suc k'" "0 < k'" using k by (cases k) auto
  have "parseredirs k' b es (REDIR c ?a m fd) (length (pre @ sign m @ f @ '' '')) = Ok (REDIR c ?a m fd, length (pre @ sign m @ f @ '' ''))"
    using rest b k'(2) by (intro redirs_stop peek_ends [of rest]) auto
  moreover have "text_of b ?a = f" using b' by (simp add: text_of_def)
  moreover have "parseredirs k b es c (length pre) = parseredirs k' b es (REDIR c ?a m fd) (length (pre @ sign m @ f @ '' ''))"
    using p g w k'(1) m by (auto simp: add.assoc)
  ultimately show ?thesis by (intro exI [of _ ?a]) simp
qed

section \<open>Reading back a command\<close>

text \<open>The parser reads \<open>a\<close> wherever its text stands in the line \<open>b\<close>.\<close>

definition reads :: "string \<Rightarrow> acmd \<Rightarrow> bool" where
  "reads b a \<longleftrightarrow> (\<forall>pre rest k. b = pre @ written a @ rest \<longrightarrow> ends rest \<longrightarrow> 4 * (length b - length pre) + 4 \<le> k \<longrightarrow>
     (\<exists>c. parseline k b (length b) (length pre) = Ok (c, length (pre @ written a)) \<and> denoted b c = a))"

lemma exec_block:
  assumes r: "reads b a" and a: "acmd_ok a" and b: "b = pre @ ''('' @ written a @ '')'' @ rest" and rest: "no_space rest"
    and k: "4 * (length b - length pre) \<le> k"
  shows "\<exists>c. denoted b c = a \<and> parseexec (Suc (Suc k)) b (length b) (length pre) =
    parseredirs k b (length b) c (length (pre @ ''('' @ written a @ '')''))"
proof -
  have "b = (pre @ ''('') @ written a @ ('')'' @ rest)" "ends ('')'' @ rest)" using b by (simp_all add: ends_def)
  moreover have "4 * (length b - length (pre @ ''('')) + 4 \<le> k" using k b by simp
  ultimately obtain c where c: "parseline k b (length b) (length (pre @ ''('')) = Ok (c, length ((pre @ ''('') @ written a))" "denoted b c = a"
    using r unfolding reads_def by blast
  have "no_space (written a @ '')'' @ rest)" using a by (intro written_no_space) (auto simp: no_space_def whitespace_def)
  from block_reads [OF b this rest] c show ?thesis by auto
qed

text \<open>A block that no redirection follows.\<close>

lemma exec_block_stop:
  assumes r: "reads b a" and a: "acmd_ok a" and b: "b = pre @ ''('' @ written a @ '')'' @ rest"
    and rest: "rest = [] \<or> hd rest \<in> set ''|&;)''" and k: "4 * (length b - length pre) \<le> k"
  shows "\<exists>c. denoted b c = a \<and> parseexec (Suc (Suc k)) b (length b) (length pre) = Ok (c, length (pre @ ''('' @ written a @ '')''))"
proof -
  let ?p = "length (pre @ ''('' @ written a @ '')'')"
  have "no_space rest" using rest by (cases rest) (auto simp: no_space_def whitespace_def)
  from exec_block [OF r a b this k] obtain c where c: "denoted b c = a"
    "parseexec (Suc (Suc k)) b (length b) (length pre) = parseredirs k b (length b) c ?p" by blast
  have b': "b = (pre @ ''('' @ written a @ '')'') @ rest" using b by simp
  have "char_at b ?p \<notin> set whitespace" using no_space_char [OF \<open>no_space rest\<close>] b' by metis
  moreover have "char_at b ?p \<in> {NUL, CHR ''|'', CHR ''&'', CHR '';'', CHR '')''}"
    using char_at_here [of "pre @ ''('' @ written a @ '')''" rest] rest b' by (cases rest) auto
  ultimately have "peek b (length b) ?p ''<>'' = (False, ?p)" using peek_here [of b ?p "length b" "''<>''"] by auto
  moreover have "0 < k" using k b by simp
  ultimately show ?thesis using c redirs_stop by auto
qed

lemma written_fuel: "4 * (es - n) + 4 \<le> k \<Longrightarrow> \<exists>k'. k = Suc (Suc (Suc (Suc k'))) \<and> 4 * (es - n) \<le> k'"
  by (rule exI [of _ "k - 4"]) arith

lemma reads_exec:
  assumes ok: "length ws < MAXARGS" "\<forall>w \<in> set ws. clean_word w"
  shows "reads b (AExec ws)"
  unfolding reads_def
proof (intro allI impI)
  fix pre rest k
  let ?es = "length b" and ?t = "concat (map (\<lambda>w. w @ '' '') ws)"
  assume b: "b = pre @ written (AExec ws) @ rest" and rest: "ends rest" and k: "4 * (?es - length pre) + 4 \<le> k"
  obtain k' where k': "k = Suc (Suc (Suc (Suc k')))" "4 * (?es - length pre) \<le> k'" using written_fuel [OF k] by blast
  have b': "b = pre @ ?t @ rest" using b by simp
  have "length ws \<le> length ?t" by (induction ws) auto
  then have lw: "length ws < Suc k'" using k'(2) b' by simp
  have "peek b ?es (length pre) ''('' = (False, length pre)"
  proof (cases ws)
    case Nil
    then show ?thesis using b' rest by (intro peek_ends [of rest]) auto
  next
    case (Cons w ws')
    then obtain x w' where "w = x # w'" "clean x" using ok(2) by (cases w) (auto simp: clean_word_def)
    then show ?thesis using b' Cons by (intro peek_clean [of x]) (auto simp: symbols_def)
  qed
  moreover have "parseredirs (Suc k') b ?es (EXEC []) (length pre) = Ok (EXEC [], length pre)"
    using b' ok(2) rest by (intro no_redirs) auto
  moreover obtain as where as: "exec_args (Suc k') b ?es 0 (EXEC []) (length pre) = Ok (EXEC as, length (pre @ ?t))" "map (text_of b) as = ws"
    using exec_words [OF b' ok(2) rest refl, of "[]" "Suc k'"] ok(1) lw by auto
  ultimately have e: "parseexec (Suc (Suc k')) b ?es (length pre) = Ok (EXEC as, length (pre @ ?t))" by simp
  have tail: "b = (pre @ ?t) @ rest" using b' by simp
  have "parsepipe (Suc (Suc (Suc k'))) b ?es (length pre) = Ok (EXEC as, length (pre @ ?t))"
    using peek_ends [OF rest tail] by (intro pipe_stop [OF e]) simp
  from line_stop [OF this tail rest] as(2) k'(1)
  show "\<exists>c. parseline k b ?es (length pre) = Ok (c, length (pre @ written (AExec ws))) \<and> denoted b c = AExec ws"
    by (intro exI [of _ "EXEC as"]) simp
qed

lemma reads_redir:
  assumes r: "reads b a" and a: "acmd_ok a" and f: "clean_word f" and m: "(m, fd) \<in> {(0, 0), (0x601, 1), (0x201, 1)}"
  shows "reads b (ARedir a f m fd)"
  unfolding reads_def
proof (intro allI impI)
  fix pre rest k
  let ?es = "length b" and ?q = "pre @ ''('' @ written a @ '')''" let ?t = "?q @ sign m @ f @ '' ''"
  assume "b = pre @ written (ARedir a f m fd) @ rest" and rest: "ends rest" and k: "4 * (?es - length pre) + 4 \<le> k"
  then have b: "b = pre @ ''('' @ written a @ '')'' @ (sign m @ f @ '' '' @ rest)" "b = ?q @ sign m @ f @ '' '' @ rest" "b = ?t @ rest"
    by simp_all
  obtain k' where k': "k = Suc (Suc (Suc (Suc k')))" "4 * (?es - length pre) \<le> k'" using written_fuel [OF k] by blast
  have "no_space (sign m @ f @ '' '' @ rest)" by (simp add: sign_def no_space_def whitespace_def)
  from exec_block [OF r a b(1) this k'(2)] obtain c where c: "denoted b c = a"
    "parseexec (Suc (Suc k')) b ?es (length pre) = parseredirs k' b ?es c (length ?q)" by blast
  have "1 < k'" using k'(2) b(1) by simp
  from redir_reads [OF b(2) f rest refl m this, of c] obtain x where x:
    "parseredirs k' b ?es c (length ?q) = Ok (REDIR c x m fd, length ?t)" "text_of b x = f" by auto
  have "parsepipe (Suc (Suc (Suc k'))) b ?es (length pre) = Ok (REDIR c x m fd, length ?t)"
    using c(2) x(1) peek_ends [OF rest b(3)] by (intro pipe_stop) auto
  from line_stop [OF this b(3) rest] c(1) x(2) k'(1)
  show "\<exists>c. parseline k b ?es (length pre) = Ok (c, length (pre @ written (ARedir a f m fd))) \<and> denoted b c = ARedir a f m fd"
    by (intro exI [of _ "REDIR c x m fd"]) simp
qed

text \<open>What stands after the sign between two blocks.\<close>

lemma second_block:
  assumes r: "reads b c" and c: "acmd_ok c" and b: "b = q @ ''('' @ written c @ '')'' @ rest" and rest: "ends rest"
    and k: "4 * (length b - length q) + 2 \<le> k"
  shows "\<exists>d. denoted b d = c \<and> parsepipe (Suc k) b (length b) (length q) = Ok (d, length (q @ ''('' @ written c @ '')'')) \<and>
    parseline (Suc (Suc k)) b (length b) (length q) = Ok (d, length (q @ ''('' @ written c @ '')''))"
proof -
  let ?t = "q @ ''('' @ written c @ '')''"
  have "k = Suc (Suc (k - 2))" "4 * (length b - length q) \<le> k - 2" using k by arith+
  then obtain k' where k': "k = Suc (Suc k')" "4 * (length b - length q) \<le> k'" by blast
  have "rest = [] \<or> hd rest \<in> set ''|&;)''" using rest by (cases rest) (auto simp: ends_def)
  from exec_block_stop [OF r c b this k'(2)] obtain d where d: "denoted b d = c" "parseexec k b (length b) (length q) = Ok (d, length ?t)"
    using k'(1) by auto
  have t: "b = ?t @ rest" using b by simp
  have p: "parsepipe (Suc k) b (length b) (length q) = Ok (d, length ?t)" using peek_ends [OF rest t] by (intro pipe_stop [OF d(2)]) simp
  then show ?thesis using line_stop [OF p t rest] d(1) by blast
qed

lemma reads_pipe:
  assumes "reads b a" "reads b c" "acmd_ok a" "acmd_ok c"
  shows "reads b (APipe a c)"
  unfolding reads_def
proof (intro allI impI)
  fix pre rest k
  let ?es = "length b" and ?q = "pre @ ''('' @ written a @ '')''" let ?r = "?q @ ''|''" let ?t = "?r @ ''('' @ written c @ '')''"
  assume "b = pre @ written (APipe a c) @ rest" and rest: "ends rest" and k: "4 * (?es - length pre) + 4 \<le> k"
  then have b: "b = pre @ ''('' @ written a @ '')'' @ (''|('' @ written c @ '')'' @ rest)" "b = ?q @ CHR ''|'' # (''('' @ written c @ '')'' @ rest)"
    "b = ?r @ ''('' @ written c @ '')'' @ rest" "b = ?t @ rest" by simp_all
  obtain k' where k': "k = Suc (Suc (Suc (Suc k')))" "4 * (?es - length pre) \<le> k'" using written_fuel [OF k] by blast
  obtain d where d: "denoted b d = a" "parseexec (Suc (Suc k')) b ?es (length pre) = Ok (d, length ?q)"
    using exec_block_stop [OF assms(1,3) b(1) _ k'(2)] by auto
  have "4 * (?es - length ?r) + 2 \<le> Suc k'" using k'(2) b(3) by simp
  from second_block [OF assms(2,4) b(3) rest this] obtain e where e: "denoted b e = c"
    "parsepipe (Suc (Suc k')) b ?es (length ?r) = Ok (e, length ?t)" by blast
  have "peek b ?es (length ?q) ''|'' = (True, length ?q)" using peek_sign [OF b(2)] by (simp add: symbols_def)
  moreover have "gettoken b ?es (length ?q) = (CHR ''|'', length ?q, Suc (length ?q), length ?r)"
    using gettoken_sign [OF b(2)] by (simp add: no_space_def whitespace_def)
  ultimately have "parsepipe (Suc (Suc (Suc k'))) b ?es (length pre) = Ok (PIPE d e, length ?t)" using d(2) e(2) by simp
  from line_stop [OF this b(4) rest] d(1) e(1) k'(1)
  show "\<exists>x. parseline k b ?es (length pre) = Ok (x, length (pre @ written (APipe a c))) \<and> denoted b x = APipe a c"
    by (intro exI [of _ "PIPE d e"]) simp
qed

lemma reads_list:
  assumes "reads b a" "reads b c" "acmd_ok a" "acmd_ok c"
  shows "reads b (AList a c)"
  unfolding reads_def
proof (intro allI impI)
  fix pre rest k
  let ?es = "length b" and ?q = "pre @ ''('' @ written a @ '')''" let ?r = "?q @ '';''" let ?t = "?r @ ''('' @ written c @ '')''"
  assume "b = pre @ written (AList a c) @ rest" and rest: "ends rest" and k: "4 * (?es - length pre) + 4 \<le> k"
  then have b: "b = pre @ ''('' @ written a @ '')'' @ ('';('' @ written c @ '')'' @ rest)" "b = ?q @ CHR '';'' # (''('' @ written c @ '')'' @ rest)"
    "b = ?r @ ''('' @ written c @ '')'' @ rest" by simp_all
  obtain k' where k': "k = Suc (Suc (Suc (Suc k')))" "4 * (?es - length pre) \<le> k'" using written_fuel [OF k] by blast
  obtain d where d: "denoted b d = a" "parseexec (Suc (Suc k')) b ?es (length pre) = Ok (d, length ?q)"
    using exec_block_stop [OF assms(1,3) b(1) _ k'(2)] by auto
  have "4 * (?es - length ?r) + 2 \<le> Suc k'" using k'(2) b(3) by simp
  from second_block [OF assms(2,4) b(3) rest this] obtain e where e: "denoted b e = c"
    "parseline (Suc (Suc (Suc k'))) b ?es (length ?r) = Ok (e, length ?t)" by blast
  note pk = peek_sign [OF b(2), of ?es]
  have "parsepipe (Suc (Suc (Suc k'))) b ?es (length pre) = Ok (d, length ?q)" using pk by (intro pipe_stop [OF d(2)]) (simp add: symbols_def)
  moreover have "back_loop (Suc (Suc (Suc k'))) b ?es d (length ?q) = Ok (d, length ?q)" using pk by (intro back_stop) (simp_all add: symbols_def)
  moreover have "peek b ?es (length ?q) '';'' = (True, length ?q)" using pk by (simp add: symbols_def)
  moreover have "gettoken b ?es (length ?q) = (CHR '';'', length ?q, Suc (length ?q), length ?r)"
    using gettoken_sign [OF b(2)] by (simp add: no_space_def whitespace_def)
  ultimately have "parseline k b ?es (length pre) = Ok (LIST d e, length ?t)" using e(2) k'(1) by (simp del: back_loop.simps parsepipe.simps)
  then show "\<exists>x. parseline k b ?es (length pre) = Ok (x, length (pre @ written (AList a c))) \<and> denoted b x = AList a c"
    using d(1) e(1) by (intro exI [of _ "LIST d e"]) simp
qed

lemma reads_back:
  assumes "reads b a" "acmd_ok a"
  shows "reads b (ABack a)"
  unfolding reads_def
proof (intro allI impI)
  fix pre rest k
  let ?es = "length b" and ?q = "pre @ ''('' @ written a @ '')''" let ?t = "?q @ ''&''"
  assume "b = pre @ written (ABack a) @ rest" and rest: "ends rest" and k: "4 * (?es - length pre) + 4 \<le> k"
  then have b: "b = pre @ ''('' @ written a @ '')'' @ (''&'' @ rest)" "b = ?q @ CHR ''&'' # rest" "b = ?t @ rest" by simp_all
  obtain k' where k': "k = Suc (Suc (Suc (Suc k')))" "4 * (?es - length pre) \<le> k'" using written_fuel [OF k] by blast
  obtain d where d: "denoted b d = a" "parseexec (Suc (Suc k')) b ?es (length pre) = Ok (d, length ?q)"
    using exec_block_stop [OF assms b(1) _ k'(2)] by auto
  note pk = peek_sign [OF b(2), of ?es]
  have "parsepipe (Suc (Suc (Suc k'))) b ?es (length pre) = Ok (d, length ?q)" using pk by (intro pipe_stop [OF d(2)]) (simp add: symbols_def)
  moreover have "gettoken b ?es (length ?q) = (CHR ''&'', length ?q, Suc (length ?q), length ?t)"
    using gettoken_sign [OF b(2)] ends_no_space [OF rest] by simp
  then have "back_loop (Suc (Suc (Suc k'))) b ?es d (length ?q) = back_loop (Suc (Suc k')) b ?es (BACK d) (length ?t)"
    using pk [of "''&''"] by (simp add: symbols_def)
  moreover have "\<dots> = Ok (BACK d, length ?t)" using peek_ends [OF rest b(3)] by (intro back_stop) simp_all
  moreover have "peek b ?es (length ?t) '';'' = (False, length ?t)" using peek_ends [OF rest b(3)] by simp
  ultimately have "parseline k b ?es (length pre) = Ok (BACK d, length ?t)" using k'(1) by (simp del: back_loop.simps parsepipe.simps)
  then show "\<exists>x. parseline k b ?es (length pre) = Ok (x, length (pre @ written (ABack a))) \<and> denoted b x = ABack a"
    using d(1) by (intro exI [of _ "BACK d"]) simp
qed

lemma reads_written: "acmd_ok a \<Longrightarrow> reads b a"
  by (induction a) (auto intro: reads_exec reads_redir reads_pipe reads_list reads_back)

lemma written_no_nul: "acmd_ok a \<Longrightarrow> NUL \<notin> set (written a)"
  by (induction a) (auto simp: clean_word_def sign_def)

text \<open>
  Property C36. The parser reads back what is written: for every command made of simple commands, redirections, pipes,
  lists and commands in the background, in any nesting, with words of clean bytes and at most nine of them in a simple
  command, \<^verbatim>\<open>parsecmd\<close> of its text succeeds, and the result is that command with those words.
\<close>

theorem parsecmd_reads_back:
  assumes "acmd_ok a"
  shows "\<exists>c b'. parsecmd (written a) = Ok (c, b') \<and> denoted (written a) c = a"
proof -
  let ?b = "written a"
  have es: "line_end ?b = length ?b" unfolding line_end_def
    using written_no_nul [OF assms] by (subst takeWhile_eq_all_conv [THEN iffD2]) auto
  have "?b = [] @ written a @ []" "ends []" by (simp_all add: ends_def)
  then obtain c where c: "parseline (4 * length ?b + 4) ?b (length ?b) 0 = Ok (c, length ?b)" "denoted ?b c = a"
    using reads_written [OF assms, of ?b] unfolding reads_def by fastforce
  have "peek ?b (length ?b) (length ?b) '''' = (False, length ?b)" using peek_ends [of "[]" ?b ?b] by (simp add: ends_def)
  then show ?thesis using c by (simp add: parsecmd_def es)
qed

theorem parsecmd_reads_back_witness:
  "\<exists>c b'. parsecmd ''((cat a )|(wc ))>out '' = Ok (c, b') \<and>
    denoted ''((cat a )|(wc ))>out '' c = ARedir (APipe (AExec [''cat'', ''a'']) (AExec [''wc''])) ''out'' 0x601 1"
proof -
  let ?a = "ARedir (APipe (AExec [''cat'', ''a'']) (AExec [''wc''])) ''out'' 0x601 1"
  have "acmd_ok ?a" by (simp add: clean_word_def clean_def whitespace_def symbols_def)
  from parsecmd_reads_back [OF this] show ?thesis by (simp add: sign_def)
qed

end
