(* ===== verification/Assembly.thy ===== *)
theory Assembly
  imports Sysarg
begin

text \<open>
  The assembly code of the kernel: \<^verbatim>\<open>entry.S\<close>, \<^verbatim>\<open>swtch.S\<close>, \<^verbatim>\<open>kernelvec.S\<close> and \<^verbatim>\<open>trampoline.S\<close>, as lists of
  instructions, with the instructions they use executed on the registers and the memory of a hart. A piece
  of code ends at the jump that leaves it. The lemmas show that a trap gives back to the user program
  or to the interrupted kernel code the registers it had, and what a context switch saves and loads.
\<close>

unbundle bit_operations_syntax

section \<open>The machine\<close>

text \<open>A register is given by its number.\<close>

abbreviation (input) X_ra :: nat where "X_ra \<equiv> 1"
abbreviation (input) X_sp :: nat where "X_sp \<equiv> 2"
abbreviation (input) X_gp :: nat where "X_gp \<equiv> 3"
abbreviation (input) X_tp :: nat where "X_tp \<equiv> 4"
abbreviation (input) X_t0 :: nat where "X_t0 \<equiv> 5"
abbreviation (input) X_t1 :: nat where "X_t1 \<equiv> 6"
abbreviation (input) X_t2 :: nat where "X_t2 \<equiv> 7"
abbreviation (input) X_s0 :: nat where "X_s0 \<equiv> 8"
abbreviation (input) X_s1 :: nat where "X_s1 \<equiv> 9"
abbreviation (input) X_a0 :: nat where "X_a0 \<equiv> 10"
abbreviation (input) X_a1 :: nat where "X_a1 \<equiv> 11"
abbreviation (input) X_a2 :: nat where "X_a2 \<equiv> 12"
abbreviation (input) X_a3 :: nat where "X_a3 \<equiv> 13"
abbreviation (input) X_a4 :: nat where "X_a4 \<equiv> 14"
abbreviation (input) X_a5 :: nat where "X_a5 \<equiv> 15"
abbreviation (input) X_a6 :: nat where "X_a6 \<equiv> 16"
abbreviation (input) X_a7 :: nat where "X_a7 \<equiv> 17"
abbreviation (input) X_s2 :: nat where "X_s2 \<equiv> 18"
abbreviation (input) X_s3 :: nat where "X_s3 \<equiv> 19"
abbreviation (input) X_s4 :: nat where "X_s4 \<equiv> 20"
abbreviation (input) X_s5 :: nat where "X_s5 \<equiv> 21"
abbreviation (input) X_s6 :: nat where "X_s6 \<equiv> 22"
abbreviation (input) X_s7 :: nat where "X_s7 \<equiv> 23"
abbreviation (input) X_s8 :: nat where "X_s8 \<equiv> 24"
abbreviation (input) X_s9 :: nat where "X_s9 \<equiv> 25"
abbreviation (input) X_s10 :: nat where "X_s10 \<equiv> 26"
abbreviation (input) X_s11 :: nat where "X_s11 \<equiv> 27"
abbreviation (input) X_t3 :: nat where "X_t3 \<equiv> 28"
abbreviation (input) X_t4 :: nat where "X_t4 \<equiv> 29"
abbreviation (input) X_t5 :: nat where "X_t5 \<equiv> 30"
abbreviation (input) X_t6 :: nat where "X_t6 \<equiv> 31"

datatype csr_name =
    MHARTID | MSTATUS | MEPC | MSCRATCH | MTVEC | MIE | MEDELEG | MIDELEG | PMPADDR0 | PMPCFG0
  | SSCRATCH | SEPC | SATP | SIP | SIE

datatype instr =
    Sd nat uint64 nat
  | Ld nat uint64 nat
  | Addi nat nat uint64
  | Add nat nat nat
  | Mul nat nat nat
  | Li nat uint64
  | La nat uint64
  | Csrr nat csr_name
  | Csrw csr_name nat
  | Csrrw nat csr_name nat
  | Sfence_vma
  | Call uint64
  | Jr nat
  | Ret
  | Sret
  | Mret

text \<open>
  \<open>mmu\<close> is the translation of addresses under a value of \<^verbatim>\<open>satp\<close>; machine mode does not translate. A call
  leaves the address after it, \<open>link\<close>, in \<^verbatim>\<open>ra\<close>. \<^verbatim>\<open>mret\<close> goes to the mode that \<^verbatim>\<open>mstatus\<close> names.
\<close>

record hart =
  gpr :: "nat \<Rightarrow> uint64"
  csrf :: "csr_name \<Rightarrow> uint64"
  ram :: memory
  mmu :: "uint64 \<Rightarrow> uint64 \<Rightarrow> uint64"
  mmode :: bool
  pc :: uint64
  link :: uint64

definition addr :: "hart \<Rightarrow> uint64 \<Rightarrow> uint64" where
  "addr s a = (if mmode s then a else mmu s (csrf s SATP) a)"

definition set_gpr :: "nat \<Rightarrow> uint64 \<Rightarrow> hart \<Rightarrow> hart" where
  "set_gpr r v s = s\<lparr>gpr := (gpr s)(r := v)\<rparr>"

definition set_csr :: "csr_name \<Rightarrow> uint64 \<Rightarrow> hart \<Rightarrow> hart" where
  "set_csr c v s = s\<lparr>csrf := (csrf s)(c := v)\<rparr>"

fun exec_instr :: "instr \<Rightarrow> hart \<Rightarrow> hart" where
  "exec_instr (Sd r off b) s = s\<lparr>ram := store64 (ram s) (addr s (gpr s b + off)) (gpr s r)\<rparr>"
| "exec_instr (Ld r off b) s = set_gpr r (load64 (ram s) (addr s (gpr s b + off))) s"
| "exec_instr (Addi r a i) s = set_gpr r (gpr s a + i) s"
| "exec_instr (Add r a b) s = set_gpr r (gpr s a + gpr s b) s"
| "exec_instr (Mul r a b) s = set_gpr r (gpr s a * gpr s b) s"
| "exec_instr (Li r i) s = set_gpr r i s"
| "exec_instr (La r a) s = set_gpr r a s"
| "exec_instr (Csrr r c) s = set_gpr r (csrf s c) s"
| "exec_instr (Csrw c r) s = set_csr c (gpr s r) s"
| "exec_instr (Csrrw r c a) s = set_gpr r (csrf s c) (set_csr c (gpr s a) s)"
| "exec_instr Sfence_vma s = s"
| "exec_instr (Call f) s = (set_gpr 1 (link s) s)\<lparr>pc := f\<rparr>"
| "exec_instr (Jr r) s = s\<lparr>pc := gpr s r\<rparr>"
| "exec_instr Ret s = s\<lparr>pc := gpr s 1\<rparr>"
| "exec_instr Sret s = s\<lparr>pc := csrf s SEPC\<rparr>"
| "exec_instr Mret s = s\<lparr>pc := csrf s MEPC, mmode := csrf s MSTATUS AND 0x1800 = 0x1800\<rparr>"

definition run :: "instr list \<Rightarrow> hart \<Rightarrow> hart" where
  "run prog s = fold exec_instr prog s"

section \<open>The code\<close>

definition entry :: "uint64 \<Rightarrow> uint64 \<Rightarrow> instr list" where
  "entry stack0 start_va =
     [La X_sp stack0, Li X_a0 (1024 * 4), Csrr X_a1 MHARTID, Addi X_a1 X_a1 1, Mul X_a0 X_a0 X_a1,
      Add X_sp X_sp X_a0, Call start_va]"

definition swtch :: "instr list" where
  "swtch =
     [Sd X_ra 0 X_a0, Sd X_sp 8 X_a0, Sd X_s0 16 X_a0, Sd X_s1 24 X_a0, Sd X_s2 32 X_a0, Sd X_s3 40 X_a0,
      Sd X_s4 48 X_a0, Sd X_s5 56 X_a0, Sd X_s6 64 X_a0, Sd X_s7 72 X_a0, Sd X_s8 80 X_a0, Sd X_s9 88 X_a0,
      Sd X_s10 96 X_a0, Sd X_s11 104 X_a0, Ld X_ra 0 X_a1, Ld X_sp 8 X_a1, Ld X_s0 16 X_a1, Ld X_s1 24 X_a1,
      Ld X_s2 32 X_a1, Ld X_s3 40 X_a1, Ld X_s4 48 X_a1, Ld X_s5 56 X_a1, Ld X_s6 64 X_a1, Ld X_s7 72 X_a1,
      Ld X_s8 80 X_a1, Ld X_s9 88 X_a1, Ld X_s10 96 X_a1, Ld X_s11 104 X_a1, Ret]"

text \<open>The two halves of \<^verbatim>\<open>kernelvec\<close>, before and after the call of \<^verbatim>\<open>kerneltrap\<close>.\<close>

definition kernelvec_save :: "uint64 \<Rightarrow> instr list" where
  "kernelvec_save kerneltrap_va =
     [Addi X_sp X_sp (- 256), Sd X_ra 0 X_sp, Sd X_sp 8 X_sp, Sd X_gp 16 X_sp, Sd X_tp 24 X_sp,
      Sd X_t0 32 X_sp, Sd X_t1 40 X_sp, Sd X_t2 48 X_sp, Sd X_s0 56 X_sp, Sd X_s1 64 X_sp, Sd X_a0 72 X_sp,
      Sd X_a1 80 X_sp, Sd X_a2 88 X_sp, Sd X_a3 96 X_sp, Sd X_a4 104 X_sp, Sd X_a5 112 X_sp, Sd X_a6 120 X_sp,
      Sd X_a7 128 X_sp, Sd X_s2 136 X_sp, Sd X_s3 144 X_sp, Sd X_s4 152 X_sp, Sd X_s5 160 X_sp,
      Sd X_s6 168 X_sp, Sd X_s7 176 X_sp, Sd X_s8 184 X_sp, Sd X_s9 192 X_sp, Sd X_s10 200 X_sp,
      Sd X_s11 208 X_sp, Sd X_t3 216 X_sp, Sd X_t4 224 X_sp, Sd X_t5 232 X_sp, Sd X_t6 240 X_sp,
      Call kerneltrap_va]"

definition kernelvec_restore :: "instr list" where
  "kernelvec_restore =
     [Ld X_ra 0 X_sp, Ld X_sp 8 X_sp, Ld X_gp 16 X_sp, Ld X_t0 32 X_sp, Ld X_t1 40 X_sp, Ld X_t2 48 X_sp,
      Ld X_s0 56 X_sp, Ld X_s1 64 X_sp, Ld X_a0 72 X_sp, Ld X_a1 80 X_sp, Ld X_a2 88 X_sp, Ld X_a3 96 X_sp,
      Ld X_a4 104 X_sp, Ld X_a5 112 X_sp, Ld X_a6 120 X_sp, Ld X_a7 128 X_sp, Ld X_s2 136 X_sp,
      Ld X_s3 144 X_sp, Ld X_s4 152 X_sp, Ld X_s5 160 X_sp, Ld X_s6 168 X_sp, Ld X_s7 176 X_sp,
      Ld X_s8 184 X_sp, Ld X_s9 192 X_sp, Ld X_s10 200 X_sp, Ld X_s11 208 X_sp, Ld X_t3 216 X_sp,
      Ld X_t4 224 X_sp, Ld X_t5 232 X_sp, Ld X_t6 240 X_sp, Addi X_sp X_sp 256, Sret]"

definition timervec :: "instr list" where
  "timervec =
     [Csrrw X_a0 MSCRATCH X_a0, Sd X_a1 0 X_a0, Sd X_a2 8 X_a0, Sd X_a3 16 X_a0, Ld X_a1 24 X_a0,
      Ld X_a2 32 X_a0, Ld X_a3 0 X_a1, Add X_a3 X_a3 X_a2, Sd X_a3 0 X_a1, Li X_a1 2, Csrw SIP X_a1,
      Ld X_a3 16 X_a0, Ld X_a2 8 X_a0, Ld X_a1 0 X_a0, Csrrw X_a0 MSCRATCH X_a0, Mret]"

definition uservec :: "instr list" where
  "uservec =
     [Csrrw X_a0 SSCRATCH X_a0, Sd X_ra 40 X_a0, Sd X_sp 48 X_a0, Sd X_gp 56 X_a0, Sd X_tp 64 X_a0,
      Sd X_t0 72 X_a0, Sd X_t1 80 X_a0, Sd X_t2 88 X_a0, Sd X_s0 96 X_a0, Sd X_s1 104 X_a0, Sd X_a1 120 X_a0,
      Sd X_a2 128 X_a0, Sd X_a3 136 X_a0, Sd X_a4 144 X_a0, Sd X_a5 152 X_a0, Sd X_a6 160 X_a0,
      Sd X_a7 168 X_a0, Sd X_s2 176 X_a0, Sd X_s3 184 X_a0, Sd X_s4 192 X_a0, Sd X_s5 200 X_a0,
      Sd X_s6 208 X_a0, Sd X_s7 216 X_a0, Sd X_s8 224 X_a0, Sd X_s9 232 X_a0, Sd X_s10 240 X_a0,
      Sd X_s11 248 X_a0, Sd X_t3 256 X_a0, Sd X_t4 264 X_a0, Sd X_t5 272 X_a0, Sd X_t6 280 X_a0,
      Csrr X_t0 SSCRATCH, Sd X_t0 112 X_a0, Ld X_sp 8 X_a0, Ld X_tp 32 X_a0, Ld X_t0 16 X_a0, Ld X_t1 0 X_a0,
      Csrw SATP X_t1, Sfence_vma, Jr X_t0]"

definition userret :: "instr list" where
  "userret =
     [Csrw SATP X_a1, Sfence_vma, Ld X_t0 112 X_a0, Csrw SSCRATCH X_t0, Ld X_ra 40 X_a0, Ld X_sp 48 X_a0,
      Ld X_gp 56 X_a0, Ld X_tp 64 X_a0, Ld X_t0 72 X_a0, Ld X_t1 80 X_a0, Ld X_t2 88 X_a0, Ld X_s0 96 X_a0,
      Ld X_s1 104 X_a0, Ld X_a1 120 X_a0, Ld X_a2 128 X_a0, Ld X_a3 136 X_a0, Ld X_a4 144 X_a0,
      Ld X_a5 152 X_a0, Ld X_a6 160 X_a0, Ld X_a7 168 X_a0, Ld X_s2 176 X_a0, Ld X_s3 184 X_a0,
      Ld X_s4 192 X_a0, Ld X_s5 200 X_a0, Ld X_s6 208 X_a0, Ld X_s7 216 X_a0, Ld X_s8 224 X_a0,
      Ld X_s9 232 X_a0, Ld X_s10 240 X_a0, Ld X_s11 248 X_a0, Ld X_t3 256 X_a0, Ld X_t4 264 X_a0,
      Ld X_t5 272 X_a0, Ld X_t6 280 X_a0, Csrrw X_a0 SSCRATCH X_a0, Sret]"

section \<open>Saving and loading many registers\<close>

lemma run_simps [simp]: "run [] s = s" "run (i # prog) s = run prog (exec_instr i s)" "run (p @ q) s = run q (run p s)"
  by (simp_all add: run_def)

lemma set_gpr_sel [simp]:
  "gpr (set_gpr r v s) = (gpr s)(r := v)" "csrf (set_gpr r v s) = csrf s" "ram (set_gpr r v s) = ram s"
  "addr (set_gpr r v s) = addr s" "mmu (set_gpr r v s) = mmu s" "mmode (set_gpr r v s) = mmode s"
  by (auto simp: set_gpr_def addr_def fun_eq_iff)

lemma set_csr_sel [simp]:
  "gpr (set_csr c v s) = gpr s" "csrf (set_csr c v s) = (csrf s)(c := v)" "ram (set_csr c v s) = ram s"
  "mmu (set_csr c v s) = mmu s" "mmode (set_csr c v s) = mmode s" "c \<noteq> SATP \<Longrightarrow> addr (set_csr c v s) = addr s"
  by (auto simp: set_csr_def addr_def fun_eq_iff)

lemma addr_upd [simp]: "addr (s\<lparr>ram := m\<rparr>) = addr s" "addr (s\<lparr>gpr := g\<rparr>) = addr s" "addr (s\<lparr>pc := p\<rparr>) = addr s"
  by (auto simp: addr_def fun_eq_iff)

definition saves :: "nat \<Rightarrow> (nat \<times> uint64) list \<Rightarrow> instr list" where
  "saves b xs = map (\<lambda>(r, off). Sd r off b) xs"

definition loads :: "nat \<Rightarrow> (nat \<times> uint64) list \<Rightarrow> instr list" where
  "loads b xs = map (\<lambda>(r, off). Ld r off b) xs"

text \<open>The memory after the registers \<open>g\<close> have been stored in the slots from \<open>a\<close> on.\<close>

definition saved :: "uint64 \<Rightarrow> (nat \<Rightarrow> uint64) \<Rightarrow> (nat \<times> uint64) list \<Rightarrow> memory \<Rightarrow> memory" where
  "saved a g xs m = fold (\<lambda>(r, off) m. store64 m (a + off) (g r)) xs m"

text \<open>The slots are words of a piece of memory that the code sees from \<open>v\<close> on and that is at \<open>a\<close>.\<close>

definition slots_at :: "hart \<Rightarrow> uint64 \<Rightarrow> uint64 \<Rightarrow> (nat \<times> uint64) list \<Rightarrow> bool" where
  "slots_at s v a xs \<longleftrightarrow> 8 dvd unat a \<and> (\<forall>(r, off) \<in> set xs. addr s (v + off) = a + off \<and> 8 dvd unat off)"

lemma run_saves:
  assumes "slots_at s (gpr s b) a xs"
  shows "run (saves b xs) s = s\<lparr>ram := saved a (gpr s) xs (ram s)\<rparr>"
  using assms
proof (induction xs arbitrary: s)
  case (Cons x xs)
  then have "addr s (gpr s b + snd x) = a + snd x" by (auto simp: slots_at_def)
  moreover have "slots_at (s\<lparr>ram := store64 (ram s) (a + snd x) (gpr s (fst x))\<rparr>) (gpr s b) a xs"
    using Cons.prems by (simp add: slots_at_def)
  ultimately show ?case using Cons.IH [of "s\<lparr>ram := store64 (ram s) (a + snd x) (gpr s (fst x))\<rparr>"]
    by (simp add: saves_def saved_def case_prod_beta)
qed (simp add: saves_def saved_def)

lemma aligned_slot: "8 dvd unat (a :: uint64) \<Longrightarrow> 8 dvd unat (off :: uint64) \<Longrightarrow> 8 dvd unat (a + off)"
  by (simp add: unat_word_ariths dvd_mod)

lemma saved_other:
  assumes "8 dvd unat a" "\<forall>(r, off) \<in> set xs. 8 dvd unat off" "8 dvd unat c" "c \<notin> (\<lambda>x. a + snd x) ` set xs"
  shows "load64 (saved a g xs m) c = load64 m c"
  using assms
proof (induction xs arbitrary: m)
  case (Cons x xs)
  have "load64 (store64 m (a + snd x) (g (fst x))) c = load64 m c"
    using Cons.prems by (intro load64_store64_other aligned_slot) auto
  then show ?case using Cons by (simp add: saved_def case_prod_beta)
qed (simp add: saved_def)

lemma saved_slot:
  assumes "8 dvd unat a" "\<forall>(r, off) \<in> set xs. 8 dvd unat off" "distinct (map snd xs)" "(r, off) \<in> set xs"
  shows "load64 (saved a g xs m) (a + off) = g r"
  using assms
proof (induction xs arbitrary: m)
  case (Cons x xs)
  show ?case
  proof (cases "x = (r, off)")
    case True
    have "load64 (saved a g xs (store64 m (a + off) (g r))) (a + off) = load64 (store64 m (a + off) (g r)) (a + off)"
      using Cons.prems True by (intro saved_other aligned_slot) (auto simp: image_iff)
    then show ?thesis using True by (simp add: saved_def)
  next
    case False
    then show ?thesis using Cons by (simp add: saved_def case_prod_beta)
  qed
qed simp

lemma run_loads:
  assumes "b \<notin> fst ` set xs" "distinct (map fst xs)"
  shows "run (loads b xs) s = s\<lparr>gpr := (\<lambda>r. case map_of xs r of None \<Rightarrow> gpr s r | Some off \<Rightarrow> load64 (ram s) (addr s (gpr s b + off)))\<rparr>"
  using assms
proof (induction xs arbitrary: s)
  case (Cons x xs)
  let ?s = "set_gpr (fst x) (load64 (ram s) (addr s (gpr s b + snd x))) s"
  let ?f = "\<lambda>g r. case map_of xs r of None \<Rightarrow> g r | Some off \<Rightarrow> load64 (ram s) (addr s (gpr s b + off))"
  have "map_of xs (fst x) = None" using Cons.prems by (auto simp: map_of_eq_None_iff)
  then have f: "?f (gpr ?s) = (\<lambda>r. case map_of (x # xs) r of None \<Rightarrow> gpr s r | Some off \<Rightarrow> load64 (ram s) (addr s (gpr s b + off)))"
    by (cases x) (auto simp: fun_eq_iff split: option.split)
  have "run (loads b (x # xs)) s = run (loads b xs) ?s" by (simp add: loads_def case_prod_beta)
  also have "\<dots> = ?s\<lparr>gpr := ?f (gpr ?s)\<rparr>" using Cons.IH [of ?s] Cons.prems by (simp cong: option.case_cong)
  also have "\<dots> = s\<lparr>gpr := ?f (gpr ?s)\<rparr>" by (simp add: set_gpr_def)
  finally show ?case unfolding f .
qed (simp add: loads_def)

section \<open>Traps from user mode\<close>

text \<open>The slots of the trapframe for the registers other than \<^verbatim>\<open>a0\<close>, which is swapped with \<^verbatim>\<open>sscratch\<close>.\<close>

definition tf_slots :: "(nat \<times> uint64) list" where
  "tf_slots = map (\<lambda>r. (r, 32 + 8 * of_nat r)) ([1..<10] @ [11..<32])"

lemma uservec_eq:
  "uservec = Csrrw X_a0 SSCRATCH X_a0 # saves X_a0 tf_slots @
     [Csrr X_t0 SSCRATCH, Sd X_t0 112 X_a0, Ld X_sp 8 X_a0, Ld X_tp 32 X_a0, Ld X_t0 16 X_a0, Ld X_t1 0 X_a0,
      Csrw SATP X_t1, Sfence_vma, Jr X_t0]"
  by (simp add: uservec_def saves_def tf_slots_def upt_rec)

lemma userret_eq:
  "userret = [Csrw SATP X_a1, Sfence_vma, Ld X_t0 112 X_a0, Csrw SSCRATCH X_t0] @ loads X_a0 tf_slots @ [Csrrw X_a0 SSCRATCH X_a0, Sret]"
  by (simp add: userret_def loads_def tf_slots_def upt_rec)

lemma tf_slots_ok: "distinct (map fst tf_slots)" "distinct (map snd tf_slots)" "X_a0 \<notin> fst ` set tf_slots"
  "\<forall>(r, off) \<in> set tf_slots. 8 dvd unat off" "(x, 112) \<notin> set tf_slots"
  by (simp_all add: tf_slots_def upt_rec)

text \<open>The page table \<open>pt\<close> maps the page at \<^verbatim>\<open>TRAPFRAME\<close> to the trapframe at \<open>tf\<close>.\<close>

definition tf_mapped :: "hart \<Rightarrow> uint64 \<Rightarrow> uint64 \<Rightarrow> bool" where
  "tf_mapped s pt tf \<longleftrightarrow> \<not> mmode s \<and> 8 dvd unat tf \<and> (\<forall>off < 4096. mmu s pt (TRAPFRAME + off) = tf + off)"

lemma tf_slots_at:
  assumes "tf_mapped s (csrf s SATP) tf"
  shows "slots_at s TRAPFRAME tf tf_slots"
proof -
  have "off < 4096" if "(r, off) \<in> set tf_slots" for r off
    using that by (auto simp: tf_slots_def word_less_nat_alt unat_word_ariths unat_of_nat)
  then show ?thesis using assms tf_slots_ok(4) by (auto simp: slots_at_def tf_mapped_def addr_def)
qed

lemma tf_slot_cases: "1 \<le> r \<Longrightarrow> r < 32 \<Longrightarrow> r = X_a0 \<or> (r, 32 + 8 * of_nat r) \<in> set tf_slots"
proof -
  assume "1 \<le> r" "r < 32"
  then have "r = X_a0 \<or> r \<in> set ([1..<10] @ [11..<32])"
    unfolding set_append set_upt Un_iff atLeastLessThan_iff by linarith
  then show ?thesis unfolding tf_slots_def set_map by blast
qed

lemma uservec_spec:
  assumes m: "tf_mapped s (csrf s SATP) tf" and sc: "csrf s SSCRATCH = TRAPFRAME"
  shows "1 \<le> r \<Longrightarrow> r < 32 \<Longrightarrow> load64 (ram (run uservec s)) (tf + (32 + 8 * of_nat r)) = gpr s r"
    "off < 40 \<Longrightarrow> 8 dvd unat off \<Longrightarrow> load64 (ram (run uservec s)) (tf + off) = load64 (ram s) (tf + off)"
    "gpr (run uservec s) X_sp = load64 (ram s) (tf + 8)" "gpr (run uservec s) X_tp = load64 (ram s) (tf + 32)"
    "pc (run uservec s) = load64 (ram s) (tf + 16)" "csrf (run uservec s) SATP = load64 (ram s) tf"
    "mmu (run uservec s) = mmu s" "mmode (run uservec s) = mmode s"
proof -
  let ?s = "set_gpr X_a0 TRAPFRAME (set_csr SSCRATCH (gpr s X_a0) s)"
  let ?m = "saved tf (gpr ?s) tf_slots (ram s)"
  let ?m' = "store64 ?m (tf + 112) (gpr s X_a0)"
  have al: "8 dvd unat tf" using m by (simp add: tf_mapped_def)
  have ad: "addr s (TRAPFRAME + o') = tf + o'" if "o' < 4096" for o'
    using m that by (simp add: tf_mapped_def addr_def)
  have "slots_at ?s TRAPFRAME tf tf_slots" using tf_slots_at [OF m] by (simp add: slots_at_def)
  then have sv: "run (saves X_a0 tf_slots) ?s = ?s\<lparr>ram := ?m\<rparr>" using run_saves [of ?s X_a0 tf tf_slots] by simp
  have "addr s (TRAPFRAME + 112) = tf + 112" "addr s (TRAPFRAME + 8) = tf + 8" "addr s (TRAPFRAME + 32) = tf + 32"
    "addr s (TRAPFRAME + 16) = tf + 16" "addr s (TRAPFRAME + 0) = tf + 0"
    by (rule ad, simp)+
  note ads = this [simplified]
  have rm: "ram (run uservec s) = ?m'" using sc ads by (simp add: uservec_eq sv)
  have sa: "8 dvd unat (tf + o')" if "8 dvd unat o'" for o' using al that by (intro aligned_slot) auto
  have in_slots: "8 dvd unat off" "32 + 8 * of_nat r = off" "40 \<le> off" if "(r, off) \<in> set tf_slots" for r off
    using that tf_slots_ok(4) by (auto simp: tf_slots_def word_le_nat_alt unat_word_ariths unat_of_nat)
  have low: "load64 ?m' (tf + o') = load64 (ram s) (tf + o')" if o: "o' < 40" "8 dvd unat o'" for o'
  proof -
    have "o' \<noteq> 112" using o(1) by auto
    then have "load64 ?m' (tf + o') = load64 ?m (tf + o')" using sa o by (intro load64_store64_other) auto
    also have "\<dots> = load64 (ram s) (tf + o')"
    proof (rule saved_other [OF al tf_slots_ok(4) sa [OF o(2)]])
      show "tf + o' \<notin> (\<lambda>x. tf + snd x) ` set tf_slots" using in_slots(3) o(1) by (fastforce simp: not_le [symmetric])
    qed
    finally show ?thesis .
  qed
  show "off < 40 \<Longrightarrow> 8 dvd unat off \<Longrightarrow> load64 (ram (run uservec s)) (tf + off) = load64 (ram s) (tf + off)"
    unfolding rm by (rule low)
  show "load64 (ram (run uservec s)) (tf + (32 + 8 * of_nat r)) = gpr s r" if r: "1 \<le> r" "r < 32"
  proof (cases "r = X_a0")
    case False
    then have i: "(r, 32 + 8 * of_nat r) \<in> set tf_slots" using tf_slot_cases [OF r] by simp
    then have "32 + 8 * of_nat r \<noteq> (112 :: uint64)" using tf_slots_ok(5) by metis
    then have "load64 ?m' (tf + (32 + 8 * of_nat r)) = load64 ?m (tf + (32 + 8 * of_nat r))"
      using sa in_slots(1) [OF i] by (intro load64_store64_other) auto
    also have "\<dots> = gpr ?s r" by (rule saved_slot [OF al tf_slots_ok(4,2) i])
    finally show ?thesis using False rm by simp
  qed (simp add: rm)
  show "gpr (run uservec s) X_sp = load64 (ram s) (tf + 8)" "gpr (run uservec s) X_tp = load64 (ram s) (tf + 32)"
    "pc (run uservec s) = load64 (ram s) (tf + 16)" "csrf (run uservec s) SATP = load64 (ram s) tf"
    "mmu (run uservec s) = mmu s" "mmode (run uservec s) = mmode s"
    using sc ads low [of 8] low [of 32] low [of 16] low [of 0] by (simp_all add: uservec_eq sv)
qed

lemma userret_spec:
  assumes m: "tf_mapped s (gpr s X_a1) tf" and a0: "gpr s X_a0 = TRAPFRAME"
  shows "1 \<le> r \<Longrightarrow> r < 32 \<Longrightarrow> gpr (run userret s) r = load64 (ram s) (tf + (32 + 8 * of_nat r))"
    "csrf (run userret s) SATP = gpr s X_a1" "csrf (run userret s) SSCRATCH = TRAPFRAME" "pc (run userret s) = csrf s SEPC"
    "ram (run userret s) = ram s"
proof -
  let ?s1 = "set_csr SATP (gpr s X_a1) s"
  have m1: "tf_mapped ?s1 (csrf ?s1 SATP) tf" using m by (simp add: tf_mapped_def)
  have ad: "addr ?s1 (TRAPFRAME + off) = tf + off" if "off < 4096" for off
    using m1 that by (simp add: tf_mapped_def addr_def)
  have "addr ?s1 (TRAPFRAME + 112) = tf + 112" by (rule ad) simp
  note a0s = this [simplified]
  let ?s = "set_csr SSCRATCH (load64 (ram s) (tf + 112)) (set_gpr X_t0 (load64 (ram s) (tf + 112)) ?s1)"
  have pre: "run [Csrw SATP X_a1, Sfence_vma, Ld X_t0 112 X_a0, Csrw SSCRATCH X_t0] s = ?s" using a0 a0s by simp
  define g where "g = (\<lambda>r. case map_of tf_slots r of None \<Rightarrow> gpr ?s r | Some off \<Rightarrow> load64 (ram s) (addr ?s (gpr ?s X_a0 + off)))"
  have l: "run (loads X_a0 tf_slots) ?s = ?s\<lparr>gpr := g\<rparr>"
    using run_loads [OF tf_slots_ok(3,1), of ?s] by (simp add: g_def cong: option.case_cong)
  have fin: "run userret s = set_gpr X_a0 (load64 (ram s) (tf + 112)) (set_csr SSCRATCH (g X_a0) (?s\<lparr>gpr := g\<rparr>))\<lparr>pc := csrf s SEPC\<rparr>"
    unfolding userret_eq run_simps(3) pre l by simp
  have "map_of tf_slots X_a0 = None" using tf_slots_ok(3) by (simp add: map_of_eq_None_iff)
  then have g0: "g X_a0 = TRAPFRAME" using a0 by (simp add: g_def)
  show "csrf (run userret s) SATP = gpr s X_a1" "csrf (run userret s) SSCRATCH = TRAPFRAME" "pc (run userret s) = csrf s SEPC"
    "ram (run userret s) = ram s" by (simp_all add: fin g0)
  show "gpr (run userret s) r = load64 (ram s) (tf + (32 + 8 * of_nat r))" if r: "1 \<le> r" "r < 32"
  proof (cases "r = X_a0")
    case False
    then have i: "(r, 32 + 8 * of_nat r) \<in> set tf_slots" using tf_slot_cases [OF r] by simp
    then have mo: "map_of tf_slots r = Some (32 + 8 * of_nat r)" using tf_slots_ok(1) by simp
    have "addr ?s1 (TRAPFRAME + (32 + 8 * of_nat r)) = tf + (32 + 8 * of_nat r)"
      using tf_slots_at [OF m1] i by (auto simp: slots_at_def)
    then have "g r = load64 (ram s) (tf + (32 + 8 * of_nat r))" using mo a0 by (simp add: g_def)
    then show ?thesis using False by (simp add: fin)
  qed (simp add: fin)
qed

text \<open>
  Property C6. A trap does not change the registers of the user program. Between \<^verbatim>\<open>uservec\<close>, which runs when the trap
  is taken, and \<^verbatim>\<open>userret\<close>, which \<^verbatim>\<open>usertrapret\<close> calls with \<^verbatim>\<open>TRAPFRAME\<close> and the page table of the process, the kernel may
  do anything: each of the 31 registers whose word in the trapframe it has not written has the value it
  had, the processor goes on at \<^verbatim>\<open>sepc\<close> under the same page table, and is ready for the next trap.
\<close>

theorem trap_roundtrip:
  assumes "tf_mapped s (csrf s SATP) tf" "csrf s SSCRATCH = TRAPFRAME"
    and "tf_mapped s2 (csrf s SATP) tf" "gpr s2 X_a0 = TRAPFRAME" "gpr s2 X_a1 = csrf s SATP"
    and "1 \<le> r" "r < 32"
    and "load64 (ram s2) (tf + (32 + 8 * of_nat r)) = load64 (ram (run uservec s)) (tf + (32 + 8 * of_nat r))"
  shows "gpr (run userret s2) r = gpr s r \<and> pc (run userret s2) = csrf s2 SEPC \<and>
    csrf (run userret s2) SATP = csrf s SATP \<and> csrf (run userret s2) SSCRATCH = TRAPFRAME"
  using userret_spec [of s2 tf] uservec_spec(1) [OF assms(1,2)] assms(3-) by simp

theorem trap_roundtrip_witness:
  "let s = \<lparr>gpr = (\<lambda>r. of_nat r + 7), csrf = (\<lambda>c. if c = SSCRATCH then TRAPFRAME else 0), ram = (\<lambda>_. 0),
        mmu = (\<lambda>pt a. a - TRAPFRAME + 0x87000000), mmode = False, pc = 0, link = 0\<rparr>;
      s2 = set_gpr X_a0 TRAPFRAME (set_gpr X_a1 0 (run uservec s))
   in gpr (run userret s2) X_s2 = 25"
proof -
  let ?s = "\<lparr>gpr = (\<lambda>r. of_nat r + 7), csrf = (\<lambda>c. if c = SSCRATCH then TRAPFRAME else 0), ram = (\<lambda>_. 0),
    mmu = (\<lambda>pt a. a - TRAPFRAME + 0x87000000), mmode = False, pc = 0, link = 0\<rparr>"
  let ?s2 = "set_gpr X_a0 TRAPFRAME (set_gpr X_a1 0 (run uservec ?s))"
  have m: "tf_mapped ?s (csrf ?s SATP) 0x87000000" by (simp add: tf_mapped_def)
  have sc: "csrf ?s SSCRATCH = TRAPFRAME" by simp
  have m2: "tf_mapped ?s2 (csrf ?s SATP) 0x87000000" using m uservec_spec(7,8) [OF m sc] by (simp add: tf_mapped_def)
  show ?thesis using trap_roundtrip [OF m sc m2, of X_s2] by simp
qed

section \<open>Traps from kernel mode\<close>

definition kv_slots :: "(nat \<times> uint64) list" where
  "kv_slots = [(X_gp, 16), (X_t0, 32), (X_t1, 40), (X_t2, 48), (X_s0, 56), (X_s1, 64), (X_a0, 72), (X_a1, 80), (X_a2, 88),
     (X_a3, 96), (X_a4, 104), (X_a5, 112), (X_a6, 120), (X_a7, 128), (X_s2, 136), (X_s3, 144), (X_s4, 152), (X_s5, 160),
     (X_s6, 168), (X_s7, 176), (X_s8, 184), (X_s9, 192), (X_s10, 200), (X_s11, 208), (X_t3, 216), (X_t4, 224),
     (X_t5, 232), (X_t6, 240)]"

definition kv_saved :: "(nat \<times> uint64) list" where
  "kv_saved = [(X_ra, 0), (X_sp, 8), (X_gp, 16), (X_tp, 24)] @ tl kv_slots"

lemma kernelvec_save_eq:
  "kernelvec_save f = Addi X_sp X_sp (- 256) # saves X_sp kv_saved @ [Call f]"
  by (simp add: kernelvec_save_def saves_def kv_slots_def kv_saved_def)

lemma kernelvec_restore_eq:
  "kernelvec_restore = [Ld X_ra 0 X_sp, Ld X_sp 8 X_sp] @ loads X_sp kv_slots @ [Addi X_sp X_sp 256, Sret]"
  by (simp add: kernelvec_restore_def loads_def kv_slots_def)

lemma kv_slots_ok: "distinct (map fst kv_slots)" "X_sp \<notin> fst ` set kv_slots" "distinct (map snd kv_saved)"
  "\<forall>(r, off) \<in> set kv_saved. 8 dvd unat off" "set kv_saved = set kv_slots \<union> {(X_ra, 0), (X_sp, 8), (X_tp, 24)}"
  by (simp_all add: kv_slots_def kv_saved_def insert_commute)

lemma kernelvec_save_spec:
  assumes sl: "slots_at s (gpr s X_sp - 256) a kv_saved" and i: "(r, off) \<in> set kv_saved"
  shows "load64 (ram (run (kernelvec_save f) s)) (a + off) = (if r = X_sp then gpr s X_sp - 256 else gpr s r)"
proof -
  let ?s = "set_gpr X_sp (gpr s X_sp - 256) s"
  have "slots_at ?s (gpr ?s X_sp) a kv_saved" using sl by (simp add: slots_at_def)
  from run_saves [OF this] have "ram (run (kernelvec_save f) s) = saved a (gpr ?s) kv_saved (ram s)"
    by (simp add: kernelvec_save_eq)
  moreover have "8 dvd unat a" using sl by (simp add: slots_at_def)
  ultimately show ?thesis using saved_slot [OF _ kv_slots_ok(4,3) i] by simp
qed

text \<open>
  The code that a trap interrupts in the kernel finds its registers as they were, if \<^verbatim>\<open>kerneltrap\<close> returns with
  its stack pointer and leaves the words above it alone. \<^verbatim>\<open>tp\<close> is not restored: the code may go on
  on another hart.
\<close>

lemma kernelvec_transparent:
  assumes sl: "slots_at s (gpr s X_sp - 256) a kv_saved" and sl2: "slots_at s2 (gpr s X_sp - 256) a kv_saved"
    and sp: "gpr s2 X_sp = gpr s X_sp - 256"
    and mem: "\<forall>(r, off) \<in> set kv_saved. load64 (ram s2) (a + off) = load64 (ram (run (kernelvec_save f) s)) (a + off)"
  shows "gpr (run kernelvec_restore s2) = (\<lambda>r. if r \<in> fst ` set kv_slots \<union> {X_ra, X_sp} then gpr s r else gpr s2 r)"
    "pc (run kernelvec_restore s2) = csrf s2 SEPC"
proof -
  have v: "load64 (ram s2) (addr s2 (gpr s X_sp - 256 + off)) = (if r = X_sp then gpr s X_sp - 256 else gpr s r)"
    if i: "(r, off) \<in> set kv_saved" for r off
  proof -
    have "addr s2 (gpr s X_sp - 256 + off) = a + off" using sl2 i unfolding slots_at_def by blast
    then show ?thesis using mem i kernelvec_save_spec [OF sl i, of f] by fastforce
  qed
  let ?s = "set_gpr X_sp (gpr s X_sp - 256) (set_gpr X_ra (gpr s X_ra) s2)"
  have "(X_ra, 0) \<in> set kv_saved" "(X_sp, 8) \<in> set kv_saved" using kv_slots_ok(5) by auto
  then have p: "run [Ld X_ra 0 X_sp, Ld X_sp 8 X_sp] s2 = ?s" using v [of X_ra 0] v [of X_sp 8] sp by simp
  let ?g = "\<lambda>r. case map_of kv_slots r of None \<Rightarrow> gpr ?s r | Some off \<Rightarrow> load64 (ram s2) (addr s2 (gpr s X_sp - 256 + off))"
  have l: "run (loads X_sp kv_slots) ?s = ?s\<lparr>gpr := ?g\<rparr>"
    using run_loads [OF kv_slots_ok(2,1), of ?s] by (simp cong: option.case_cong)
  have g: "?g r = (if r \<in> fst ` set kv_slots then gpr s r else gpr ?s r)" for r
  proof (cases "map_of kv_slots r")
    case None
    then have "r \<notin> fst ` set kv_slots" by (simp add: map_of_eq_None_iff)
    then show ?thesis using None by simp
  next
    case (Some off)
    then have "(r, off) \<in> set kv_slots" by (rule map_of_SomeD)
    then have i: "(r, off) \<in> set kv_saved" "r \<in> fst ` set kv_slots" "r \<noteq> X_sp" using kv_slots_ok(2,5) by force+
    then show ?thesis using Some v [OF i(1)] by simp
  qed
  have "run kernelvec_restore s2 = set_gpr X_sp (?g X_sp + 256) (?s\<lparr>gpr := ?g\<rparr>)\<lparr>pc := csrf s2 SEPC\<rparr>"
    unfolding kernelvec_restore_eq run_simps(3) p l by simp
  then show "gpr (run kernelvec_restore s2) = (\<lambda>r. if r \<in> fst ` set kv_slots \<union> {X_ra, X_sp} then gpr s r else gpr s2 r)"
    "pc (run kernelvec_restore s2) = csrf s2 SEPC"
    using kv_slots_ok(2) by (auto simp: g fun_eq_iff)
qed

section \<open>Context switch, timer and start\<close>

definition ctx_slots :: "(nat \<times> uint64) list" where
  "ctx_slots = [(X_ra, 0), (X_sp, 8), (X_s0, 16), (X_s1, 24), (X_s2, 32), (X_s3, 40), (X_s4, 48), (X_s5, 56), (X_s6, 64),
     (X_s7, 72), (X_s8, 80), (X_s9, 88), (X_s10, 96), (X_s11, 104)]"

lemma swtch_eq: "swtch = saves X_a0 ctx_slots @ loads X_a1 ctx_slots @ [Ret]"
  by (simp add: swtch_def saves_def loads_def ctx_slots_def)

lemma ctx_slots_ok: "distinct (map fst ctx_slots)" "distinct (map snd ctx_slots)" "X_a1 \<notin> fst ` set ctx_slots"
  "\<forall>(r, off) \<in> set ctx_slots. 8 dvd unat off"
  by (simp_all add: ctx_slots_def)

text \<open>
  \<^verbatim>\<open>swtch\<close> saves the registers that a called function must keep in the old context, loads them from the new
  one, and returns to the place where the new context was saved.
\<close>

lemma swtch_switches:
  assumes old: "slots_at s (gpr s X_a0) old ctx_slots" and new: "slots_at s (gpr s X_a1) new ctx_slots"
    and apart: "\<forall>x \<in> set ctx_slots. \<forall>y \<in> set ctx_slots. new + snd x \<noteq> old + snd y"
    and i: "(r, off) \<in> set ctx_slots"
  shows "load64 (ram (run swtch s)) (old + off) = gpr s r" "gpr (run swtch s) r = load64 (ram s) (new + off)"
    "pc (run swtch s) = load64 (ram s) new"
proof -
  let ?m = "saved old (gpr s) ctx_slots (ram s)"
  let ?g = "\<lambda>r. case map_of ctx_slots r of None \<Rightarrow> gpr s r | Some off \<Rightarrow> load64 ?m (addr s (gpr s X_a1 + off))"
  have al: "8 dvd unat old" "8 dvd unat new" using old new by (auto simp: slots_at_def)
  have sw: "run swtch s = (s\<lparr>ram := ?m, gpr := ?g\<rparr>)\<lparr>pc := ?g X_ra\<rparr>"
    using run_loads [OF ctx_slots_ok(3,1), of "s\<lparr>ram := ?m\<rparr>"]
    by (simp add: swtch_eq run_saves [OF old] cong: option.case_cong)
  show "load64 (ram (run swtch s)) (old + off) = gpr s r" using saved_slot [OF al(1) ctx_slots_ok(4,2) i] sw by simp
  have g: "?g q = load64 (ram s) (new + f)" if j: "(q, f) \<in> set ctx_slots" for q f
  proof -
    have "map_of ctx_slots q = Some f" using j ctx_slots_ok(1) by simp
    moreover have "addr s (gpr s X_a1 + f) = new + f" "8 dvd unat f" using new j by (auto simp: slots_at_def)
    moreover have "new + f \<notin> (\<lambda>x. old + snd x) ` set ctx_slots" using apart j by force
    then have "load64 ?m (new + f) = load64 (ram s) (new + f)"
      using al ctx_slots_ok(4) calculation(3) by (intro saved_other aligned_slot) auto
    ultimately show ?thesis by simp
  qed
  show "gpr (run swtch s) r = load64 (ram s) (new + off)" using g [OF i] sw by simp
  show "pc (run swtch s) = load64 (ram s) new" using g [of X_ra 0] sw by (simp add: ctx_slots_def)
qed

text \<open>
  \<^verbatim>\<open>timervec\<close> adds the interval to \<^verbatim>\<open>mtimecmp\<close>, asks for a software interrupt and returns with all registers as they
  were.
\<close>

lemma timervec_transparent:
  assumes "mmode s" "csrf s MSCRATCH = sc" "8 dvd unat sc" "8 dvd unat cmp" "load64 (ram s) (sc + 24) = cmp"
    and "cmp \<notin> {sc, sc + 8, sc + 16}"
  shows "gpr (run timervec s) = gpr s" "csrf (run timervec s) MSCRATCH = sc" "csrf (run timervec s) SIP = 2"
    "load64 (ram (run timervec s)) cmp = load64 (ram s) cmp + load64 (ram s) (sc + 32)" "pc (run timervec s) = csrf s MEPC"
proof -
  have al: "8 dvd unat (sc + 8)" "8 dvd unat (sc + 16)" "8 dvd unat (sc + 24)" "8 dvd unat (sc + 32)"
    using assms(3) by (intro aligned_slot; simp)+
  have ad: "addr s a = a" for a using assms(1) by (simp add: addr_def)
  note o = load64_store64_other [OF assms(3)] load64_store64_other [OF al(1)] load64_store64_other [OF al(2)]
    load64_store64_other [OF assms(4)]
  have ne: "cmp \<noteq> sc" "cmp \<noteq> sc + 8" "cmp \<noteq> sc + 16" "sc \<noteq> cmp" "sc + 8 \<noteq> cmp" "sc + 16 \<noteq> cmp" using assms(6) by auto
  note facts = assms(2-5) al ad o ne
  show "csrf (run timervec s) MSCRATCH = sc" "csrf (run timervec s) SIP = 2" "pc (run timervec s) = csrf s MEPC"
    "load64 (ram (run timervec s)) cmp = load64 (ram s) cmp + load64 (ram s) (sc + 32)"
    by (simp_all add: timervec_def facts)
  show "gpr (run timervec s) = gpr s" by (simp add: timervec_def facts fun_eq_iff)
qed

lemma entry_stack:
  "gpr (run (entry stack0 start_va) s) X_sp = stack0 + 4096 * (csrf s MHARTID + 1)" "pc (run (entry stack0 start_va) s) = start_va"
  by (simp_all add: entry_def)

end
