(* ===== verification/Start.thy ===== *)
theory Start
  imports Assembly
begin

text \<open>
  \<^verbatim>\<open>kernel/start.c\<close>: what a hart does in machine mode before \<^verbatim>\<open>main\<close>, on the registers and the memory of theory
  \<open>Assembly\<close>. The registers of the CLINT are words of the memory. The lemmas show that \<^verbatim>\<open>main\<close> starts in supervisor
  mode and that the timer interrupts, which arrive at \<^verbatim>\<open>timervec\<close>, find what they need.
\<close>

unbundle bit_operations_syntax

abbreviation (input) CLINT :: uint64 where "CLINT \<equiv> 0x2000000"
abbreviation (input) CLINT_MTIME :: uint64 where "CLINT_MTIME \<equiv> CLINT + 0xBFF8"

definition CLINT_MTIMECMP :: "cint \<Rightarrow> uint64" where
  "CLINT_MTIMECMP hartid = CLINT + 0x4000 + scast (8 * hartid)"

definition store_word :: "uint64 \<Rightarrow> uint64 \<Rightarrow> hart \<Rightarrow> hart" where
  "store_word a v s = s\<lparr>ram := store64 (ram s) a v\<rparr>"

text \<open>\<open>timer_scratch\<close> is the address of the array, which has five words for each hart.\<close>

definition timerinit :: "uint64 \<Rightarrow> uint64 \<Rightarrow> hart \<Rightarrow> hart" where
  "timerinit timer_scratch timervec_va s =
     (let id = ucast (csrf s MHARTID);
          interval = 1000000;
          s = store_word (CLINT_MTIMECMP id) (load64 (ram s) CLINT_MTIME + interval) s;
          scratch = timer_scratch + scast id * 40;
          s = store_word (scratch + 24) (CLINT_MTIMECMP id) s;
          s = store_word (scratch + 32) interval s;
          s = set_csr MSCRATCH scratch s;
          s = set_csr MTVEC timervec_va s;
          s = set_csr MSTATUS (csrf s MSTATUS OR push_bit 3 1) s
      in set_csr csr_name.MIE (csrf s csr_name.MIE OR push_bit 7 1) s)"

definition start :: "uint64 \<Rightarrow> uint64 \<Rightarrow> uint64 \<Rightarrow> hart \<Rightarrow> hart" where
  "start main_va timer_scratch timervec_va s =
     (let x = (csrf s MSTATUS AND NOT (push_bit 11 3)) OR push_bit 11 1;
          s = set_csr MSTATUS x s;
          s = set_csr MEPC main_va s;
          s = set_csr SATP 0 s;
          s = set_csr MEDELEG 0xffff s;
          s = set_csr MIDELEG 0xffff s;
          s = set_csr SIE (csrf s SIE OR push_bit 9 1 OR push_bit 5 1 OR push_bit 1 1) s;
          s = set_csr PMPADDR0 0x3fffffffffffff s;
          s = set_csr PMPCFG0 0xf s;
          s = timerinit timer_scratch timervec_va s;
          id = ucast (csrf s MHARTID) :: cint;
          s = set_gpr X_tp (scast id) s
      in exec_instr Mret s)"

lemma store_word_sel [simp]:
  "gpr (store_word a v s) = gpr s" "csrf (store_word a v s) = csrf s" "ram (store_word a v s) = store64 (ram s) a v"
  by (simp_all add: store_word_def)

text \<open>Whatever \<^verbatim>\<open>mstatus\<close> was, \<^verbatim>\<open>mret\<close> goes to supervisor mode: only its bit 11 of the two is set.\<close>

lemma start_mode: "((x AND NOT (push_bit 11 3)) OR push_bit 11 1 OR push_bit 3 1) AND 0x1800 \<noteq> (0x1800 :: uint64)"
proof
  assume "((x AND NOT (push_bit 11 3)) OR push_bit 11 1 OR push_bit 3 1) AND 0x1800 = (0x1800 :: uint64)"
  then have "bit (((x AND NOT (push_bit 11 3)) OR push_bit 11 1 OR push_bit 3 1) AND 0x1800) 12 = bit (0x1800 :: uint64) 12" by simp
  then show False by (simp add: bit_simps)
qed

lemma start_enters_main:
  "pc (start main_va ts tv s) = main_va" "\<not> mmode (start main_va ts tv s)" "csrf (start main_va ts tv s) SATP = 0"
  "gpr (start main_va ts tv s) X_tp = scast (ucast (csrf s MHARTID) :: cint)"
  using start_mode [of "csrf s MSTATUS"] by (simp_all add: start_def timerinit_def Let_def or.assoc)

text \<open>
  The first timer interrupt is asked for, and each later one by \<^verbatim>\<open>timervec\<close>, which finds in its scratch words the register to
  set and the interval. The array must not lie over the registers of the CLINT.
\<close>

lemma start_timer:
  fixes s :: hart and ts :: uint64
  defines "sc \<equiv> ts + scast (ucast (csrf s MHARTID) :: cint) * 40" and "cmp \<equiv> CLINT_MTIMECMP (ucast (csrf s MHARTID))"
  assumes al: "8 dvd unat sc" "8 dvd unat cmp" and ne: "cmp \<notin> {sc, sc + 8, sc + 16, sc + 24, sc + 32}"
  shows "load64 (ram (start main_va ts tv s)) cmp = load64 (ram s) CLINT_MTIME + 1000000"
    and "mmode t \<Longrightarrow> ram t = ram (start main_va ts tv s) \<Longrightarrow> csrf t MSCRATCH = csrf (start main_va ts tv s) MSCRATCH \<Longrightarrow>
      gpr (run timervec t) = gpr t \<and> load64 (ram (run timervec t)) cmp = load64 (ram t) cmp + 1000000"
proof -
  have al': "8 dvd unat (sc + 24)" "8 dvd unat (sc + 32)" using al(1) by (intro aligned_slot; simp)+
  have m: "ram (start main_va ts tv s) =
      store64 (store64 (store64 (ram s) cmp (load64 (ram s) CLINT_MTIME + 1000000)) (sc + 24) cmp) (sc + 32) 1000000"
    "csrf (start main_va ts tv s) MSCRATCH = sc"
    by (simp_all add: start_def timerinit_def Let_def sc_def cmp_def)
  show "load64 (ram (start main_va ts tv s)) cmp = load64 (ram s) CLINT_MTIME + 1000000"
    using ne load64_store64_other [OF al'(1) al(2)] load64_store64_other [OF al'(2) al(2)] by (auto simp: m)
  assume t: "mmode t" "ram t = ram (start main_va ts tv s)" "csrf t MSCRATCH = csrf (start main_va ts tv s) MSCRATCH"
  have "load64 (ram t) (sc + 24) = cmp" "load64 (ram t) (sc + 32) = 1000000"
    by (simp_all add: t(2) m load64_store64_other [OF al'(2) al'(1)])
  then show "gpr (run timervec t) = gpr t \<and> load64 (ram (run timervec t)) cmp = load64 (ram t) cmp + 1000000"
    using timervec_transparent [OF t(1) t(3) [unfolded m] al] ne by simp
qed

end
