(* ===== verification/Spec2Isabelle.thy ===== *)
theory Spec2Isabelle
  imports Vm_Copy Log_Spec Boot Printf_Spec Trap_Spec Fs_Spec Table_Spec Sleep_Steps Pipe_Spec Virtio_Spec Ulib Umalloc Grep Shell_Spec Start
begin

text \<open>
  A verification of the operating system of this repository: an xv6 kernel for RISC-V with a
  multilevel feedback scheduler, memory-mapped regions and the system calls \<^verbatim>\<open>wait2\<close>, \<^verbatim>\<open>mmap\<close> and
  \<^verbatim>\<open>munmap\<close>, together with part of its user programs.

  \<^bold>\<open>How the code is modelled.\<close> A C function is a function on the state with the name it has in
  the source. Its outcome (theory \<open>Xv6_Prelude\<close>) is \<open>Ok\<close>, \<open>Panic\<close> with the message, \<open>Fault\<close> for
  an access through a bad pointer or index, or \<open>Blocked\<close> when it spins, sleeps or has run out of
  the fuel of a loop. The state is one record that grows by a field group per component: harts and spin
  locks, physical memory, process table, sleep locks, buffer cache, log, file system, pipes, UART,
  console, open files, disk, trap registers. Integers keep their C width as words; memory is a
  function from addresses to bytes. A pointer into a static array is an index, a null pointer
  \<open>None\<close>. A function that switches to the scheduler is cut there: the first part returns \<open>Asleep\<close> with
  what is on the stack, and a second definition (\<open>sleep_return\<close>, \<open>acquiresleep_resume\<close>,
  \<open>virtio_disk_rw_resume\<close>, \<dots>) is the code after the switch.

  \<^bold>\<open>Theories and sources.\<close>
  \<^item> \<open>Xv6_Prelude\<close>, \<open>Riscv\<close>: \<^verbatim>\<open>types.h\<close>, \<^verbatim>\<open>riscv.h\<close>, \<^verbatim>\<open>memlayout.h\<close>, \<^verbatim>\<open>param.h\<close>; outcomes and loops.
  \<^item> \<open>Interfaces\<close>, \<open>Ring_Buffer\<close>: the contracts (locales) \<open>slot_pool\<close>, \<open>fifo\<close> and \<open>block_cache\<close>, and circular
    buffers with wrapping counters. \<open>slot_pool\<close> is interpreted for physical pages, list ids, open files and
    disk descriptors, \<open>fifo\<close> for the scheduling queues, \<open>block_cache\<close> for the buffer cache.
  \<^item> \<open>Spinlock\<close> (\<^verbatim>\<open>spinlock.c\<close>): \<open>acquire\<close>, \<open>release\<close> and \<open>push_off\<close> run by one hart, and \<open>lock_step\<close>, the memory
    operations of all harts interleaved: mutual exclusion, and the nesting count that \<^verbatim>\<open>sched\<close> tests.
  \<^item> \<open>Kstring\<close> (\<^verbatim>\<open>string.c\<close>), \<open>Kalloc\<close> (\<^verbatim>\<open>kalloc.c\<close>): \<^verbatim>\<open>memmove\<close> with overlaps; no page is handed out twice, and
    all memory is handed out.
  \<^item> \<open>Vm\<close> (\<^verbatim>\<open>vm.c\<close>), \<open>Pagetable\<close>, \<open>Vm_Spec\<close>, \<open>Vm_Copy\<close>: the trees of page tables denote a finite map from
    pages to entries; \<^verbatim>\<open>mappages\<close> and \<^verbatim>\<open>uvmunmap\<close> change exactly their range; \<^verbatim>\<open>copyout\<close> and \<^verbatim>\<open>copyin\<close> are
    inverse and stay within the pages of the process.
  \<^item> \<open>Proc_Table\<close>, \<open>Proc_Queue\<close>, \<open>Proc_Ops\<close>, \<open>Proc_Spec\<close>, \<open>Proc_Life\<close> (\<^verbatim>\<open>proc.c\<close>): the linked queues refine
    lists, the scheduler runs the head of the highest non-empty one, \<^verbatim>\<open>wakeup\<close> wakes exactly the sleepers.
  \<^item> \<open>Sleeplock\<close>, \<open>Sleep_Steps\<close> (\<^verbatim>\<open>sleeplock.c\<close>, and \<^verbatim>\<open>sleep\<close> and \<^verbatim>\<open>wakeup\<close> of \<^verbatim>\<open>proc.c\<close>): the functions, and
    their statements interleaved on all harts with any other kernel code between them: no wakeup is lost.
  \<^item> \<open>Bio\<close> (\<^verbatim>\<open>bio.c\<close>), \<open>Disk_Format\<close>, \<open>Log\<close>, \<open>Log_Spec\<close> (\<^verbatim>\<open>log.c\<close>), \<open>Fs\<close>, \<open>Journal\<close>, \<open>Fs_Spec\<close> (\<^verbatim>\<open>fs.c\<close>): reads
    through the cache see the last write; a commit is atomic under a crash after any block write; the free map
    and the on-disk inodes.
  \<^item> \<open>Critical\<close>, \<open>Pipe\<close>, \<open>Pipe_Spec\<close> (\<^verbatim>\<open>pipe.c\<close>), \<open>File\<close>, \<open>Table_Spec\<close> (\<^verbatim>\<open>file.c\<close> and the inode table), \<open>Virtio\<close>,
    \<open>Virtio_Spec\<close> (\<^verbatim>\<open>virtio_disk.c\<close>): a pipe is a bounded queue; references are counted; driver, rings,
    device and interrupt handler together do the transfer that \<open>Bio\<close> assumes.
  \<^item> \<open>Uart\<close>, \<open>Printf_Spec\<close> (\<^verbatim>\<open>uart.c\<close>, \<^verbatim>\<open>printf.c\<close>), \<open>Console\<close> (\<^verbatim>\<open>console.c\<close>), \<open>Sysarg\<close>, \<open>Syscall\<close>, \<open>Sysfile\<close>, \<open>Exec\<close>
    (\<^verbatim>\<open>syscall.c\<close>, \<^verbatim>\<open>sysproc.c\<close>, \<^verbatim>\<open>sysfile.c\<close>, \<^verbatim>\<open>exec.c\<close>), \<open>Trap\<close>, \<open>Trap_Spec\<close> (\<^verbatim>\<open>trap.c\<close>, \<^verbatim>\<open>plic.c\<close>), \<open>Boot\<close> (\<^verbatim>\<open>main.c\<close>): the
    rest of the kernel in C, with what \<^verbatim>\<open>printint\<close> prints and what timer ticks do to time slices.
  \<^item> \<open>Assembly\<close>, \<open>Start\<close> (\<^verbatim>\<open>entry.S\<close>, \<^verbatim>\<open>swtch.S\<close>, \<^verbatim>\<open>kernelvec.S\<close>, \<^verbatim>\<open>trampoline.S\<close>, \<^verbatim>\<open>start.c\<close>): the instructions; a trap
    and its return give the user program its registers.
  \<^item> \<open>Ulib\<close>, \<open>Umalloc\<close>, \<open>Grep\<close>, \<open>Shell\<close>, \<open>Shell_Spec\<close> (\<^verbatim>\<open>user/ulib.c\<close>, \<^verbatim>\<open>user/umalloc.c\<close>, \<^verbatim>\<open>user/grep.c\<close>,
    \<^verbatim>\<open>user/sh.c\<close>): the allocator keeps its blocks apart, the matcher implements its pattern language, the
    parser reads back the commands of its grammar.

  \<^bold>\<open>Bounds and fuel.\<close> \<open>lru_scan\<close> of \<open>Bio\<close> has fuel for the 30 buffers and \<open>free_chain_loop\<close> of \<open>Virtio\<close> for the
  8 descriptors of the device, and lemmas show that this is enough. \<open>freewalk\<close> has 64 activations for trees of three
  levels. The parser of the shell has four units for each byte of the line; \<open>parsecmd_well_formed\<close> includes that it
  never runs out. The loops \<open>count_free\<close>, \<open>malloc_loop\<close>, \<open>free_scan\<close> and \<open>grep_loop\<close> may run forever on bad data and
  are partial; the properties state that they return on the states they are meant for.

  \<^bold>\<open>What is outside.\<close> Parameters stand for the devices (UART answers, virtio device), for \<^verbatim>\<open>sbrk\<close>, \<^verbatim>\<open>read\<close> and the
  other system calls in the user programs, and for the addresses the linker chooses. Outside the interleaved theories
  (\<open>Spinlock\<close>, \<open>Sleep_Steps\<close>) a function runs alone between its context switches. Memory ordering
  weaker than sequential consistency is not modelled; nor are \<^verbatim>\<open>ramdisk.c\<close>, which is not built, the user programs that
  only issue system calls, \<^verbatim>\<open>runcmd\<close> of the shell, and \<^verbatim>\<open>mkfs\<close>.
  Small departures: \<open>noff\<close> and the block numbers of \<^verbatim>\<open>balloc\<close> are unbounded, \<^verbatim>\<open>dequeue\<close> does not print its
  message for a bad priority, the device adds no used-ring entry while the interrupt handler runs, the parser's
  \<^verbatim>\<open>malloc\<close> succeeds, and \<open>Umalloc\<close> sees memory as headers.
\<close>

end
